(* ===== verification/NVS_Prelude.thy ===== *)
theory NVS_Prelude
  imports Main "HOL-Library.Word"
begin

text \<open>
  Shared vocabulary of the development: bytes and addresses, unsigned 64-bit arithmetic with its
  wrap-around written out, little-endian encodings, flat byte memories with block reads and
  writes, C strings, and the type of abnormal outcomes (\<open>exit\<close>, failed assertions, undefined
  behaviour). The lemmas here are generic; no definition of this theory models a function of
  the repository.
\<close>

unbundle bit_operations_syntax

type_synonym byte = "8 word"
type_synonym addr = nat
type_synonym memory = "addr \<Rightarrow> byte"

named_theorems mem_simps \<open>reads and writes of flat byte memories\<close>
named_theorems wrap_simps \<open>64-bit arithmetic that does not wrap\<close>

subsection \<open>Abnormal outcomes\<close>

text \<open>
  A call either returns, ends the process (\<open>exit(n)\<close>), fails an \<open>assert\<close>, throws an exception that
  nobody catches, or runs into behaviour the C++ standard leaves undefined. The first error of a
  sequence of calls is its result.
\<close>

datatype fault = Exit int | Assert_Failed | Uncaught | Undefined

type_synonym 'a outcome = "fault + 'a"

definition bindO :: "'a outcome \<Rightarrow> ('a \<Rightarrow> 'b outcome) \<Rightarrow> 'b outcome" where
  "bindO r f = (case r of Inl e \<Rightarrow> Inl e | Inr x \<Rightarrow> f x)"

lemma bindO_simps [simp]:
  "bindO (Inl e) f = Inl e"
  "bindO (Inr x) f = f x"
  by (simp_all add: bindO_def)

lemma bindO_eq_Inr [simp]: "bindO r f = Inr y \<longleftrightarrow> (\<exists>x. r = Inr x \<and> f x = Inr y)"
  by (cases r) auto

subsection \<open>Unsigned 64-bit arithmetic on natural numbers\<close>

definition wadd :: "nat \<Rightarrow> nat \<Rightarrow> nat" where
  "wadd a b = (a + b) mod 2 ^ 64"

definition wsub :: "nat \<Rightarrow> nat \<Rightarrow> nat" where
  "wsub a b = (a + (2 ^ 64 - b mod 2 ^ 64)) mod 2 ^ 64"

definition wmul :: "nat \<Rightarrow> nat \<Rightarrow> nat" where
  "wmul a b = (a * b) mod 2 ^ 64"

definition wnot :: "nat \<Rightarrow> nat" where
  "wnot a = 2 ^ 64 - 1 - a"

lemma wadd_exact [wrap_simps]: "a + b < 2 ^ 64 \<Longrightarrow> wadd a b = a + b"
  by (simp add: wadd_def)

lemma wadd_lt: "wadd a b < 2 ^ 64"
  by (simp add: wadd_def)

lemma wmul_exact [wrap_simps]: "a * b < 2 ^ 64 \<Longrightarrow> wmul a b = a * b"
  by (simp add: wmul_def)

lemma wsub_exact [wrap_simps]:
  assumes "b \<le> a" "a < 2 ^ 64"
  shows "wsub a b = a - b"
proof -
  have b: "b mod 2 ^ 64 = b" using assms by (intro mod_less) linarith
  have "a + (2 ^ 64 - b) = (a - b) + 2 ^ 64" using assms by linarith
  then have "wsub a b = ((a - b) + 2 ^ 64) mod 2 ^ 64" by (simp only: wsub_def b)
  also have "\<dots> = (a - b) mod 2 ^ 64" by (rule mod_add_self2)
  also have "\<dots> = a - b" using assms by (intro mod_less) linarith
  finally show ?thesis .
qed

lemma wsub_wraps:
  assumes "a < b" "b < 2 ^ 64"
  shows "wsub a b = 2 ^ 64 - (b - a)"
  using assms by (simp add: wsub_def)

lemma and_mask_mod:
  "(n :: nat) AND 63 = n mod 64" "n AND 127 = n mod 128"
  "n AND 15 = n mod 16" "n AND 3 = n mod 4" "n AND 4095 = n mod 4096"
proof -
  have m: "n AND mask k = n mod 2 ^ k" for k
    by (simp add: take_bit_eq_mod flip: take_bit_eq_mask)
  show "n AND 63 = n mod 64" using m [of 6] by (simp add: mask_eq_exp_minus_1)
  show "n AND 127 = n mod 128" using m [of 7] by (simp add: mask_eq_exp_minus_1)
  show "n AND 15 = n mod 16" using m [of 4] by (simp add: mask_eq_exp_minus_1)
  show "n AND 3 = n mod 4" using m [of 2] by (simp add: mask_eq_exp_minus_1)
  show "n AND 4095 = n mod 4096" using m [of 12] by (simp add: mask_eq_exp_minus_1)
qed

text \<open>Clearing the low \<open>k\<close> bits rounds down to a multiple of \<open>2 ^ k\<close>.\<close>

lemma and_wnot_mask:
  assumes "n < 2 ^ 64" "k \<le> 64"
  shows "n AND wnot (2 ^ k - 1) = n - n mod 2 ^ k"
proof -
  have le: "(2 :: nat) ^ k \<le> 2 ^ 64" using assms(2) by (intro power_increasing) auto
  have "n AND wnot (2 ^ k - 1) = push_bit k (drop_bit k n)"
  proof (rule bit_eqI)
    fix i
    have "wnot (2 ^ k - 1) = push_bit k (mask (64 - k))"
    proof -
      have "(2 :: nat) ^ k * 2 ^ (64 - k) = 2 ^ 64"
        using assms(2) by (simp flip: power_add)
      then have "2 ^ k * (2 ^ (64 - k) - 1) = 2 ^ 64 - (2 :: nat) ^ k"
        by (simp add: diff_mult_distrib2)
      then show ?thesis
        by (simp add: wnot_def push_bit_eq_mult mask_eq_exp_minus_1 mult.commute)
    qed
    then have w: "bit (wnot (2 ^ k - 1)) i \<longleftrightarrow> k \<le> i \<and> i < 64"
      by (auto simp: bit_push_bit_iff bit_mask_iff possible_bit_def)
    have hi: "bit n i \<Longrightarrow> i < 64"
    proof (rule ccontr)
      assume "bit n i" "\<not> i < 64"
      then have "(2 :: nat) ^ 64 \<le> 2 ^ i" by (intro power_increasing) auto
      with assms(1) have "n < 2 ^ i" by linarith
      then show False using \<open>bit n i\<close> by (simp add: bit_iff_odd)
    qed
    show "bit (n AND wnot (2 ^ k - 1)) i \<longleftrightarrow> bit (push_bit k (drop_bit k n)) i"
      using hi by (auto simp: bit_and_iff w [simplified] bit_push_bit_iff bit_drop_bit_eq)
  qed
  also have "\<dots> = n - n mod 2 ^ k"
    by (simp add: push_bit_eq_mult drop_bit_eq_div minus_mod_eq_div_mult)
  finally show ?thesis .
qed

subsection \<open>Little-endian encodings\<close>

fun le_bytes :: "nat \<Rightarrow> nat \<Rightarrow> byte list" where
  "le_bytes 0 n = []"
| "le_bytes (Suc k) n = of_nat n # le_bytes k (n div 256)"

fun le_nat :: "byte list \<Rightarrow> nat" where
  "le_nat [] = 0"
| "le_nat (b # bs) = unat b + 256 * le_nat bs"

lemma length_le_bytes [simp]: "length (le_bytes k n) = k"
  by (induction k arbitrary: n) auto

lemma le_nat_le_bytes: "le_nat (le_bytes k n) = n mod 256 ^ k"
proof (induction k arbitrary: n)
  case 0
  show ?case by simp
next
  case (Suc k)
  have "unat (of_nat n :: byte) = n mod 256"
    by (simp add: unat_of_nat)
  with Suc show ?case
    by (simp add: mod_mult2_eq)
qed

lemma le_nat_le_bytes_exact [simp]: "n < 256 ^ k \<Longrightarrow> le_nat (le_bytes k n) = n"
  by (simp add: le_nat_le_bytes)

lemma le_nat_less: "le_nat bs < 256 ^ length bs"
proof (induction bs)
  case Nil
  show ?case by simp
next
  case (Cons b bs)
  have "unat b < 256" using unsigned_less [of b] by simp
  with Cons show ?case by simp
qed

lemma le_bytes_le_nat: "le_bytes (length bs) (le_nat bs) = bs"
proof (induction bs)
  case Nil
  show ?case by simp
next
  case (Cons b bs)
  have b: "unat b < 256" using unsigned_less [of b] by simp
  have "(of_nat (unat b + 256 * le_nat bs) :: byte) = b"
  proof -
    have "(256 :: byte) = 0" by simp
    then have "(of_nat (256 * le_nat bs) :: byte) = 0"
      by (metis mult_zero_left of_nat_mult of_nat_numeral)
    then show ?thesis by simp
  qed
  moreover have "(unat b + 256 * le_nat bs) div 256 = le_nat bs"
    using b by simp
  ultimately show ?case using Cons by simp
qed

subsection \<open>Flat memories: block reads and writes\<close>

definition rd :: "memory \<Rightarrow> addr \<Rightarrow> nat \<Rightarrow> byte list" where
  "rd m a n = map m [a..<a + n]"

definition wr :: "memory \<Rightarrow> addr \<Rightarrow> byte list \<Rightarrow> memory" where
  "wr m a bs = (\<lambda>x. if a \<le> x \<and> x < a + length bs then bs ! (x - a) else m x)"

definition rd64 :: "memory \<Rightarrow> addr \<Rightarrow> nat" where
  "rd64 m a = le_nat (rd m a 8)"

lemma length_rd [simp]: "length (rd m a n) = n"
  by (simp add: rd_def)

lemma rd_0 [simp]: "rd m a 0 = []"
  by (simp add: rd_def)

lemma nth_rd [simp]: "i < n \<Longrightarrow> rd m a n ! i = m (a + i)"
  by (simp add: rd_def)

lemma rd_cong: "(\<And>x. a \<le> x \<Longrightarrow> x < a + n \<Longrightarrow> m x = m' x) \<Longrightarrow> rd m a n = rd m' a n"
  by (simp add: rd_def)

lemma rd_eq_iff: "rd m a n = rd m' a n \<longleftrightarrow> (\<forall>x. a \<le> x \<and> x < a + n \<longrightarrow> m x = m' x)"
  by (auto simp: rd_def)

lemma rd_add: "rd m a (n + k) = rd m a n @ rd m (a + n) k"
  by (simp only: rd_def add.assoc [symmetric] upt_add_eq_append [of a "a + n" k, OF le_add1] map_append)

lemma take_rd: "k \<le> n \<Longrightarrow> take k (rd m a n) = rd m a k"
  by (simp add: rd_def take_map)

lemma drop_rd: "k \<le> n \<Longrightarrow> drop k (rd m a n) = rd m (a + k) (n - k)"
  by (simp add: rd_def drop_map)

lemma wr_Nil [simp]: "wr m a [] = m"
  by (rule ext) (auto simp: wr_def)

lemma wr_in [mem_simps]: "a \<le> x \<Longrightarrow> x < a + length bs \<Longrightarrow> wr m a bs x = bs ! (x - a)"
  by (simp add: wr_def)

lemma wr_out [mem_simps]: "x < a \<or> a + length bs \<le> x \<Longrightarrow> wr m a bs x = m x"
  by (auto simp: wr_def)

lemma wr_append: "wr m a (bs @ cs) = wr (wr m a bs) (a + length bs) cs"
  by (rule ext) (auto simp: wr_def nth_append)

lemma wr_Cons: "wr m a (b # bs) = wr (m(a := b)) (Suc a) bs"
proof -
  have "wr m a [b] = m(a := b)" by (rule ext) (auto simp: wr_def)
  then show ?thesis using wr_append [of m a "[b]" bs] by simp
qed

lemma wr_rd_id: "wr m a (rd m a n) = m"
  by (rule ext) (auto simp: wr_def)

lemma rd_wr_same [mem_simps]: "n = length bs \<Longrightarrow> rd (wr m a bs) a n = bs"
  by (rule nth_equalityI) (auto simp: wr_def)

lemma rd_wr_disjoint [mem_simps]:
  "c + n \<le> a \<or> a + length bs \<le> c \<Longrightarrow> rd (wr m a bs) c n = rd m c n"
  by (rule rd_cong) (auto simp: wr_def)

lemma rd_wr_within:
  "a \<le> c \<Longrightarrow> c + n \<le> a + length bs \<Longrightarrow> rd (wr m a bs) c n = take n (drop (c - a) bs)"
  by (rule nth_equalityI) (auto simp: wr_def)

lemma rd64_wr_same [mem_simps]: "v < 2 ^ 64 \<Longrightarrow> rd64 (wr m a (le_bytes 8 v)) a = v"
  by (simp add: rd64_def rd_wr_same)

lemma rd64_wr_disjoint [mem_simps]:
  "c + 8 \<le> a \<or> a + length bs \<le> c \<Longrightarrow> rd64 (wr m a bs) c = rd64 m c"
  by (simp add: rd64_def rd_wr_disjoint)

lemma rd64_less: "rd64 m a < 2 ^ 64"
  using le_nat_less [of "rd m a 8"] by (simp add: rd64_def)

lemma rd64_cong: "(\<And>x. a \<le> x \<Longrightarrow> x < a + 8 \<Longrightarrow> m x = m' x) \<Longrightarrow> rd64 m a = rd64 m' a"
  unfolding rd64_def by (rule arg_cong [where f = le_nat]) (rule rd_cong)

text \<open>Two address ranges that do not meet.\<close>

definition disj :: "addr \<Rightarrow> nat \<Rightarrow> addr \<Rightarrow> nat \<Rightarrow> bool" where
  "disj a n b k \<longleftrightarrow> a + n \<le> b \<or> b + k \<le> a"

lemma disj_sym: "disj a n b k \<longleftrightarrow> disj b k a n"
  by (auto simp: disj_def)

lemma rd_wr_disj [mem_simps]: "disj c n a (length bs) \<Longrightarrow> rd (wr m a bs) c n = rd m c n"
  by (auto simp: disj_def rd_wr_disjoint)

subsection \<open>C strings\<close>

text \<open>
  A \<open>std::string\<close> is a list of characters; \<open>c_str()\<close> is read up to its first NUL.
  \<open>snprintf(buf, n, "%s", s)\<close> writes at most \<open>n - 1\<close> bytes of the string and a NUL, and leaves
  the rest of the buffer as it was. \<open>strncmp\<close> compares byte by byte up to \<open>n\<close> bytes and stops
  at a NUL.
\<close>

definition bytes_of :: "string \<Rightarrow> byte list" where
  "bytes_of s = map of_char s"

definition cstr :: "byte list \<Rightarrow> byte list" where
  "cstr bs = takeWhile (\<lambda>b. b \<noteq> 0) bs"

definition snprintf_s :: "byte list \<Rightarrow> nat \<Rightarrow> string \<Rightarrow> byte list" where
  "snprintf_s buf n s =
     (let out = take (n - 1) (cstr (bytes_of s)) @ [0] in out @ drop (length out) buf)"

fun strncmp_eq :: "nat \<Rightarrow> byte list \<Rightarrow> byte list \<Rightarrow> bool" where
  "strncmp_eq 0 xs ys = True"
| "strncmp_eq (Suc n) (x # xs) (y # ys) = (x = y \<and> (x = 0 \<or> strncmp_eq n xs ys))"
| "strncmp_eq (Suc n) xs ys = (xs = ys)"

lemma strncmp_eq_iff:
  "n \<le> length xs \<Longrightarrow> n \<le> length ys \<Longrightarrow>
   strncmp_eq n xs ys \<longleftrightarrow> cstr (take n xs) = cstr (take n ys)"
  by (induction n xs ys rule: strncmp_eq.induct) (auto simp: cstr_def)

lemma cstr_no_nul: "0 \<notin> set (cstr bs)"
  by (auto simp: cstr_def dest: set_takeWhileD)

lemma cstr_id: "0 \<notin> set bs \<Longrightarrow> cstr bs = bs"
  by (auto simp: cstr_def takeWhile_eq_all_conv)

lemma cstr_append_nul: "0 \<notin> set bs \<Longrightarrow> cstr (bs @ 0 # cs) = bs"
  by (simp add: cstr_def takeWhile_append)

lemma length_snprintf_s:
  "n \<le> length buf \<Longrightarrow> 0 < n \<Longrightarrow> length (snprintf_s buf n s) = length buf"
  by (auto simp: snprintf_s_def Let_def)

lemma cstr_snprintf_s: "cstr (snprintf_s buf n s) = take (n - 1) (cstr (bytes_of s))"
proof -
  have "0 \<notin> set (take (n - 1) (cstr (bytes_of s)))"
    using cstr_no_nul by (metis in_set_takeD)
  then show ?thesis by (simp add: snprintf_s_def Let_def cstr_append_nul)
qed

lemma cstr_take_snprintf_s:
  assumes "0 < n"
  shows "cstr (take n (snprintf_s buf n s)) = take (n - 1) (cstr (bytes_of s))"
proof -
  let ?out = "take (n - 1) (cstr (bytes_of s))"
  have z: "0 \<notin> set ?out" using cstr_no_nul by (metis in_set_takeD)
  have "length (?out @ [0 :: byte]) \<le> n" using assms by simp
  then have "take n (snprintf_s buf n s) =
      ?out @ 0 # take (n - Suc (length ?out)) (drop (Suc (length ?out)) buf)"
    using assms
    by (cases "n - length ?out") (auto simp: snprintf_s_def Let_def diff_Suc split: nat.splits)
  then show ?thesis using z by (simp add: cstr_append_nul)
qed

text \<open>
  \<open>atol\<close>, \<open>atoll\<close> and \<open>atoi\<close> on a decimal string: white space is skipped, an optional sign is read,
  then digits up to the first character that is none; no digits read as 0. (A value out of range
  is undefined in C; here it is the mathematical value.)
\<close>

definition is_space :: "char \<Rightarrow> bool" where
  "is_space c \<longleftrightarrow> c = CHR '' '' \<or> (9 \<le> (of_char c :: nat) \<and> (of_char c :: nat) \<le> 13)"

definition digit_val :: "char \<Rightarrow> nat option" where
  "digit_val c = (let n = of_char c :: nat in if 48 \<le> n \<and> n \<le> 57 then Some (n - 48) else None)"

fun read_digits :: "nat \<Rightarrow> string \<Rightarrow> nat" where
  "read_digits acc [] = acc"
| "read_digits acc (c # cs) =
     (case digit_val c of None \<Rightarrow> acc | Some d \<Rightarrow> read_digits (10 * acc + d) cs)"

definition atol :: "string \<Rightarrow> int" where
  "atol s =
     (case dropWhile is_space s of
        [] \<Rightarrow> 0
      | c # cs \<Rightarrow> if c = CHR ''-'' then - int (read_digits 0 cs)
                 else if c = CHR ''+'' then int (read_digits 0 cs)
                 else int (read_digits 0 (c # cs)))"

text \<open>\<open>std::to_string\<close> of an unsigned number.\<close>

fun to_string :: "nat \<Rightarrow> string" where
  "to_string n =
     (if n < 10 then [char_of (n + 48)] else to_string (n div 10) @ [char_of (n mod 10 + 48)])"

declare to_string.simps [simp del]

lemma digit_val_char_of: "d < 10 \<Longrightarrow> digit_val (char_of (d + 48)) = Some d"
  by (simp add: digit_val_def Let_def of_char_of)

lemma read_digits_append:
  "\<forall>c \<in> set xs. digit_val c \<noteq> None \<Longrightarrow> read_digits acc (xs @ ys) = read_digits (read_digits acc xs) ys"
  by (induction xs arbitrary: acc) auto

lemma to_string_digits: "\<forall>c \<in> set (to_string n). digit_val c \<noteq> None"
proof (induction n rule: to_string.induct)
  case (1 n)
  show ?case
  proof (cases "n < 10")
    case True
    then show ?thesis
      by (subst to_string.simps) (simp add: digit_val_char_of del: add_2_eq_Suc add_2_eq_Suc')
  next
    case False
    with 1 show ?thesis
      by (subst to_string.simps) (auto simp: digit_val_char_of)
  qed
qed

lemma read_digits_to_string: "read_digits 0 (to_string n) = n"
proof (induction n rule: to_string.induct)
  case (1 n)
  show ?case
  proof (cases "n < 10")
    case True
    then show ?thesis by (subst to_string.simps) (simp add: digit_val_char_of)
  next
    case False
    with 1 have "read_digits 0 (to_string (n div 10)) = n div 10" by simp
    with False show ?thesis
      by (subst to_string.simps) (simp add: read_digits_append to_string_digits digit_val_char_of)
  qed
qed

lemma to_string_inj: "to_string a = to_string b \<longleftrightarrow> a = b"
  using read_digits_to_string by metis

lemma to_string_nonempty: "to_string n \<noteq> []"
  by (subst to_string.simps) simp

end
