(* ===== verification/Pmem_Machine.thy ===== *)
theory Pmem_Machine
  imports NVS_Prelude
begin

text \<open>
  The machine under libpmem: what the processor sees of memory, what the persistent medium may
  hold if power fails now, and the instructions that move data between the two. This theory
  describes hardware, not code of the repository; the instructions are the ones
  \<open>libpmem/pmem.c\<close> issues (\<open>mov\<close>, \<open>movnt\<close>, \<open>clflush\<close>, \<open>clflushopt\<close>, \<open>clwb\<close>, \<open>sfence\<close>) and
  \<open>mfence\<close> of \<open>sheap/log.h\<close>, with the guarantees its header comment states: a \<open>clflush\<close> is done
  when it retires, \<open>clflushopt\<close>, \<open>clwb\<close> and non-temporal stores are done at the next fence, and a
  store that was not flushed may reach the medium at any time or never.
\<close>

datatype minstr =
    Store addr byte
  | StoreNT addr "byte list"
  | CLFLUSH addr
  | CLFLUSHOPT addr
  | CLWB addr
  | SFENCE
  | MFENCE

text \<open>
  \<open>cur\<close> is the memory that loads read. \<open>pd a\<close> is the set of values the medium may hold at \<open>a\<close>
  after a power failure. \<open>wb a\<close> says that the current value of \<open>a\<close> is on its way to the medium
  and will be there after the next fence. \<open>tr\<close> is the sequence of instructions issued so far,
  which is what a crash may cut short. \<open>sp\<close> is where the running function keeps its local
  variables.
\<close>

record mach =
  cur :: memory
  pd :: "addr \<Rightarrow> byte set"
  wb :: "addr \<Rightarrow> bool"
  tr :: "minstr list"
  sp :: addr

definition line :: "addr \<Rightarrow> addr \<Rightarrow> bool" where
  "line l a \<longleftrightarrow> l \<le> a \<and> a < l + 64"

fun emit :: "mach \<Rightarrow> minstr \<Rightarrow> mach" where
  "emit m (Store a b) = m\<lparr>cur := (cur m)(a := b), pd := (pd m)(a := insert b (pd m a)),
     wb := (wb m)(a := False), tr := tr m @ [Store a b]\<rparr>"
| "emit m (StoreNT a bs) = m\<lparr>cur := wr (cur m) a bs,
     pd := (\<lambda>x. if a \<le> x \<and> x < a + length bs then insert (bs ! (x - a)) (pd m x) else pd m x),
     wb := (\<lambda>x. (a \<le> x \<and> x < a + length bs) \<or> wb m x), tr := tr m @ [StoreNT a bs]\<rparr>"
| "emit m (CLFLUSH l) = m\<lparr>pd := (\<lambda>x. if line l x \<and> \<not> wb m x then {cur m x} else pd m x),
     tr := tr m @ [CLFLUSH l]\<rparr>"
| "emit m (CLFLUSHOPT l) = m\<lparr>wb := (\<lambda>x. line l x \<or> wb m x), tr := tr m @ [CLFLUSHOPT l]\<rparr>"
| "emit m (CLWB l) = m\<lparr>wb := (\<lambda>x. line l x \<or> wb m x), tr := tr m @ [CLWB l]\<rparr>"
| "emit m SFENCE = m\<lparr>pd := (\<lambda>x. if wb m x then {cur m x} else pd m x), tr := tr m @ [SFENCE]\<rparr>"
| "emit m MFENCE = m\<lparr>pd := (\<lambda>x. if wb m x then {cur m x} else pd m x), tr := tr m @ [MFENCE]\<rparr>"

definition emits :: "mach \<Rightarrow> minstr list \<Rightarrow> mach" where
  "emits m is = foldl emit m is"

text \<open>The address-value pairs of a run of bytes, and those an instruction stores.\<close>

definition block :: "addr \<Rightarrow> byte list \<Rightarrow> (addr \<times> byte) set" where
  "block a bs = {(x, b). a \<le> x \<and> x < a + length bs \<and> b = bs ! (x - a)}"

fun writes :: "minstr \<Rightarrow> (addr \<times> byte) set" where
  "writes (Store a b) = {(a, b)}"
| "writes (StoreNT a bs) = block a bs"
| "writes (CLFLUSH l) = {}"
| "writes (CLFLUSHOPT l) = {}"
| "writes (CLWB l) = {}"
| "writes SFENCE = {}"
| "writes MFENCE = {}"

definition wset :: "minstr list \<Rightarrow> (addr \<times> byte) set" where
  "wset is = \<Union> (writes ` set is)"

text \<open>
  A power failure leaves at every address one of the values the medium may hold there.
  \<open>crash_during m m' img\<close>: the failure struck at some point while the machine went from \<open>m\<close> to
  \<open>m'\<close>.
\<close>

definition crash_img :: "mach \<Rightarrow> memory \<Rightarrow> bool" where
  "crash_img m img \<longleftrightarrow> (\<forall>a. img a \<in> pd m a)"

definition crash_during :: "mach \<Rightarrow> mach \<Rightarrow> memory \<Rightarrow> bool" where
  "crash_during m m' img \<longleftrightarrow>
     (\<exists>is js. tr m' = tr m @ is @ js \<and> crash_img (emits m is) img)"

definition dur :: "mach \<Rightarrow> addr \<Rightarrow> bool" where
  "dur m a \<longleftrightarrow> pd m a = {cur m a}"

text \<open>The medium may always hold what the processor sees: nothing prevents an eviction.\<close>

definition wfm :: "mach \<Rightarrow> bool" where
  "wfm m \<longleftrightarrow> (\<forall>a. cur m a \<in> pd m a)"

subsection \<open>Executing instruction sequences\<close>

lemma emits_simps [simp]:
  "emits m [] = m"
  "emits m (i # is) = emits (emit m i) is"
  by (simp_all add: emits_def)

lemma emits_append [simp]: "emits m (is @ js) = emits (emits m is) js"
  by (simp add: emits_def)

lemma wset_simps [simp]:
  "wset [] = {}"
  "wset (i # is) = writes i \<union> wset is"
  "wset (is @ js) = wset is \<union> wset js"
  by (auto simp: wset_def)

lemma tr_emit: "tr (emit m i) = tr m @ [i]"
  by (cases i) auto

lemma tr_emits [simp]: "tr (emits m is) = tr m @ is"
  by (induction "is" arbitrary: m) (auto simp: tr_emit)

lemma sp_emit [simp]: "sp (emit m i) = sp m"
  by (cases i) auto

lemma sp_emits [simp]: "sp (emits m is) = sp m"
  by (induction "is" arbitrary: m) auto

lemma mem_block [simp]: "(x, b) \<in> block a bs \<longleftrightarrow> a \<le> x \<and> x < a + length bs \<and> b = bs ! (x - a)"
  by (simp add: block_def)

lemma fst_block [simp]: "x \<in> fst ` block a bs \<longleftrightarrow> a \<le> x \<and> x < a + length bs"
  by (auto simp: block_def image_iff)

lemma block_append: "block a (bs @ cs) = block a bs \<union> block (a + length bs) cs"
  by (auto simp: block_def nth_append split: if_splits)

lemma block_Nil [simp]: "block a [] = {}"
  by (auto simp: block_def)

subsection \<open>Frame and value lemmas\<close>

lemma cur_emit_frame: "a \<notin> fst ` writes i \<Longrightarrow> cur (emit m i) a = cur m a"
  by (cases i) (auto simp: wr_def)

lemma cur_emits_frame: "a \<notin> fst ` wset is \<Longrightarrow> cur (emits m is) a = cur m a"
  by (induction "is" arbitrary: m) (auto simp: cur_emit_frame image_Un)

lemma wfm_emit: "wfm m \<Longrightarrow> wfm (emit m i)"
  by (cases i) (auto simp: wfm_def wr_def)

lemma wfm_emits [simp]: "wfm m \<Longrightarrow> wfm (emits m is)"
  by (induction "is" arbitrary: m) (auto simp: wfm_emit)

lemma pd_emit_subset: "wfm m \<Longrightarrow> pd (emit m i) a \<subseteq> pd m a \<union> {b. (a, b) \<in> writes i}"
  by (cases i) (auto simp: wfm_def split: if_splits)

lemma pd_emits_subset: "wfm m \<Longrightarrow> pd (emits m is) a \<subseteq> pd m a \<union> {b. (a, b) \<in> wset is}"
proof (induction "is" arbitrary: m)
  case Nil
  then show ?case by simp
next
  case (Cons i "is")
  have "pd (emits (emit m i) is) a \<subseteq> pd (emit m i) a \<union> {b. (a, b) \<in> wset is}"
    using Cons by (simp add: wfm_emit)
  also have "\<dots> \<subseteq> pd m a \<union> {b. (a, b) \<in> writes i} \<union> {b. (a, b) \<in> wset is}"
    using pd_emit_subset [OF Cons.prems] by blast
  finally show ?case by auto
qed

lemma dur_emit: "dur m a \<Longrightarrow> a \<notin> fst ` writes i \<Longrightarrow> dur (emit m i) a"
  using cur_emit_frame [of a i m]
  by (cases i) (auto simp: dur_def split: if_splits)

lemma dur_emits: "dur m a \<Longrightarrow> a \<notin> fst ` wset is \<Longrightarrow> dur (emits m is) a"
  by (induction "is" arbitrary: m) (auto simp: dur_emit image_Un)

lemma wb_emit: "wb m a \<Longrightarrow> a \<notin> fst ` writes i \<Longrightarrow> wb (emit m i) a"
  by (cases i) auto

lemma wb_emits: "wb m a \<Longrightarrow> a \<notin> fst ` wset is \<Longrightarrow> wb (emits m is) a"
  by (induction "is" arbitrary: m) (auto simp: wb_emit image_Un)

lemma cur_emits_wset:
  "(\<And>b. (a, b) \<in> wset is \<Longrightarrow> b = v) \<Longrightarrow> cur m a = v \<or> a \<in> fst ` wset is \<Longrightarrow>
   cur (emits m is) a = v"
proof (induction "is" arbitrary: m)
  case Nil
  then show ?case by simp
next
  case (Cons i "is")
  show ?case
  proof (cases "a \<in> fst ` writes i")
    case True
    then obtain b where b: "(a, b) \<in> writes i" by auto
    then have "b = v" using Cons.prems(1) by auto
    moreover have "cur (emit m i) a = b"
    proof (cases i)
      case (StoreNT c bs)
      with b Cons.prems(1) \<open>b = v\<close> show ?thesis by (auto simp: wr_def)
    qed (use b in auto)
    ultimately have "cur (emit m i) a = v" by simp
    then show ?thesis using Cons.IH [of "emit m i"] Cons.prems(1) by auto
  next
    case False
    then show ?thesis
      using Cons.IH [of "emit m i"] Cons.prems cur_emit_frame [OF False, of m] by (auto simp: image_Un)
  qed
qed

lemma crash_during_emits:
  "crash_during m (emits m is) img \<longleftrightarrow> (\<exists>n. crash_img (emits m (take n is)) img)"
proof
  assume "crash_during m (emits m is) img"
  then obtain xs ys where "is = xs @ ys" "crash_img (emits m xs) img"
    by (auto simp: crash_during_def)
  then have "crash_img (emits m (take (length xs) is)) img" by simp
  then show "\<exists>n. crash_img (emits m (take n is)) img" ..
next
  assume "\<exists>n. crash_img (emits m (take n is)) img"
  then obtain n where "crash_img (emits m (take n is)) img" ..
  then show "crash_during m (emits m is) img"
    unfolding crash_during_def by (intro exI [of _ "take n is"] exI [of _ "drop n is"]) simp
qed

lemma crash_img_dur: "crash_img m img \<Longrightarrow> dur m a \<Longrightarrow> img a = cur m a"
  by (auto simp: crash_img_def dur_def)

lemma wset_take: "wset (take n is) \<subseteq> wset is"
  by (auto simp: wset_def dest: in_set_takeD)

lemma in_wset_take: "x \<in> wset (take n is) \<Longrightarrow> x \<in> wset is"
  using wset_take by blast

text \<open>
  A crash inside a sequence of instructions: addresses the sequence does not store to keep what
  they had if they were durable; the others hold an old possibility or a value it stores.
\<close>

lemma crash_during_untouched:
  assumes "crash_during m (emits m is) img" "dur m a" "a \<notin> fst ` wset is"
  shows "img a = cur m a"
proof -
  obtain n where c: "crash_img (emits m (take n is)) img"
    using assms(1) by (auto simp: crash_during_emits)
  have a: "a \<notin> fst ` wset (take n is)" using assms(3) image_mono [OF wset_take, of fst n "is"] by blast
  show ?thesis
    using crash_img_dur [OF c dur_emits [OF assms(2) a]] cur_emits_frame [OF a] by simp
qed

lemma crash_during_values:
  assumes "crash_during m (emits m is) img" "wfm m"
  shows "img a \<in> pd m a \<union> {b. (a, b) \<in> wset is}"
proof -
  obtain n where "crash_img (emits m (take n is)) img"
    using assms(1) by (auto simp: crash_during_emits)
  then have "img a \<in> pd (emits m (take n is)) a" by (simp add: crash_img_def)
  then show ?thesis using pd_emits_subset [OF assms(2)] in_wset_take by blast
qed

lemma crash_during_split:
  assumes "m1 = emits m is" "m2 = emits m1 js" "crash_during m m2 img"
  shows "crash_during m m1 img \<or> crash_during m1 m2 img"
proof -
  have "m2 = emits m (is @ js)" by (simp add: assms(1,2))
  then obtain n where n: "crash_img (emits m (take n (is @ js))) img"
    using assms(3) crash_during_emits by metis
  show ?thesis
  proof (cases "n \<le> length is")
    case True
    with n have "crash_img (emits m (take n is)) img" by simp
    with assms show ?thesis by (auto simp: crash_during_emits)
  next
    case False
    with n have "crash_img (emits m1 (take (n - length is) js)) img" using assms by simp
    with assms show ?thesis by (auto simp: crash_during_emits)
  qed
qed

declare emit.simps [simp del]

end
