(* ===== verification/Libpmem.thy ===== *)
theory Libpmem
  imports Pmem_Machine
begin

text \<open>
  The copy, set and flush routines of \<open>third-party/nvml/src/libpmem/pmem.c\<close>, the library the log
  writes through: the dispatch record that \<open>pmem_init\<close> fills from the processor's features and the
  environment, the three flush loops, \<open>pmem_drain\<close>, and the non-temporal \<open>memmove\<close> and \<open>memset\<close>
  with their forward and backward passes. Every routine is a function on the machine of
  \<open>Pmem_Machine\<close>; a pointer is a natural number, and pointer arithmetic that C lets wrap (the
  overlap test of \<open>memmove_nodrain_movnt\<close>) wraps at 64 bits. The routines return their first
  argument, which the model leaves out.
\<close>

subsection \<open>Constants and dispatch\<close>

definition FLUSH_ALIGN :: nat where "FLUSH_ALIGN = 64"
definition ALIGN_MASK :: nat where "ALIGN_MASK = FLUSH_ALIGN - 1"
definition CHUNK_SIZE :: nat where "CHUNK_SIZE = 128"
definition CHUNK_SHIFT :: nat where "CHUNK_SHIFT = 7"
definition CHUNK_MASK :: nat where "CHUNK_MASK = CHUNK_SIZE - 1"
definition DWORD_SIZE :: nat where "DWORD_SIZE = 4"
definition DWORD_SHIFT :: nat where "DWORD_SHIFT = 2"
definition DWORD_MASK :: nat where "DWORD_MASK = DWORD_SIZE - 1"
definition MOVNT_SIZE :: nat where "MOVNT_SIZE = 16"
definition MOVNT_MASK :: nat where "MOVNT_MASK = MOVNT_SIZE - 1"
definition MOVNT_SHIFT :: nat where "MOVNT_SHIFT = 4"
definition MOVNT_THRESHOLD :: nat where "MOVNT_THRESHOLD = 256"

lemmas pmem_consts = FLUSH_ALIGN_def ALIGN_MASK_def CHUNK_SIZE_def CHUNK_SHIFT_def CHUNK_MASK_def
  DWORD_SIZE_def DWORD_SHIFT_def DWORD_MASK_def MOVNT_SIZE_def MOVNT_MASK_def MOVNT_SHIFT_def
  MOVNT_THRESHOLD_def

datatype flush_fn = flush_clflush_fn | flush_clflushopt_fn | flush_clwb_fn | flush_empty_fn
datatype fence_fn = predrain_fence_empty_fn | predrain_fence_sfence_fn
datatype move_fn = nodrain_normal | nodrain_movnt
datatype is_pmem_fn = is_pmem_never_fn | is_pmem_always_fn | is_pmem_detect_fn

record libpmem =
  Func_predrain_fence :: fence_fn
  Func_flush :: flush_fn
  Func_is_pmem :: is_pmem_fn
  Func_memmove_nodrain :: move_fn
  Func_memset_nodrain :: move_fn
  Movnt_threshold :: nat

text \<open>The static initial values of the dispatch variables, before \<open>pmem_init\<close> runs.\<close>

definition libpmem_static :: libpmem where
  "libpmem_static =
     \<lparr>Func_predrain_fence = predrain_fence_empty_fn, Func_flush = flush_clflush_fn,
      Func_is_pmem = is_pmem_never_fn, Func_memmove_nodrain = nodrain_normal,
      Func_memset_nodrain = nodrain_normal, Movnt_threshold = MOVNT_THRESHOLD\<rparr>"

record cpu_features =
  is_cpu_clflush_present :: bool
  is_cpu_clflushopt_present :: bool
  is_cpu_clwb_present :: bool

type_synonym environ = "string \<Rightarrow> string option"

definition pmem_get_cpuinfo :: "cpu_features \<Rightarrow> environ \<Rightarrow> libpmem \<Rightarrow> libpmem" where
  "pmem_get_cpuinfo cpu env c =
     (let c = (if is_cpu_clflush_present cpu then c\<lparr>Func_is_pmem := is_pmem_detect_fn\<rparr> else c);
          c = (if is_cpu_clflushopt_present cpu then
                 (if env ''PMEM_NO_CLFLUSHOPT'' = Some ''1'' then c
                  else c\<lparr>Func_flush := flush_clflushopt_fn,
                         Func_predrain_fence := predrain_fence_sfence_fn\<rparr>)
               else c)
      in if is_cpu_clwb_present cpu then
           (if env ''PMEM_NO_CLWB'' = Some ''1'' then c
            else c\<lparr>Func_flush := flush_clwb_fn,
                   Func_predrain_fence := predrain_fence_sfence_fn\<rparr>)
         else c)"

text \<open>
  \<open>pmem_log_cpuinfo\<close> checks that the flush and move pointers are among the functions it knows and
  otherwise aborts; with the pointers as datatype values both checks always pass, and what is left
  is the name it logs.
\<close>

definition pmem_log_cpuinfo :: "libpmem \<Rightarrow> string \<times> string" where
  "pmem_log_cpuinfo c =
     (case Func_flush c of
        flush_clwb_fn \<Rightarrow> ''using clwb''
      | flush_clflushopt_fn \<Rightarrow> ''using clflushopt''
      | flush_clflush_fn \<Rightarrow> ''using clflush''
      | flush_empty_fn \<Rightarrow> ''not flushing CPU cache'',
      case Func_memmove_nodrain c of
        nodrain_movnt \<Rightarrow> ''using movnt''
      | nodrain_normal \<Rightarrow> ''not using movnt'')"

definition pmem_init :: "cpu_features \<Rightarrow> environ \<Rightarrow> libpmem" where
  "pmem_init cpu env =
     (let c = pmem_get_cpuinfo cpu env libpmem_static;
          c = (if env ''PMEM_NO_FLUSH'' = Some ''1'' then
                 c\<lparr>Func_flush := flush_empty_fn,
                   Func_predrain_fence := predrain_fence_sfence_fn\<rparr>
               else c);
          c = (case env ''PMEM_MOVNT_THRESHOLD'' of
                 None \<Rightarrow> c
               | Some ptr \<Rightarrow> (let val = atol ptr in
                   if val < 0 then c else c\<lparr>Movnt_threshold := nat val\<rparr>))
      in if env ''PMEM_NO_MOVNT'' = Some ''1'' then c
         else c\<lparr>Func_memmove_nodrain := nodrain_movnt, Func_memset_nodrain := nodrain_movnt\<rparr>)"

definition pmem_has_hw_drain :: int where
  "pmem_has_hw_drain = 0"

subsection \<open>Flush and drain\<close>

definition predrain_fence_empty :: "mach \<Rightarrow> mach" where
  "predrain_fence_empty m = m"

definition predrain_fence_sfence :: "mach \<Rightarrow> mach" where
  "predrain_fence_sfence m = emit m SFENCE"

definition pmem_drain :: "libpmem \<Rightarrow> mach \<Rightarrow> mach" where
  "pmem_drain c m =
     (case Func_predrain_fence c of
        predrain_fence_empty_fn \<Rightarrow> predrain_fence_empty m
      | predrain_fence_sfence_fn \<Rightarrow> predrain_fence_sfence m)"

text \<open>The loop the three flush routines share: one instruction per line from \<open>uptr\<close> to \<open>fin\<close>.\<close>

function flush_lines :: "(addr \<Rightarrow> minstr) \<Rightarrow> mach \<Rightarrow> addr \<Rightarrow> addr \<Rightarrow> mach" where
  "flush_lines f m uptr fin =
     (if uptr < fin then flush_lines f (emit m (f uptr)) (uptr + FLUSH_ALIGN) fin else m)"
  by pat_completeness auto
termination
  by (relation "measure (\<lambda>(f, m, uptr, fin). fin - uptr)") (auto simp: FLUSH_ALIGN_def)

declare flush_lines.simps [simp del]

definition flush_clflush :: "mach \<Rightarrow> addr \<Rightarrow> nat \<Rightarrow> mach" where
  "flush_clflush m a len =
     flush_lines CLFLUSH m (a AND wnot (FLUSH_ALIGN - 1)) (wadd a len)"

definition flush_clwb :: "mach \<Rightarrow> addr \<Rightarrow> nat \<Rightarrow> mach" where
  "flush_clwb m a len =
     flush_lines CLWB m (a AND wnot (FLUSH_ALIGN - 1)) (wadd a len)"

definition flush_clflushopt :: "mach \<Rightarrow> addr \<Rightarrow> nat \<Rightarrow> mach" where
  "flush_clflushopt m a len =
     flush_lines CLFLUSHOPT m (a AND wnot (FLUSH_ALIGN - 1)) (wadd a len)"

definition flush_empty :: "mach \<Rightarrow> addr \<Rightarrow> nat \<Rightarrow> mach" where
  "flush_empty m a len = m"

definition pmem_flush :: "libpmem \<Rightarrow> mach \<Rightarrow> addr \<Rightarrow> nat \<Rightarrow> mach" where
  "pmem_flush c m a len =
     (case Func_flush c of
        flush_clflush_fn \<Rightarrow> flush_clflush m a len
      | flush_clflushopt_fn \<Rightarrow> flush_clflushopt m a len
      | flush_clwb_fn \<Rightarrow> flush_clwb m a len
      | flush_empty_fn \<Rightarrow> flush_empty m a len)"

definition pmem_persist :: "libpmem \<Rightarrow> mach \<Rightarrow> addr \<Rightarrow> nat \<Rightarrow> mach" where
  "pmem_persist c m a len = pmem_drain c (pmem_flush c m a len)"

subsection \<open>memmove and memset\<close>

text \<open>The C library's \<open>memmove\<close> and \<open>memset\<close>, as plain byte stores.\<close>

definition stores :: "mach \<Rightarrow> addr \<Rightarrow> byte list \<Rightarrow> mach" where
  "stores m a bs = emits m (map2 Store [a..<a + length bs] bs)"

definition libc_memmove :: "mach \<Rightarrow> addr \<Rightarrow> addr \<Rightarrow> nat \<Rightarrow> mach" where
  "libc_memmove m dest src len = stores m dest (rd (cur m) src len)"

definition libc_memset :: "mach \<Rightarrow> addr \<Rightarrow> byte \<Rightarrow> nat \<Rightarrow> mach" where
  "libc_memset m dest b len = stores m dest (replicate len b)"

definition memmove_nodrain_normal :: "libpmem \<Rightarrow> mach \<Rightarrow> addr \<Rightarrow> addr \<Rightarrow> nat \<Rightarrow> mach" where
  "memmove_nodrain_normal c m pmemdest src len =
     pmem_flush c (libc_memmove m pmemdest src len) pmemdest len"

text \<open>
  The bodies of the copy loops. \<open>_mm_loadu_si128\<close> reads sixteen bytes, \<open>_mm_stream_si128\<close> stores
  them past the cache, \<open>_mm_stream_si32\<close> does so for four.
\<close>

definition loadu_si128 :: "mach \<Rightarrow> addr \<Rightarrow> byte list" where
  "loadu_si128 m s = rd (cur m) s 16"

definition stream_si128 :: "mach \<Rightarrow> addr \<Rightarrow> byte list \<Rightarrow> mach" where
  "stream_si128 m d xmm = emit m (StoreNT d xmm)"

definition stream_si32 :: "mach \<Rightarrow> addr \<Rightarrow> byte list \<Rightarrow> mach" where
  "stream_si32 m d v = emit m (StoreNT d v)"

definition copy_byte :: "mach \<Rightarrow> addr \<Rightarrow> addr \<Rightarrow> mach" where
  "copy_byte m d s = emit m (Store d (cur m s))"

definition copy_dword :: "mach \<Rightarrow> addr \<Rightarrow> addr \<Rightarrow> mach" where
  "copy_dword m d s = stream_si32 m d (rd (cur m) s 4)"

definition copy_xmm :: "mach \<Rightarrow> addr \<Rightarrow> addr \<Rightarrow> mach" where
  "copy_xmm m d s = stream_si128 m d (loadu_si128 m s)"

text \<open>Eight loads, then eight stores: ascending in the forward pass, descending in the backward one.\<close>

definition copy_chunk_fwd :: "mach \<Rightarrow> addr \<Rightarrow> addr \<Rightarrow> mach" where
  "copy_chunk_fwd m d s =
     (let xmm0 = loadu_si128 m s; xmm1 = loadu_si128 m (s + 16);
          xmm2 = loadu_si128 m (s + 32); xmm3 = loadu_si128 m (s + 48);
          xmm4 = loadu_si128 m (s + 64); xmm5 = loadu_si128 m (s + 80);
          xmm6 = loadu_si128 m (s + 96); xmm7 = loadu_si128 m (s + 112);
          m = stream_si128 m d xmm0; m = stream_si128 m (d + 16) xmm1;
          m = stream_si128 m (d + 32) xmm2; m = stream_si128 m (d + 48) xmm3;
          m = stream_si128 m (d + 64) xmm4; m = stream_si128 m (d + 80) xmm5;
          m = stream_si128 m (d + 96) xmm6
      in stream_si128 m (d + 112) xmm7)"

definition copy_chunk_bwd :: "mach \<Rightarrow> addr \<Rightarrow> addr \<Rightarrow> mach" where
  "copy_chunk_bwd m d s =
     (let xmm0 = loadu_si128 m (s + 112); xmm1 = loadu_si128 m (s + 96);
          xmm2 = loadu_si128 m (s + 80); xmm3 = loadu_si128 m (s + 64);
          xmm4 = loadu_si128 m (s + 48); xmm5 = loadu_si128 m (s + 32);
          xmm6 = loadu_si128 m (s + 16); xmm7 = loadu_si128 m s;
          m = stream_si128 m (d + 112) xmm0; m = stream_si128 m (d + 96) xmm1;
          m = stream_si128 m (d + 80) xmm2; m = stream_si128 m (d + 64) xmm3;
          m = stream_si128 m (d + 48) xmm4; m = stream_si128 m (d + 32) xmm5;
          m = stream_si128 m (d + 16) xmm6
      in stream_si128 m d xmm7)"

text \<open>
  \<open>for (i = 0; i < cnt; i++) { body; d += w; s += w; }\<close>, and the backward form, which moves both
  pointers down before the body.
\<close>

fun fwd_loop :: "(mach \<Rightarrow> addr \<Rightarrow> addr \<Rightarrow> mach) \<Rightarrow> nat \<Rightarrow> nat \<Rightarrow> mach \<Rightarrow> addr \<Rightarrow> addr \<Rightarrow> mach" where
  "fwd_loop body w 0 m d s = m"
| "fwd_loop body w (Suc cnt) m d s = fwd_loop body w cnt (body m d s) (d + w) (s + w)"

fun bwd_loop :: "(mach \<Rightarrow> addr \<Rightarrow> addr \<Rightarrow> mach) \<Rightarrow> nat \<Rightarrow> nat \<Rightarrow> mach \<Rightarrow> addr \<Rightarrow> addr \<Rightarrow> mach" where
  "bwd_loop body w 0 m d s = m"
| "bwd_loop body w (Suc cnt) m d s = bwd_loop body w cnt (body m (d - w) (s - w)) (d - w) (s - w)"

text \<open>
  The forward pass: bytes up to the next cache line, chunks of 128 bytes, the rest in 16-byte
  units, then four-byte words and bytes. The pointers \<open>d\<close> and \<open>s\<close> and the count move from one
  part to the next.
\<close>

definition fwd_last :: "libpmem \<Rightarrow> mach \<Rightarrow> addr \<Rightarrow> addr \<Rightarrow> nat \<Rightarrow> mach" where
  "fwd_last c m d s len =
     (if len \<noteq> 0 then
        (let cnt = drop_bit DWORD_SHIFT len;
             m = fwd_loop copy_dword 4 cnt m d s; d32 = d + 4 * cnt; s32 = s + 4 * cnt;
             cnt = len AND DWORD_MASK;
             m = fwd_loop copy_byte 1 cnt m d32 s32
         in pmem_flush c m d32 cnt)
      else m)"

definition fwd_tail :: "libpmem \<Rightarrow> mach \<Rightarrow> addr \<Rightarrow> addr \<Rightarrow> nat \<Rightarrow> mach" where
  "fwd_tail c m d s len =
     (let cnt = (if len \<noteq> 0 then drop_bit MOVNT_SHIFT len else 0);
          m = fwd_loop copy_xmm 16 cnt m d s
      in fwd_last c m (d + 16 * cnt) (s + 16 * cnt) (len AND MOVNT_MASK))"

definition fwd_chunks :: "libpmem \<Rightarrow> mach \<Rightarrow> addr \<Rightarrow> addr \<Rightarrow> nat \<Rightarrow> mach" where
  "fwd_chunks c m d s len =
     (let cnt = drop_bit CHUNK_SHIFT len;
          m = fwd_loop copy_chunk_fwd 128 cnt m d s
      in fwd_tail c m (d + 128 * cnt) (s + 128 * cnt) (len AND CHUNK_MASK))"

definition memmove_movnt_fwd :: "libpmem \<Rightarrow> mach \<Rightarrow> addr \<Rightarrow> addr \<Rightarrow> nat \<Rightarrow> mach" where
  "memmove_movnt_fwd c m dest1 src len =
     (let cnt = dest1 AND ALIGN_MASK in
      if cnt > 0 then
        (let cnt = FLUSH_ALIGN - cnt;
             cnt = (if cnt > len then len else cnt);
             m = pmem_flush c (fwd_loop copy_byte 1 cnt m dest1 src) dest1 cnt
         in fwd_chunks c m (dest1 + cnt) (src + cnt) (len - cnt))
      else fwd_chunks c m dest1 src len)"

text \<open>The backward pass starts at the end of both ranges and moves the pointers down.\<close>

definition bwd_last :: "libpmem \<Rightarrow> mach \<Rightarrow> addr \<Rightarrow> addr \<Rightarrow> nat \<Rightarrow> mach" where
  "bwd_last c m d s len =
     (if len \<noteq> 0 then
        (let cnt = drop_bit DWORD_SHIFT len;
             m = bwd_loop copy_dword 4 cnt m d s; d32 = d - 4 * cnt; s32 = s - 4 * cnt;
             cnt = len AND DWORD_MASK;
             m = bwd_loop copy_byte 1 cnt m d32 s32
         in pmem_flush c m (d32 - cnt) cnt)
      else m)"

definition bwd_tail :: "libpmem \<Rightarrow> mach \<Rightarrow> addr \<Rightarrow> addr \<Rightarrow> nat \<Rightarrow> mach" where
  "bwd_tail c m d s len =
     (let cnt = (if len \<noteq> 0 then drop_bit MOVNT_SHIFT len else 0);
          m = bwd_loop copy_xmm 16 cnt m d s
      in bwd_last c m (d - 16 * cnt) (s - 16 * cnt) (len AND MOVNT_MASK))"

definition bwd_chunks :: "libpmem \<Rightarrow> mach \<Rightarrow> addr \<Rightarrow> addr \<Rightarrow> nat \<Rightarrow> mach" where
  "bwd_chunks c m d s len =
     (let cnt = drop_bit CHUNK_SHIFT len;
          m = bwd_loop copy_chunk_bwd 128 cnt m d s
      in bwd_tail c m (d - 128 * cnt) (s - 128 * cnt) (len AND CHUNK_MASK))"

definition memmove_movnt_bwd :: "libpmem \<Rightarrow> mach \<Rightarrow> addr \<Rightarrow> addr \<Rightarrow> nat \<Rightarrow> mach" where
  "memmove_movnt_bwd c m dest1 src len =
     (let dest1 = dest1 + len; src = src + len; cnt = dest1 AND ALIGN_MASK in
      if cnt > 0 then
        (let cnt = (if cnt > len then len else cnt);
             m = pmem_flush c (bwd_loop copy_byte 1 cnt m dest1 src) (dest1 - cnt) cnt
         in bwd_chunks c m (dest1 - cnt) (src - cnt) (len - cnt))
      else bwd_chunks c m dest1 src len)"

definition memmove_nodrain_movnt :: "libpmem \<Rightarrow> mach \<Rightarrow> addr \<Rightarrow> addr \<Rightarrow> nat \<Rightarrow> mach" where
  "memmove_nodrain_movnt c m pmemdest src len =
     (if len = 0 \<or> src = pmemdest then m
      else if len < Movnt_threshold c then
        pmem_flush c (libc_memmove m pmemdest src len) pmemdest len
      else predrain_fence_sfence
        (if wsub pmemdest src \<ge> len then memmove_movnt_fwd c m pmemdest src len
         else memmove_movnt_bwd c m pmemdest src len))"

definition pmem_memmove_nodrain :: "libpmem \<Rightarrow> mach \<Rightarrow> addr \<Rightarrow> addr \<Rightarrow> nat \<Rightarrow> mach" where
  "pmem_memmove_nodrain c m pmemdest src len =
     (case Func_memmove_nodrain c of
        nodrain_normal \<Rightarrow> memmove_nodrain_normal c m pmemdest src len
      | nodrain_movnt \<Rightarrow> memmove_nodrain_movnt c m pmemdest src len)"

definition pmem_memcpy_nodrain :: "libpmem \<Rightarrow> mach \<Rightarrow> addr \<Rightarrow> addr \<Rightarrow> nat \<Rightarrow> mach" where
  "pmem_memcpy_nodrain c m pmemdest src len = pmem_memmove_nodrain c m pmemdest src len"

definition pmem_memmove_persist :: "libpmem \<Rightarrow> mach \<Rightarrow> addr \<Rightarrow> addr \<Rightarrow> nat \<Rightarrow> mach" where
  "pmem_memmove_persist c m pmemdest src len =
     pmem_drain c (pmem_memmove_nodrain c m pmemdest src len)"

definition pmem_memcpy_persist :: "libpmem \<Rightarrow> mach \<Rightarrow> addr \<Rightarrow> addr \<Rightarrow> nat \<Rightarrow> mach" where
  "pmem_memcpy_persist c m pmemdest src len =
     pmem_drain c (pmem_memcpy_nodrain c m pmemdest src len)"

definition memset_nodrain_normal :: "libpmem \<Rightarrow> mach \<Rightarrow> addr \<Rightarrow> int \<Rightarrow> nat \<Rightarrow> mach" where
  "memset_nodrain_normal c m pmemdest v len =
     pmem_flush c (libc_memset m pmemdest (word_of_int v) len) pmemdest len"

text \<open>The loops of \<open>memset\<close> store a register that holds the byte sixteen times.\<close>

definition set_xmm :: "byte \<Rightarrow> mach \<Rightarrow> addr \<Rightarrow> addr \<Rightarrow> mach" where
  "set_xmm b m d s = stream_si128 m d (replicate 16 b)"

definition set_chunk :: "byte \<Rightarrow> mach \<Rightarrow> addr \<Rightarrow> addr \<Rightarrow> mach" where
  "set_chunk b m d s = fwd_loop (set_xmm b) 16 8 m d s"

definition set_dword :: "byte \<Rightarrow> mach \<Rightarrow> addr \<Rightarrow> addr \<Rightarrow> mach" where
  "set_dword b m d s = stream_si32 m d (replicate 4 b)"

definition set_last :: "libpmem \<Rightarrow> byte \<Rightarrow> mach \<Rightarrow> addr \<Rightarrow> nat \<Rightarrow> mach" where
  "set_last c b m d len =
     (if len \<noteq> 0 then
        (let cnt = drop_bit DWORD_SHIFT len;
             m = (if cnt \<noteq> 0 then fwd_loop (set_dword b) 4 cnt m d d else m); d32 = d + 4 * cnt;
             cnt = len AND DWORD_MASK
         in if cnt \<noteq> 0 then pmem_flush c (libc_memset m d32 b cnt) d32 cnt else m)
      else m)"

definition set_tail :: "libpmem \<Rightarrow> byte \<Rightarrow> mach \<Rightarrow> addr \<Rightarrow> nat \<Rightarrow> mach" where
  "set_tail c b m d len =
     (let cnt = (if len \<noteq> 0 then drop_bit MOVNT_SHIFT len else 0);
          m = fwd_loop (set_xmm b) 16 cnt m d d
      in set_last c b m (d + 16 * cnt) (len AND MOVNT_MASK))"

definition set_chunks :: "libpmem \<Rightarrow> byte \<Rightarrow> mach \<Rightarrow> addr \<Rightarrow> nat \<Rightarrow> mach" where
  "set_chunks c b m d len =
     (let cnt = len div CHUNK_SIZE;
          m = (if cnt \<noteq> 0 then fwd_loop (set_chunk b) 128 cnt m d d else m)
      in set_tail c b m (d + 128 * cnt) (len AND CHUNK_MASK))"

definition memset_nodrain_movnt :: "libpmem \<Rightarrow> mach \<Rightarrow> addr \<Rightarrow> int \<Rightarrow> nat \<Rightarrow> mach" where
  "memset_nodrain_movnt c m pmemdest v len =
     (let b = word_of_int v in
      if len < Movnt_threshold c then
        pmem_flush c (libc_memset m pmemdest b len) pmemdest len
      else
        (let cnt = pmemdest AND ALIGN_MASK in
         predrain_fence_sfence
           (if cnt \<noteq> 0 then
              (let cnt = FLUSH_ALIGN - cnt;
                   cnt = (if cnt > len then len else cnt);
                   m = pmem_flush c (libc_memset m pmemdest b cnt) pmemdest cnt
               in set_chunks c b m (pmemdest + cnt) (len - cnt))
            else set_chunks c b m pmemdest len)))"

definition pmem_memset_nodrain :: "libpmem \<Rightarrow> mach \<Rightarrow> addr \<Rightarrow> int \<Rightarrow> nat \<Rightarrow> mach" where
  "pmem_memset_nodrain c m pmemdest v len =
     (case Func_memset_nodrain c of
        nodrain_normal \<Rightarrow> memset_nodrain_normal c m pmemdest v len
      | nodrain_movnt \<Rightarrow> memset_nodrain_movnt c m pmemdest v len)"

definition pmem_memset_persist :: "libpmem \<Rightarrow> mach \<Rightarrow> addr \<Rightarrow> int \<Rightarrow> nat \<Rightarrow> mach" where
  "pmem_memset_persist c m pmemdest v len = pmem_drain c (pmem_memset_nodrain c m pmemdest v len)"

subsection \<open>Flushing covers the range\<close>

text \<open>A byte is sent when its value is on the medium or will be at the next fence.\<close>

definition sent :: "mach \<Rightarrow> addr \<Rightarrow> bool" where
  "sent m a \<longleftrightarrow> dur m a \<or> wb m a"

definition line_op :: "(addr \<Rightarrow> minstr) \<Rightarrow> bool" where
  "line_op f \<longleftrightarrow> f = CLFLUSH \<or> f = CLWB \<or> f = CLFLUSHOPT"

lemma sent_emits: "sent m a \<Longrightarrow> a \<notin> fst ` wset is \<Longrightarrow> sent (emits m is) a"
  by (auto simp: sent_def dur_emits wb_emits)

lemma line_op_sent: "line_op f \<Longrightarrow> line l a \<Longrightarrow> sent (emit m (f l)) a"
  by (auto simp: line_op_def sent_def dur_def emit.simps)

lemma line_op_writes: "line_op f \<Longrightarrow> writes (f l) = {}"
  by (auto simp: line_op_def)

lemma wset_map_line_op: "line_op f \<Longrightarrow> wset (map f ls) = {}"
  by (induction ls) (auto simp: line_op_writes)

lemma emits_map_line_op_sent:
  "line_op f \<Longrightarrow> l \<in> set ls \<Longrightarrow> line l a \<Longrightarrow> sent (emits m (map f ls)) a"
proof (induction ls arbitrary: m)
  case (Cons k ls)
  show ?case
  proof (cases "line k a")
    case True
    with Cons.prems(1) have "sent (emit m (f k)) a" by (rule line_op_sent)
    then show ?thesis using Cons.prems(1) by (simp add: sent_emits wset_map_line_op)
  qed (use Cons in auto)
qed simp

lemma flush_lines_map:
  "\<exists>ls. flush_lines f m uptr fin = emits m (map f ls) \<and>
     (\<forall>a. uptr \<le> a \<and> a < fin \<longrightarrow> (\<exists>l \<in> set ls. line l a))"
proof (induction f m uptr fin rule: flush_lines.induct)
  case (1 f m uptr fin)
  show ?case
  proof (cases "uptr < fin")
    case True
    with 1 obtain ls where ls: "flush_lines f (emit m (f uptr)) (uptr + FLUSH_ALIGN) fin =
        emits (emit m (f uptr)) (map f ls)"
      "\<forall>a. uptr + FLUSH_ALIGN \<le> a \<and> a < fin \<longrightarrow> (\<exists>l \<in> set ls. line l a)" by blast
    have "flush_lines f m uptr fin = emits m (map f (uptr # ls))"
      using True ls(1) by (simp add: flush_lines.simps [of f m uptr fin])
    moreover have "\<exists>l \<in> set (uptr # ls). line l a" if "uptr \<le> a" "a < fin" for a
      using that ls(2) by (cases "a < uptr + 64") (auto simp: line_def FLUSH_ALIGN_def)
    ultimately show ?thesis by blast
  next
    case False
    then show ?thesis by (intro exI [of _ "[]"]) (simp add: flush_lines.simps [of f m uptr fin])
  qed
qed

text \<open>Machines reached by instructions that store nothing.\<close>

definition quiet :: "mach \<Rightarrow> mach \<Rightarrow> bool" where
  "quiet m m' \<longleftrightarrow> (\<exists>is. m' = emits m is \<and> wset is = {})"

lemma quiet_refl [simp]: "quiet m m"
  unfolding quiet_def by (intro exI [of _ "[]"]) simp

lemma quiet_cur: "quiet m m' \<Longrightarrow> cur m' = cur m"
  by (auto simp: quiet_def cur_emits_frame)

lemma flush_range:
  assumes "line_op f" "a + len < 2 ^ 64"
  shows "quiet m (flush_lines f m (a AND wnot (FLUSH_ALIGN - 1)) (wadd a len))"
    and "a \<le> x \<Longrightarrow> x < a + len \<Longrightarrow>
      sent (flush_lines f m (a AND wnot (FLUSH_ALIGN - 1)) (wadd a len)) x"
proof -
  let ?u = "a AND wnot (FLUSH_ALIGN - 1)"
  have u: "?u \<le> a"
    using and_wnot_mask [of a 6] assms(2) by (simp add: FLUSH_ALIGN_def)
  obtain ls where ls: "flush_lines f m ?u (wadd a len) = emits m (map f ls)"
    "\<forall>x. ?u \<le> x \<and> x < wadd a len \<longrightarrow> (\<exists>l \<in> set ls. line l x)"
    using flush_lines_map by blast
  then show "quiet m (flush_lines f m ?u (wadd a len))"
    using assms(1) by (auto simp: quiet_def wset_map_line_op)
  assume x: "a \<le> x" "x < a + len"
  have "?u \<le> x" using u x(1) by (rule order_trans)
  moreover have "x < wadd a len" using x(2) assms(2) by (simp add: wadd_exact)
  ultimately obtain l where "l \<in> set ls" "line l x"
    using ls(2) by blast
  then show "sent (flush_lines f m ?u (wadd a len)) x"
    using ls(1) assms(1) by (auto intro: emits_map_line_op_sent)
qed

lemmas flush_fn_defs = pmem_flush_def flush_clflush_def flush_clwb_def flush_clflushopt_def
  flush_empty_def

lemma quiet_pmem_flush: "a + len < 2 ^ 64 \<Longrightarrow> quiet m (pmem_flush c m a len)"
  unfolding flush_fn_defs
  by (cases "Func_flush c") (simp_all only: flush_fn.case quiet_refl flush_range(1) line_op_def simp_thms)

lemma pmem_flush_sent:
  "Func_flush c \<noteq> flush_empty_fn \<Longrightarrow> a + len < 2 ^ 64 \<Longrightarrow> a \<le> x \<Longrightarrow> x < a + len \<Longrightarrow>
   sent (pmem_flush c m a len) x"
  unfolding flush_fn_defs
  by (cases "Func_flush c") (simp_all only: flush_fn.case flush_range(2) line_op_def simp_thms)

lemma quiet_pmem_drain: "quiet m (pmem_drain c m)"
  unfolding quiet_def
  by (cases "Func_predrain_fence c")
    (auto simp: pmem_drain_def predrain_fence_empty_def predrain_fence_sfence_def
      intro: exI [of _ "[]"] exI [of _ "[SFENCE]"])

lemma cur_pmem_drain [simp]: "cur (pmem_drain c m) = cur m"
  by (rule quiet_cur [OF quiet_pmem_drain])

lemma sent_sfence: "sent m a \<Longrightarrow> dur (predrain_fence_sfence m) a"
  by (auto simp: sent_def dur_def predrain_fence_sfence_def emit.simps)

subsection \<open>Copying\<close>

text \<open>
  \<open>moved m d bs m'\<close>: the machine went from \<open>m\<close> to \<open>m'\<close>, the bytes \<open>bs\<close> are at \<open>d\<close>, nothing else
  changed, and no instruction stored anything but those bytes in their places.
\<close>

definition moved :: "mach \<Rightarrow> addr \<Rightarrow> byte list \<Rightarrow> mach \<Rightarrow> bool" where
  "moved m d bs m' \<longleftrightarrow>
     (\<exists>is. m' = emits m is \<and> wset is \<subseteq> block d bs \<and> cur m' = wr (cur m) d bs)"

lemma moved_Nil [simp]: "moved m d [] m"
  unfolding moved_def by (intro exI [of _ "[]"]) simp

lemma moved_cur: "moved m d bs m' \<Longrightarrow> cur m' = wr (cur m) d bs"
  by (auto simp: moved_def)

lemma moved_append:
  assumes "moved m d bs m1" "moved m1 (d + length bs) cs m2"
  shows "moved m d (bs @ cs) m2"
proof -
  obtain "is" js where "m1 = emits m is" "wset is \<subseteq> block d bs" "cur m1 = wr (cur m) d bs"
    "m2 = emits m1 js" "wset js \<subseteq> block (d + length bs) cs" "cur m2 = wr (cur m1) (d + length bs) cs"
    using assms by (auto simp: moved_def)
  then show ?thesis
    unfolding moved_def
    by (intro exI [of _ "is @ js"]) (auto simp: block_append wr_append)
qed

lemma wr_prepend: "wr (wr m (d + length bs) cs) d bs = wr m d (bs @ cs)"
  by (rule ext) (auto simp: wr_def nth_append)

lemma moved_prepend:
  assumes "moved m (d + length bs) cs m1" "moved m1 d bs m2"
  shows "moved m d (bs @ cs) m2"
proof -
  obtain "is" js where "m1 = emits m is" "wset is \<subseteq> block (d + length bs) cs"
    "cur m1 = wr (cur m) (d + length bs) cs"
    "m2 = emits m1 js" "wset js \<subseteq> block d bs" "cur m2 = wr (cur m1) d bs"
    using assms by (auto simp: moved_def)
  then show ?thesis
    unfolding moved_def
    by (intro exI [of _ "is @ js"]) (auto simp: block_append wr_prepend)
qed

lemma moved_quiet: "moved m d bs m1 \<Longrightarrow> quiet m1 m2 \<Longrightarrow> moved m d bs m2"
proof -
  assume "moved m d bs m1" "quiet m1 m2"
  then obtain "is" js where "m1 = emits m is" "wset is \<subseteq> block d bs" "cur m1 = wr (cur m) d bs"
    "m2 = emits m1 js" "wset js = {}"
    by (auto simp: moved_def quiet_def)
  moreover from this have "cur m2 = cur m1" by (auto simp: cur_emits_frame)
  ultimately show ?thesis
    unfolding moved_def by (intro exI [of _ "is @ js"]) auto
qed

lemma moved_sent: "moved m d bs m' \<Longrightarrow> sent m a \<Longrightarrow> a < d \<or> d + length bs \<le> a \<Longrightarrow> sent m' a"
proof -
  assume "moved m d bs m'" "sent m a" and out: "a < d \<or> d + length bs \<le> a"
  then obtain "is" where "m' = emits m is" and ws: "wset is \<subseteq> block d bs" by (auto simp: moved_def)
  moreover have "a \<notin> fst ` wset is" using image_mono [OF ws, of fst] out by auto
  ultimately show ?thesis using \<open>sent m a\<close> by (simp add: sent_emits)
qed

lemma quiet_sent: "quiet m m' \<Longrightarrow> sent m a \<Longrightarrow> sent m' a"
  by (auto simp: quiet_def sent_emits)

lemma moved_StoreNT: "moved m d bs (emit m (StoreNT d bs))"
  unfolding moved_def by (intro exI [of _ "[StoreNT d bs]"]) (simp add: emit.simps)

lemma moved_Store: "moved m d [b] (emit m (Store d b))"
  unfolding moved_def
  by (intro exI [of _ "[Store d b]"]) (auto simp: wr_Cons block_def emit.simps)

lemma stores_simps [simp]:
  "stores m a [] = m"
  "stores m a (b # bs) = stores (emit m (Store a b)) (Suc a) bs"
proof -
  have "[a..<a + length (b # bs)] = a # [Suc a..<Suc a + length bs]"
    by (simp add: upt_conv_Cons del: upt_Suc)
  then show "stores m a (b # bs) = stores (emit m (Store a b)) (Suc a) bs"
    by (simp add: stores_def del: upt_Suc)
qed (simp add: stores_def)

lemma moved_stores: "moved m d bs (stores m d bs)"
proof (induction bs arbitrary: m d)
  case (Cons b bs)
  show ?case
    using moved_append [OF moved_Store [of m d b], of bs] Cons by simp
qed simp

subsection \<open>The copy loops\<close>

text \<open>Machines reached by instructions that store only inside a range.\<close>

definition within :: "mach \<Rightarrow> mach \<Rightarrow> addr \<Rightarrow> nat \<Rightarrow> bool" where
  "within m m' a n \<longleftrightarrow> (\<exists>is. m' = emits m is \<and> fst ` wset is \<subseteq> {a..<a + n})"

lemma within_moved: "moved m d bs m' \<Longrightarrow> within m m' d (length bs)"
  by (fastforce simp: moved_def within_def)

lemma within_quiet: "quiet m m' \<Longrightarrow> within m m' a n"
  by (fastforce simp: quiet_def within_def)

lemma within_trans:
  assumes "within m m1 a n" "within m1 m2 b k" "c \<le> a" "a + n \<le> c + l" "c \<le> b" "b + k \<le> c + l"
  shows "within m m2 c l"
proof -
  obtain "is" js where "m1 = emits m is" "fst ` wset is \<subseteq> {a..<a + n}"
    "m2 = emits m1 js" "fst ` wset js \<subseteq> {b..<b + k}"
    using assms(1,2) by (auto simp: within_def)
  moreover have "{a..<a + n} \<subseteq> {c..<c + l}" "{b..<b + k} \<subseteq> {c..<c + l}" using assms(3-) by auto
  ultimately show ?thesis
    unfolding within_def by (intro exI [of _ "is @ js"]) (auto simp: image_Un)
qed

lemma within_sent: "within m m' a n \<Longrightarrow> sent m x \<Longrightarrow> x < a \<or> a + n \<le> x \<Longrightarrow> sent m' x"
  by (fastforce simp: within_def intro: sent_emits)

definition copies :: "nat \<Rightarrow> (mach \<Rightarrow> addr \<Rightarrow> addr \<Rightarrow> mach) \<Rightarrow> bool" where
  "copies w body \<longleftrightarrow> (\<forall>m d s. moved m d (rd (cur m) s w) (body m d s))"

definition sends :: "nat \<Rightarrow> (mach \<Rightarrow> addr \<Rightarrow> addr \<Rightarrow> mach) \<Rightarrow> bool" where
  "sends w body \<longleftrightarrow> (\<forall>m d s x. d \<le> x \<and> x < d + w \<longrightarrow> sent (body m d s) x)"

definition stays :: "nat \<Rightarrow> (mach \<Rightarrow> addr \<Rightarrow> addr \<Rightarrow> mach) \<Rightarrow> bool" where
  "stays w body \<longleftrightarrow> (\<forall>m d s. within m (body m d s) d w)"

lemma copies_stays: "copies w body \<Longrightarrow> stays w body"
  unfolding copies_def stays_def using within_moved by fastforce

lemma within_0 [simp]: "within m m a n"
  unfolding within_def by (intro exI [of _ "[]"]) simp

lemma fwd_loop_within:
  "stays w body \<Longrightarrow> within m (fwd_loop body w cnt m d s) d (w * cnt)"
proof (induction cnt arbitrary: m d s)
  case (Suc cnt)
  have a: "within m (body m d s) d w" using Suc.prems by (simp add: stays_def)
  have b: "within (body m d s) (fwd_loop body w cnt (body m d s) (d + w) (s + w)) (d + w) (w * cnt)"
    using Suc by blast
  show ?case using within_trans [OF a b, of d "w * Suc cnt"] by simp
qed simp

lemma bwd_loop_within:
  "stays w body \<Longrightarrow> w * cnt \<le> d \<Longrightarrow> within m (bwd_loop body w cnt m d s) (d - w * cnt) (w * cnt)"
proof (induction cnt arbitrary: m d s)
  case (Suc cnt)
  have a: "within m (body m (d - w) (s - w)) (d - w) w" using Suc.prems by (simp add: stays_def)
  have b: "within (body m (d - w) (s - w))
      (bwd_loop body w cnt (body m (d - w) (s - w)) (d - w) (s - w)) (d - w - w * cnt) (w * cnt)"
    using Suc.prems by (intro Suc.IH) auto
  show ?case using within_trans [OF a b, of "d - w * Suc cnt" "w * Suc cnt"] Suc.prems(2) by simp
qed simp

lemma fwd_loop_sends:
  "stays w body \<Longrightarrow> sends w body \<Longrightarrow> d \<le> x \<Longrightarrow> x < d + w * cnt \<Longrightarrow>
   sent (fwd_loop body w cnt m d s) x"
proof (induction cnt arbitrary: m d s)
  case (Suc cnt)
  show ?case
  proof (cases "x < d + w")
    case True
    then have "sent (body m d s) x" using Suc.prems by (simp add: sends_def)
    then show ?thesis
      using True fwd_loop_within [OF Suc.prems(1), of "body m d s" cnt "d + w" "s + w"]
      by (auto intro: within_sent)
  next
    case False
    then show ?thesis using Suc by auto
  qed
qed simp

lemma bwd_loop_sends:
  "stays w body \<Longrightarrow> sends w body \<Longrightarrow> w * cnt \<le> d \<Longrightarrow> d - w * cnt \<le> x \<Longrightarrow> x < d \<Longrightarrow>
   sent (bwd_loop body w cnt m d s) x"
proof (induction cnt arbitrary: m d s)
  case (Suc cnt)
  show ?case
  proof (cases "d - w \<le> x")
    case True
    then have "sent (body m (d - w) (s - w)) x" using Suc.prems by (auto simp: sends_def)
    then show ?thesis
      using True Suc.prems(3)
        within_sent [OF bwd_loop_within [OF Suc.prems(1), of cnt "d - w" "body m (d - w) (s - w)" "s - w"]]
      by auto
  next
    case False
    then show ?thesis using Suc by auto
  qed
qed simp

definition fwd_ok :: "addr \<Rightarrow> addr \<Rightarrow> nat \<Rightarrow> bool" where
  "fwd_ok dest src n \<longleftrightarrow> dest \<le> src \<or> src + n \<le> dest"

lemma fwd_loop_moved:
  "copies w body \<Longrightarrow> fwd_ok dest src n \<Longrightarrow> k + w * cnt \<le> n \<Longrightarrow>
   moved m0 dest (rd (cur m0) src k) m \<Longrightarrow>
   moved m0 dest (rd (cur m0) src (k + w * cnt)) (fwd_loop body w cnt m (dest + k) (src + k))"
proof (induction cnt arbitrary: k m)
  case (Suc cnt)
  let ?m1 = "body m (dest + k) (src + k)"
  have "moved m (dest + k) (rd (cur m) (src + k) w) ?m1" using Suc.prems(1) by (simp add: copies_def)
  moreover have "rd (cur m) (src + k) w = rd (cur m0) (src + k) w"
    using Suc.prems(2,3) moved_cur [OF Suc.prems(4)]
    by (auto intro!: rd_cong simp: wr_def fwd_ok_def)
  ultimately have "moved m0 dest (rd (cur m0) src (k + w)) ?m1"
    using moved_append [OF Suc.prems(4), of "rd (cur m0) (src + k) w" ?m1] by (simp add: rd_add)
  then show ?case
    using Suc.IH [of "k + w" ?m1] Suc.prems(1,2,3) by (simp add: ac_simps)
qed simp

lemma bwd_loop_moved:
  "copies w body \<Longrightarrow> src \<le> dest \<Longrightarrow> k + w * cnt \<le> n \<Longrightarrow>
   moved m0 (dest + n - k) (rd (cur m0) (src + n - k) k) m \<Longrightarrow>
   moved m0 (dest + n - (k + w * cnt)) (rd (cur m0) (src + n - (k + w * cnt)) (k + w * cnt))
     (bwd_loop body w cnt m (dest + n - k) (src + n - k))"
proof (induction cnt arbitrary: k m)
  case (Suc cnt)
  let ?d = "dest + n - k - w" and ?s = "src + n - k - w"
  let ?m1 = "body m ?d ?s"
  have kn: "k + w \<le> n" using Suc.prems(3) by simp
  have "moved m ?d (rd (cur m) ?s w) ?m1" using Suc.prems(1) by (simp add: copies_def)
  moreover have "rd (cur m) ?s w = rd (cur m0) ?s w"
    using Suc.prems(2) kn moved_cur [OF Suc.prems(4)]
    by (auto intro!: rd_cong simp: wr_def)
  moreover have "dest + n - k = ?d + w" "src + n - k = ?s + w" using kn by auto
  moreover have "rd (cur m0) ?s (w + k) = rd (cur m0) ?s w @ rd (cur m0) (?s + w) k"
    by (simp add: rd_add)
  ultimately have "moved m0 ?d (rd (cur m0) ?s (w + k)) ?m1"
    using moved_prepend [of m0 ?d "rd (cur m0) ?s w" "rd (cur m0) (?s + w) k" m ?m1] Suc.prems(4)
    by simp
  then have "moved m0 (dest + n - (k + w)) (rd (cur m0) (src + n - (k + w)) (k + w)) ?m1"
    by (simp add: ac_simps)
  then show ?case
    using Suc.IH [of "k + w" ?m1] Suc.prems(1,2,3) by (simp add: ac_simps)
qed simp

lemma copies_byte: "copies 1 copy_byte"
  unfolding copies_def copy_byte_def
proof (intro allI)
  fix m :: mach and d s
  have "rd (cur m) s 1 = [cur m s]" by (simp add: rd_def)
  then show "moved m d (rd (cur m) s 1) (emit m (Store d (cur m s)))"
    using moved_Store [of m d] by simp
qed

lemma copies_dword: "copies 4 copy_dword"
  by (simp add: copies_def copy_dword_def stream_si32_def moved_StoreNT)

lemma copies_xmm: "copies 16 copy_xmm"
  by (simp add: copies_def copy_xmm_def stream_si128_def loadu_si128_def moved_StoreNT)

lemma sends_dword: "sends 4 copy_dword" and sends_xmm: "sends 16 copy_xmm"
  by (auto simp: sends_def copy_dword_def copy_xmm_def stream_si32_def stream_si128_def
      loadu_si128_def sent_def emit.simps)

lemma stream_append:
  "moved m d bs m1 \<Longrightarrow> d' = d + length bs \<Longrightarrow> moved m d (bs @ xmm) (stream_si128 m1 d' xmm)"
  using moved_append [of m d bs m1 xmm] moved_StoreNT by (simp add: stream_si128_def)

lemma stream_prepend:
  "moved m d' bs m1 \<Longrightarrow> d' = d + length xmm \<Longrightarrow> moved m d (xmm @ bs) (stream_si128 m1 d xmm)"
  using moved_prepend [of m d xmm bs m1] moved_StoreNT by (simp add: stream_si128_def)

lemma moved_stream: "moved m d xmm (stream_si128 m d xmm)"
  by (simp add: stream_si128_def moved_StoreNT)

lemma rd_128: "rd m s 128 = rd m s 16 @ rd m (s + 16) 16 @ rd m (s + 32) 16 @ rd m (s + 48) 16 @
    rd m (s + 64) 16 @ rd m (s + 80) 16 @ rd m (s + 96) 16 @ rd m (s + 112) 16"
proof -
  have "rd m s (16 + (16 + (16 + (16 + (16 + (16 + (16 + 16))))))) =
      rd m s 16 @ rd m (s + 16) 16 @ rd m (s + 32) 16 @ rd m (s + 48) 16 @
      rd m (s + 64) 16 @ rd m (s + 80) 16 @ rd m (s + 96) 16 @ rd m (s + 112) 16"
    by (simp only: rd_add add.assoc) simp
  then show ?thesis by simp
qed

lemma copies_chunk_fwd: "copies 128 copy_chunk_fwd"
  unfolding copies_def copy_chunk_fwd_def Let_def rd_128 loadu_si128_def append_assoc [symmetric]
  by (intro allI stream_append moved_stream) simp_all

lemma copies_chunk_bwd: "copies 128 copy_chunk_bwd"
  unfolding copies_def copy_chunk_bwd_def Let_def rd_128 loadu_si128_def
  by (intro allI, (rule stream_prepend)+, rule moved_stream) simp_all

lemma sends_chunk_fwd: "sends 128 copy_chunk_fwd" and sends_chunk_bwd: "sends 128 copy_chunk_bwd"
  unfolding sends_def copy_chunk_fwd_def copy_chunk_bwd_def Let_def stream_si128_def
    loadu_si128_def sent_def
  by (simp_all add: emit.simps) arith+

text \<open>
  Progress of a forward copy: the first \<open>k\<close> bytes are in place, and where flushing is not
  switched off they are all sent.
\<close>

definition fwd_prog :: "libpmem \<Rightarrow> mach \<Rightarrow> addr \<Rightarrow> addr \<Rightarrow> nat \<Rightarrow> mach \<Rightarrow> bool" where
  "fwd_prog c m0 dest src k m \<longleftrightarrow> moved m0 dest (rd (cur m0) src k) m \<and>
     (Func_flush c \<noteq> flush_empty_fn \<longrightarrow> (\<forall>x. dest \<le> x \<and> x < dest + k \<longrightarrow> sent m x))"

lemma fwd_prog_0: "fwd_prog c m dest src 0 m"
  by (auto simp: fwd_prog_def)

lemma fwd_prog_nt:
  assumes "copies w body" "sends w body" "fwd_ok dest src n" "k + w * cnt \<le> n"
    "fwd_prog c m0 dest src k m"
  shows "fwd_prog c m0 dest src (k + w * cnt) (fwd_loop body w cnt m (dest + k) (src + k))"
proof -
  let ?m' = "fwd_loop body w cnt m (dest + k) (src + k)"
  have w: "within m ?m' (dest + k) (w * cnt)"
    using copies_stays [OF assms(1)] by (rule fwd_loop_within)
  have "sent ?m' x" if "Func_flush c \<noteq> flush_empty_fn" "dest \<le> x" "x < dest + (k + w * cnt)" for x
  proof (cases "x < dest + k")
    case True
    with that assms(5) have "sent m x" by (simp add: fwd_prog_def)
    then show ?thesis using True within_sent [OF w] by simp
  next
    case False
    then show ?thesis
      using that fwd_loop_sends [OF copies_stays [OF assms(1)] assms(2)] by simp
  qed
  then show ?thesis
    using fwd_loop_moved [OF assms(1,3,4)] assms(5) by (simp add: fwd_prog_def)
qed

lemma fwd_prog_bytes:
  assumes "fwd_ok dest src n" "k + cnt \<le> n" "fwd_prog c m0 dest src k m" "dest + n < 2 ^ 64"
  shows "fwd_prog c m0 dest src (k + cnt)
    (pmem_flush c (fwd_loop copy_byte 1 cnt m (dest + k) (src + k)) (dest + k) cnt)"
proof -
  let ?m' = "fwd_loop copy_byte 1 cnt m (dest + k) (src + k)"
  let ?m'' = "pmem_flush c ?m' (dest + k) cnt"
  have lt: "(dest + k) + cnt < 2 ^ 64" using assms(2,4) by linarith
  have q: "quiet ?m' ?m''" using lt by (rule quiet_pmem_flush)
  have w: "within m ?m' (dest + k) (1 * cnt)"
    using copies_stays [OF copies_byte] by (rule fwd_loop_within)
  have "sent ?m'' x" if "Func_flush c \<noteq> flush_empty_fn" "dest \<le> x" "x < dest + (k + cnt)" for x
  proof (cases "x < dest + k")
    case True
    with that assms(3) have "sent m x" by (simp add: fwd_prog_def)
    then have "sent ?m' x" using True within_sent [OF w] by simp
    then show ?thesis using q by (simp add: quiet_sent)
  next
    case False
    then show ?thesis using that lt by (intro pmem_flush_sent) auto
  qed
  moreover have "moved m0 dest (rd (cur m0) src (k + 1 * cnt)) ?m'"
    using assms(2,3) by (intro fwd_loop_moved [OF copies_byte assms(1)]) (simp_all add: fwd_prog_def)
  ultimately show ?thesis
    using moved_quiet [OF _ q] by (simp add: fwd_prog_def)
qed

lemma mask_consts:
  "n AND ALIGN_MASK = n mod 64" "n AND CHUNK_MASK = n mod 128" "n AND MOVNT_MASK = n mod 16"
  "n AND DWORD_MASK = n mod 4" "drop_bit CHUNK_SHIFT n = n div 128" "drop_bit MOVNT_SHIFT n = n div 16"
  "drop_bit DWORD_SHIFT n = n div 4"
  by (simp_all add: pmem_consts and_mask_mod drop_bit_eq_div)

lemma fwd_last_prog:
  assumes "fwd_ok dest src n" "dest + n < 2 ^ 64" "fwd_prog c m0 dest src k m" "k + len = n"
  shows "fwd_prog c m0 dest src n (fwd_last c m (dest + k) (src + k) len)"
proof -
  let ?m1 = "fwd_loop copy_dword 4 (len div 4) m (dest + k) (src + k)"
  have "fwd_prog c m0 dest src (k + 4 * (len div 4)) ?m1"
    using assms by (intro fwd_prog_nt [OF copies_dword sends_dword assms(1)]) auto
  moreover have "(k + 4 * (len div 4)) + len mod 4 = n" using assms(4) by simp
  ultimately show ?thesis
    using fwd_prog_bytes [OF assms(1) _ _ assms(2), of "k + 4 * (len div 4)" "len mod 4" c m0 ?m1] assms(3,4)
    by (cases "len = 0") (auto simp: fwd_last_def mask_consts Let_def add.assoc)
qed

lemma fwd_tail_prog:
  assumes "fwd_ok dest src n" "dest + n < 2 ^ 64" "fwd_prog c m0 dest src k m" "k + len = n"
  shows "fwd_prog c m0 dest src n (fwd_tail c m (dest + k) (src + k) len)"
proof -
  let ?m1 = "fwd_loop copy_xmm 16 (len div 16) m (dest + k) (src + k)"
  have "fwd_prog c m0 dest src (k + 16 * (len div 16)) ?m1"
    using assms by (intro fwd_prog_nt [OF copies_xmm sends_xmm assms(1)]) auto
  then show ?thesis
    using fwd_last_prog [OF assms(1,2), of c m0 "k + 16 * (len div 16)" ?m1 "len mod 16"] assms(4)
    by (cases "len = 0") (auto simp: fwd_tail_def mask_consts Let_def add.assoc)
qed

lemma fwd_chunks_prog:
  assumes "fwd_ok dest src n" "dest + n < 2 ^ 64" "fwd_prog c m0 dest src k m" "k + len = n"
  shows "fwd_prog c m0 dest src n (fwd_chunks c m (dest + k) (src + k) len)"
proof -
  let ?m1 = "fwd_loop copy_chunk_fwd 128 (len div 128) m (dest + k) (src + k)"
  have "fwd_prog c m0 dest src (k + 128 * (len div 128)) ?m1"
    using assms by (intro fwd_prog_nt [OF copies_chunk_fwd sends_chunk_fwd assms(1)]) auto
  then show ?thesis
    using fwd_tail_prog [OF assms(1,2), of c m0 "k + 128 * (len div 128)" ?m1 "len mod 128"] assms(4)
    by (simp add: fwd_chunks_def mask_consts Let_def add.assoc)
qed

lemma memmove_movnt_fwd_prog:
  assumes "fwd_ok dest src n" "dest + n < 2 ^ 64"
  shows "fwd_prog c m dest src n (memmove_movnt_fwd c m dest src n)"
proof -
  define cnt where "cnt = (if 64 - dest mod 64 > n then n else 64 - dest mod 64)"
  let ?m1 = "pmem_flush c (fwd_loop copy_byte 1 cnt m dest src) dest cnt"
  have "cnt \<le> n" by (simp add: cnt_def)
  then have "fwd_prog c m dest src cnt ?m1"
    using fwd_prog_bytes [OF assms(1) _ fwd_prog_0 assms(2), of cnt c m] by simp
  then show ?thesis
    using fwd_chunks_prog [OF assms, of c m cnt ?m1 "n - cnt"] fwd_chunks_prog [OF assms fwd_prog_0, of n c m]
      \<open>cnt \<le> n\<close>
    by (simp add: memmove_movnt_fwd_def mask_consts Let_def FLUSH_ALIGN_def flip: cnt_def)
qed

text \<open>Progress of a backward copy: the last \<open>k\<close> of \<open>n\<close> bytes are in place and sent.\<close>

definition bwd_prog :: "libpmem \<Rightarrow> mach \<Rightarrow> addr \<Rightarrow> addr \<Rightarrow> nat \<Rightarrow> nat \<Rightarrow> mach \<Rightarrow> bool" where
  "bwd_prog c m0 dest src n k m \<longleftrightarrow>
     moved m0 (dest + n - k) (rd (cur m0) (src + n - k) k) m \<and>
     (Func_flush c \<noteq> flush_empty_fn \<longrightarrow> (\<forall>x. dest + n - k \<le> x \<and> x < dest + n \<longrightarrow> sent m x))"

lemma bwd_prog_0: "bwd_prog c m dest src n 0 m"
  by (auto simp: bwd_prog_def)

lemma bwd_prog_nt:
  assumes "copies w body" "sends w body" "src \<le> dest" "k + w * cnt \<le> n"
    "bwd_prog c m0 dest src n k m"
  shows "bwd_prog c m0 dest src n (k + w * cnt) (bwd_loop body w cnt m (dest + n - k) (src + n - k))"
proof -
  let ?d = "dest + n - k"
  let ?m' = "bwd_loop body w cnt m ?d (src + n - k)"
  have le: "w * cnt \<le> ?d" using assms(4) by linarith
  have w: "within m ?m' (?d - w * cnt) (w * cnt)"
    using copies_stays [OF assms(1)] le by (rule bwd_loop_within)
  have "sent ?m' x"
    if "Func_flush c \<noteq> flush_empty_fn" "dest + n - (k + w * cnt) \<le> x" "x < dest + n" for x
  proof (cases "?d \<le> x")
    case True
    with that assms(5) have "sent m x" by (simp add: bwd_prog_def)
    moreover have "?d - w * cnt + w * cnt \<le> x" using True le by linarith
    ultimately show ?thesis using within_sent [OF w] by blast
  next
    case False
    then show ?thesis
      using that le bwd_loop_sends [OF copies_stays [OF assms(1)] assms(2) le, of x] by simp
  qed
  then show ?thesis
    using bwd_loop_moved [OF assms(1,3,4)] assms(5) by (simp add: bwd_prog_def)
qed

lemma bwd_prog_bytes:
  assumes "src \<le> dest" "k + cnt \<le> n" "bwd_prog c m0 dest src n k m" "dest + n < 2 ^ 64"
  shows "bwd_prog c m0 dest src n (k + cnt)
    (pmem_flush c (bwd_loop copy_byte 1 cnt m (dest + n - k) (src + n - k)) (dest + n - k - cnt) cnt)"
proof -
  let ?d = "dest + n - k"
  let ?m' = "bwd_loop copy_byte 1 cnt m ?d (src + n - k)"
  let ?m'' = "pmem_flush c ?m' (?d - cnt) cnt"
  have le: "1 * cnt \<le> ?d" using assms(2) by linarith
  have lt: "(?d - cnt) + cnt < 2 ^ 64" using le assms(4) by linarith
  have q: "quiet ?m' ?m''" using lt by (rule quiet_pmem_flush)
  have w: "within m ?m' (?d - 1 * cnt) (1 * cnt)"
    using copies_stays [OF copies_byte] le by (rule bwd_loop_within)
  have "sent ?m'' x"
    if "Func_flush c \<noteq> flush_empty_fn" "dest + n - (k + cnt) \<le> x" "x < dest + n" for x
  proof (cases "?d \<le> x")
    case True
    with that assms(3) have "sent m x" by (simp add: bwd_prog_def)
    moreover have "?d - 1 * cnt + 1 * cnt \<le> x" using True le by linarith
    ultimately have "sent ?m' x" using within_sent [OF w] by blast
    then show ?thesis using q by (simp add: quiet_sent)
  next
    case False
    then show ?thesis using that lt le by (intro pmem_flush_sent) auto
  qed
  moreover have "moved m0 (dest + n - (k + 1 * cnt)) (rd (cur m0) (src + n - (k + 1 * cnt)) (k + 1 * cnt)) ?m'"
    using assms(2,3) by (intro bwd_loop_moved [OF copies_byte assms(1)]) (simp_all add: bwd_prog_def)
  ultimately show ?thesis
    using moved_quiet [OF _ q] by (simp add: bwd_prog_def)
qed

lemma bwd_last_prog:
  assumes "src \<le> dest" "dest + n < 2 ^ 64" "bwd_prog c m0 dest src n k m" "k + len = n"
  shows "bwd_prog c m0 dest src n n (bwd_last c m (dest + n - k) (src + n - k) len)"
proof -
  let ?m1 = "bwd_loop copy_dword 4 (len div 4) m (dest + n - k) (src + n - k)"
  have "bwd_prog c m0 dest src n (k + 4 * (len div 4)) ?m1"
    using assms by (intro bwd_prog_nt [OF copies_dword sends_dword assms(1)]) auto
  moreover have "(k + 4 * (len div 4)) + len mod 4 = n" using assms(4) by simp
  ultimately show ?thesis
    using bwd_prog_bytes [OF assms(1) _ _ assms(2), of "k + 4 * (len div 4)" "len mod 4" c m0 ?m1] assms(3,4)
    by (cases "len = 0") (auto simp: bwd_last_def mask_consts Let_def add.commute [of len k])
qed

lemma bwd_tail_prog:
  assumes "src \<le> dest" "dest + n < 2 ^ 64" "bwd_prog c m0 dest src n k m" "k + len = n"
  shows "bwd_prog c m0 dest src n n (bwd_tail c m (dest + n - k) (src + n - k) len)"
proof -
  let ?m1 = "bwd_loop copy_xmm 16 (len div 16) m (dest + n - k) (src + n - k)"
  have "bwd_prog c m0 dest src n (k + 16 * (len div 16)) ?m1"
    using assms by (intro bwd_prog_nt [OF copies_xmm sends_xmm assms(1)]) auto
  then show ?thesis
    using bwd_last_prog [OF assms(1,2), of c m0 "k + 16 * (len div 16)" ?m1 "len mod 16"] assms(4)
    by (cases "len = 0") (auto simp: bwd_tail_def mask_consts Let_def)
qed

lemma bwd_chunks_prog:
  assumes "src \<le> dest" "dest + n < 2 ^ 64" "bwd_prog c m0 dest src n k m" "k + len = n"
  shows "bwd_prog c m0 dest src n n (bwd_chunks c m (dest + n - k) (src + n - k) len)"
proof -
  let ?m1 = "bwd_loop copy_chunk_bwd 128 (len div 128) m (dest + n - k) (src + n - k)"
  have "bwd_prog c m0 dest src n (k + 128 * (len div 128)) ?m1"
    using assms by (intro bwd_prog_nt [OF copies_chunk_bwd sends_chunk_bwd assms(1)]) auto
  then show ?thesis
    using bwd_tail_prog [OF assms(1,2), of c m0 "k + 128 * (len div 128)" ?m1 "len mod 128"] assms(4)
    by (simp add: bwd_chunks_def mask_consts Let_def)
qed

lemma memmove_movnt_bwd_prog:
  assumes "src \<le> dest" "dest + n < 2 ^ 64"
  shows "bwd_prog c m dest src n n (memmove_movnt_bwd c m dest src n)"
proof -
  define cnt where "cnt = (if (dest + n) mod 64 > n then n else (dest + n) mod 64)"
  let ?m1 = "pmem_flush c (bwd_loop copy_byte 1 cnt m (dest + n) (src + n)) (dest + n - cnt) cnt"
  have "cnt \<le> n" by (simp add: cnt_def)
  then have "bwd_prog c m dest src n cnt ?m1"
    using bwd_prog_bytes [OF assms(1) _ bwd_prog_0 assms(2), of cnt c m] by simp
  then show ?thesis
    using bwd_chunks_prog [OF assms, of c m cnt ?m1 "n - cnt"] bwd_chunks_prog [OF assms bwd_prog_0, of n c m]
      \<open>cnt \<le> n\<close>
    by (simp add: memmove_movnt_bwd_def mask_consts Let_def flip: cnt_def)
qed

subsection \<open>The contract of pmem_memmove_nodrain\<close>

text \<open>
  Flushed, for a configuration: durable, or on its way where \<open>pmem_drain\<close> fences. A safe
  configuration flushes, and it fences unless its flush instruction is \<open>clflush\<close>.
\<close>

definition safe_config :: "libpmem \<Rightarrow> bool" where
  "safe_config c \<longleftrightarrow> Func_flush c \<noteq> flush_empty_fn \<and>
     (Func_flush c = flush_clflush_fn \<or> Func_predrain_fence c = predrain_fence_sfence_fn)"

definition flushed :: "libpmem \<Rightarrow> mach \<Rightarrow> addr \<Rightarrow> bool" where
  "flushed c m a \<longleftrightarrow> dur m a \<or> (Func_predrain_fence c = predrain_fence_sfence_fn \<and> wb m a)"

lemma pmem_memmove_nodrain_moved:
  assumes "dest + len < 2 ^ 64" "src + len < 2 ^ 64"
  shows "moved m dest (rd (cur m) src len) (pmem_memmove_nodrain c m dest src len)"
proof -
  have small: "moved m dest (rd (cur m) src len) (pmem_flush c (libc_memmove m dest src len) dest len)"
    unfolding libc_memmove_def by (rule moved_quiet [OF moved_stores quiet_pmem_flush [OF assms(1)]])
  have same: "moved m dest (rd (cur m) dest len) m"
    unfolding moved_def by (intro exI [of _ "[]"]) (simp add: wr_rd_id)
  have fence: "quiet m (predrain_fence_sfence m)" for m
    unfolding quiet_def predrain_fence_sfence_def by (intro exI [of _ "[SFENCE]"]) simp
  have fwd: "moved m dest (rd (cur m) src len) (memmove_movnt_fwd c m dest src len)"
    if "wsub dest src \<ge> len"
  proof -
    have "fwd_ok dest src len"
      using that assms wsub_exact [of src dest] by (cases "src \<le> dest") (auto simp: fwd_ok_def)
    then show ?thesis using memmove_movnt_fwd_prog [OF _ assms(1)] by (simp add: fwd_prog_def)
  qed
  have bwd: "moved m dest (rd (cur m) src len) (memmove_movnt_bwd c m dest src len)"
    if "\<not> wsub dest src \<ge> len"
  proof -
    have "src \<le> dest"
      using that assms wsub_wraps [of dest src] by (cases "src \<le> dest") auto
    then show ?thesis using memmove_movnt_bwd_prog [OF _ assms(1)] by (simp add: bwd_prog_def)
  qed
  have "moved m dest (rd (cur m) src len) (memmove_nodrain_movnt c m dest src len)"
    using small same moved_quiet [OF fwd fence] moved_quiet [OF bwd fence]
    by (auto simp: memmove_nodrain_movnt_def)
  then show ?thesis
    using small by (simp add: pmem_memmove_nodrain_def memmove_nodrain_normal_def split: move_fn.split)
qed


lemma not_wb_stores_keep: "\<not> wb m x \<Longrightarrow> \<not> wb (stores m a bs) x"
  by (induction bs arbitrary: m a) (auto simp: emit.simps)

lemma not_wb_stores: "a \<le> x \<Longrightarrow> x < a + length bs \<Longrightarrow> \<not> wb (stores m a bs) x"
proof (induction bs arbitrary: m a)
  case (Cons b bs)
  show ?case
  proof (cases "x = a")
    case True
    have "\<not> wb (emit m (Store a b)) x" using True by (simp add: emit.simps)
    then show ?thesis by (simp add: not_wb_stores_keep)
  qed (use Cons in simp)
qed simp

lemma clflush_dur:
  "\<not> wb m a \<Longrightarrow> l \<in> set ls \<Longrightarrow> line l a \<Longrightarrow> dur (emits m (map CLFLUSH ls)) a"
proof (induction ls arbitrary: m)
  case (Cons k ls)
  show ?case
  proof (cases "line k a")
    case True
    then have "dur (emit m (CLFLUSH k)) a" using Cons.prems(1) by (simp add: dur_def emit.simps)
    then show ?thesis by (simp add: dur_emits wset_map_line_op line_op_def)
  qed (use Cons in \<open>auto simp: emit.simps\<close>)
qed simp

lemma flush_clflush_dur:
  assumes "\<not> wb m x" "a + len < 2 ^ 64" "a \<le> x" "x < a + len"
  shows "dur (flush_clflush m a len) x"
proof -
  let ?u = "a AND wnot (FLUSH_ALIGN - 1)"
  have "?u \<le> x"
    using and_wnot_mask [of a 6] assms(2,3) by (simp add: FLUSH_ALIGN_def)
  moreover have "x < wadd a len" using assms by (simp add: wadd_exact)
  moreover obtain ls where "flush_clflush m a len = emits m (map CLFLUSH ls)"
    "\<forall>y. ?u \<le> y \<and> y < wadd a len \<longrightarrow> (\<exists>l \<in> set ls. line l y)"
    using flush_lines_map [of CLFLUSH m ?u "wadd a len"] by (auto simp: flush_clflush_def)
  ultimately show ?thesis using assms(1) clflush_dur by metis
qed

lemma pmem_flush_stores_flushed:
  assumes "safe_config c" "a + length bs < 2 ^ 64" "a \<le> x" "x < a + length bs"
  shows "flushed c (pmem_flush c (stores m a bs) a (length bs)) x"
proof (cases "Func_predrain_fence c")
  case predrain_fence_sfence_fn
  moreover have "Func_flush c \<noteq> flush_empty_fn" using assms(1) by (simp add: safe_config_def)
  ultimately show ?thesis
    using pmem_flush_sent [OF _ assms(2-4)] by (auto simp: flushed_def sent_def)
next
  case predrain_fence_empty_fn
  then have "Func_flush c = flush_clflush_fn" using assms(1) by (simp add: safe_config_def)
  then show ?thesis
    using flush_clflush_dur [OF not_wb_stores [OF assms(3,4)] assms(2-4)]
    by (simp add: flushed_def pmem_flush_def)
qed

lemma pmem_memmove_nodrain_flushed:
  assumes "safe_config c" "dest + len < 2 ^ 64" "src + len < 2 ^ 64"
    "dest \<le> x" "x < dest + len" "src \<noteq> dest"
  shows "flushed c (pmem_memmove_nodrain c m dest src len) x"
proof -
  have nf: "Func_flush c \<noteq> flush_empty_fn" using assms(1) by (simp add: safe_config_def)
  have small: "flushed c (pmem_flush c (libc_memmove m dest src len) dest len) x"
    using pmem_flush_stores_flushed [OF assms(1), of dest "rd (cur m) src len"] assms(2,4,5)
    by (simp add: libc_memmove_def)
  have nt: "flushed c (predrain_fence_sfence m') x" if "sent m' x" for m'
    using sent_sfence [OF that] by (simp add: flushed_def)
  have fwd: "sent (memmove_movnt_fwd c m dest src len) x" if "wsub dest src \<ge> len"
  proof -
    have "fwd_ok dest src len"
      using that assms(2,3) wsub_exact [of src dest] by (cases "src \<le> dest") (auto simp: fwd_ok_def)
    then show ?thesis
      using memmove_movnt_fwd_prog [OF _ assms(2)] nf assms(4,5) by (simp add: fwd_prog_def)
  qed
  have bwd: "sent (memmove_movnt_bwd c m dest src len) x" if "\<not> wsub dest src \<ge> len"
  proof -
    have "src \<le> dest"
      using that assms(2,3) wsub_wraps [of dest src] by (cases "src \<le> dest") auto
    then show ?thesis
      using memmove_movnt_bwd_prog [OF _ assms(2)] nf assms(4,5) by (simp add: bwd_prog_def)
  qed
  have "len \<noteq> 0" using assms(4,5) by auto
  then have "flushed c (memmove_nodrain_movnt c m dest src len) x"
    using small nt [OF fwd] nt [OF bwd] assms(6) by (auto simp: memmove_nodrain_movnt_def)
  then show ?thesis
    using small by (simp add: pmem_memmove_nodrain_def memmove_nodrain_normal_def split: move_fn.split)
qed

subsection \<open>memset\<close>

text \<open>Progress of an ascending write: \<open>bs\<close> is in place at \<open>dest\<close> and, unless flushing is off, sent.\<close>

definition set_prog :: "libpmem \<Rightarrow> mach \<Rightarrow> addr \<Rightarrow> byte list \<Rightarrow> mach \<Rightarrow> bool" where
  "set_prog c m0 dest bs m \<longleftrightarrow> moved m0 dest bs m \<and>
     (Func_flush c \<noteq> flush_empty_fn \<longrightarrow> (\<forall>x. dest \<le> x \<and> x < dest + length bs \<longrightarrow> sent m x))"

definition fills :: "byte \<Rightarrow> nat \<Rightarrow> (mach \<Rightarrow> addr \<Rightarrow> addr \<Rightarrow> mach) \<Rightarrow> bool" where
  "fills b w body \<longleftrightarrow> (\<forall>m d s. moved m d (replicate w b) (body m d s)) \<and> sends w body"

lemma set_prog_0: "set_prog c m dest [] m"
  by (auto simp: set_prog_def)

lemma set_prog_step:
  assumes "set_prog c m0 dest bs m" "moved m (dest + length bs) cs m'"
    "Func_flush c \<noteq> flush_empty_fn \<Longrightarrow>
       \<forall>x. dest + length bs \<le> x \<and> x < dest + length bs + length cs \<longrightarrow> sent m' x"
  shows "set_prog c m0 dest (bs @ cs) m'"
proof -
  have "sent m' x" if "Func_flush c \<noteq> flush_empty_fn" "dest \<le> x" "x < dest + length (bs @ cs)" for x
  proof (cases "x < dest + length bs")
    case True
    with that assms(1) have "sent m x" by (simp add: set_prog_def)
    then show ?thesis using True by (intro moved_sent [OF assms(2)]) auto
  qed (use assms(3) that in simp)
  then show ?thesis using moved_append [OF _ assms(2)] assms(1) by (simp add: set_prog_def)
qed

lemma set_prog_loop:
  "fills b w body \<Longrightarrow> set_prog c m0 dest (replicate k b) m \<Longrightarrow>
   set_prog c m0 dest (replicate (k + w * cnt) b) (fwd_loop body w cnt m (dest + k) s)"
proof (induction cnt arbitrary: k m s)
  case (Suc cnt)
  let ?m1 = "body m (dest + k) s"
  have "set_prog c m0 dest (replicate k b @ replicate w b) ?m1"
    using Suc.prems by (intro set_prog_step) (auto simp: fills_def sends_def)
  then have "set_prog c m0 dest (replicate (k + w) b) ?m1" by (simp add: replicate_add)
  then show ?case using Suc.IH [OF Suc.prems(1), of "k + w" ?m1] by (simp add: ac_simps)
qed simp

lemma set_prog_bytes:
  assumes "set_prog c m0 dest (replicate k b) m" "dest + (k + cnt) < 2 ^ 64"
  shows "set_prog c m0 dest (replicate (k + cnt) b)
    (pmem_flush c (libc_memset m (dest + k) b cnt) (dest + k) cnt)"
proof -
  have lt: "(dest + k) + cnt < 2 ^ 64" using assms(2) by linarith
  let ?m' = "pmem_flush c (libc_memset m (dest + k) b cnt) (dest + k) cnt"
  have "moved m (dest + k) (replicate cnt b) ?m'"
    unfolding libc_memset_def by (rule moved_quiet [OF moved_stores quiet_pmem_flush [OF lt]])
  then have "set_prog c m0 dest (replicate k b @ replicate cnt b) ?m'"
    using assms(1) lt by (intro set_prog_step) (auto intro: pmem_flush_sent)
  then show ?thesis by (simp add: replicate_add)
qed

lemma fills_xmm: "fills b 16 (set_xmm b)" and fills_dword: "fills b 4 (set_dword b)"
  using moved_StoreNT [of _ _ "replicate 16 b"] moved_StoreNT [of _ _ "replicate 4 b"]
  by (auto simp: fills_def sends_def set_xmm_def set_dword_def stream_si128_def stream_si32_def
      sent_def emit.simps)

lemma fills_chunk: "fills b 128 (set_chunk b)"
proof -
  have "set_prog libpmem_static m d (replicate (0 + 16 * 8) b) (fwd_loop (set_xmm b) 16 8 m (d + 0) s)"
    for m d s by (rule set_prog_loop [OF fills_xmm]) (simp add: set_prog_0)
  then show ?thesis
    by (simp add: fills_def sends_def set_chunk_def set_prog_def libpmem_static_def)
qed

lemma set_last_prog:
  assumes "dest + (k + len) < 2 ^ 64" "set_prog c m0 dest (replicate k b) m"
  shows "set_prog c m0 dest (replicate (k + len) b) (set_last c b m (dest + k) len)"
proof -
  let ?k = "k + 4 * (len div 4)"
  have l: "set_prog c m0 dest (replicate ?k b) (fwd_loop (set_dword b) 4 (len div 4) m (dest + k) s)" for s
    by (rule set_prog_loop [OF fills_dword assms(2)])
  have e: "?k + len mod 4 = k + len" by simp
  show ?thesis
    using l [of "dest + k"] set_prog_bytes [OF l, of "len mod 4" "dest + k"] assms e
    by (cases "len = 0"; cases "len mod 4 = 0"; cases "len div 4 = 0")
      (auto simp: set_last_def mask_consts Let_def add.assoc)
qed

lemma set_tail_prog:
  assumes "dest + (k + len) < 2 ^ 64" "set_prog c m0 dest (replicate k b) m"
  shows "set_prog c m0 dest (replicate (k + len) b) (set_tail c b m (dest + k) len)"
proof -
  let ?m1 = "fwd_loop (set_xmm b) 16 (len div 16) m (dest + k) (dest + k)"
  have "set_prog c m0 dest (replicate (k + 16 * (len div 16)) b) ?m1"
    by (rule set_prog_loop [OF fills_xmm assms(2)])
  then show ?thesis
    using set_last_prog [of dest "k + 16 * (len div 16)" "len mod 16" c m0 b ?m1] assms
    by (cases "len = 0") (auto simp: set_tail_def mask_consts Let_def add.assoc)
qed

lemma set_chunks_prog:
  assumes "dest + (k + len) < 2 ^ 64" "set_prog c m0 dest (replicate k b) m"
  shows "set_prog c m0 dest (replicate (k + len) b) (set_chunks c b m (dest + k) len)"
proof -
  let ?m1 = "fwd_loop (set_chunk b) 128 (len div 128) m (dest + k) (dest + k)"
  have "set_prog c m0 dest (replicate (k + 128 * (len div 128)) b) ?m1"
    by (rule set_prog_loop [OF fills_chunk assms(2)])
  then show ?thesis
    using set_tail_prog [of dest "k + 128 * (len div 128)" "len mod 128" c m0 b ?m1] assms
    by (cases "len div 128 = 0") (auto simp: set_chunks_def mask_consts CHUNK_SIZE_def Let_def add.assoc)
qed

lemma memset_movnt_prog:
  assumes "dest + n < 2 ^ 64" "\<not> n < Movnt_threshold c"
  shows "\<exists>m'. memset_nodrain_movnt c m dest v n = predrain_fence_sfence m' \<and>
    set_prog c m dest (replicate n (word_of_int v)) m'"
proof -
  define cnt where "cnt = (if 64 - dest mod 64 > n then n else 64 - dest mod 64)"
  let ?b = "word_of_int v :: byte"
  let ?m1 = "pmem_flush c (libc_memset m dest ?b cnt) dest cnt"
  have le: "cnt \<le> n" by (simp add: cnt_def)
  have "set_prog c m dest (replicate (0 + cnt) ?b) (pmem_flush c (libc_memset m (dest + 0) ?b cnt) (dest + 0) cnt)"
    using le assms(1) by (intro set_prog_bytes) (auto simp: set_prog_0)
  then have "set_prog c m dest (replicate (cnt + (n - cnt)) ?b) (set_chunks c ?b ?m1 (dest + cnt) (n - cnt))"
    using le assms(1) by (intro set_chunks_prog) auto
  moreover have "set_prog c m dest (replicate (0 + n) ?b) (set_chunks c ?b m (dest + 0) n)"
    using assms(1) by (intro set_chunks_prog) (auto simp: set_prog_0)
  ultimately show ?thesis
    using le assms(2)
    by (auto simp: memset_nodrain_movnt_def mask_consts Let_def FLUSH_ALIGN_def simp flip: cnt_def)
qed

lemma quiet_sfence: "quiet m (predrain_fence_sfence m)"
  unfolding quiet_def predrain_fence_sfence_def by (intro exI [of _ "[SFENCE]"]) simp

lemma pmem_memset_nodrain_moved:
  assumes "dest + len < 2 ^ 64"
  shows "moved m dest (replicate len (word_of_int v)) (pmem_memset_nodrain c m dest v len)"
proof -
  have small: "moved m dest (replicate len (word_of_int v))
      (pmem_flush c (libc_memset m dest (word_of_int v) len) dest len)"
    unfolding libc_memset_def by (rule moved_quiet [OF moved_stores quiet_pmem_flush [OF assms]])
  moreover have "moved m dest (replicate len (word_of_int v)) (memset_nodrain_movnt c m dest v len)"
  proof (cases "len < Movnt_threshold c")
    case True
    then show ?thesis using small by (simp add: memset_nodrain_movnt_def Let_def)
  next
    case False
    then obtain m' where "memset_nodrain_movnt c m dest v len = predrain_fence_sfence m'"
      "set_prog c m dest (replicate len (word_of_int v)) m'" using memset_movnt_prog [OF assms] by blast
    then show ?thesis using moved_quiet [OF _ quiet_sfence] by (simp add: set_prog_def)
  qed
  ultimately show ?thesis
    by (simp add: pmem_memset_nodrain_def memset_nodrain_normal_def split: move_fn.split)
qed

lemma pmem_memset_nodrain_flushed:
  assumes "safe_config c" "dest + len < 2 ^ 64" "dest \<le> x" "x < dest + len"
  shows "flushed c (pmem_memset_nodrain c m dest v len) x"
proof -
  have nf: "Func_flush c \<noteq> flush_empty_fn" using assms(1) by (simp add: safe_config_def)
  have small: "flushed c (pmem_flush c (libc_memset m dest (word_of_int v) len) dest len) x"
    using pmem_flush_stores_flushed [OF assms(1), of dest "replicate len (word_of_int v)"] assms(2-4)
    by (simp add: libc_memset_def)
  moreover have "flushed c (memset_nodrain_movnt c m dest v len) x"
  proof (cases "len < Movnt_threshold c")
    case True
    then show ?thesis using small by (simp add: memset_nodrain_movnt_def Let_def)
  next
    case False
    then obtain m' where "memset_nodrain_movnt c m dest v len = predrain_fence_sfence m'"
      "set_prog c m dest (replicate len (word_of_int v)) m'" using memset_movnt_prog [OF assms(2)] by blast
    then show ?thesis using sent_sfence nf assms(3,4) by (simp add: set_prog_def flushed_def)
  qed
  ultimately show ?thesis
    by (simp add: pmem_memset_nodrain_def memset_nodrain_normal_def split: move_fn.split)
qed

subsection \<open>The contract of a persistent-memory device\<close>

lemma flushed_emits: "flushed c m a \<Longrightarrow> a \<notin> fst ` wset is \<Longrightarrow> flushed c (emits m is) a"
  by (auto simp: flushed_def dur_emits wb_emits)

lemma pmem_drain_dur: "flushed c m a \<Longrightarrow> dur (pmem_drain c m) a"
  by (cases "Func_predrain_fence c")
    (auto simp: flushed_def pmem_drain_def predrain_fence_empty_def predrain_fence_sfence_def dur_def
      emit.simps)

lemma safe_config_pmem_init:
  "safe_config (pmem_init cpu env) \<longleftrightarrow> env ''PMEM_NO_FLUSH'' \<noteq> Some ''1''"
  by (auto simp: safe_config_def pmem_init_def pmem_get_cpuinfo_def libpmem_static_def Let_def
      split: option.splits)

text \<open>
  What a client of libpmem relies on: a copy puts the bytes in place and stores nowhere else, what
  it wrote stays flushed until it is stored to again, and after a drain every flushed byte is
  durable.
\<close>

locale pm_device =
  fixes copy :: "mach \<Rightarrow> addr \<Rightarrow> addr \<Rightarrow> nat \<Rightarrow> mach"
    and drain :: "mach \<Rightarrow> mach"
    and is_flushed :: "mach \<Rightarrow> addr \<Rightarrow> bool"
  assumes copy_moved: "dest + len < 2 ^ 64 \<Longrightarrow> src + len < 2 ^ 64 \<Longrightarrow>
      moved m dest (rd (cur m) src len) (copy m dest src len)"
    and copy_flushed: "dest + len < 2 ^ 64 \<Longrightarrow> src + len < 2 ^ 64 \<Longrightarrow> src \<noteq> dest \<Longrightarrow>
      dest \<le> x \<Longrightarrow> x < dest + len \<Longrightarrow> is_flushed (copy m dest src len) x"
    and flushed_keep: "is_flushed m a \<Longrightarrow> a \<notin> fst ` wset is \<Longrightarrow> is_flushed (emits m is) a"
    and drain_quiet: "quiet m (drain m)"
    and drain_dur: "is_flushed m a \<Longrightarrow> dur (drain m) a"
begin

lemma copy_drain_durable:
  assumes "dest + len < 2 ^ 64" "src + len < 2 ^ 64" "src \<noteq> dest" "dest \<le> x" "x < dest + len"
  shows "dur (drain (copy m dest src len)) x"
  using drain_dur [OF copy_flushed [OF assms]] .

lemma copy_drain_cur:
  assumes "dest + len < 2 ^ 64" "src + len < 2 ^ 64"
  shows "cur (drain (copy m dest src len)) = wr (cur m) dest (rd (cur m) src len)"
  using quiet_cur [OF drain_quiet] moved_cur [OF copy_moved [OF assms]] by simp

end

text \<open>libpmem in a safe configuration keeps that contract.\<close>

locale safe_libpmem =
  fixes c :: libpmem
  assumes safe: "safe_config c"

sublocale safe_libpmem \<subseteq> pm_device "pmem_memcpy_nodrain c" "pmem_drain c" "flushed c"
  using safe
  by unfold_locales
    (simp_all add: pmem_memcpy_nodrain_def pmem_memmove_nodrain_moved pmem_memmove_nodrain_flushed
      flushed_emits quiet_pmem_drain pmem_drain_dur)

interpretation default_libpmem: safe_libpmem "pmem_init cpu (\<lambda>_. None)" for cpu
  by unfold_locales (simp add: safe_config_pmem_init)

subsection \<open>What a run of instructions may touch\<close>

definition touches :: "mach \<Rightarrow> mach \<Rightarrow> addr set \<Rightarrow> bool" where
  "touches m m' S \<longleftrightarrow> (\<exists>is. m' = emits m is \<and> fst ` wset is \<subseteq> S)"

lemma touches_refl [simp]: "touches m m S"
  unfolding touches_def by (intro exI [of _ "[]"]) simp

lemma touches_trans: "touches m m1 S \<Longrightarrow> touches m1 m2 S \<Longrightarrow> touches m m2 S"
  unfolding touches_def
  by (elim exE conjE, rule_tac x = "is @ isa" in exI) (simp add: image_Un)

lemma touches_mono: "touches m m' S \<Longrightarrow> S \<subseteq> T \<Longrightarrow> touches m m' T"
  unfolding touches_def by blast

lemma touches_quiet: "quiet m m' \<Longrightarrow> touches m m' S"
  by (auto simp: quiet_def touches_def)

lemma touches_moved: "moved m d bs m' \<Longrightarrow> {d..<d + length bs} \<subseteq> S \<Longrightarrow> touches m m' S"
  unfolding moved_def touches_def by (elim exE conjE, rule exI) (auto simp: subset_iff)

lemma touches_cur: "touches m m' S \<Longrightarrow> a \<notin> S \<Longrightarrow> cur m' a = cur m a"
  by (auto simp: touches_def intro!: cur_emits_frame)

lemma touches_sp: "touches m m' S \<Longrightarrow> sp m' = sp m"
  by (auto simp: touches_def)

lemma touches_dur: "touches m m' S \<Longrightarrow> a \<notin> S \<Longrightarrow> dur m a \<Longrightarrow> dur m' a"
  by (auto simp: touches_def intro!: dur_emits)

lemma touches_crash:
  "touches m m' S \<Longrightarrow> crash_during m m' img \<Longrightarrow> a \<notin> S \<Longrightarrow> dur m a \<Longrightarrow> img a = cur m a"
  by (auto simp: touches_def intro!: crash_during_untouched)

lemma touches_split:
  "touches m m1 S \<Longrightarrow> touches m1 m2 T \<Longrightarrow> crash_during m m2 img \<Longrightarrow>
   crash_during m m1 img \<or> crash_during m1 m2 img"
  unfolding touches_def by (elim exE conjE) (rule crash_during_split)

lemma wfm_touches: "touches m m' S \<Longrightarrow> wfm m \<Longrightarrow> wfm m'"
  by (auto simp: touches_def)

lemma moved_sp: "moved m d bs m' \<Longrightarrow> sp m' = sp m"
  by (auto simp: moved_def)

lemma quiet_sp: "quiet m m' \<Longrightarrow> sp m' = sp m"
  by (auto simp: quiet_def)

lemma sp_stores [simp]: "sp (stores m a bs) = sp m"
  using moved_stores moved_sp by blast

lemma sp_pmem_drain [simp]: "sp (pmem_drain c m) = sp m"
  using quiet_pmem_drain quiet_sp by blast

lemma moved_memcpy:
  "d + n < 2 ^ 64 \<Longrightarrow> s + n < 2 ^ 64 \<Longrightarrow> moved m d (rd (cur m) s n) (pmem_memcpy_nodrain c m d s n)"
  by (simp add: pmem_memcpy_nodrain_def pmem_memmove_nodrain_moved)

lemma flushed_touches: "touches m m' S \<Longrightarrow> flushed c m x \<Longrightarrow> x \<notin> S \<Longrightarrow> flushed c m' x"
  by (auto simp: touches_def intro!: flushed_emits)

lemma touches_stores: "{a..<a + length bs} \<subseteq> S \<Longrightarrow> touches m (stores m a bs) S"
  using moved_stores touches_moved by blast

lemma touches_drain: "touches m (pmem_drain c m) S"
  using quiet_pmem_drain touches_quiet by blast

lemma touches_memcpy:
  assumes "d + n < 2 ^ 64" "s + n < 2 ^ 64" "{d..<d + n} \<subseteq> S"
  shows "touches m (pmem_memcpy_nodrain c m d s n) S"
  using touches_moved [OF moved_memcpy [OF assms(1,2)]] assms(3) by simp

lemma rd_memcpy:
  assumes "d + n < 2 ^ 64" "s + n < 2 ^ 64" "k = n"
  shows "rd (cur (pmem_memcpy_nodrain c m d s n)) d k = rd (cur m) s n"
  using moved_cur [OF moved_memcpy [OF assms(1,2)]] assms(3) by (simp add: rd_wr_same)

lemma flushed_memcpy:
  assumes "safe_config c" "d + n < 2 ^ 64" "s + n < 2 ^ 64" "disj s n d n" "x \<in> {d..<d + n}"
  shows "flushed c (pmem_memcpy_nodrain c m d s n) x"
proof -
  have "s \<noteq> d" using assms(4,5) by (auto simp: disj_def)
  then show ?thesis
    using pmem_memmove_nodrain_flushed [OF assms(1-3)] assms(5) by (simp add: pmem_memcpy_nodrain_def)
qed

lemma rd_touches: "touches m m' S \<Longrightarrow> {a..<a + n} \<inter> S = {} \<Longrightarrow> rd (cur m') a n = rd (cur m) a n"
  by (rule rd_cong, rule touches_cur) auto

lemma rd_stores: "n = length bs \<Longrightarrow> rd (cur (stores m a bs)) a n = bs"
  using moved_cur [OF moved_stores] by (simp add: rd_wr_same)

subsection \<open>Properties\<close>

text \<open>A machine with nothing in flight, and the library as a processor with \<open>clwb\<close> sets it up.\<close>

definition quiescent :: "memory \<Rightarrow> addr \<Rightarrow> mach" where
  "quiescent mem s = \<lparr>cur = mem, pd = (\<lambda>a. {mem a}), wb = (\<lambda>_. False), tr = [], sp = s\<rparr>"

lemma dur_quiescent [simp]: "dur (quiescent mem s) a"
  by (simp add: dur_def quiescent_def)

lemma quiescent_simps [simp]: "cur (quiescent mem s) = mem" "sp (quiescent mem s) = s"
  "wb (quiescent mem s) = (\<lambda>_. False)" "pd (quiescent mem s) = (\<lambda>a. {mem a})"
  by (simp_all add: quiescent_def)

lemma wfm_quiescent [simp]: "wfm (quiescent mem s)"
  by (simp add: wfm_def quiescent_def)

definition sample_lib :: libpmem where
  "sample_lib = pmem_init \<lparr>is_cpu_clflush_present = True, is_cpu_clflushopt_present = False,
     is_cpu_clwb_present = True\<rparr> (\<lambda>_. None)"

lemma sample_lib_safe: "safe_config sample_lib"
  by (simp add: sample_lib_def safe_config_pmem_init)

text \<open>
  C11. \<open>pmem_memmove_nodrain\<close> is a correct \<open>memmove\<close>: in every configuration, on both sides of the
  movnt threshold and whichever way source and destination overlap, the destination ends up with the
  bytes the source had before and nothing else changes.
\<close>

theorem pmem_memmove_correct:
  assumes "dest + len < 2 ^ 64" "src + len < 2 ^ 64"
  shows "cur (pmem_memmove_nodrain c m dest src len) = wr (cur m) dest (rd (cur m) src len)"
  by (rule moved_cur [OF pmem_memmove_nodrain_moved [OF assms]])

theorem pmem_memmove_correct_witness:
  "cur (pmem_memmove_nodrain sample_lib (quiescent (\<lambda>a. of_nat a) 0) 1100 1000 500) =
     wr (\<lambda>a. of_nat a) 1100 (rd (\<lambda>a. of_nat a) 1000 500)"
  using pmem_memmove_correct [of 1100 500 1000 sample_lib "quiescent (\<lambda>a. of_nat a) 0"] by simp

text \<open>
  C12. \<open>pmem_memmove_persist\<close> makes what it wrote durable in every configuration that flushes, provided
  source and destination differ (for equal pointers the movnt variant returns at once).
\<close>

theorem pmem_memmove_persist_durable:
  assumes "safe_config c" "dest + len < 2 ^ 64" "src + len < 2 ^ 64" "src \<noteq> dest"
    "dest \<le> x" "x < dest + len"
  shows "dur (pmem_memmove_persist c m dest src len) x"
  unfolding pmem_memmove_persist_def
  by (rule pmem_drain_dur [OF pmem_memmove_nodrain_flushed [OF assms(1-3,5,6,4)]])

theorem pmem_memmove_persist_durable_witness:
  "dur (pmem_memmove_persist sample_lib (quiescent (\<lambda>a. of_nat a) 0) 1100 1000 500) 1234"
  using pmem_memmove_persist_durable [OF sample_lib_safe, of 1100 500 1000 1234] by simp

text \<open>
  C13. \<open>pmem_memset_persist\<close> fills the range with the low byte of its argument, changes nothing else,
  and the range is durable afterwards in every configuration that flushes.
\<close>

theorem pmem_memset_persist_correct:
  assumes "dest + len < 2 ^ 64"
  shows "cur (pmem_memset_persist c m dest v len) = wr (cur m) dest (replicate len (word_of_int v)) \<and>
    (safe_config c \<longrightarrow> (\<forall>x. dest \<le> x \<and> x < dest + len \<longrightarrow> dur (pmem_memset_persist c m dest v len) x))"
  using moved_cur [OF pmem_memset_nodrain_moved [OF assms]] pmem_memset_nodrain_flushed [OF _ assms]
  by (auto simp: pmem_memset_persist_def intro: pmem_drain_dur)

theorem pmem_memset_persist_correct_witness:
  "cur (pmem_memset_persist sample_lib (quiescent (\<lambda>_. 7) 0) 100 (-1) 300) =
     wr (\<lambda>_. 7) 100 (replicate 300 (word_of_int (-1)))"
  using pmem_memset_persist_correct [of 100 300 sample_lib "quiescent (\<lambda>_. 7) 0" "-1"] by simp

text \<open>
  \<open>pmem_init\<close> ends in a configuration that flushes, whatever the processor offers and whatever the
  other variables say, exactly when \<open>PMEM_NO_FLUSH\<close> is not \<open>1\<close>.
\<close>

theorem pmem_init_safe: "safe_config (pmem_init cpu env) \<longleftrightarrow> env ''PMEM_NO_FLUSH'' \<noteq> Some ''1''"
  by (rule safe_config_pmem_init)

text \<open>
  \<open>pmem_persist\<close> makes every byte of its range durable: the flush loop reaches each cache line
  of the range, the partial ones included, and the drain completes it. (With \<open>clflush\<close> and no fence
  the byte must not still be on its way from an earlier non-temporal store.)
\<close>

theorem pmem_persist_durable:
  assumes "safe_config c" "a + len < 2 ^ 64" "a \<le> x" "x < a + len"
    "Func_predrain_fence c = predrain_fence_sfence_fn \<or> \<not> wb m x"
  shows "dur (pmem_persist c m a len) x"
proof -
  have nf: "Func_flush c \<noteq> flush_empty_fn" using assms(1) by (simp add: safe_config_def)
  have "flushed c (pmem_flush c m a len) x"
  proof (cases "Func_predrain_fence c = predrain_fence_sfence_fn")
    case True
    then show ?thesis using pmem_flush_sent [OF nf assms(2-4)] by (auto simp: flushed_def sent_def)
  next
    case False
    then have "Func_flush c = flush_clflush_fn" "\<not> wb m x" using assms(1,5) by (auto simp: safe_config_def)
    then show ?thesis
      using flush_clflush_dur [OF _ assms(2-4)] by (simp add: flushed_def pmem_flush_def)
  qed
  then show ?thesis unfolding pmem_persist_def by (rule pmem_drain_dur)
qed

theorem pmem_persist_durable_witness:
  "dur (pmem_persist sample_lib (stores (quiescent (\<lambda>_. 0) 0) 60 [1, 2, 3, 4, 5, 6, 7, 8]) 60 8) 65"
  using pmem_persist_durable [OF sample_lib_safe, of 60 8 65]
  by (simp add: sample_lib_def pmem_init_def pmem_get_cpuinfo_def Let_def)

lemma memmove_persist_emits:
  assumes "dest + len < 2 ^ 64" "src + len < 2 ^ 64"
  shows "\<exists>is. pmem_memmove_persist c m dest src len = emits m is \<and> wset is \<subseteq> block dest (rd (cur m) src len)"
proof -
  let ?bs = "rd (cur m) src len"
  obtain "is" where i: "pmem_memmove_nodrain c m dest src len = emits m is" "wset is \<subseteq> block dest ?bs"
    using pmem_memmove_nodrain_moved [OF assms, of m c] unfolding moved_def by blast
  obtain js where "pmem_memmove_persist c m dest src len = emits (emits m is) js" "wset js = {}"
    using quiet_pmem_drain [of "emits m is" c] i(1) unfolding quiet_def pmem_memmove_persist_def by metis
  then show ?thesis using i(2) by (intro exI [of _ "is @ js"]) simp
qed

text \<open>
  Copies stay inside their destination on the medium too: after \<open>pmem_memmove_persist\<close> a power
  failure finds, outside the destination, only values that were possible before.
\<close>

theorem pmem_memmove_persist_confined:
  assumes "wfm m" "dest + len < 2 ^ 64" "src + len < 2 ^ 64"
    "crash_img (pmem_memmove_persist c m dest src len) img" "x < dest \<or> dest + len \<le> x"
  shows "img x \<in> pd m x"
proof -
  obtain "is" where i: "pmem_memmove_persist c m dest src len = emits m is"
    "wset is \<subseteq> block dest (rd (cur m) src len)" using memmove_persist_emits [OF assms(2,3)] by metis
  have "\<not> (dest \<le> x \<and> x < dest + len)" using assms(5) by linarith
  then have "{b. (x, b) \<in> wset is} = {}" using i(2) by (auto simp: block_def)
  then have "pd (emits m is) x \<subseteq> pd m x" using pd_emits_subset [OF assms(1), of "is" x] by simp
  then show ?thesis using assms(4) i(1) by (auto simp: crash_img_def)
qed

theorem pmem_memmove_persist_confined_witness:
  "cur (pmem_memmove_persist sample_lib (quiescent (\<lambda>_. 7) 0) 1100 1000 500) 99 \<in> {7}"
proof -
  let ?m = "quiescent (\<lambda>_. 7) 0"
  let ?m' = "pmem_memmove_persist sample_lib ?m 1100 1000 500"
  obtain "is" where "?m' = emits ?m is" using memmove_persist_emits [of 1100 500 1000 sample_lib ?m] by auto
  then have "wfm ?m'" by simp
  then have "crash_img ?m' (cur ?m')" by (simp add: crash_img_def wfm_def)
  then show ?thesis
    using pmem_memmove_persist_confined [of ?m 1100 500 1000 sample_lib "cur ?m'" 99]
    by simp
qed

end
