(* ===== verification/Libpmem_Map.thy ===== *)
theory Libpmem_Map
  imports Libpmem
begin

text \<open>
  The file side of \<open>libpmem/pmem.c\<close>: \<open>pmem_map_fileU\<close> with all its argument checks and error
  paths, \<open>pmem_unmap\<close>, \<open>pmem_msync\<close> and \<open>pmem_is_pmem\<close>. Files are a map from paths to
  contents. What the operating system decides on its own (whether an open, an allocation or a
  mapping fails, and where it maps) is an argument, \<open>os_env\<close>, of the call.
\<close>

definition PMEM_FILE_CREATE :: nat where "PMEM_FILE_CREATE = 1"
definition PMEM_FILE_EXCL :: nat where "PMEM_FILE_EXCL = 2"
definition PMEM_FILE_SPARSE :: nat where "PMEM_FILE_SPARSE = 4"
definition PMEM_FILE_TMPFILE :: nat where "PMEM_FILE_TMPFILE = 8"

definition PMEM_FILE_ALL_FLAGS :: nat where
  "PMEM_FILE_ALL_FLAGS = PMEM_FILE_CREATE OR PMEM_FILE_EXCL OR PMEM_FILE_SPARSE OR PMEM_FILE_TMPFILE"

definition PMEM_DAX_VALID_FLAGS :: nat where
  "PMEM_DAX_VALID_FLAGS = PMEM_FILE_CREATE OR PMEM_FILE_SPARSE"

lemmas file_flags = PMEM_FILE_CREATE_def PMEM_FILE_EXCL_def PMEM_FILE_SPARSE_def
  PMEM_FILE_TMPFILE_def PMEM_FILE_ALL_FLAGS_def PMEM_DAX_VALID_FLAGS_def

datatype errno = EINVAL | EEXIST | ENOENT | EOTHER int

type_synonym files = "string \<Rightarrow> byte list option"

text \<open>
  \<open>env_dax\<close>: the path is a Device DAX of this size (\<open>Some (-1)\<close>: its size cannot be read).
  \<open>env_open\<close>, \<open>env_alloc\<close>: an error of \<open>open\<close> and of \<open>ftruncate\<close> or \<open>posix_fallocate\<close> beyond
  those the state of the files explains. \<open>env_stat\<close>: \<open>stat\<close> works. \<open>env_map\<close>: where \<open>util_map\<close> maps.
  \<open>env_tmpfile\<close>: the library was compiled with \<open>USE_O_TMPFILE\<close>.
\<close>

record os_env =
  env_dax :: "int option"
  env_open :: "errno option"
  env_alloc :: "errno option"
  env_stat :: bool
  env_map :: "errno + addr"
  env_tmpfile :: bool

definition has_flag :: "nat \<Rightarrow> nat \<Rightarrow> bool" where
  "has_flag flags f \<longleftrightarrow> flags AND f \<noteq> 0"

text \<open>
  \<open>open\<close> in \<open>O_RDWR\<close> mode. A temporary file has no name, so it leaves the files as they are and its
  contents, empty at first, are the second component of the result.
\<close>

definition os_open :: "os_env \<Rightarrow> files \<Rightarrow> string \<Rightarrow> bool \<Rightarrow> bool \<Rightarrow> bool \<Rightarrow>
    errno + files \<times> byte list" where
  "os_open env fs path creat excl tmp =
     (case env_open env of
        Some e \<Rightarrow> Inl e
      | None \<Rightarrow>
          if tmp then Inr (fs, [])
          else if env_dax env \<noteq> None then Inr (fs, [])
          else (case fs path of
            Some bs \<Rightarrow> if creat \<and> excl then Inl EEXIST else Inr (fs, bs)
          | None \<Rightarrow> if creat then Inr (fs(path \<mapsto> []), []) else Inl ENOENT))"

text \<open>\<open>ftruncate\<close> sets the length; \<open>posix_fallocate\<close> only makes a file longer.\<close>

definition os_ftruncate :: "byte list \<Rightarrow> nat \<Rightarrow> byte list" where
  "os_ftruncate bs len = take len bs @ replicate (len - length bs) 0"

definition os_posix_fallocate :: "byte list \<Rightarrow> nat \<Rightarrow> byte list" where
  "os_posix_fallocate bs len = bs @ replicate (len - length bs) 0"

text \<open>A mapping makes the file's bytes readable at an address; what is in the file is durable.\<close>

definition map_in :: "mach \<Rightarrow> addr \<Rightarrow> byte list \<Rightarrow> mach" where
  "map_in m a bs = m\<lparr>cur := wr (cur m) a bs,
     pd := (\<lambda>x. if a \<le> x \<and> x < a + length bs then {bs ! (x - a)} else pd m x),
     wb := (\<lambda>x. (\<not> (a \<le> x \<and> x < a + length bs)) \<and> wb m x)\<rparr>"

subsection \<open>pmem_is_pmem\<close>

record is_pmem_statics =
  once :: nat
  init :: nat

definition is_pmem_always :: "addr \<Rightarrow> nat \<Rightarrow> int" where "is_pmem_always a len = 1"
definition is_pmem_never :: "addr \<Rightarrow> nat \<Rightarrow> int" where "is_pmem_never a len = 0"

text \<open>
  The initialisation loop as one thread runs it: from 0 it installs \<open>is_pmem_always\<close> and sets 2; at
  1 another thread is initialising and the loop spins (\<open>None\<close>); at 2 there is nothing to do.
\<close>

definition pmem_is_pmem_init :: "libpmem \<Rightarrow> is_pmem_statics \<Rightarrow> (libpmem \<times> is_pmem_statics) option" where
  "pmem_is_pmem_init c st =
     (if init st = 2 then Some (c, st)
      else if init st = 0 then Some (c\<lparr>Func_is_pmem := is_pmem_always_fn\<rparr>, st\<lparr>init := 2\<rparr>)
      else None)"

text \<open>
  \<open>detect\<close> stands for \<open>is_pmem_detect\<close>, which asks the tracked Device DAX ranges; it is only
  reached where the initialisation above did not run.
\<close>

definition pmem_is_pmem :: "(addr \<Rightarrow> nat \<Rightarrow> int) \<Rightarrow> libpmem \<Rightarrow> is_pmem_statics \<Rightarrow> addr \<Rightarrow> nat \<Rightarrow>
    (int \<times> libpmem \<times> is_pmem_statics) option" where
  "pmem_is_pmem detect c st a len =
     (case (if once st = 0 then
              map_option (\<lambda>(c, st). (c, st\<lparr>once := once st + 1\<rparr>)) (pmem_is_pmem_init c st)
            else Some (c, st)) of
        None \<Rightarrow> None
      | Some (c, st) \<Rightarrow>
          Some (case Func_is_pmem c of
                  is_pmem_never_fn \<Rightarrow> is_pmem_never a len
                | is_pmem_always_fn \<Rightarrow> is_pmem_always a len
                | is_pmem_detect_fn \<Rightarrow> detect a len, c, st))"

subsection \<open>pmem_map_file\<close>

text \<open>
  The checks on the arguments, in order. The result is the pair of flags and length the rest of
  the function goes on with: for a Device DAX both become 0.
\<close>

definition map_file_checks :: "os_env \<Rightarrow> nat \<Rightarrow> nat \<Rightarrow> errno + nat \<times> nat" where
  "map_file_checks env len flags =
     (if flags AND wnot PMEM_FILE_ALL_FLAGS \<noteq> 0 then Inl EINVAL
      else
        (case (case env_dax env of
                 Some actual_len \<Rightarrow>
                   if flags AND wnot PMEM_DAX_VALID_FLAGS \<noteq> 0 then None
                   else if actual_len < 0 then None
                   else if len \<noteq> 0 \<and> len \<noteq> nat actual_len then None
                   else Some (0, 0)
               | None \<Rightarrow> Some (flags, len)) of
           None \<Rightarrow> Inl EINVAL
         | Some (flags, len) \<Rightarrow>
             if has_flag flags PMEM_FILE_CREATE \<and> len \<ge> 2 ^ 63 then Inl EINVAL
             else if len \<noteq> 0 \<and> \<not> has_flag flags PMEM_FILE_CREATE then Inl EINVAL
             else if len = 0 \<and> has_flag flags PMEM_FILE_CREATE then Inl EINVAL
             else if has_flag flags PMEM_FILE_TMPFILE \<and> \<not> has_flag flags PMEM_FILE_CREATE
             then Inl EINVAL
             else Inr (flags, len)))"

text \<open>
  The label \<open>err\<close>: the file is closed, and unlinked only when \<open>delete_on_err\<close> is set, which happens
  in the variant without \<open>O_TMPFILE\<close> alone.
\<close>

definition map_file_err :: "files \<Rightarrow> string \<Rightarrow> bool \<Rightarrow> files" where
  "map_file_err fs path delete_on_err = (if delete_on_err then fs(path := None) else fs)"

text \<open>
  The size of the open file and its contents after it: allocation where the file is created, the
  file's own size otherwise. The named file is updated along with its contents.
\<close>

definition map_file_size :: "os_env \<Rightarrow> files \<Rightarrow> string \<Rightarrow> nat \<Rightarrow> nat \<Rightarrow> byte list \<Rightarrow>
    errno + files \<times> byte list \<times> nat" where
  "map_file_size env fs path flags len bs =
     (if has_flag flags PMEM_FILE_CREATE then
        (case env_alloc env of
           Some e \<Rightarrow> Inl e
         | None \<Rightarrow>
             (let bs' = (if has_flag flags PMEM_FILE_SPARSE then os_ftruncate bs len
                         else os_posix_fallocate bs len)
              in Inr (if has_flag flags PMEM_FILE_TMPFILE then fs else fs(path \<mapsto> bs'), bs', len)))
      else if \<not> env_stat env then Inl EINVAL
      else (case env_dax env of
              Some n \<Rightarrow> if n < 0 then Inl EINVAL else Inr (fs, bs, nat n)
            | None \<Rightarrow> Inr (fs, bs, length bs)))"

record mapping_result =
  mr_addr :: addr
  mr_len :: nat
  mr_is_pmem :: int

text \<open>
  \<open>isp\<close> is \<open>pmem_is_pmem\<close> in the library's current state. \<open>mapped_lenp\<close> and \<open>is_pmemp\<close> are never
  NULL in this program, and what is stored through them is part of the result.
\<close>

definition pmem_map_fileU :: "(addr \<Rightarrow> nat \<Rightarrow> int) \<Rightarrow> os_env \<Rightarrow> mach \<Rightarrow> files \<Rightarrow> string \<Rightarrow> nat \<Rightarrow> nat \<Rightarrow>
    mach \<times> files \<times> (errno + mapping_result)" where
  "pmem_map_fileU isp env m fs path len flags =
     (case map_file_checks env len flags of
        Inl e \<Rightarrow> (m, fs, Inl e)
      | Inr (flags, len) \<Rightarrow>
          (case os_open env fs path (has_flag flags PMEM_FILE_CREATE) (has_flag flags PMEM_FILE_EXCL)
                  (has_flag flags PMEM_FILE_TMPFILE) of
             Inl e \<Rightarrow> (m, fs, Inl e)
           | Inr (fs, bs) \<Rightarrow>
               (let delete_on_err = (\<not> env_tmpfile env \<and> \<not> has_flag flags PMEM_FILE_TMPFILE \<and>
                      has_flag flags PMEM_FILE_CREATE \<and> has_flag flags PMEM_FILE_EXCL)
                in case map_file_size env fs path flags len bs of
                     Inl e \<Rightarrow> (m, map_file_err fs path delete_on_err, Inl e)
                   | Inr (fs, bs, len) \<Rightarrow>
                       (case env_map env of
                          Inl e \<Rightarrow> (m, map_file_err fs path delete_on_err, Inl e)
                        | Inr a \<Rightarrow>
                            (map_in m a (take len bs), fs,
                             Inr \<lparr>mr_addr = a, mr_len = len, mr_is_pmem =
                               (if env_dax env \<noteq> None \<or> isp a len \<noteq> 0 then 1 else 0)\<rparr>)))))"

definition pmem_map_file :: "(addr \<Rightarrow> nat \<Rightarrow> int) \<Rightarrow> os_env \<Rightarrow> mach \<Rightarrow> files \<Rightarrow> string \<Rightarrow> nat \<Rightarrow> nat \<Rightarrow>
    mach \<times> files \<times> (errno + mapping_result)" where
  "pmem_map_file isp env m fs path len flags = pmem_map_fileU isp env m fs path len flags"

text \<open>Unmapping a shared mapping leaves its last contents in the file.\<close>

definition pmem_unmap :: "mach \<Rightarrow> files \<Rightarrow> string \<Rightarrow> addr \<Rightarrow> nat \<Rightarrow> files" where
  "pmem_unmap m fs path a len =
     (case fs path of
        None \<Rightarrow> fs
      | Some bs \<Rightarrow> fs(path \<mapsto> rd (cur m) a len @ drop len bs))"

text \<open>\<open>pmem_msync\<close> calls \<open>msync\<close> on the pages that cover the range.\<close>

definition Pagesize :: nat where "Pagesize = 4096"

definition pmem_msync_range :: "addr \<Rightarrow> nat \<Rightarrow> addr \<times> nat" where
  "pmem_msync_range a len =
     (a AND wnot (Pagesize - 1), wadd len (a AND (Pagesize - 1)))"

definition pmem_msync :: "(addr \<Rightarrow> nat \<Rightarrow> mach \<Rightarrow> mach \<times> int) \<Rightarrow> mach \<Rightarrow> addr \<Rightarrow> nat \<Rightarrow> mach \<times> int" where
  "pmem_msync msync m a len = (case pmem_msync_range a len of (uptr, len) \<Rightarrow> msync uptr len m)"

subsection \<open>The calls the log makes\<close>

text \<open>An environment in which nothing fails and the mapping is placed at \<open>a\<close>.\<close>

definition os_fine :: "os_env \<Rightarrow> addr \<Rightarrow> bool" where
  "os_fine env a \<longleftrightarrow> env_dax env = None \<and> env_open env = None \<and> env_alloc env = None \<and>
     env_stat env \<and> env_map env = Inr a"

lemma map_file_create:
  assumes "os_fine env a" "fs path = None" "0 < sz" "sz < 2 ^ 63"
  shows "pmem_map_file isp env m fs path sz (PMEM_FILE_CREATE OR PMEM_FILE_EXCL) =
    (map_in m a (replicate sz 0), fs(path \<mapsto> replicate sz 0),
     Inr \<lparr>mr_addr = a, mr_len = sz, mr_is_pmem = (if isp a sz \<noteq> 0 then 1 else 0)\<rparr>)"
  using assms
  by (simp add: os_fine_def pmem_map_file_def pmem_map_fileU_def map_file_checks_def has_flag_def
      file_flags wnot_def os_open_def map_file_size_def os_posix_fallocate_def Let_def)

lemma map_file_create_fails:
  assumes "env_dax env = None" "fs path \<noteq> None \<or> sz = 0"
  shows "\<exists>e. pmem_map_file isp env m fs path sz (PMEM_FILE_CREATE OR PMEM_FILE_EXCL) = (m, fs, Inl e)"
  using assms
  by (auto simp: pmem_map_file_def pmem_map_fileU_def map_file_checks_def has_flag_def
      file_flags wnot_def os_open_def Let_def split: option.split)

lemma map_file_existing:
  assumes "os_fine env a" "fs path = Some bs"
  shows "pmem_map_file isp env m fs path 0 0 =
    (map_in m a bs, fs, Inr \<lparr>mr_addr = a, mr_len = length bs, mr_is_pmem = (if isp a (length bs) \<noteq> 0 then 1 else 0)\<rparr>)"
  using assms
  by (simp add: os_fine_def pmem_map_file_def pmem_map_fileU_def map_file_checks_def has_flag_def
      os_open_def map_file_size_def Let_def)

lemma map_file_nonzero_len:
  "env_dax env = None \<Longrightarrow> sz \<noteq> 0 \<Longrightarrow> pmem_map_file isp env m fs path sz 0 = (m, fs, Inl EINVAL)"
  by (simp add: pmem_map_file_def pmem_map_fileU_def map_file_checks_def has_flag_def)

lemma sp_map_in [simp]: "sp (map_in m a bs) = sp m"
  by (simp add: map_in_def)

lemma cur_map_in [simp]: "cur (map_in m a bs) = wr (cur m) a bs"
  by (simp add: map_in_def)

lemma dur_map_in: "a \<le> x \<Longrightarrow> x < a + length bs \<Longrightarrow> dur (map_in m a bs) x"
  by (simp add: map_in_def dur_def wr_def)

subsection \<open>Properties\<close>

text \<open>
  Creating: with \<open>PMEM_FILE_CREATE | PMEM_FILE_EXCL\<close>, a path that does not exist and a length
  that is positive and fits \<open>off_t\<close>, the file comes into being with that many zero bytes, and the
  mapping shows them, all durable.
\<close>

theorem pmem_map_file_creates:
  assumes "os_fine env a" "fs path = None" "0 < len" "len < 2 ^ 63"
  shows "\<exists>m' r. pmem_map_file isp env m fs path len (PMEM_FILE_CREATE OR PMEM_FILE_EXCL) =
      (m', fs(path \<mapsto> replicate len 0), Inr r) \<and> mr_addr r = a \<and> mr_len r = len \<and>
    rd (cur m') a len = replicate len 0 \<and> (\<forall>x. a \<le> x \<and> x < a + len \<longrightarrow> dur m' x)"
  using map_file_create [of env a fs path len isp m] assms dur_map_in [of a _ "replicate len 0" m]
  by (simp add: rd_wr_same)

definition sample_env :: os_env where
  "sample_env = \<lparr>env_dax = None, env_open = None, env_alloc = None, env_stat = True,
     env_map = Inr 8192, env_tmpfile = True\<rparr>"

lemma sample_env_fine [simp]: "os_fine sample_env 8192" and sample_env_dax [simp]: "env_dax sample_env = None"
  by (simp_all add: os_fine_def sample_env_def)

theorem pmem_map_file_creates_witness:
  "\<exists>m' r. pmem_map_file (\<lambda>_ _. 1) sample_env (quiescent (\<lambda>_. 3) 0) (\<lambda>_. None) ''f'' 100
      (PMEM_FILE_CREATE OR PMEM_FILE_EXCL) = (m', [''f'' \<mapsto> replicate 100 0], Inr r) \<and>
    rd (cur m') 8192 100 = replicate 100 0"
  using pmem_map_file_creates [OF sample_env_fine, of "\<lambda>_. None" "''f''" 100 "\<lambda>_ _. 1" "quiescent (\<lambda>_. 3) 0"]
  by auto

text \<open>
  Every error of \<open>pmem_map_file\<close> leaves the memory alone and all other files alone.
\<close>

theorem pmem_map_file_error:
  assumes "pmem_map_file isp env m fs path len flags = (m', fs', Inl e)"
  shows "m' = m \<and> (\<forall>p. p \<noteq> path \<longrightarrow> fs' p = fs p)"
  using assms
  by (auto simp: pmem_map_file_def pmem_map_fileU_def os_open_def map_file_size_def map_file_err_def Let_def
      split: sum.splits prod.splits option.splits if_splits)

theorem pmem_map_file_error_witness:
  "fst (pmem_map_file (\<lambda>_ _. 1) sample_env (quiescent (\<lambda>_. 3) 0) (\<lambda>_. None) ''f'' 100 0) =
     quiescent (\<lambda>_. 3) 0"
proof -
  let ?r = "pmem_map_file (\<lambda>_ _. 1) sample_env (quiescent (\<lambda>_. 3) 0) (\<lambda>_. None) ''f'' 100 0"
  have "?r = (quiescent (\<lambda>_. 3) 0, \<lambda>_. None, Inl EINVAL)"
    by (rule map_file_nonzero_len) (simp_all add: sample_env_def)
  then show ?thesis using pmem_map_file_error [of "\<lambda>_ _. 1" sample_env "quiescent (\<lambda>_. 3) 0"] by simp
qed

text \<open>
  When the space cannot be allocated, the file that \<open>open\<close> has just created is removed only in
  builds without \<open>O_TMPFILE\<close>: \<open>delete_on_err\<close> is set in that branch of the conditional compilation
  alone. In the other builds an empty file stays behind, and the next exclusive create fails.
\<close>

theorem pmem_map_file_alloc_fails:
  assumes "env_dax env = None" "env_open env = None" "env_alloc env = Some e" "fs path = None"
    "0 < len" "len < 2 ^ 63"
  shows "pmem_map_file isp env m fs path len (PMEM_FILE_CREATE OR PMEM_FILE_EXCL) =
    (m, if env_tmpfile env then fs(path \<mapsto> []) else fs(path := None), Inl e)"
  using assms
  by (simp add: pmem_map_file_def pmem_map_fileU_def map_file_checks_def has_flag_def file_flags
      wnot_def os_open_def map_file_size_def map_file_err_def Let_def)

theorem pmem_map_file_alloc_fails_witness:
  "pmem_map_file (\<lambda>_ _. 1) (sample_env\<lparr>env_alloc := Some (EOTHER 28)\<rparr>) (quiescent (\<lambda>_. 3) 0) (\<lambda>_. None)
      ''f'' 100 (PMEM_FILE_CREATE OR PMEM_FILE_EXCL) =
    (quiescent (\<lambda>_. 3) 0, [''f'' \<mapsto> []], Inl (EOTHER 28))"
  using pmem_map_file_alloc_fails [of "sample_env\<lparr>env_alloc := Some (EOTHER 28)\<rparr>" "EOTHER 28" "\<lambda>_. None" "''f''" 100]
  by (simp add: sample_env_def)

text \<open>
  Unmapping and mapping again: what was in the mapping when it was closed is what a later open of
  the whole file shows, wherever it is mapped.
\<close>

theorem pmem_unmap_remap:
  assumes "fs path = Some bs" "length bs = len" "os_fine env a"
  shows "\<exists>m'' r. pmem_map_file isp env m' (pmem_unmap m fs path a0 len) path 0 0 =
      (m'', pmem_unmap m fs path a0 len, Inr r) \<and> mr_len r = len \<and>
    rd (cur m'') a len = rd (cur m) a0 len"
proof -
  have "pmem_unmap m fs path a0 len path = Some (rd (cur m) a0 len)"
    using assms(1,2) by (simp add: pmem_unmap_def)
  from map_file_existing [of env a "pmem_unmap m fs path a0 len" path, OF assms(3) this]
  show ?thesis by (simp add: rd_wr_same)
qed

theorem pmem_unmap_remap_witness:
  "\<exists>m'' r fs. pmem_map_file (\<lambda>_ _. 1) sample_env (quiescent (\<lambda>_. 0) 0) fs ''f'' 0 0 = (m'', fs, Inr r) \<and>
    rd (cur m'') 8192 4 = [9, 9, 9, 9]"
  using pmem_unmap_remap [of "[''f'' \<mapsto> [0, 0, 0, 0]]" "''f''" "[0, 0, 0, 0]" 4 sample_env 8192
      "\<lambda>_ _. 1" "quiescent (\<lambda>_. 0) 0" "quiescent (\<lambda>_. 9) 0" 64]
  by (auto simp: rd_def upt_rec)

text \<open>
  The pages \<open>pmem_msync\<close> hands to \<open>msync\<close> start on a page boundary at or before the range and end
  exactly where it ends.
\<close>

theorem pmem_msync_covers:
  assumes "a + len + 4096 < 2 ^ 64" "pmem_msync_range a len = (uptr, n)"
  shows "uptr mod Pagesize = 0 \<and> uptr \<le> a \<and> uptr + n = a + len"
proof -
  have u: "uptr = a - a mod 4096"
    using assms and_wnot_mask [of a 12] by (auto simp: pmem_msync_range_def Pagesize_def)
  have m: "a mod 4096 \<le> a" "a mod 4096 < 4096" by simp_all
  have "n = len + a mod 4096"
    using assms m by (auto simp: pmem_msync_range_def Pagesize_def and_mask_mod intro!: wadd_exact)
  then show ?thesis using m(1) by (simp add: u Pagesize_def minus_mod_eq_mult_div)
qed

theorem pmem_msync_covers_witness:
  "pmem_msync_range 5000 100 = (4096, 1004) \<and> (4096 :: nat) mod Pagesize = 0"
proof -
  have "pmem_msync_range 5000 100 = (4096, 1004)"
    using and_wnot_mask [of 5000 12] by (simp add: pmem_msync_range_def Pagesize_def and_mask_mod wadd_def)
  then show ?thesis using pmem_msync_covers [of 5000 100 4096 1004] by simp
qed

text \<open>
  After its first call \<open>pmem_is_pmem\<close> answers 1 for every range, whatever the processor and the
  mapping: the initialisation installs \<open>is_pmem_always\<close> and ignores \<open>PMEM_IS_PMEM_FORCE\<close>.
\<close>

theorem pmem_is_pmem_always:
  "\<exists>c' st'. pmem_is_pmem detect c \<lparr>once = 0, init = 0\<rparr> a len = Some (1, c', st') \<and>
    (\<forall>detect' a' len'. pmem_is_pmem detect' c' st' a' len' = Some (1, c', st'))"
  by (simp add: pmem_is_pmem_def pmem_is_pmem_init_def is_pmem_always_def)

end
