(* ===== verification/Plog.thy ===== *)
theory Plog
  imports Libpmem_Map
begin

text \<open>
  The persistent log: \<open>sheap/log.h\<close> and \<open>sheap/log.cc\<close>. A log is a mapped file that starts with the
  header \<open>lhdr_t\<close>; entries follow one another from \<open>head\<close> to \<open>tail\<close>, each a header \<open>lehdr_t\<close>, its
  data and an eight-byte commit flag. The record \<open>plog\<close> holds the members of the class \<open>Log\<close>; the
  bytes are in the machine's memory at \<open>pmemaddr\<close>.
\<close>

subsection \<open>Layout\<close>

definition WORD_LENGTH :: nat where "WORD_LENGTH = 8"
definition COMMIT_FLAG :: nat where "COMMIT_FLAG = 123456"
definition MAGIC_NUMBER :: nat where "MAGIC_NUMBER = 555555"
definition KEY_LEN :: nat where "KEY_LEN = 20"

datatype HdrType = single | multiple | delta

fun hdr_code :: "HdrType \<Rightarrow> nat" where
  "hdr_code single = 0"
| "hdr_code multiple = 1"
| "hdr_code delta = 2"

text \<open>\<open>struct lhdr_t\<close>: four words. Its fields as they are laid out in memory.\<close>

record lhdr_t =
  lh_magic_number :: nat
  lh_len :: nat
  lh_head :: nat
  lh_tail :: nat

definition sizeof_lhdr :: nat where "sizeof_lhdr = 32"

definition head_off :: nat where "head_off = 16"
definition tail_off :: nat where "tail_off = 24"

definition lhdr_bytes :: "lhdr_t \<Rightarrow> byte list" where
  "lhdr_bytes h = le_bytes 8 (lh_magic_number h) @ le_bytes 8 (lh_len h) @
     le_bytes 8 (lh_head h) @ le_bytes 8 (lh_tail h)"

definition read_lhdr :: "memory \<Rightarrow> addr \<Rightarrow> lhdr_t" where
  "read_lhdr mem a = \<lparr>lh_magic_number = rd64 mem a, lh_len = rd64 mem (a + 8),
     lh_head = rd64 mem (a + head_off), lh_tail = rd64 mem (a + tail_off)\<rparr>"

text \<open>
  \<open>struct lehdr_t\<close>: \<open>kname\<close> at 0 (20 bytes, padded to 24), \<open>version\<close> at 24, \<open>len\<close> at 32, \<open>type\<close> at 40
  (four bytes, padded to 48), \<open>delta_len\<close> at 48 and five pairs \<open>ledelta_t\<close> from 56.
\<close>

record lehdr_t =
  le_kname :: "byte list"
  le_version :: nat
  le_len :: nat
  le_type :: nat
  le_delta_len :: nat
  le_deltas :: "(nat \<times> nat) list"

definition sizeof_lehdr :: nat where "sizeof_lehdr = 136"
definition version_off :: nat where "version_off = 24"
definition len_off :: nat where "len_off = 32"
definition type_off :: nat where "type_off = 40"
definition delta_len_off :: nat where "delta_len_off = 48"
definition deltas_off :: nat where "deltas_off = 56"

lemmas layout_consts = WORD_LENGTH_def COMMIT_FLAG_def MAGIC_NUMBER_def KEY_LEN_def
  sizeof_lhdr_def head_off_def tail_off_def sizeof_lehdr_def version_off_def len_off_def
  type_off_def delta_len_off_def deltas_off_def

definition read_lehdr :: "memory \<Rightarrow> addr \<Rightarrow> lehdr_t" where
  "read_lehdr mem a = \<lparr>le_kname = rd mem a KEY_LEN, le_version = rd64 mem (a + version_off),
     le_len = rd64 mem (a + len_off), le_type = le_nat (rd mem (a + type_off) 4),
     le_delta_len = rd64 mem (a + delta_len_off),
     le_deltas = map (\<lambda>i. (rd64 mem (a + deltas_off + 16 * i), rd64 mem (a + deltas_off + 16 * i + 8)))
       [0..<5]\<rparr>"

text \<open>\<open>struct walkentry\<close>, the argument of the callbacks of \<open>walk\<close>.\<close>

datatype ErrorCode = NO_ERROR | DUPLICATE_KEY | ELEM_NOT_FOUND | STORE_NOT_FOUND | KEY_NOT_EXIST
  | HEAP_NOT_EXIST | ID_IN_USE | LOG_EXIST | OPEN_FAILED | PMEM_ERROR | ID_NOT_FOUND | ID_FOUND
  | NOT_ENOUGH_SPACE

record walkentry =
  we_len :: nat
  we_datap :: addr
  we_version :: nat
  we_start_offset :: nat
  we_key :: "byte list"
  we_err :: ErrorCode
  we_delta_len :: nat
  we_deltas :: "(nat \<times> nat) list"

subsection \<open>The class Log\<close>

record plog =
  log_id :: nat
  logPath :: string
  pmemaddr :: addr
  mapped_len :: nat
  log_size :: nat
  start_offset :: nat
  end_offset :: nat
  write_offset :: nat

definition to_addr :: "plog \<Rightarrow> nat \<Rightarrow> addr" where
  "to_addr L offset = pmemaddr L + offset"

text \<open>
  The local \<open>commit_flag\<close> and the member \<open>write_offset\<close> are passed by address; they sit in the first
  two words of the frame at \<open>sp\<close>.
\<close>

definition persist :: "libpmem \<Rightarrow> mach \<Rightarrow> plog \<Rightarrow> mach \<times> plog" where
  "persist c m L =
     (let m = stores m (sp m) (le_bytes 8 COMMIT_FLAG);
          m = pmem_drain c m;
          m = pmem_memcpy_nodrain c m (pmemaddr L + write_offset L) (sp m) WORD_LENGTH;
          m = pmem_memcpy_nodrain c m (pmemaddr L + write_offset L) (sp m) WORD_LENGTH;
          m = pmem_drain c m;
          L = L\<lparr>write_offset := wadd (write_offset L) WORD_LENGTH\<rparr>;
          m = stores m (sp m + 8) (le_bytes 8 (write_offset L));
          m = pmem_memcpy_nodrain c m (pmemaddr L + tail_off) (sp m + 8) 8;
          m = pmem_drain c m
      in (m, L))"

definition append_log :: "libpmem \<Rightarrow> mach \<Rightarrow> plog \<Rightarrow> addr \<Rightarrow> nat \<Rightarrow> (mach \<times> plog \<times> ErrorCode) outcome" where
  "append_log c m L data sz =
     (if write_offset L \<ge> end_offset L then Inl (Exit 1)
      else if sz > wsub (end_offset L) (write_offset L) then Inl (Exit 1)
      else
        (let m = pmem_memcpy_nodrain c m (pmemaddr L + write_offset L) data sz;
             (m, L) = persist c m L
         in Inr (m, L, NO_ERROR)))"

type_synonym iovec = "addr \<times> nat"

text \<open>The sum of the lengths, at 64 bits, and the loop that copies the vectors one after another.\<close>

definition iov_total :: "nat \<Rightarrow> iovec list \<Rightarrow> nat" where
  "iov_total acc iov = foldl (\<lambda>tot v. wadd tot (snd v)) acc iov"

fun copy_iov :: "libpmem \<Rightarrow> mach \<Rightarrow> plog \<Rightarrow> iovec list \<Rightarrow> mach \<times> plog" where
  "copy_iov c m L [] = (m, L)"
| "copy_iov c m L ((base, len) # iov) =
     copy_iov c (pmem_memcpy_nodrain c m (pmemaddr L + write_offset L) base len)
       (L\<lparr>write_offset := wadd (write_offset L) len\<rparr>) iov"

definition appendv :: "libpmem \<Rightarrow> mach \<Rightarrow> plog \<Rightarrow> iovec list \<Rightarrow> (mach \<times> plog \<times> ErrorCode) outcome" where
  "appendv c m L iovp =
     (if write_offset L \<ge> end_offset L then Inl (Exit 1)
      else
        (let tot_cnt = iov_total 0 iovp; tot_cnt = wadd tot_cnt WORD_LENGTH in
         if tot_cnt > wsub (end_offset L) (write_offset L) then Inl (Exit 1)
         else
           (let (m, L) = copy_iov c m L iovp; (m, L) = persist c m L
            in Inr (m, L, NO_ERROR))))"

definition appendmv :: "libpmem \<Rightarrow> mach \<Rightarrow> plog \<Rightarrow> iovec list list \<Rightarrow> (mach \<times> plog \<times> ErrorCode) outcome" where
  "appendmv c m L iovpp =
     (if write_offset L \<ge> end_offset L then Inl (Exit 1)
      else
        (let tot_cnt = foldl iov_total 0 iovpp; tot_cnt = wadd tot_cnt WORD_LENGTH in
         if tot_cnt > wsub (end_offset L) (write_offset L) then Inl (Exit 1)
         else
           (let (m, L) = foldl (\<lambda>(m, L) iov. copy_iov c m L iov) (m, L) iovpp;
                (m, L) = persist c m L
            in Inr (m, L, NO_ERROR))))"

text \<open>The variants compiled with \<open>_MEMCPY\<close>: plain copies and one \<open>mfence\<close>, no commit.\<close>

definition asm_mfence :: "mach \<Rightarrow> mach" where
  "asm_mfence m = emit m MFENCE"

fun copy_iov_MEMCPY :: "mach \<Rightarrow> plog \<Rightarrow> iovec list \<Rightarrow> mach \<times> plog" where
  "copy_iov_MEMCPY m L [] = (m, L)"
| "copy_iov_MEMCPY m L ((base, len) # iov) =
     copy_iov_MEMCPY (libc_memmove m (pmemaddr L + write_offset L) base len)
       (L\<lparr>write_offset := wadd (write_offset L) len\<rparr>) iov"

definition appendv_MEMCPY :: "mach \<Rightarrow> plog \<Rightarrow> iovec list \<Rightarrow> (mach \<times> plog \<times> ErrorCode) outcome" where
  "appendv_MEMCPY m L iovp =
     (if write_offset L \<ge> end_offset L then Inl (Exit 1)
      else
        (let tot_cnt = iov_total 0 iovp; tot_cnt = wadd tot_cnt WORD_LENGTH in
         if tot_cnt > wsub (end_offset L) (write_offset L) then Inl (Exit 1)
         else
           (let (m, L) = copy_iov_MEMCPY m L iovp in Inr (asm_mfence m, L, NO_ERROR))))"

definition appendmv_MEMCPY :: "mach \<Rightarrow> plog \<Rightarrow> iovec list list \<Rightarrow> (mach \<times> plog \<times> ErrorCode) outcome" where
  "appendmv_MEMCPY m L iovpp =
     (if write_offset L \<ge> end_offset L then Inl (Exit 1)
      else
        (let tot_cnt = foldl iov_total 0 iovpp; tot_cnt = wadd tot_cnt WORD_LENGTH in
         if tot_cnt > wsub (end_offset L) (write_offset L) then Inl (Exit 1)
         else
           (let (m, L) = foldl (\<lambda>(m, L) iov. copy_iov_MEMCPY m L iov) (m, L) iovpp
            in Inr (asm_mfence m, L, NO_ERROR))))"

text \<open>
  \<open>walk\<close>: the callback gets the address of an entry and the length in its header, and answers
  with the updated argument and whether to go on. The advance is 64-bit arithmetic, so a corrupt
  length can make the loop run forever; that, or a callback that does not return, is the value
  \<open>None\<close>.
\<close>

type_synonym 'a callback = "addr \<Rightarrow> nat \<Rightarrow> 'a \<Rightarrow> ('a \<times> bool) outcome option"

partial_function (option) walk_loop ::
    "memory \<Rightarrow> addr \<Rightarrow> 'a callback \<Rightarrow> nat \<Rightarrow> nat \<Rightarrow> 'a \<Rightarrow> 'a outcome option" where
  "walk_loop mem base process_chunk tail tmp_offset arg =
     (if tmp_offset < tail then
        (case process_chunk (base + tmp_offset) (rd64 mem (base + tmp_offset + len_off)) arg of
           None \<Rightarrow> None
         | Some (Inl e) \<Rightarrow> Some (Inl e)
         | Some (Inr (arg, go_on)) \<Rightarrow>
             if \<not> go_on then Some (Inr arg)
             else walk_loop mem base process_chunk tail
               (wadd tmp_offset
                 (wadd (wadd sizeof_lehdr (rd64 mem (base + tmp_offset + len_off))) WORD_LENGTH)) arg)
      else Some (Inr arg))"

definition walk :: "memory \<Rightarrow> plog \<Rightarrow> 'a callback \<Rightarrow> 'a \<Rightarrow> ('a \<times> ErrorCode) outcome option" where
  "walk mem L process_chunk arg =
     (let hdr = read_lhdr mem (pmemaddr L); tail = lh_tail hdr; head = lh_head hdr in
      if head \<ge> tail then Some (Inr (arg, ID_NOT_FOUND))
      else map_option (\<lambda>r. bindO r (\<lambda>arg. Inr (arg, NO_ERROR)))
             (walk_loop mem (pmemaddr L) process_chunk tail head arg))"

subsection \<open>Construction and destruction\<close>

text \<open>\<open>while (k < end_offset) { pmemaddr[k] = 0; k += 4096; }\<close>: touch every page.\<close>

function touch_pages :: "mach \<Rightarrow> addr \<Rightarrow> nat \<Rightarrow> nat \<Rightarrow> mach" where
  "touch_pages m base k fin =
     (if k < fin then touch_pages (emit m (Store (base + k) 0)) base (k + 4096) fin else m)"
  by pat_completeness auto
termination
  by (relation "measure (\<lambda>(m, base, k, fin). fin - k)") auto

declare touch_pages.simps [simp del]

text \<open>
  Two calls to the operating system, so two environments. The header is built in a local at \<open>sp\<close>.
\<close>

definition Log_new :: "libpmem \<Rightarrow> (addr \<Rightarrow> nat \<Rightarrow> int) \<Rightarrow> os_env \<Rightarrow> os_env \<Rightarrow> mach \<Rightarrow> files \<Rightarrow>
    string \<Rightarrow> nat \<Rightarrow> nat \<Rightarrow> (mach \<times> files \<times> plog) outcome" where
  "Log_new c isp env1 env2 m fs path sz lid =
     (case pmem_map_file isp env1 m fs path sz (PMEM_FILE_CREATE OR PMEM_FILE_EXCL) of
        (m, fs, Inr r) \<Rightarrow>
          (let mlen = mr_len r; base = mr_addr r;
               start = sizeof_lhdr; fin = wsub mlen 1;
               hdr = \<lparr>lh_magic_number = MAGIC_NUMBER, lh_len = mlen, lh_head = sizeof_lhdr,
                      lh_tail = start\<rparr>;
               m = stores m (sp m) (lhdr_bytes hdr);
               m = pmem_memcpy_persist c m base (sp m) sizeof_lhdr;
               m = touch_pages m base start fin
           in Inr (m, fs, \<lparr>log_id = lid, logPath = path, pmemaddr = base, mapped_len = mlen,
                log_size = sz, start_offset = start, end_offset = fin, write_offset = start\<rparr>))
      | (m, fs, Inl _) \<Rightarrow>
          (case pmem_map_file isp env2 m fs path sz 0 of
             (m, fs, Inr r) \<Rightarrow>
               (let hdr = read_lhdr (cur m) (mr_addr r) in
                if lh_magic_number hdr \<noteq> MAGIC_NUMBER then Inl (Exit 1)
                else if lh_len hdr \<noteq> mr_len r then Inl Assert_Failed
                else Inr (m, fs, \<lparr>log_id = lid, logPath = path, pmemaddr = mr_addr r,
                       mapped_len = mr_len r, log_size = sz, start_offset = lh_head hdr,
                       end_offset = wsub (mr_len r) 1, write_offset = lh_tail hdr\<rparr>))
           | (m, fs, Inl _) \<Rightarrow> Inl (Exit 1)))"

definition Log_delete :: "mach \<Rightarrow> files \<Rightarrow> plog \<Rightarrow> files" where
  "Log_delete m fs L = pmem_unmap m fs (logPath L) (pmemaddr L) (mapped_len L)"

subsection \<open>The copy loop and the commit\<close>

definition iov_data :: "memory \<Rightarrow> iovec list \<Rightarrow> byte list" where
  "iov_data mem iov = concat (map (\<lambda>(a, n). rd mem a n) iov)"

definition iov_len :: "iovec list \<Rightarrow> nat" where
  "iov_len iov = sum_list (map snd iov)"

definition iov_ok :: "addr \<Rightarrow> nat \<Rightarrow> iovec list \<Rightarrow> bool" where
  "iov_ok a n iov \<longleftrightarrow> (\<forall>(b, k) \<in> set iov. b + k < 2 ^ 64 \<and> disj b k a n)"

lemma iov_simps [simp]:
  "iov_data mem [] = []" "iov_data mem ((a, n) # iov) = rd mem a n @ iov_data mem iov"
  "iov_len [] = 0" "iov_len ((a, n) # iov) = n + iov_len iov"
  by (simp_all add: iov_data_def iov_len_def)

lemma length_iov_data [simp]: "length (iov_data mem iov) = iov_len iov"
  by (induction iov) (auto simp: iov_data_def iov_len_def)

lemma iov_append:
  "iov_data mem (xs @ ys) = iov_data mem xs @ iov_data mem ys" "iov_len (xs @ ys) = iov_len xs + iov_len ys"
  by (simp_all add: iov_data_def iov_len_def)

lemma iov_total_exact: "acc + iov_len iov < 2 ^ 64 \<Longrightarrow> iov_total acc iov = acc + iov_len iov"
proof (induction iov arbitrary: acc)
  case (Cons v iov)
  then show ?case
    by (cases v) (simp add: iov_total_def wadd_exact)
qed (simp add: iov_total_def)

lemma iov_data_cong:
  "(\<And>b k x. (b, k) \<in> set iov \<Longrightarrow> b \<le> x \<Longrightarrow> x < b + k \<Longrightarrow> m x = m' x) \<Longrightarrow> iov_data m iov = iov_data m' iov"
  unfolding iov_data_def
  by (rule arg_cong [where f = concat], rule map_cong) (auto intro!: rd_cong)

lemma copy_iov_moved:
  assumes "pmemaddr L + (write_offset L + iov_len iov) < 2 ^ 64"
    "iov_ok (pmemaddr L + write_offset L) (iov_len iov) iov"
  shows "\<exists>m'. copy_iov c m L iov = (m', L\<lparr>write_offset := write_offset L + iov_len iov\<rparr>) \<and>
    moved m (pmemaddr L + write_offset L) (iov_data (cur m) iov) m' \<and>
    (safe_config c \<longrightarrow> (\<forall>x. pmemaddr L + write_offset L \<le> x \<and>
       x < pmemaddr L + write_offset L + iov_len iov \<longrightarrow> flushed c m' x))"
  using assms
proof (induction iov arbitrary: m L)
  case (Cons v iov)
  obtain b k where v: "v = (b, k)" by (cases v)
  let ?d = "pmemaddr L + write_offset L"
  let ?m1 = "pmem_memcpy_nodrain c m ?d b k"
  let ?L1 = "L\<lparr>write_offset := write_offset L + k\<rparr>"
  have bk: "b + k < 2 ^ 64" "disj b k ?d (k + iov_len iov)"
    using Cons.prems(2) by (auto simp: iov_ok_def v)
  have dk: "?d + k < 2 ^ 64" using Cons.prems(1) by (simp add: v)
  have mv1: "moved m ?d (rd (cur m) b k) ?m1" by (rule moved_memcpy [OF dk bk(1)])
  have ok: "iov_ok (?d + k) (iov_len iov) iov"
    using Cons.prems(2) by (auto simp: iov_ok_def v disj_def)
  have dat: "iov_data (cur ?m1) iov = iov_data (cur m) iov"
  proof (rule iov_data_cong)
    fix a n x assume "(a, n) \<in> set iov" "a \<le> x" "x < a + n"
    then have "x < ?d \<or> ?d + k \<le> x" using Cons.prems(2) by (auto simp: iov_ok_def v disj_def)
    then show "cur ?m1 x = cur m x" by (simp add: moved_cur [OF mv1] wr_out)
  qed
  have "pmemaddr ?L1 + (write_offset ?L1 + iov_len iov) < 2 ^ 64"
    "iov_ok (pmemaddr ?L1 + write_offset ?L1) (iov_len iov) iov"
    using Cons.prems(1) ok by (simp_all add: v ac_simps)
  from Cons.IH [OF this, of ?m1] obtain m' where
    m': "copy_iov c ?m1 ?L1 iov = (m', ?L1\<lparr>write_offset := write_offset L + k + iov_len iov\<rparr>)"
    and mv2: "moved ?m1 (?d + k) (iov_data (cur m) iov) m'"
    and fl: "safe_config c \<Longrightarrow> \<forall>x. ?d + k \<le> x \<and> x < ?d + k + iov_len iov \<longrightarrow> flushed c m' x"
    using dat by (auto simp: ac_simps)
  have "write_offset L + k < 2 ^ 64" using dk by simp
  then have "copy_iov c m L (v # iov) = (m', L\<lparr>write_offset := write_offset L + iov_len (v # iov)\<rparr>)"
    using m' by (simp add: v wadd_exact ac_simps)
  moreover have "moved m ?d (iov_data (cur m) (v # iov)) m'"
    using moved_append [OF mv1, of "iov_data (cur m) iov" m'] mv2 by (simp add: v)
  moreover have "flushed c m' x" if sc: "safe_config c" and x: "?d \<le> x" "x < ?d + iov_len (v # iov)" for x
  proof (cases "x < ?d + k")
    case True
    have "b \<noteq> ?d" using bk(2) True x(1) by (auto simp: disj_def)
    then have "flushed c ?m1 x"
      using pmem_memmove_nodrain_flushed [OF sc dk bk(1) x(1) True] by (simp add: pmem_memcpy_nodrain_def)
    moreover obtain "is" where "m' = emits ?m1 is" "wset is \<subseteq> block (?d + k) (iov_data (cur m) iov)"
      using mv2 by (auto simp: moved_def)
    moreover have "x \<notin> fst ` block (?d + k) (iov_data (cur m) iov)" using True by simp
    ultimately show ?thesis by (auto intro!: flushed_emits)
  next
    case False
    then show ?thesis using fl [OF sc] x by (simp add: v)
  qed
  ultimately show ?case by blast
qed auto

subsection \<open>The commit sequence\<close>

definition frame :: "mach \<Rightarrow> addr set" where
  "frame m = {sp m..<sp m + 16}"

definition frame_ok :: "mach \<Rightarrow> plog \<Rightarrow> bool" where
  "frame_ok m L \<longleftrightarrow> sp m + 16 < 2 ^ 64 \<and> disj (sp m) 16 (pmemaddr L) (mapped_len L) \<and>
     pmemaddr L + mapped_len L < 2 ^ 64"

text \<open>
  \<open>persist\<close> goes through a state in which everything flushed before and the commit flag are
  durable and the tail is not yet stored to, and ends with a durable tail.
\<close>

definition commits :: "libpmem \<Rightarrow> mach \<Rightarrow> plog \<Rightarrow> mach \<Rightarrow> mach \<Rightarrow> bool" where
  "commits c m L m1 m2 \<longleftrightarrow>
     (let d = pmemaddr L + write_offset L; t = pmemaddr L + tail_off in
      touches m m1 (frame m \<union> {d..<d + 8}) \<and>
      touches m1 m2 (frame m \<union> {t..<t + 8}) \<and>
      rd (cur m1) d 8 = le_bytes 8 COMMIT_FLAG \<and>
      rd (cur m2) t 8 = le_bytes 8 (write_offset L + 8) \<and>
      (safe_config c \<longrightarrow>
         (\<forall>x. flushed c m x \<and> x \<notin> frame m \<union> {d..<d + 8} \<longrightarrow> dur m1 x) \<and>
         (\<forall>x \<in> {d..<d + 8}. dur m1 x) \<and> (\<forall>x \<in> {t..<t + 8}. dur m2 x)))"

lemma persist_flag:
  fixes c :: libpmem
  assumes f: "frame_ok m L" and w: "write_offset L + 8 \<le> mapped_len L"
  defines "d \<equiv> pmemaddr L + write_offset L"
  defines "mb \<equiv> pmem_drain c (stores m (sp m) (le_bytes 8 COMMIT_FLAG))"
  defines "md \<equiv> pmem_memcpy_nodrain c (pmem_memcpy_nodrain c mb d (sp m) 8) d (sp m) 8"
  shows "touches m (pmem_drain c md) (frame m \<union> {d..<d + 8})"
    and "rd (cur (pmem_drain c md)) d 8 = le_bytes 8 COMMIT_FLAG"
    and "safe_config c \<Longrightarrow> flushed c m x \<Longrightarrow> x \<notin> frame m \<union> {d..<d + 8} \<Longrightarrow> dur (pmem_drain c md) x"
    and "safe_config c \<Longrightarrow> x \<in> {d..<d + 8} \<Longrightarrow> dur (pmem_drain c md) x"
proof -
  let ?S = "frame m \<union> {d..<d + 8}"
  let ?mc = "pmem_memcpy_nodrain c mb d (sp m) 8"
  have d: "d + 8 < 2 ^ 64" and s: "sp m + 8 < 2 ^ 64" and dis: "disj (sp m) 8 d 8"
    using f w by (auto simp: frame_ok_def disj_def d_def)
  have ta: "touches m (stores m (sp m) (le_bytes 8 COMMIT_FLAG)) (frame m)"
    by (rule touches_stores) (auto simp: frame_def)
  then have tb: "touches m mb (frame m)"
    unfolding mb_def by (rule touches_trans) (rule touches_drain)
  have tc: "touches mb ?mc {d..<d + 8}" and td: "touches ?mc md {d..<d + 8}"
    unfolding md_def by (rule touches_memcpy [OF d s]; simp)+
  have te: "touches md (pmem_drain c md) {d..<d + 8}" by (rule touches_drain)
  have tbe: "touches mb (pmem_drain c md) {d..<d + 8}"
    by (rule touches_trans [OF touches_trans [OF tc td] te])
  show "touches m (pmem_drain c md) ?S"
    by (rule touches_trans [OF touches_mono [OF tb] touches_mono [OF tbe]]) auto
  have "rd (cur mb) (sp m) 8 = le_bytes 8 COMMIT_FLAG" by (simp add: mb_def rd_stores)
  moreover have "rd (cur ?mc) (sp m) 8 = rd (cur mb) (sp m) 8"
    using rd_touches [OF tc] dis by (auto simp: disj_def)
  ultimately show "rd (cur (pmem_drain c md)) d 8 = le_bytes 8 COMMIT_FLAG"
    using rd_memcpy [OF d s] by (simp add: md_def)
  show "dur (pmem_drain c md) x" if "safe_config c" "flushed c m x" "x \<notin> ?S"
  proof -
    have "flushed c (stores m (sp m) (le_bytes 8 COMMIT_FLAG)) x"
      using flushed_touches [OF ta that(2)] that(3) by simp
    then have "dur mb x" unfolding mb_def by (rule pmem_drain_dur)
    then show ?thesis using touches_dur [OF tbe] that(3) by simp
  qed
  show "dur (pmem_drain c md) x" if "safe_config c" "x \<in> {d..<d + 8}"
    unfolding md_def by (intro pmem_drain_dur flushed_memcpy [OF that(1) d s dis that(2)])
qed

lemma persist_commits:
  assumes f: "frame_ok m L" and w: "write_offset L + 8 \<le> mapped_len L" "32 \<le> mapped_len L"
  shows "\<exists>m1 m2. persist c m L = (m2, L\<lparr>write_offset := write_offset L + 8\<rparr>) \<and> commits c m L m1 m2"
proof -
  let ?d = "pmemaddr L + write_offset L" and ?t = "pmemaddr L + tail_off"
  define m1 where "m1 = pmem_drain c (pmem_memcpy_nodrain c (pmem_memcpy_nodrain c
    (pmem_drain c (stores m (sp m) (le_bytes 8 COMMIT_FLAG))) ?d (sp m) 8) ?d (sp m) 8)"
  define me where "me = stores m1 (sp m + 8) (le_bytes 8 (write_offset L + 8))"
  define mf where "mf = pmem_memcpy_nodrain c me ?t (sp m + 8) 8"
  note p = persist_flag [OF f w(1), of c, folded m1_def]
  have t: "?t + 8 < 2 ^ 64" and s: "(sp m + 8) + 8 < 2 ^ 64" and dis: "disj (sp m + 8) 8 ?t 8"
    using f w by (auto simp: frame_ok_def disj_def tail_off_def)
  have te: "touches m1 me (frame m)"
    unfolding me_def by (rule touches_stores) (auto simp: frame_def)
  have tf: "touches me mf {?t..<?t + 8}"
    unfolding mf_def by (rule touches_memcpy [OF t s]) simp
  have t2: "touches m1 (pmem_drain c mf) (frame m \<union> {?t..<?t + 8})"
    by (rule touches_trans [OF touches_trans [OF touches_mono [OF te] touches_mono [OF tf]] touches_drain]) auto
  have "rd (cur me) (sp m + 8) 8 = le_bytes 8 (write_offset L + 8)"
    by (simp add: me_def rd_stores)
  then have r: "rd (cur (pmem_drain c mf)) ?t 8 = le_bytes 8 (write_offset L + 8)"
    using rd_memcpy [OF t s] by (simp add: mf_def)
  have d: "dur (pmem_drain c mf) x" if "safe_config c" "x \<in> {?t..<?t + 8}" for x
    unfolding mf_def by (intro pmem_drain_dur flushed_memcpy [OF that(1) t s dis that(2)])
  have "write_offset L + 8 < 2 ^ 64" using f w(1) by (simp add: frame_ok_def)
  then have wo: "wadd (write_offset L) WORD_LENGTH = write_offset L + 8"
    by (simp add: wadd_exact WORD_LENGTH_def)
  have sps: "sp (pmem_memcpy_nodrain c (pmem_drain c (stores m (sp m) (le_bytes 8 COMMIT_FLAG))) ?d (sp m) 8) = sp m"
    using f w(1) by (subst touches_sp [OF touches_memcpy [of _ 8]]) (auto simp: frame_ok_def)
  have "sp m1 = sp m" by (rule touches_sp [OF p(1)])
  moreover have "persist c m L = (pmem_drain c mf, L\<lparr>write_offset := write_offset L + 8\<rparr>)"
    using \<open>sp m1 = sp m\<close> sps
    by (simp add: persist_def Let_def wo m1_def me_def mf_def WORD_LENGTH_def [symmetric])
  ultimately show ?thesis
    using p t2 r d by (auto simp: commits_def Let_def intro!: exI)
qed

subsection \<open>The abstract log: a list of entries\<close>

text \<open>
  An entry is its header and its data; the header's length field says how long the data is.
  \<open>entries_at mem base off es fin\<close>: the entries \<open>es\<close>, each with its commit flag, fill the log at
  \<open>base\<close> from offset \<open>off\<close> to \<open>fin\<close>.
\<close>

type_synonym log_entry = "byte list \<times> byte list"

definition entry_ok :: "log_entry \<Rightarrow> bool" where
  "entry_ok e \<longleftrightarrow> length (fst e) = sizeof_lehdr \<and>
     le_nat (take 8 (drop len_off (fst e))) = length (snd e)"

definition entry_size :: "log_entry \<Rightarrow> nat" where
  "entry_size e = sizeof_lehdr + length (snd e) + WORD_LENGTH"

fun entries_at :: "memory \<Rightarrow> addr \<Rightarrow> nat \<Rightarrow> log_entry list \<Rightarrow> nat \<Rightarrow> bool" where
  "entries_at mem base off [] fin \<longleftrightarrow> off = fin"
| "entries_at mem base off (e # es) fin \<longleftrightarrow> entry_ok e \<and>
     rd mem (base + off) (sizeof_lehdr + length (snd e)) = fst e @ snd e \<and>
     rd64 mem (base + off + sizeof_lehdr + length (snd e)) = COMMIT_FLAG \<and>
     entries_at mem base (off + entry_size e) es fin"

definition log_body :: "memory \<Rightarrow> addr \<Rightarrow> nat \<Rightarrow> log_entry list \<Rightarrow> nat \<Rightarrow> bool" where
  "log_body mem base mlen es fin \<longleftrightarrow> rd64 mem base = MAGIC_NUMBER \<and> rd64 mem (base + 8) = mlen \<and>
     rd64 mem (base + head_off) = sizeof_lhdr \<and> entries_at mem base sizeof_lhdr es fin"

definition log_image :: "memory \<Rightarrow> addr \<Rightarrow> nat \<Rightarrow> log_entry list \<Rightarrow> bool" where
  "log_image mem base mlen es \<longleftrightarrow> log_body mem base mlen es (rd64 mem (base + tail_off))"

definition plog_ok :: "mach \<Rightarrow> plog \<Rightarrow> log_entry list \<Rightarrow> bool" where
  "plog_ok m L es \<longleftrightarrow> log_image (cur m) (pmemaddr L) (mapped_len L) es \<and>
     rd64 (cur m) (pmemaddr L + tail_off) = write_offset L \<and>
     start_offset L = sizeof_lhdr \<and> end_offset L = mapped_len L - 1 \<and>
     write_offset L \<le> end_offset L \<and> sizeof_lhdr \<le> end_offset L \<and> frame_ok m L"

definition plog_durable :: "mach \<Rightarrow> plog \<Rightarrow> bool" where
  "plog_durable m L \<longleftrightarrow> (\<forall>x. pmemaddr L \<le> x \<and> x < pmemaddr L + write_offset L \<longrightarrow> dur m x)"

lemma entries_at_le: "entries_at mem base off es fin \<Longrightarrow> off \<le> fin"
proof (induction es arbitrary: off)
  case (Cons e es)
  then have "off + entry_size e \<le> fin" by simp
  then show ?case by simp
qed simp

lemma entries_at_cong:
  "entries_at mem base off es fin \<Longrightarrow> \<forall>x. base + off \<le> x \<and> x < base + fin \<longrightarrow> mem' x = mem x \<Longrightarrow>
   entries_at mem' base off es fin"
proof (induction es arbitrary: off)
  case (Cons e es)
  have le: "off + entry_size e \<le> fin" using Cons.prems(1) entries_at_le by auto
  have "rd mem' (base + off) (sizeof_lehdr + length (snd e)) = rd mem (base + off) (sizeof_lehdr + length (snd e))"
    using Cons.prems(2) le by (intro rd_cong) (auto simp: entry_size_def)
  moreover have "rd64 mem' (base + off + sizeof_lehdr + length (snd e)) =
      rd64 mem (base + off + sizeof_lehdr + length (snd e))"
    using Cons.prems(2) le by (intro rd64_cong) (auto simp: entry_size_def WORD_LENGTH_def)
  ultimately show ?case using Cons le by auto
qed simp

lemma entries_at_append:
  "entries_at mem base off (es @ fs) fin \<longleftrightarrow>
   (\<exists>mid. entries_at mem base off es mid \<and> entries_at mem base mid fs fin)"
  by (induction es arbitrary: off) auto

lemma log_body_cong:
  assumes "log_body mem base mlen es fin"
    "\<forall>x. base \<le> x \<and> x < base + tail_off \<or> base + sizeof_lhdr \<le> x \<and> x < base + fin \<longrightarrow> mem' x = mem x"
  shows "log_body mem' base mlen es fin"
proof -
  have "rd64 mem' base = rd64 mem base" "rd64 mem' (base + 8) = rd64 mem (base + 8)"
    "rd64 mem' (base + head_off) = rd64 mem (base + head_off)"
    using assms(2) by (auto intro!: rd64_cong simp: layout_consts)
  moreover have "entries_at mem' base sizeof_lhdr es fin"
  proof (rule entries_at_cong)
    show "entries_at mem base sizeof_lhdr es fin" using assms(1) by (simp add: log_body_def)
    show "\<forall>x. base + sizeof_lhdr \<le> x \<and> x < base + fin \<longrightarrow> mem' x = mem x"
      using assms(2) by blast
  qed
  ultimately show ?thesis using assms(1) by (simp add: log_body_def)
qed

lemma log_body_snoc:
  assumes "log_body mem base mlen es fin" "entry_ok e"
    "rd mem (base + fin) (length (fst e @ snd e)) = fst e @ snd e"
    "rd64 mem (base + fin + length (fst e @ snd e)) = COMMIT_FLAG"
  shows "log_body mem base mlen (es @ [e]) (fin + length (fst e @ snd e) + 8)"
  using assms
  by (auto simp: log_body_def entries_at_append entry_ok_def entry_size_def WORD_LENGTH_def add.assoc)

lemma log_body_le: "log_body mem base mlen es fin \<Longrightarrow> sizeof_lhdr \<le> fin"
  by (auto simp: log_body_def dest: entries_at_le)

subsection \<open>Publishing an entry\<close>

text \<open>
  The two phases of an append of the bytes \<open>bs\<close>: first the bytes and the commit flag behind the
  tail, then the tail itself. Each phase ends with what it wrote durable.
\<close>

definition publishes :: "libpmem \<Rightarrow> mach \<Rightarrow> plog \<Rightarrow> byte list \<Rightarrow> mach \<Rightarrow> mach \<Rightarrow> bool" where
  "publishes c m L bs m1 m2 \<longleftrightarrow>
     (let d = pmemaddr L + write_offset L; n = length bs; t = pmemaddr L + tail_off in
      touches m m1 (frame m \<union> {d..<d + n + 8}) \<and> touches m1 m2 (frame m \<union> {t..<t + 8}) \<and>
      rd (cur m1) d n = bs \<and> rd64 (cur m1) (d + n) = COMMIT_FLAG \<and>
      rd64 (cur m2) t = write_offset L + n + 8 \<and>
      (safe_config c \<longrightarrow> (\<forall>x \<in> {d..<d + n + 8}. dur m1 x) \<and> (\<forall>x \<in> {t..<t + 8}. dur m2 x)))"

lemma append_room:
  assumes "frame_ok m L" "end_offset L = mapped_len L - 1" "write_offset L \<le> end_offset L"
  shows "write_offset L + n + 8 \<le> end_offset L \<longleftrightarrow> n + 8 \<le> wsub (end_offset L) (write_offset L)"
proof -
  have "pmemaddr L + mapped_len L < 2 ^ 64" using assms(1) by (simp add: frame_ok_def)
  then have "end_offset L < 2 ^ 64" using assms(2) by linarith
  then show ?thesis using assms(3) by (auto simp: wsub_exact)
qed

lemma copy_persist_publishes:
  assumes f: "frame_ok m L" and w: "write_offset L + iov_len iov + 8 \<le> mapped_len L" "32 \<le> mapped_len L"
    and iov: "iov_ok (pmemaddr L) (mapped_len L) iov"
  shows "\<exists>ma La m1 m2. copy_iov c m L iov = (ma, La) \<and>
     persist c ma La = (m2, L\<lparr>write_offset := write_offset L + iov_len iov + 8\<rparr>) \<and>
     publishes c m L (iov_data (cur m) iov) m1 m2"
proof -
  let ?d = "pmemaddr L + write_offset L" and ?n = "iov_len iov" and ?t = "pmemaddr L + tail_off"
  have "pmemaddr L + (write_offset L + ?n) < 2 ^ 64" using f w by (simp add: frame_ok_def)
  moreover have "iov_ok ?d ?n iov"
    using iov w(1) by (auto simp: iov_ok_def disj_def)
  ultimately obtain ma where a: "copy_iov c m L iov = (ma, L\<lparr>write_offset := write_offset L + ?n\<rparr>)"
    "moved m ?d (iov_data (cur m) iov) ma"
    "safe_config c \<Longrightarrow> \<forall>x. ?d \<le> x \<and> x < ?d + ?n \<longrightarrow> flushed c ma x"
    using copy_iov_moved [of L iov c m] by blast
  let ?La = "L\<lparr>write_offset := write_offset L + ?n\<rparr>"
  have sa: "sp ma = sp m" using moved_sp [OF a(2)] .
  have "frame_ok ma ?La" using f sa by (simp add: frame_ok_def)
  then obtain m1 m2 where p: "persist c ma ?La = (m2, ?La\<lparr>write_offset := write_offset L + ?n + 8\<rparr>)"
    "commits c ma ?La m1 m2"
    using persist_commits [of ma ?La c] w by auto
  have fr: "frame ma = frame m" by (simp add: frame_def sa)
  have dis: "{?d..<?d + ?n + 8} \<inter> frame m = {}"
    using f w(1) by (auto simp: frame_ok_def frame_def disj_def)
  have t1: "touches ma m1 (frame m \<union> {?d + ?n..<?d + ?n + 8})"
    and t2: "touches m1 m2 (frame m \<union> {?t..<?t + 8})"
    and r: "rd (cur m1) (?d + ?n) 8 = le_bytes 8 COMMIT_FLAG"
      "rd (cur m2) ?t 8 = le_bytes 8 (write_offset L + ?n + 8)"
    and s: "safe_config c \<Longrightarrow> flushed c ma x \<Longrightarrow> x \<notin> frame m \<union> {?d + ?n..<?d + ?n + 8} \<Longrightarrow> dur m1 x"
      "safe_config c \<Longrightarrow> x \<in> {?d + ?n..<?d + ?n + 8} \<Longrightarrow> dur m1 x"
      "safe_config c \<Longrightarrow> x \<in> {?t..<?t + 8} \<Longrightarrow> dur m2 x" for x
    using p(2) by (simp_all add: commits_def Let_def fr add.assoc)
  have ta: "touches m ma (frame m \<union> {?d..<?d + ?n + 8})"
    by (rule touches_moved [OF a(2)]) auto
  have "touches m m1 (frame m \<union> {?d..<?d + ?n + 8})"
    by (rule touches_trans [OF ta touches_mono [OF t1]]) auto
  moreover have "rd (cur m1) ?d ?n = iov_data (cur m) iov"
  proof -
    have "{?d..<?d + ?n} \<inter> (frame m \<union> {?d + ?n..<?d + ?n + 8}) = {}" using dis by fastforce
    then have "rd (cur m1) ?d ?n = rd (cur ma) ?d ?n" by (rule rd_touches [OF t1])
    then show ?thesis using moved_cur [OF a(2)] by (simp add: rd_wr_same)
  qed
  moreover have "rd64 (cur m1) (?d + ?n) = COMMIT_FLAG"
    by (simp add: rd64_def r COMMIT_FLAG_def)
  moreover have "rd64 (cur m2) ?t = write_offset L + ?n + 8"
    using f w(1) by (simp add: rd64_def r frame_ok_def)
  moreover have "dur m1 x" if sc: "safe_config c" and x: "x \<in> {?d..<?d + ?n + 8}" for x
  proof (cases "x < ?d + ?n")
    case True
    then have "flushed c ma x" using a(3) sc x by simp
    moreover have "x \<notin> frame m" using dis x by blast
    ultimately show ?thesis using s(1) [OF sc] True by simp
  next
    case False
    then show ?thesis using s(2) [OF sc] x by simp
  qed
  ultimately have "publishes c m L (iov_data (cur m) iov) m1 m2"
    using t2 s(3) by (simp add: publishes_def Let_def)
  then show ?thesis using a(1) p(1) by auto
qed

lemma appendv_publishes:
  assumes ok: "plog_ok m L es" and iov: "iov_ok (pmemaddr L) (mapped_len L) iov"
    and room: "write_offset L + iov_len iov + 8 \<le> end_offset L"
  shows "\<exists>m1 m2. appendv c m L iov =
       Inr (m2, L\<lparr>write_offset := write_offset L + iov_len iov + 8\<rparr>, NO_ERROR) \<and>
     publishes c m L (iov_data (cur m) iov) m1 m2"
proof -
  have f: "frame_ok m L" and e: "end_offset L = mapped_len L - 1" "write_offset L \<le> end_offset L"
    "32 \<le> mapped_len L"
    using ok by (auto simp: plog_ok_def sizeof_lhdr_def)
  have "mapped_len L < 2 ^ 64" using f by (simp add: frame_ok_def)
  then have lt: "iov_len iov + 8 < 2 ^ 64" using room e by linarith
  then have tot: "wadd (iov_total 0 iov) WORD_LENGTH = iov_len iov + 8"
    by (simp add: iov_total_exact wadd_exact WORD_LENGTH_def)
  have "write_offset L + iov_len iov + 8 \<le> mapped_len L" using room e by simp
  then obtain ma La m1 m2 where "copy_iov c m L iov = (ma, La)"
    "persist c ma La = (m2, L\<lparr>write_offset := write_offset L + iov_len iov + 8\<rparr>)"
    "publishes c m L (iov_data (cur m) iov) m1 m2"
    using copy_persist_publishes [OF f _ e(3) iov] by blast
  moreover have "iov_len iov + 8 \<le> wsub (end_offset L) (write_offset L)"
    using append_room [OF f e(1,2)] room by blast
  ultimately show ?thesis using room by (auto simp: appendv_def Let_def tot)
qed

lemma log_not_frame:
  "frame_ok m L \<Longrightarrow> pmemaddr L \<le> x \<Longrightarrow> x < pmemaddr L + mapped_len L \<Longrightarrow> x \<notin> frame m"
  by (auto simp: frame_ok_def frame_def disj_def)

lemma plog_okD:
  assumes "plog_ok m L es"
  shows "frame_ok m L" "log_body (cur m) (pmemaddr L) (mapped_len L) es (write_offset L)"
    "end_offset L = mapped_len L - 1" "sizeof_lhdr \<le> write_offset L" "write_offset L \<le> end_offset L"
    "sizeof_lhdr < mapped_len L" "write_offset L < mapped_len L"
    "rd64 (cur m) (pmemaddr L + tail_off) = write_offset L" "start_offset L = sizeof_lhdr"
  using assms by (auto simp: plog_ok_def log_image_def sizeof_lhdr_def dest: log_body_le)

lemma publishes_old:
  assumes ok: "plog_ok m L es" and p: "publishes c m L bs m1 m2"
    and x: "pmemaddr L \<le> x" "x < pmemaddr L + write_offset L"
  shows "x \<notin> frame m \<union> {pmemaddr L + write_offset L..<pmemaddr L + write_offset L + length bs + 8}"
    and "cur m1 x = cur m x"
proof -
  show a: "x \<notin> frame m \<union> {pmemaddr L + write_offset L..<pmemaddr L + write_offset L + length bs + 8}"
    using log_not_frame [OF plog_okD(1) [OF ok] x(1)] x(2) plog_okD(7) [OF ok] by simp
  show "cur m1 x = cur m x"
    using p a by (auto simp: publishes_def Let_def intro: touches_cur)
qed

lemma publishes_bodies:
  assumes ok: "plog_ok m L es" and p: "publishes c m L (fst e @ snd e) m1 m2" and e: "entry_ok e"
  defines "fin \<equiv> write_offset L + length (fst e @ snd e) + 8"
  shows "log_body (cur m1) (pmemaddr L) (mapped_len L) es (write_offset L)"
    and "log_body (cur m1) (pmemaddr L) (mapped_len L) (es @ [e]) fin"
    and "rd64 (cur m1) (pmemaddr L + tail_off) = write_offset L"
proof -
  note D = plog_okD [OF ok]
  show b: "log_body (cur m1) (pmemaddr L) (mapped_len L) es (write_offset L)"
    using D(4) publishes_old(2) [OF ok p]
    by (intro log_body_cong [OF D(2)]) (auto simp: layout_consts)
  show "log_body (cur m1) (pmemaddr L) (mapped_len L) (es @ [e]) fin"
    unfolding fin_def using p by (intro log_body_snoc [OF b e]) (simp_all add: publishes_def Let_def)
  have "rd64 (cur m1) (pmemaddr L + tail_off) = rd64 (cur m) (pmemaddr L + tail_off)"
    using D(4) publishes_old(2) [OF ok p] by (intro rd64_cong) (auto simp: layout_consts)
  then show "rd64 (cur m1) (pmemaddr L + tail_off) = write_offset L" using D(8) by simp
qed

text \<open>In the second phase everything but the tail word is left alone.\<close>

lemma publishes_body_keep:
  assumes b: "log_body (cur m1) (pmemaddr L) (mapped_len L) es fin" and fin: "fin \<le> mapped_len L"
    and f: "frame_ok m L"
    and keep: "\<And>x. x \<notin> frame m \<union> {pmemaddr L + tail_off..<pmemaddr L + tail_off + 8} \<Longrightarrow>
      x < pmemaddr L + fin \<Longrightarrow> pmemaddr L \<le> x \<Longrightarrow> mem x = cur m1 x"
  shows "log_body mem (pmemaddr L) (mapped_len L) es fin"
proof (rule log_body_cong [OF b], intro allI impI)
  fix x
  assume "pmemaddr L \<le> x \<and> x < pmemaddr L + tail_off \<or>
    pmemaddr L + sizeof_lhdr \<le> x \<and> x < pmemaddr L + fin"
  then have x: "pmemaddr L \<le> x" "x < pmemaddr L + fin"
    "x \<notin> {pmemaddr L + tail_off..<pmemaddr L + tail_off + 8}"
    using log_body_le [OF b] by (auto simp: layout_consts)
  then show "mem x = cur m1 x" using log_not_frame [OF f x(1)] fin by (intro keep) auto
qed

lemma publishes_ok:
  assumes ok: "plog_ok m L es" and p: "publishes c m L (fst e @ snd e) m1 m2" and e: "entry_ok e"
    and room: "write_offset L + length (fst e @ snd e) + 8 \<le> end_offset L"
  shows "plog_ok m2 (L\<lparr>write_offset := write_offset L + length (fst e @ snd e) + 8\<rparr>) (es @ [e])"
proof -
  let ?fin = "write_offset L + length (fst e @ snd e) + 8"
  note D = plog_okD [OF ok]
  have t: "touches m1 m2 (frame m \<union> {pmemaddr L + tail_off..<pmemaddr L + tail_off + 8})"
    and sp: "sp m2 = sp m"
    and tail: "rd64 (cur m2) (pmemaddr L + tail_off) = ?fin"
    using p touches_sp by (auto simp: publishes_def Let_def)
  have "?fin \<le> mapped_len L" using room D(3) by linarith
  from publishes_body_keep [OF publishes_bodies(2) [OF ok p e] this D(1)]
  have "log_body (cur m2) (pmemaddr L) (mapped_len L) (es @ [e]) ?fin"
    using touches_cur [OF t] by blast
  then show ?thesis
    using ok room tail sp by (simp add: plog_ok_def log_image_def frame_ok_def)
qed

context safe_libpmem
begin

lemma publishes_durable:
  assumes ok: "plog_ok m L es" and p: "publishes c m L bs m1 m2" and d: "plog_durable m L"
    and room: "write_offset L + length bs + 8 \<le> end_offset L"
    and x: "pmemaddr L \<le> x" "x < pmemaddr L + (write_offset L + length bs + 8)"
  shows "dur m1 x" and "dur m2 x"
proof -
  let ?d = "pmemaddr L + write_offset L" and ?t = "pmemaddr L + tail_off"
  note D = plog_okD [OF ok]
  have t1: "touches m m1 (frame m \<union> {?d..<?d + length bs + 8})"
    and t2: "touches m1 m2 (frame m \<union> {?t..<?t + 8})"
    and s: "\<forall>x \<in> {?d..<?d + length bs + 8}. dur m1 x" "\<forall>x \<in> {?t..<?t + 8}. dur m2 x"
    using p safe by (auto simp: publishes_def Let_def)
  have d1: "dur m1 x"
  proof (cases "x < ?d")
    case True
    then have "dur m x" using d x(1) by (simp add: plog_durable_def)
    then show ?thesis by (rule touches_dur [OF t1 publishes_old(1) [OF ok p x(1) True]])
  next
    case False
    then show ?thesis using s(1) x(2) by simp
  qed
  then show "dur m1 x" .
  have "x \<notin> frame m" using x room D(3) by (intro log_not_frame [OF D(1) x(1)]) linarith
  then show "dur m2 x"
    using s(2) touches_dur [OF t2 _ d1] by (cases "x \<in> {?t..<?t + 8}") auto
qed

lemma publishes_crash:
  assumes ok: "plog_ok m L es" and p: "publishes c m L (fst e @ snd e) m1 m2" and e: "entry_ok e"
    and d: "plog_durable m L" and room: "write_offset L + length (fst e @ snd e) + 8 \<le> end_offset L"
    and crash: "crash_during m m2 img"
    and untorn: "rd64 img (pmemaddr L + tail_off) \<in>
      {write_offset L, write_offset L + length (fst e @ snd e) + 8}"
  shows "log_image img (pmemaddr L) (mapped_len L) es \<or>
    log_image img (pmemaddr L) (mapped_len L) (es @ [e])"
proof -
  let ?d = "pmemaddr L + write_offset L" and ?t = "pmemaddr L + tail_off"
  let ?n = "length (fst e @ snd e)"
  note D = plog_okD [OF ok] and B = publishes_bodies [OF ok p e]
  have t1: "touches m m1 (frame m \<union> {?d..<?d + ?n + 8})"
    and t2: "touches m1 m2 (frame m \<union> {?t..<?t + 8})"
    using p by (auto simp: publishes_def Let_def)
  from touches_split [OF t1 t2 crash] show ?thesis
  proof
    assume c1: "crash_during m m1 img"
    have same: "img x = cur m x" if "pmemaddr L \<le> x" "x < ?d" for x
      using touches_crash [OF t1 c1 publishes_old(1) [OF ok p that]] d that by (simp add: plog_durable_def)
    have "log_body img (pmemaddr L) (mapped_len L) es (write_offset L)"
      using same D(4) by (intro log_body_cong [OF D(2)]) (auto simp: layout_consts)
    moreover have "rd64 img ?t = rd64 (cur m) ?t"
      using same D(4) by (intro rd64_cong) (auto simp: layout_consts)
    ultimately show ?thesis using D(8) by (simp add: log_image_def)
  next
    assume c2: "crash_during m1 m2 img"
    have same: "img x = cur m1 x" if "x \<notin> frame m \<union> {?t..<?t + 8}" "x < pmemaddr L + (write_offset L + ?n + 8)"
      "pmemaddr L \<le> x" for x
      using publishes_durable(1) [OF ok p d room that(3,2)] touches_crash [OF t2 c2 that(1)] by simp
    have le: "write_offset L + ?n + 8 \<le> mapped_len L" using room D(3) by linarith
    have "log_body img (pmemaddr L) (mapped_len L) es (write_offset L)"
      by (rule publishes_body_keep [OF B(1) _ D(1)]) (use D(7) same in auto)
    moreover have "log_body img (pmemaddr L) (mapped_len L) (es @ [e]) (write_offset L + ?n + 8)"
      by (rule publishes_body_keep [OF B(2) le D(1)]) (rule same)
    ultimately show ?thesis using untorn by (auto simp: log_image_def)
  qed
qed

end

subsection \<open>walk on a well-formed log\<close>

text \<open>The abstract walk: the callback sees the entries in order until it answers no.\<close>

fun walk_entries :: "addr \<Rightarrow> nat \<Rightarrow> 'a callback \<Rightarrow> log_entry list \<Rightarrow> 'a \<Rightarrow> 'a outcome option" where
  "walk_entries base off f [] arg = Some (Inr arg)"
| "walk_entries base off f (e # es) arg =
     (case f (base + off) (length (snd e)) arg of
        None \<Rightarrow> None
      | Some (Inl err) \<Rightarrow> Some (Inl err)
      | Some (Inr (arg, go_on)) \<Rightarrow>
          if go_on then walk_entries base (off + entry_size e) f es arg else Some (Inr arg))"

lemma entry_len_field:
  assumes "entry_ok e" "rd mem a (sizeof_lehdr + length (snd e)) = fst e @ snd e"
  shows "rd64 mem (a + len_off) = length (snd e)"
proof -
  have "take 8 (drop len_off (rd mem a (sizeof_lehdr + length (snd e)))) = rd mem (a + len_off) 8"
    by (simp add: drop_rd take_rd layout_consts)
  moreover have "take 8 (drop len_off (fst e @ snd e)) = take 8 (drop len_off (fst e))"
    using assms(1) by (simp add: entry_ok_def layout_consts)
  ultimately show ?thesis using assms by (simp add: rd64_def entry_ok_def)
qed

lemma walk_loop_entries:
  "entries_at mem base off es tail \<Longrightarrow> tail < 2 ^ 64 \<Longrightarrow>
   walk_loop mem base f tail off arg = walk_entries base off f es arg"
proof (induction es arbitrary: off arg)
  case Nil
  then show ?case by (simp add: walk_loop.simps)
next
  case (Cons e es)
  let ?k = "length (snd e)"
  have len: "rd64 mem (base + off + len_off) = ?k"
    using Cons.prems(1) by (intro entry_len_field) simp_all
  have le: "off + entry_size e \<le> tail" using Cons.prems(1) entries_at_le by auto
  then have adv: "wadd off (wadd (wadd sizeof_lehdr ?k) WORD_LENGTH) = off + entry_size e"
    using Cons.prems(2) by (simp add: wadd_exact entry_size_def)
  have "off < tail" using le by (simp add: entry_size_def WORD_LENGTH_def)
  then show ?case
    using Cons by (subst walk_loop.simps) (auto simp: len adv split: sum.split option.split)
qed

lemma walk_image:
  assumes "log_image mem (pmemaddr L) mlen es"
  shows "walk mem L f arg =
    (if es = [] then Some (Inr (arg, ID_NOT_FOUND))
     else map_option (\<lambda>r. bindO r (\<lambda>arg. Inr (arg, NO_ERROR))) (walk_entries (pmemaddr L) sizeof_lhdr f es arg))"
proof -
  let ?tail = "rd64 mem (pmemaddr L + tail_off)"
  have e: "entries_at mem (pmemaddr L) sizeof_lhdr es ?tail"
    and h: "rd64 mem (pmemaddr L + head_off) = sizeof_lhdr"
    using assms by (auto simp: log_image_def log_body_def)
  have "sizeof_lhdr < ?tail" if "es \<noteq> []"
    using that e entries_at_le by (cases es) (force simp: entry_size_def WORD_LENGTH_def)+
  moreover have "sizeof_lhdr = ?tail" if "es = []" using that e by simp
  ultimately show ?thesis
    using walk_loop_entries [OF e rd64_less, of f arg] h
    by (auto simp: walk_def Let_def read_lhdr_def)
qed

subsection \<open>appendmv, the refusals, and append\<close>

lemma iov_total_append: "iov_total acc (xs @ ys) = iov_total (iov_total acc xs) ys"
  by (simp add: iov_total_def)

lemma iov_total_concat: "foldl iov_total acc iovpp = iov_total acc (concat iovpp)"
proof (induction iovpp arbitrary: acc)
  case (Cons iov iovpp)
  then show ?case by (simp add: iov_total_append)
qed (simp add: iov_total_def)

lemma copy_iov_append: "copy_iov c m L (xs @ ys) = (case copy_iov c m L xs of (m, L) \<Rightarrow> copy_iov c m L ys)"
  by (induction c m L xs rule: copy_iov.induct) auto

lemma copy_iov_concat:
  "foldl (\<lambda>(m, L) iov. copy_iov c m L iov) (m, L) iovpp = copy_iov c m L (concat iovpp)"
proof (induction iovpp arbitrary: m L)
  case (Cons iov iovpp)
  then show ?case by (cases "copy_iov c m L iov") (simp add: copy_iov_append)
qed simp

lemma appendmv_appendv: "appendmv c m L iovpp = appendv c m L (concat iovpp)"
  by (simp add: appendmv_def appendv_def iov_total_concat copy_iov_concat Let_def)

lemma copy_iov_MEMCPY_append:
  "copy_iov_MEMCPY m L (xs @ ys) = (case copy_iov_MEMCPY m L xs of (m, L) \<Rightarrow> copy_iov_MEMCPY m L ys)"
  by (induction m L xs rule: copy_iov_MEMCPY.induct) auto

lemma copy_iov_MEMCPY_concat: "foldl (\<lambda>(m, L) iov. copy_iov_MEMCPY m L iov) (m, L) iovpp = copy_iov_MEMCPY m L (concat iovpp)"
proof (induction iovpp arbitrary: m L)
  case (Cons iov iovpp)
  then show ?case by (cases "copy_iov_MEMCPY m L iov") (simp add: copy_iov_MEMCPY_append)
qed simp

lemma appendmv_MEMCPY_appendv: "appendmv_MEMCPY m L iovpp = appendv_MEMCPY m L (concat iovpp)"
  by (simp add: appendmv_MEMCPY_def appendv_MEMCPY_def iov_total_concat copy_iov_MEMCPY_concat Let_def)

lemma appendv_full:
  assumes "plog_ok m L es" "iov_len iov + 8 < 2 ^ 64" "\<not> write_offset L + iov_len iov + 8 \<le> end_offset L"
  shows "appendv c m L iov = Inl (Exit 1)"
proof -
  note D = plog_okD [OF assms(1)]
  have "wadd (iov_total 0 iov) WORD_LENGTH = iov_len iov + 8"
    using assms(2) by (simp add: iov_total_exact wadd_exact WORD_LENGTH_def)
  then show ?thesis
    using append_room [OF D(1,3,5)] assms(3) by (auto simp: appendv_def Let_def)
qed

lemma append_log_overwrites:
  assumes ok: "plog_ok m L es" and room: "write_offset L + n + 8 \<le> end_offset L" "data + n < 2 ^ 64"
  shows "\<exists>m'. append_log c m L data n = Inr (m', L\<lparr>write_offset := write_offset L + 8\<rparr>, NO_ERROR) \<and>
    rd64 (cur m') (pmemaddr L + write_offset L) = COMMIT_FLAG"
proof -
  note D = plog_okD [OF ok]
  let ?d = "pmemaddr L + write_offset L" and ?t = "pmemaddr L + tail_off"
  let ?ma = "pmem_memcpy_nodrain c m ?d data n"
  have "pmemaddr L + mapped_len L < 2 ^ 64" using D(1) by (simp add: frame_ok_def)
  then have lt: "?d + n < 2 ^ 64" using D(3) room(1) by linarith
  have sa: "sp ?ma = sp m" using moved_sp [OF moved_memcpy [OF lt room(2)]] .
  then have fa: "frame_ok ?ma L" "frame ?ma = frame m" using D(1) by (simp_all add: frame_ok_def frame_def)
  have w: "write_offset L + 8 \<le> mapped_len L" "32 \<le> mapped_len L"
    using room(1) D(3,6) unfolding sizeof_lhdr_def by linarith+
  obtain m1 m2 where p: "persist c ?ma L = (m2, L\<lparr>write_offset := write_offset L + 8\<rparr>)"
    "commits c ?ma L m1 m2" using persist_commits [OF fa(1) w] by blast
  have t: "touches m1 m2 (frame m \<union> {?t..<?t + 8})" and r: "rd (cur m1) ?d 8 = le_bytes 8 COMMIT_FLAG"
    using p(2) fa(2) by (simp_all add: commits_def Let_def)
  have "{?d..<?d + 8} \<inter> (frame m \<union> {?t..<?t + 8}) = {}"
    using D(1,4) w(1) by (auto simp: frame_ok_def frame_def disj_def layout_consts)
  then have "rd (cur m2) ?d 8 = le_bytes 8 COMMIT_FLAG" using rd_touches [OF t] r by simp
  then have flag: "rd64 (cur m2) ?d = COMMIT_FLAG" by (simp add: rd64_def COMMIT_FLAG_def)
  have "n + 8 \<le> wsub (end_offset L) (write_offset L)" using append_room [OF D(1,3,5)] room(1) by blast
  then show ?thesis using p(1) flag room(1) by (auto simp: append_log_def)
qed

subsection \<open>Creating and reopening a log\<close>

lemma touches_touch_pages: "touches m (touch_pages m base k fin) {base + k..<base + fin}"
proof (induction m base k fin rule: touch_pages.induct)
  case (1 m base k fin)
  show ?case
  proof (cases "k < fin")
    case True
    have "touches m (emit m (Store (base + k) 0)) {base + k..<base + fin}"
      unfolding touches_def by (intro exI [of _ "[Store (base + k) 0]"]) (simp add: True)
    moreover have "touches (emit m (Store (base + k) 0)) (touch_pages m base k fin) {base + k..<base + fin}"
      using 1 [OF True] by (subst touch_pages.simps) (auto simp: True intro: touches_mono)
    ultimately show ?thesis by (rule touches_trans)
  next
    case False
    then show ?thesis by (simp add: touch_pages.simps)
  qed
qed

lemma rd64_lhdr_bytes:
  assumes "rd mem a 32 = lhdr_bytes h" "lh_magic_number h < 2 ^ 64" "lh_len h < 2 ^ 64"
    "lh_head h < 2 ^ 64" "lh_tail h < 2 ^ 64"
  shows "read_lhdr mem a = h"
proof -
  have "rd mem a (8 + (8 + (8 + 8))) = rd mem a 8 @ rd mem (a + 8) 8 @ rd mem (a + 16) 8 @ rd mem (a + 24) 8"
    by (simp only: rd_add add.assoc) simp
  then have "rd mem a 8 @ rd mem (a + 8) 8 @ rd mem (a + 16) 8 @ rd mem (a + 24) 8 = lhdr_bytes h"
    using assms(1) by simp
  then show ?thesis
    using assms(2-5) by (simp add: lhdr_bytes_def read_lhdr_def rd64_def head_off_def tail_off_def)
qed

lemma Log_new_fresh:
  assumes os: "os_fine env1 a" and p: "fs path = None" and sz: "32 < sz" "sz < 2 ^ 63"
    and fr: "disj (sp m) 32 a sz" "sp m + 32 < 2 ^ 64" "a + sz < 2 ^ 64"
  shows "\<exists>m' L. Log_new c isp env1 env2 m fs path sz lid = Inr (m', fs(path \<mapsto> replicate sz 0), L) \<and>
    plog_ok m' L [] \<and> (safe_config c \<longrightarrow> plog_durable m' L) \<and> log_id L = lid \<and> logPath L = path \<and>
    pmemaddr L = a \<and> mapped_len L = sz \<and> sp m' = sp m"
proof -
  let ?h = "\<lparr>lh_magic_number = MAGIC_NUMBER, lh_len = sz, lh_head = sizeof_lhdr, lh_tail = sizeof_lhdr\<rparr>"
  define m1 where "m1 = stores (map_in m a (replicate sz 0)) (sp m) (lhdr_bytes ?h)"
  define m2 where "m2 = pmem_memcpy_persist c m1 a (sp m) sizeof_lhdr"
  define m3 where "m3 = touch_pages m2 a sizeof_lhdr (wsub sz 1)"
  let ?L = "\<lparr>log_id = lid, logPath = path, pmemaddr = a, mapped_len = sz, log_size = sz,
    start_offset = sizeof_lhdr, end_offset = wsub sz 1, write_offset = sizeof_lhdr\<rparr>"
  have fin: "wsub sz 1 = sz - 1" using sz by (intro wsub_exact) simp_all
  have len: "length (lhdr_bytes ?h) = 32" by (simp add: lhdr_bytes_def)
  have lt: "a + sizeof_lhdr < 2 ^ 64" "sp m + sizeof_lhdr < 2 ^ 64" and dis: "disj (sp m) 32 a 32"
    using sz(1) fr unfolding sizeof_lhdr_def disj_def by linarith+
  have s1: "sp m1 = sp m" by (simp add: m1_def)
  have "rd (cur m1) (sp m) 32 = lhdr_bytes ?h" by (simp add: m1_def rd_stores len)
  then have r2: "rd (cur m2) a 32 = lhdr_bytes ?h"
    using rd_memcpy [OF lt refl, of c m1] by (simp add: m2_def pmem_memcpy_persist_def sizeof_lhdr_def)
  have t3: "touches m2 m3 {a + sizeof_lhdr..<a + (sz - 1)}"
    unfolding m3_def fin by (rule touches_touch_pages)
  have "rd (cur m3) a 32 = lhdr_bytes ?h"
    using rd_touches [OF t3, of a 32] r2 by (auto simp: sizeof_lhdr_def)
  then have h: "read_lhdr (cur m3) a = ?h"
    using sz by (intro rd64_lhdr_bytes) (simp_all add: layout_consts)
  have "sp m2 = sp m1"
    using moved_sp [OF moved_memcpy [OF lt]] by (simp add: m2_def pmem_memcpy_persist_def)
  then have s3: "sp m3 = sp m" using touches_sp [OF t3] s1 by simp
  have "plog_ok m3 ?L []"
    using h sz(1) fr s3
    by (auto simp: plog_ok_def log_image_def log_body_def read_lhdr_def frame_ok_def disj_def fin [simplified] sizeof_lhdr_def
        head_off_def tail_off_def)
  moreover have "dur m3 x" if "safe_config c" "x \<in> {a..<a + sizeof_lhdr}" for x
  proof -
    have "dur m2 x" unfolding m2_def pmem_memcpy_persist_def
      using dis by (intro pmem_drain_dur flushed_memcpy [OF that(1) lt _ that(2)]) (simp add: sizeof_lhdr_def)
    then show ?thesis using touches_dur [OF t3] that(2) by simp
  qed
  then have "safe_config c \<longrightarrow> plog_durable m3 ?L" by (simp add: plog_durable_def)
  moreover have "Log_new c isp env1 env2 m fs path sz lid = Inr (m3, fs(path \<mapsto> replicate sz 0), ?L)"
    using map_file_create [of env1 a fs path sz isp m] os p sz s1
    by (simp add: Log_new_def Let_def m1_def m2_def m3_def)
  ultimately show ?thesis using s3 by auto
qed

text \<open>The contents of a log do not depend on where it is mapped.\<close>

lemma rd_shift: "rd (\<lambda>x. mem (base + x)) a n = rd mem (base + a) n"
  by (rule nth_equalityI) (simp_all add: add.assoc)

lemma log_image_shift: "log_image mem base mlen es \<longleftrightarrow> log_image (\<lambda>x. mem (base + x)) 0 mlen es"
proof -
  have "entries_at mem base off es fin \<longleftrightarrow> entries_at (\<lambda>x. mem (base + x)) 0 off es fin" for off fin
    by (induction es arbitrary: off) (simp_all add: rd_shift rd64_def add.assoc)
  then show ?thesis by (simp add: log_image_def log_body_def rd64_def rd_shift)
qed

lemma log_image_agree:
  assumes "log_image mem base mlen es" "rd64 mem (base + tail_off) \<le> mlen" "sizeof_lhdr \<le> mlen"
    "\<forall>x. base \<le> x \<and> x < base + mlen \<longrightarrow> mem' x = mem x"
  shows "log_image mem' base mlen es" "rd64 mem' (base + tail_off) = rd64 mem (base + tail_off)"
proof -
  show t: "rd64 mem' (base + tail_off) = rd64 mem (base + tail_off)"
    using assms(3,4) by (intro rd64_cong) (auto simp: layout_consts)
  show "log_image mem' base mlen es"
    unfolding log_image_def t
  proof (rule log_body_cong, use assms(1) log_image_def in blast, intro allI impI)
    fix x
    assume "base \<le> x \<and> x < base + tail_off \<or>
      base + sizeof_lhdr \<le> x \<and> x < base + rd64 mem (base + tail_off)"
    then have "base \<le> x \<and> x < base + mlen" using assms(2,3) unfolding layout_consts by linarith
    then show "mem' x = mem x" using assms(4) by blast
  qed
qed

lemma log_image_reload:
  assumes "log_image mem base mlen es" "rd64 mem (base + tail_off) \<le> mlen" "sizeof_lhdr \<le> mlen"
  shows "log_image (wr mem' a (rd mem base mlen)) a mlen es"
    "rd64 (wr mem' a (rd mem base mlen)) (a + tail_off) = rd64 mem (base + tail_off)"
proof -
  let ?f = "\<lambda>x. mem (base + x)" and ?g = "\<lambda>x. wr mem' a (rd mem base mlen) (a + x)"
  have f: "log_image ?f 0 mlen es" using assms(1) log_image_shift by blast
  have tl: "rd64 ?f (0 + tail_off) \<le> mlen" using assms(2) by (simp add: rd64_def rd_shift)
  have eq: "\<forall>x. 0 \<le> x \<and> x < 0 + mlen \<longrightarrow> ?g x = ?f x" by (simp add: wr_def)
  note g = log_image_agree [OF f tl assms(3) eq]
  show "log_image (wr mem' a (rd mem base mlen)) a mlen es"
    using g(1) log_image_shift by blast
  show "rd64 (wr mem' a (rd mem base mlen)) (a + tail_off) = rd64 mem (base + tail_off)"
    using g(2) by (simp add: rd64_def rd_shift)
qed

lemma Log_new_reopen:
  assumes img: "log_image mem base mlen es" "rd64 mem (base + tail_off) < mlen" "sizeof_lhdr < mlen"
    and fl: "fs path = Some (rd mem base mlen)"
    and os: "env_dax env1 = None" "os_fine env2 a"
    and fr: "disj (sp m) 16 a mlen" "sp m + 16 < 2 ^ 64" "a + mlen < 2 ^ 64"
  shows "\<exists>m' L. Log_new c isp env1 env2 m fs path 0 lid = Inr (m', fs, L) \<and> plog_ok m' L es \<and>
    plog_durable m' L \<and> write_offset L = rd64 mem (base + tail_off) \<and> pmemaddr L = a \<and> mapped_len L = mlen \<and> sp m' = sp m"
proof -
  let ?m = "map_in m a (rd mem base mlen)" and ?w = "rd64 mem (base + tail_off)"
  let ?L = "\<lparr>log_id = lid, logPath = path, pmemaddr = a, mapped_len = mlen, log_size = 0,
    start_offset = sizeof_lhdr, end_offset = wsub mlen 1, write_offset = ?w\<rparr>"
  have R: "log_image (cur ?m) a mlen es" "rd64 (cur ?m) (a + tail_off) = ?w"
    using log_image_reload [OF img(1)] img(2,3) by simp_all
  then have h: "read_lhdr (cur ?m) a = \<lparr>lh_magic_number = MAGIC_NUMBER, lh_len = mlen,
      lh_head = sizeof_lhdr, lh_tail = ?w\<rparr>"
    by (simp add: log_image_def log_body_def read_lhdr_def)
  obtain e where "pmem_map_file isp env1 m fs path 0 (PMEM_FILE_CREATE OR PMEM_FILE_EXCL) = (m, fs, Inl e)"
    using map_file_create_fails [of env1 fs path 0] os(1) by auto
  then have n: "Log_new c isp env1 env2 m fs path 0 lid = Inr (?m, fs, ?L)"
    using map_file_existing [of env2 a fs path "rd mem base mlen" isp m] os(2) fl h by (simp add: Log_new_def Let_def)
  have fin: "wsub mlen 1 = mlen - 1" using img(3) fr(3) by (intro wsub_exact) simp_all
  have "plog_ok ?m ?L es"
    using R img(2,3) fr by (auto simp: plog_ok_def frame_ok_def fin [simplified])
  moreover have "plog_durable ?m ?L"
    using img(2) by (auto simp: plog_durable_def intro!: dur_map_in)
  ultimately show ?thesis using n by auto
qed

lemma Log_new_exists:
  assumes "fs path \<noteq> None" "sz \<noteq> 0" "env_dax env1 = None" "env_dax env2 = None"
  shows "Log_new c isp env1 env2 m fs path sz lid = Inl (Exit 1)"
proof -
  obtain e where "pmem_map_file isp env1 m fs path sz (PMEM_FILE_CREATE OR PMEM_FILE_EXCL) = (m, fs, Inl e)"
    using map_file_create_fails [of env1 fs path sz] assms(1,3) by blast
  then show ?thesis
    using map_file_nonzero_len [OF assms(4,2)] by (simp add: Log_new_def)
qed

subsection \<open>A sample log\<close>

text \<open>An empty log of 4096 bytes, mapped at 4096, in a machine with nothing in flight.\<close>

definition sample_mem :: memory where
  "sample_mem = wr (\<lambda>_. 0) 4096 (lhdr_bytes \<lparr>lh_magic_number = MAGIC_NUMBER, lh_len = 4096,
     lh_head = 32, lh_tail = 32\<rparr>)"

definition sample_mach :: mach where
  "sample_mach = quiescent sample_mem 1024"

definition sample_plog :: plog where
  "sample_plog = \<lparr>log_id = 1, logPath = ''l'', pmemaddr = 4096, mapped_len = 4096, log_size = 4096,
     start_offset = 32, end_offset = 4095, write_offset = 32\<rparr>"

definition sample_iov :: "iovec list" where
  "sample_iov = [(2048, 100), (2148, 36)]"

definition sample_entry :: log_entry where
  "sample_entry = (replicate 136 0, [])"

lemma rd_const: "rd (\<lambda>_. v) a n = replicate n v"
  by (rule nth_equalityI) simp_all

lemma le_nat_zeros: "le_nat (replicate n 0) = 0"
  by (induction n) simp_all

lemma sample_log:
  "plog_ok sample_mach sample_plog []" "plog_durable sample_mach sample_plog"
proof -
  have "rd sample_mem 4096 32 = lhdr_bytes \<lparr>lh_magic_number = MAGIC_NUMBER, lh_len = 4096,
      lh_head = 32, lh_tail = 32\<rparr>"
    by (simp add: sample_mem_def rd_wr_same lhdr_bytes_def)
  then have "read_lhdr sample_mem 4096 = \<lparr>lh_magic_number = MAGIC_NUMBER, lh_len = 4096,
      lh_head = 32, lh_tail = 32\<rparr>"
    by (intro rd64_lhdr_bytes) (simp_all add: layout_consts)
  then show "plog_ok sample_mach sample_plog []"
    by (simp add: plog_ok_def log_image_def log_body_def sample_mach_def sample_plog_def read_lhdr_def
        frame_ok_def disj_def layout_consts)
  show "plog_durable sample_mach sample_plog" by (simp add: plog_durable_def sample_mach_def)
qed

lemma sample_append:
  "iov_ok (pmemaddr sample_plog) (mapped_len sample_plog) sample_iov"
  "iov_data (cur sample_mach) sample_iov = fst sample_entry @ snd sample_entry"
  "entry_ok sample_entry"
  "write_offset sample_plog + iov_len sample_iov + 8 \<le> end_offset sample_plog"
proof -
  have r: "rd sample_mem 2048 100 = replicate 100 0" "rd sample_mem 2148 36 = replicate 36 0"
    by (simp_all add: sample_mem_def rd_wr_disjoint rd_const)
  show "iov_data (cur sample_mach) sample_iov = fst sample_entry @ snd sample_entry"
    by (simp add: sample_mach_def sample_iov_def sample_entry_def r replicate_add [symmetric])
  show "iov_ok (pmemaddr sample_plog) (mapped_len sample_plog) sample_iov"
    by (simp add: iov_ok_def sample_iov_def sample_plog_def disj_def)
  show "entry_ok sample_entry"
    by (simp add: entry_ok_def sample_entry_def layout_consts le_nat_zeros)
  show "write_offset sample_plog + iov_len sample_iov + 8 \<le> end_offset sample_plog"
    by (simp add: sample_plog_def sample_iov_def)
qed

lemma crash_at_start: "wfm m \<Longrightarrow> touches m m' S \<Longrightarrow> crash_during m m' (cur m)"
  by (auto simp: touches_def crash_during_emits wfm_def crash_img_def intro!: exI [of _ 0])

lemma publishes_touches:
  assumes "publishes c m L bs m1 m2"
  shows "touches m m2 UNIV"
proof -
  obtain S T where "touches m m1 S" "touches m1 m2 T" using assms by (auto simp: publishes_def Let_def)
  then show ?thesis using touches_trans touches_mono by blast
qed

lemma sample_appended:
  "\<exists>m'. appendv sample_lib sample_mach sample_plog sample_iov =
      Inr (m', sample_plog\<lparr>write_offset := write_offset sample_plog + iov_len sample_iov + 8\<rparr>, NO_ERROR) \<and>
    touches sample_mach m' UNIV"
  using appendv_publishes [OF sample_log(1) sample_append(1,4), of sample_lib] publishes_touches by blast

lemma durable_image:
  assumes ok: "plog_ok m L es" and "\<And>x. pmemaddr L \<le> x \<Longrightarrow> x < pmemaddr L + write_offset L \<Longrightarrow> img x = cur m x"
  shows "log_image img (pmemaddr L) (mapped_len L) es"
proof -
  note D = plog_okD [OF ok]
  have "rd64 img (pmemaddr L + tail_off) = write_offset L"
    unfolding D(8) [symmetric] using assms(2) D(4) by (intro rd64_cong) (auto simp: layout_consts)
  moreover have "log_body img (pmemaddr L) (mapped_len L) es (write_offset L)"
    using assms(2) D(4) by (intro log_body_cong [OF D(2)]) (auto simp: layout_consts)
  ultimately show ?thesis by (simp add: log_image_def)
qed

subsection \<open>Properties of the log\<close>

lemma appendv_ok:
  assumes "plog_ok m L es" "iov_ok (pmemaddr L) (mapped_len L) iov"
    "iov_data (cur m) iov = fst e @ snd e" "entry_ok e"
    "write_offset L + iov_len iov + 8 \<le> end_offset L"
  shows "\<exists>m'. appendv c m L iov =
      Inr (m', L\<lparr>write_offset := write_offset L + iov_len iov + 8\<rparr>, NO_ERROR) \<and>
    plog_ok m' (L\<lparr>write_offset := write_offset L + iov_len iov + 8\<rparr>) (es @ [e]) \<and>
    (safe_config c \<longrightarrow> plog_durable m L \<longrightarrow>
       plog_durable m' (L\<lparr>write_offset := write_offset L + iov_len iov + 8\<rparr>))"
proof -
  obtain m1 m2 where a: "appendv c m L iov =
      Inr (m2, L\<lparr>write_offset := write_offset L + iov_len iov + 8\<rparr>, NO_ERROR)"
    and p: "publishes c m L (fst e @ snd e) m1 m2"
    using appendv_publishes [OF assms(1,2,5), of c] assms(3) by auto
  have n: "iov_len iov = length (fst e @ snd e)" using assms(3) by (metis length_iov_data)
  note room = assms(5) [unfolded n]
  have "plog_durable m2 (L\<lparr>write_offset := write_offset L + iov_len iov + 8\<rparr>)"
    if "safe_config c" "plog_durable m L"
    using safe_libpmem.publishes_durable(2) [OF safe_libpmem.intro [OF that(1)] assms(1) p that(2) room]
    by (simp add: plog_durable_def n add.assoc)
  then show ?thesis using a publishes_ok [OF assms(1) p assms(4) room] by (auto simp: n)
qed

text \<open>
  C8. Appending adds one entry at the end. On a well-formed log that holds the entries \<open>es\<close>, an
  \<open>appendv\<close> of vectors that together spell a header and its data, and that fit with the commit flag,
  returns \<open>NO_ERROR\<close>, advances \<open>write_offset\<close> by exactly the bytes written and leaves a well-formed
  log with the entries \<open>es @ [e]\<close>; where libpmem flushes, a durable log stays durable.
\<close>

theorem appendv_appends:
  assumes "plog_ok m L es" "iov_ok (pmemaddr L) (mapped_len L) iov"
    "iov_data (cur m) iov = fst e @ snd e" "entry_ok e"
    "write_offset L + iov_len iov + 8 \<le> end_offset L"
  shows "\<exists>m'. appendv c m L iov =
      Inr (m', L\<lparr>write_offset := write_offset L + iov_len iov + 8\<rparr>, NO_ERROR) \<and>
    plog_ok m' (L\<lparr>write_offset := write_offset L + iov_len iov + 8\<rparr>) (es @ [e]) \<and>
    (safe_config c \<longrightarrow> plog_durable m L \<longrightarrow>
       plog_durable m' (L\<lparr>write_offset := write_offset L + iov_len iov + 8\<rparr>))"
  by (rule appendv_ok [OF assms])

theorem appendv_appends_witness:
  "\<exists>m'. appendv sample_lib sample_mach sample_plog sample_iov =
      Inr (m', sample_plog\<lparr>write_offset := 176\<rparr>, NO_ERROR) \<and>
    plog_ok m' (sample_plog\<lparr>write_offset := 176\<rparr>) [sample_entry]"
  using appendv_appends [OF sample_log(1) sample_append, of sample_lib]
  by (auto simp: sample_plog_def sample_iov_def)

lemma appendv_crash:
  assumes "safe_config c" "plog_ok m L es" "plog_durable m L"
    "iov_ok (pmemaddr L) (mapped_len L) iov" "iov_data (cur m) iov = fst e @ snd e" "entry_ok e"
    "write_offset L + iov_len iov + 8 \<le> end_offset L"
    "appendv c m L iov = Inr (m', L', r)" "crash_during m m' img"
    "rd64 img (pmemaddr L + tail_off) \<in> {write_offset L, write_offset L'}"
  shows "log_image img (pmemaddr L) (mapped_len L) es \<or>
    log_image img (pmemaddr L) (mapped_len L) (es @ [e])"
proof -
  obtain m1 where L': "L' = L\<lparr>write_offset := write_offset L + iov_len iov + 8\<rparr>"
    and p: "publishes c m L (fst e @ snd e) m1 m'"
    using appendv_publishes [OF assms(2,4,7), of c] assms(5,8) by auto
  have n: "iov_len iov = length (fst e @ snd e)" using assms(5) by (metis length_iov_data)
  show ?thesis
    using safe_libpmem.publishes_crash [OF safe_libpmem.intro [OF assms(1)] assms(2) p assms(6,3)
        assms(7) [unfolded n] assms(9)] assms(10) by (simp add: L' n)
qed

text \<open>
  C1. Crash consistency of an append. If power fails at any point inside \<open>appendv\<close> on a durable,
  well-formed log, and the eight bytes of the tail word are not torn (the image holds the old or the
  new tail), then what is on the medium is again a well-formed log, holding either the old entries
  or the old entries and the new one.
\<close>

theorem appendv_crash_consistent:
  assumes "safe_config c" "plog_ok m L es" "plog_durable m L"
    "iov_ok (pmemaddr L) (mapped_len L) iov" "iov_data (cur m) iov = fst e @ snd e" "entry_ok e"
    "write_offset L + iov_len iov + 8 \<le> end_offset L"
    "appendv c m L iov = Inr (m', L', r)" "crash_during m m' img"
    "rd64 img (pmemaddr L + tail_off) \<in> {write_offset L, write_offset L'}"
  shows "log_image img (pmemaddr L) (mapped_len L) es \<or>
    log_image img (pmemaddr L) (mapped_len L) (es @ [e])"
  by (rule appendv_crash [OF assms])

theorem appendv_crash_consistent_witness:
  "\<exists>m' L' r. appendv sample_lib sample_mach sample_plog sample_iov = Inr (m', L', r) \<and>
     crash_during sample_mach m' sample_mem \<and>
     (log_image sample_mem 4096 4096 [] \<or> log_image sample_mem 4096 4096 [sample_entry])"
proof -
  obtain m2 where a: "appendv sample_lib sample_mach sample_plog sample_iov =
      Inr (m2, sample_plog\<lparr>write_offset := write_offset sample_plog + iov_len sample_iov + 8\<rparr>, NO_ERROR)"
    and "touches sample_mach m2 UNIV"
    using sample_appended by blast
  then have c: "crash_during sample_mach m2 sample_mem"
    using crash_at_start [of sample_mach m2 UNIV] by (simp add: sample_mach_def)
  have "rd64 sample_mem (pmemaddr sample_plog + tail_off) = write_offset sample_plog"
    using plog_okD(8) [OF sample_log(1)] by (simp add: sample_mach_def)
  then show ?thesis
    using appendv_crash_consistent [OF sample_lib_safe sample_log sample_append a c] a c
    by (simp add: sample_plog_def)
qed

lemma appendv_acknowledged:
  assumes "safe_config c" "plog_ok m L es" "plog_durable m L"
    "iov_ok (pmemaddr L) (mapped_len L) iov" "iov_data (cur m) iov = fst e @ snd e" "entry_ok e"
    "write_offset L + iov_len iov + 8 \<le> end_offset L"
    "appendv c m L iov = Inr (m', L', r)" "crash_img m' img"
  shows "log_image img (pmemaddr L) (mapped_len L) (es @ [e])"
proof -
  obtain m1 where L': "L' = L\<lparr>write_offset := write_offset L + iov_len iov + 8\<rparr>"
    and p: "publishes c m L (fst e @ snd e) m1 m'"
    using appendv_publishes [OF assms(2,4,7), of c] assms(5,8) by auto
  have n: "iov_len iov = length (fst e @ snd e)" using assms(5) by (metis length_iov_data)
  note room = assms(7) [unfolded n]
  have ok: "plog_ok m' L' (es @ [e])" using publishes_ok [OF assms(2) p assms(6) room] by (simp add: L' n)
  have "img x = cur m' x" if "pmemaddr L \<le> x" "x < pmemaddr L + write_offset L'" for x
    using crash_img_dur [OF assms(9)] that L' n
      safe_libpmem.publishes_durable(2) [OF safe_libpmem.intro [OF assms(1)] assms(2) p assms(3) room]
    by simp
  then show ?thesis using durable_image [OF ok] by (simp add: L')
qed

text \<open>
  C7. Durability of an acknowledged append. Once \<open>appendv\<close> has returned, every image a power failure
  can leave holds the new entry after the old ones, with no assumption on tearing.
\<close>

theorem appendv_durable:
  assumes "safe_config c" "plog_ok m L es" "plog_durable m L"
    "iov_ok (pmemaddr L) (mapped_len L) iov" "iov_data (cur m) iov = fst e @ snd e" "entry_ok e"
    "write_offset L + iov_len iov + 8 \<le> end_offset L"
    "appendv c m L iov = Inr (m', L', r)" "crash_img m' img"
  shows "log_image img (pmemaddr L) (mapped_len L) (es @ [e])"
  by (rule appendv_acknowledged [OF assms])

theorem appendv_durable_witness:
  "\<exists>m' L' r. appendv sample_lib sample_mach sample_plog sample_iov = Inr (m', L', r) \<and>
     log_image (cur m') 4096 4096 [sample_entry]"
proof -
  obtain m2 where a: "appendv sample_lib sample_mach sample_plog sample_iov =
      Inr (m2, sample_plog\<lparr>write_offset := write_offset sample_plog + iov_len sample_iov + 8\<rparr>, NO_ERROR)"
    and "touches sample_mach m2 UNIV"
    using sample_appended by blast
  then have "wfm m2" using wfm_touches by (simp add: sample_mach_def)
  then have "crash_img m2 (cur m2)" by (simp add: crash_img_def wfm_def)
  then show ?thesis
    using appendv_durable [OF sample_lib_safe sample_log sample_append a] a by (simp add: sample_plog_def)
qed

text \<open>
  C9. On a well-formed log \<open>walk\<close> is the recursion over its list of entries: an empty log gives
  \<open>ID_NOT_FOUND\<close> without a call, otherwise the callback sees each entry's address and data length in
  order until it answers no. In particular the loop ends whenever the callback does.
\<close>

theorem walk_visits:
  assumes "plog_ok m L es"
  shows "walk (cur m) L f arg =
    (if es = [] then Some (Inr (arg, ID_NOT_FOUND))
     else map_option (\<lambda>r. bindO r (\<lambda>arg. Inr (arg, NO_ERROR))) (walk_entries (pmemaddr L) 32 f es arg))"
  using walk_image [of "cur m" L "mapped_len L" es f arg] assms
  by (simp add: plog_ok_def sizeof_lhdr_def)

theorem walk_visits_witness:
  "\<exists>m' L'. appendv sample_lib sample_mach sample_plog sample_iov = Inr (m', L', NO_ERROR) \<and>
    walk (cur m') L' (\<lambda>a len n. Some (Inr (n @ [(a, len)], True))) [] = Some (Inr ([(4128, 0)], NO_ERROR))"
proof -
  let ?L = "sample_plog\<lparr>write_offset := write_offset sample_plog + iov_len sample_iov + 8\<rparr>"
  obtain m' where a: "appendv sample_lib sample_mach sample_plog sample_iov = Inr (m', ?L, NO_ERROR)" "plog_ok m' ?L [sample_entry]"
    using appendv_ok [OF sample_log(1) sample_append, of sample_lib] by auto
  show ?thesis
    using walk_visits [OF a(2), of "\<lambda>a len n. Some (Inr (n @ [(a, len)], True))" "[]"] a(1) by (auto simp: sample_plog_def sample_entry_def)
qed

text \<open>
  \<open>appendmv\<close> on several vectors is \<open>appendv\<close> on their concatenation, in every case including the
  refusals and sums that wrap.
\<close>

theorem appendmv_is_appendv: "appendmv c m L iovpp = appendv c m L (concat iovpp)"
  by (rule appendmv_appendv)

text \<open>An append that does not fit together with its commit flag ends the process with \<open>exit(1)\<close>.\<close>

theorem appendv_no_space:
  assumes "plog_ok m L es" "iov_len iov + 8 < 2 ^ 64" "end_offset L < write_offset L + iov_len iov + 8"
  shows "appendv c m L iov = Inl (Exit 1)"
  using appendv_full [OF assms(1,2)] assms(3) by simp

theorem appendv_no_space_witness:
  "appendv sample_lib sample_mach sample_plog [(2048, 4056)] = Inl (Exit 1)"
  using appendv_no_space [OF sample_log(1), of "[(2048, 4056)]" sample_lib] by (simp add: sample_plog_def)

text \<open>
  C40. \<open>append\<close> does not advance \<open>write_offset\<close> over the data: \<open>persist\<close> then puts the commit flag over
  the first eight bytes of it, and the tail moves by eight.
\<close>

theorem append_overwrites_data:
  assumes "plog_ok m L es" "write_offset L + n + 8 \<le> end_offset L" "data + n < 2 ^ 64"
  shows "\<exists>m'. append_log c m L data n = Inr (m', L\<lparr>write_offset := write_offset L + 8\<rparr>, NO_ERROR) \<and>
    rd64 (cur m') (pmemaddr L + write_offset L) = COMMIT_FLAG"
  by (rule append_log_overwrites [OF assms])

theorem append_overwrites_data_witness:
  "\<exists>m'. append_log sample_lib sample_mach sample_plog 2048 12 =
      Inr (m', sample_plog\<lparr>write_offset := 40\<rparr>, NO_ERROR) \<and> rd64 (cur m') 4128 = COMMIT_FLAG"
  using append_overwrites_data [OF sample_log(1), of 12 2048 sample_lib] by (simp add: sample_plog_def)

text \<open>
  A new log: the constructor on a path that does not exist creates the file, writes and persists
  the header, and gives a well-formed, durable log without entries.
\<close>

theorem Log_new_creates:
  assumes "os_fine env1 a" "fs path = None" "32 < sz" "sz < 2 ^ 63"
    "disj (sp m) 32 a sz" "sp m + 32 < 2 ^ 64" "a + sz < 2 ^ 64"
  shows "\<exists>m' L. Log_new c isp env1 env2 m fs path sz lid = Inr (m', fs(path \<mapsto> replicate sz 0), L) \<and>
    plog_ok m' L [] \<and> (safe_config c \<longrightarrow> plog_durable m' L) \<and> pmemaddr L = a \<and> mapped_len L = sz"
  using Log_new_fresh [of env1 a fs path sz m c isp env2 lid] assms by blast

theorem Log_new_creates_witness:
  "\<exists>m' L. Log_new sample_lib (\<lambda>_ _. 1) sample_env sample_env (quiescent (\<lambda>_. 0) 1024) (\<lambda>_. None) ''l'' 4096 1 =
      Inr (m', [''l'' \<mapsto> replicate 4096 0], L) \<and> plog_ok m' L [] \<and> plog_durable m' L"
  using Log_new_creates [OF sample_env_fine, of "\<lambda>_. None" "''l''" 4096 "quiescent (\<lambda>_. 0) 1024" sample_lib
      "\<lambda>_ _. 1" sample_env 1] sample_lib_safe
  by (auto simp: disj_def)

text \<open>
  C10. Reopening. If a file holds the image of a well-formed log, as a crash or a close left it, the
  constructor called with size 0 maps it, at any address, to a well-formed durable log with the same
  entries, ready to append at the stored tail. Called with any other size it does not reopen the log:
  the exclusive create fails on the existing file, the second attempt is refused, and the process exits.
\<close>

theorem Log_new_reopens:
  assumes "log_image img base mlen es" "rd64 img (base + tail_off) < mlen" "32 < mlen"
    "fs path = Some (rd img base mlen)" "env_dax env1 = None" "os_fine env2 a"
    "disj (sp m) 16 a mlen" "sp m + 16 < 2 ^ 64" "a + mlen < 2 ^ 64"
  shows "(\<exists>m' L. Log_new c isp env1 env2 m fs path 0 lid = Inr (m', fs, L) \<and> plog_ok m' L es \<and>
      plog_durable m' L \<and> write_offset L = rd64 img (base + tail_off) \<and> pmemaddr L = a) \<and>
    (0 < sz \<longrightarrow> Log_new c isp env1 env2 m fs path sz lid = Inl (Exit 1))"
  using Log_new_reopen [of img base mlen es fs path env1 env2 a m c isp lid]
    Log_new_exists [of fs path sz env1 env2 c isp m lid] assms
  by (auto simp: sizeof_lhdr_def os_fine_def)

theorem Log_new_reopens_witness:
  "\<exists>m2 L2 m' L. appendv sample_lib sample_mach sample_plog sample_iov = Inr (m2, L2, NO_ERROR) \<and>
    Log_new sample_lib (\<lambda>_ _. 1) sample_env sample_env (quiescent (\<lambda>_. 0) 1024)
      [''l'' \<mapsto> rd (cur m2) 4096 4096] ''l'' 0 1 = Inr (m', [''l'' \<mapsto> rd (cur m2) 4096 4096], L) \<and>
    plog_ok m' L [sample_entry] \<and> write_offset L = 176 \<and>
    Log_new sample_lib (\<lambda>_ _. 1) sample_env sample_env (quiescent (\<lambda>_. 0) 1024)
      [''l'' \<mapsto> rd (cur m2) 4096 4096] ''l'' 4096 1 = Inl (Exit 1)"
proof -
  let ?L = "sample_plog\<lparr>write_offset := write_offset sample_plog + iov_len sample_iov + 8\<rparr>"
  obtain m2 where a: "appendv sample_lib sample_mach sample_plog sample_iov = Inr (m2, ?L, NO_ERROR)" "plog_ok m2 ?L [sample_entry]"
    using appendv_ok [OF sample_log(1) sample_append, of sample_lib] by auto
  have "log_image (cur m2) 4096 4096 [sample_entry]" "rd64 (cur m2) (4096 + tail_off) = 176"
    using a(2) by (simp_all add: plog_ok_def sample_plog_def sample_iov_def)
  then show ?thesis
    using Log_new_reopens [of "cur m2" 4096 4096 "[sample_entry]" "[''l'' \<mapsto> rd (cur m2) 4096 4096]" "''l''" sample_env
        sample_env 8192 "quiescent (\<lambda>_. 0) 1024" sample_lib "\<lambda>_ _. 1" 1 4096] a(1)
    by (auto simp: disj_def)
qed

text \<open>
  The constructor takes over no existing file, whatever it holds, when it is given a size: the second attempt
  asks for a non-zero length without \<open>PMEM_FILE_CREATE\<close>, which \<open>pmem_map_file\<close> refuses.
\<close>

theorem Log_new_existing_exits:
  assumes "fs path \<noteq> None" "sz \<noteq> 0" "env_dax env1 = None" "env_dax env2 = None"
  shows "Log_new c isp env1 env2 m fs path sz lid = Inl (Exit 1)"
  using Log_new_exists [of fs path sz env1 env2 c isp m lid] assms by blast

theorem Log_new_existing_exits_witness:
  "Log_new sample_lib (\<lambda>_ _. 1) sample_env sample_env sample_mach [''l'' \<mapsto> []] ''l'' 4096 1 = Inl (Exit 1)"
  by (rule Log_new_existing_exits) simp_all

lemma copy_iov_MEMCPY_touches:
  assumes "write_offset L + iov_len iov < 2 ^ 64"
  shows "\<exists>m'. copy_iov_MEMCPY m L iov = (m', L\<lparr>write_offset := write_offset L + iov_len iov\<rparr>) \<and>
    touches m m' {pmemaddr L + write_offset L..<pmemaddr L + write_offset L + iov_len iov}"
  using assms
proof (induction iov arbitrary: m L)
  case (Cons v iov)
  obtain b k where v: "v = (b, k)" by (cases v)
  let ?d = "pmemaddr L + write_offset L"
  let ?L = "L\<lparr>write_offset := write_offset L + k\<rparr>" and ?m = "libc_memmove m ?d b k"
  obtain m' where m': "copy_iov_MEMCPY ?m ?L iov = (m', ?L\<lparr>write_offset := write_offset L + k + iov_len iov\<rparr>)"
    "touches ?m m' {?d + k..<?d + k + iov_len iov}"
    using Cons.IH [of ?L ?m] Cons.prems by (auto simp: v ac_simps)
  have "touches m ?m {?d..<?d + (k + iov_len iov)}"
    unfolding libc_memmove_def by (rule touches_stores) auto
  then have "touches m m' {?d..<?d + (k + iov_len iov)}"
    by (rule touches_trans) (rule touches_mono [OF m'(2)], auto)
  moreover have "wadd (write_offset L) k = write_offset L + k"
    using Cons.prems by (simp add: v wadd_exact)
  ultimately show ?case using m'(1) by (simp add: v ac_simps)
qed simp

text \<open>
  Compiled with \<open>_MEMCPY\<close>, an append is never published: it reports \<open>NO_ERROR\<close> and moves the
  object's \<open>write_offset\<close>, but the tail in the header stays, and the log read back has the old entries.
\<close>

theorem appendv_MEMCPY_unpublished:
  assumes "plog_ok m L es" "write_offset L + iov_len iov + 8 \<le> end_offset L"
  shows "\<exists>m'. appendv_MEMCPY m L iov = Inr (m', L\<lparr>write_offset := write_offset L + iov_len iov\<rparr>, NO_ERROR) \<and>
    log_image (cur m') (pmemaddr L) (mapped_len L) es"
proof -
  note D = plog_okD [OF assms(1)]
  have "mapped_len L < 2 ^ 64" using D(1) by (simp add: frame_ok_def)
  then have lt: "write_offset L + iov_len iov + 8 < 2 ^ 64" using assms(2) D(3) by linarith
  then have tot: "wadd (iov_total 0 iov) WORD_LENGTH = iov_len iov + 8"
    by (simp add: iov_total_exact wadd_exact WORD_LENGTH_def)
  let ?S = "{pmemaddr L + write_offset L..<pmemaddr L + write_offset L + iov_len iov}"
  obtain m' where c: "copy_iov_MEMCPY m L iov = (m', L\<lparr>write_offset := write_offset L + iov_len iov\<rparr>)"
    and t: "touches m m' ?S" using copy_iov_MEMCPY_touches [of L iov m] lt by auto
  have f: "touches m' (asm_mfence m') ?S"
    unfolding asm_mfence_def touches_def by (intro exI [of _ "[MFENCE]"]) simp
  have "log_image (cur (asm_mfence m')) (pmemaddr L) (mapped_len L) es"
    using touches_cur [OF touches_trans [OF t f]] by (intro durable_image [OF assms(1)]) auto
  moreover have "iov_len iov + 8 \<le> wsub (end_offset L) (write_offset L)"
    using append_room [OF D(1,3,5)] assms(2) by blast
  ultimately show ?thesis using c assms(2) by (simp add: appendv_MEMCPY_def Let_def tot)
qed

theorem appendv_MEMCPY_unpublished_witness:
  "\<exists>m'. appendv_MEMCPY sample_mach sample_plog sample_iov =
      Inr (m', sample_plog\<lparr>write_offset := 168\<rparr>, NO_ERROR) \<and> log_image (cur m') 4096 4096 []"
  using appendv_MEMCPY_unpublished [OF sample_log(1) sample_append(4)] by (simp add: sample_plog_def sample_iov_def)

end
