(* ===== verification/Root_Heap.thy ===== *)
theory Root_Heap
  imports Plog
begin

text \<open>
  The root heap: \<open>sheap/layout.h\<close>, \<open>sheap/root.cc\<close> and the tool that formats it,
  \<open>tools/heapFormatter.cc\<close>. The root object lists the identifiers of all logs of the node. It lives
  in a libpmemobj pool; a pool that exists at a path can be opened, and its root object is a value of
  the record \<open>nvs_root\<close>. Every operation holds the node-wide mutex from its first to its last line,
  so each is one step.
\<close>

definition MAX_LOGS :: nat where "MAX_LOGS = 256"

record nvs_root =
  nr_length :: int
  nr_log_id :: "int list"

type_synonym pools = "string \<Rightarrow> nvs_root option"

definition root_Open :: "pools \<Rightarrow> string \<Rightarrow> nvs_root outcome" where
  "root_Open pools path = (case pools path of None \<Rightarrow> Inl (Exit 1) | Some r \<Rightarrow> Inr r)"

text \<open>
  \<open>addLog\<close> writes the array at index \<open>length\<close> without looking at its bound; outside the array that is
  undefined.
\<close>

definition addLog :: "pools \<Rightarrow> string \<Rightarrow> nat \<Rightarrow> (pools \<times> ErrorCode) outcome" where
  "addLog pools path lid =
     bindO (root_Open pools path) (\<lambda>r.
       let n = nr_length r in
       if 0 \<le> n \<and> n < int (length (nr_log_id r)) then
         Inr (pools(path \<mapsto> r\<lparr>nr_log_id := (nr_log_id r)[nat n := int lid], nr_length := n + 1\<rparr>), NO_ERROR)
       else Inl Undefined)"

function scan_logs :: "nvs_root \<Rightarrow> nat \<Rightarrow> int \<Rightarrow> bool outcome" where
  "scan_logs r lid i =
     (if i < nr_length r then
        (if 0 \<le> i \<and> i < int (length (nr_log_id r)) then
           (if nr_log_id r ! nat i = int lid then Inr True else scan_logs r lid (i + 1))
         else Inl Undefined)
      else Inr False)"
  by pat_completeness auto
termination
  by (relation "measure (\<lambda>(r, lid, i). nat (nr_length r - i))") auto

declare scan_logs.simps [simp del]

definition isLogExist :: "pools \<Rightarrow> string \<Rightarrow> nat \<Rightarrow> bool outcome" where
  "isLogExist pools path lid = bindO (root_Open pools path) (\<lambda>r. scan_logs r lid 0)"

text \<open>
  \<open>heapFormatter\<close>: refuses an existing heap, otherwise creates the pool, whose root object is zeroed,
  and sets the length. \<open>create_ok\<close> says whether \<open>pmemobj_create\<close> works. The result is the exit status.
\<close>

definition heapFormatter :: "bool \<Rightarrow> pools \<Rightarrow> string \<Rightarrow> pools \<times> ErrorCode" where
  "heapFormatter create_ok pools path =
     (case pools path of
        Some r \<Rightarrow> (pools, PMEM_ERROR)
      | None \<Rightarrow>
          if \<not> create_ok then (pools, PMEM_ERROR)
          else (pools(path \<mapsto> \<lparr>nr_length = 0, nr_log_id = replicate MAX_LOGS 0\<rparr>), NO_ERROR))"

subsection \<open>Invariant\<close>

definition root_ids :: "nvs_root \<Rightarrow> int list" where
  "root_ids r = take (nat (nr_length r)) (nr_log_id r)"

definition root_ok :: "nvs_root \<Rightarrow> bool" where
  "root_ok r \<longleftrightarrow> 0 \<le> nr_length r \<and> nr_length r \<le> int MAX_LOGS \<and> length (nr_log_id r) = MAX_LOGS \<and>
     distinct (root_ids r) \<and> set (root_ids r) \<subseteq> {0..255}"

lemma length_root_ids: "root_ok r \<Longrightarrow> length (root_ids r) = nat (nr_length r)"
  by (auto simp: root_ok_def root_ids_def min_def)

lemma scan_logs_from:
  "root_ok r \<Longrightarrow> 0 \<le> i \<Longrightarrow> scan_logs r lid i = Inr (int lid \<in> set (drop (nat i) (root_ids r)))"
proof (induction r lid i rule: scan_logs.induct)
  case (1 r lid i)
  show ?case
  proof (cases "i < nr_length r")
    case True
    let ?n = "nat i"
    have n: "?n < length (root_ids r)" "?n < length (nr_log_id r)" "i < int (length (nr_log_id r))"
      using True 1(2,3) by (auto simp: length_root_ids root_ok_def)
    have e: "root_ids r ! ?n = nr_log_id r ! ?n" using n(1) by (simp add: root_ids_def)
    have "drop ?n (root_ids r) = root_ids r ! ?n # drop (Suc ?n) (root_ids r)"
      using n(1) by (simp add: Cons_nth_drop_Suc)
    moreover have "nat (i + 1) = Suc ?n" using 1(3) by simp
    ultimately show ?thesis
      using 1 True n e by (subst scan_logs.simps) auto
  next
    case False
    then show ?thesis
      using 1(2) by (subst scan_logs.simps) (simp add: length_root_ids)
  qed
qed

lemma scan_logs_correct: "root_ok r \<Longrightarrow> scan_logs r lid 0 = Inr (int lid \<in> set (root_ids r))"
  using scan_logs_from [of r 0 lid] by simp

text \<open>256 distinct identifiers leave no fresh one, so a fresh one still has room.\<close>

lemma fresh_has_room:
  assumes "root_ok r" "lid < 256" "int lid \<notin> set (root_ids r)"
  shows "nr_length r < int MAX_LOGS"
proof -
  have d: "distinct (int lid # root_ids r)" "set (int lid # root_ids r) \<subseteq> {0..255}"
    using assms by (auto simp: root_ok_def)
  then have "length (int lid # root_ids r) \<le> card {0..255 :: int}"
    by (metis distinct_card card_mono finite_atLeastAtMost_int)
  then show ?thesis using assms(1) by (simp add: length_root_ids MAX_LOGS_def)
qed

lemma addLog_fresh:
  assumes "pools path = Some r" "root_ok r" "lid < 256" "int lid \<notin> set (root_ids r)"
  shows "\<exists>r'. addLog pools path lid = Inr (pools(path \<mapsto> r'), NO_ERROR) \<and> root_ok r' \<and>
    root_ids r' = root_ids r @ [int lid]"
proof -
  let ?n = "nat (nr_length r)"
  let ?r = "r\<lparr>nr_log_id := (nr_log_id r)[?n := int lid], nr_length := nr_length r + 1\<rparr>"
  have room: "nr_length r < int MAX_LOGS" by (rule fresh_has_room [OF assms(2-4)])
  then have n: "?n < length (nr_log_id r)" "0 \<le> nr_length r" "length (nr_log_id r) = MAX_LOGS"
    using assms(2) by (auto simp: root_ok_def)
  have "nat (nr_length r + 1) = Suc ?n" using n(2) by simp
  then have ids: "root_ids ?r = root_ids r @ [int lid]"
    using n(1) by (simp add: root_ids_def take_Suc_conv_app_nth)
  have "root_ok ?r"
    using assms room ids by (auto simp: root_ok_def)
  moreover have "addLog pools path lid = Inr (pools(path \<mapsto> ?r), NO_ERROR)"
    using assms(1) room n by (simp add: addLog_def root_Open_def Let_def)
  ultimately show ?thesis using ids by blast
qed

subsection \<open>Properties\<close>

text \<open>
  \<open>isLogExist\<close> on a well-formed root answers exactly whether the identifier is registered, and on
  a missing heap the process exits.
\<close>

theorem isLogExist_correct:
  "(\<forall>r. pools path = Some r \<and> root_ok r \<longrightarrow>
      isLogExist pools path lid = Inr (int lid \<in> set (root_ids r))) \<and>
   (pools path = None \<longrightarrow> isLogExist pools path lid = Inl (Exit 1))"
  by (simp add: isLogExist_def root_Open_def scan_logs_correct)

definition sample_root :: nvs_root where
  "sample_root = \<lparr>nr_length = 2, nr_log_id = [7, 9] @ replicate 254 0\<rparr>"

lemma sample_root_ok: "root_ok sample_root" "root_ids sample_root = [7, 9]"
  by (simp_all add: root_ok_def root_ids_def sample_root_def MAX_LOGS_def)

theorem isLogExist_correct_witness:
  "isLogExist [''p'' \<mapsto> sample_root] ''p'' 9 = Inr True \<and> isLogExist [''p'' \<mapsto> sample_root] ''p'' 8 = Inr False"
  using isLogExist_correct [of "[''p'' \<mapsto> sample_root]" "''p''" 9] isLogExist_correct [of "[''p'' \<mapsto> sample_root]" "''p''" 8]
  by (simp add: sample_root_ok)

text \<open>
  Registering an identifier that \<open>isLogExist\<close> denies appends it, keeps the identifiers distinct and
  never runs past the array of 256: identifiers are eight bits wide, so a fresh one always has room.
\<close>

theorem addLog_correct:
  assumes "pools path = Some r" "root_ok r" "lid < 256" "isLogExist pools path lid = Inr False"
  shows "\<exists>r'. addLog pools path lid = Inr (pools(path \<mapsto> r'), NO_ERROR) \<and> root_ok r' \<and>
    root_ids r' = root_ids r @ [int lid]"
  using addLog_fresh [of pools path r lid] assms by (simp add: isLogExist_def root_Open_def scan_logs_correct)

theorem addLog_correct_witness:
  "\<exists>r'. addLog [''p'' \<mapsto> sample_root] ''p'' 5 = Inr ([''p'' \<mapsto> r'], NO_ERROR) \<and> root_ids r' = [7, 9, 5]"
  using addLog_correct [of "[''p'' \<mapsto> sample_root]" "''p''" sample_root 5]
  by (auto simp: sample_root_ok isLogExist_def root_Open_def scan_logs_correct)

text \<open>
  The formatter makes an empty well-formed root where there was none and leaves an existing heap
  untouched.
\<close>

theorem heapFormatter_correct:
  "(case heapFormatter create_ok pools path of
      (pools', NO_ERROR) \<Rightarrow> pools path = None \<and> (\<exists>r. pools' = pools(path \<mapsto> r) \<and> root_ok r \<and> root_ids r = [])
    | (pools', _) \<Rightarrow> pools' = pools)"
  by (auto simp: heapFormatter_def root_ok_def root_ids_def split: option.split)

end
