(* ===== verification/Std_Map.thy ===== *)
theory Std_Map
  imports NVS_Prelude "HOL-Library.Char_ord" "HOL-Library.List_Lexorder"
begin

text \<open>
  \<open>std::map\<close> as the program uses it: \<open>find\<close>, assignment through \<open>operator[]\<close>, \<open>erase\<close> of a found
  position and iteration in key order. A map is its list of pairs, sorted by key. The locale
  \<open>ordered_map\<close> is what the stores rely on; the list implementation interprets it.
\<close>

type_synonym ('k, 'v) std_map = "('k \<times> 'v) list"

fun map_find :: "('k, 'v) std_map \<Rightarrow> 'k \<Rightarrow> 'v option" where
  "map_find [] k = None"
| "map_find ((k', v) # xs) k = (if k' = k then Some v else map_find xs k)"

fun map_assign :: "('k :: linorder, 'v) std_map \<Rightarrow> 'k \<Rightarrow> 'v \<Rightarrow> ('k, 'v) std_map" where
  "map_assign [] k v = [(k, v)]"
| "map_assign ((k', v') # xs) k v =
     (if k < k' then (k, v) # (k', v') # xs
      else if k = k' then (k, v) # xs
      else (k', v') # map_assign xs k v)"

fun map_erase :: "('k, 'v) std_map \<Rightarrow> 'k \<Rightarrow> ('k, 'v) std_map" where
  "map_erase [] k = []"
| "map_erase ((k', v) # xs) k = (if k' = k then xs else (k', v) # map_erase xs k)"

definition map_wf :: "('k :: linorder, 'v) std_map \<Rightarrow> bool" where
  "map_wf xs \<longleftrightarrow> sorted_wrt (<) (map fst xs)"

text \<open>The contract: lookups after updates, and iteration lists every key once, in order.\<close>

locale ordered_map =
  fixes empty :: 'm
    and find :: "'m \<Rightarrow> 'k :: linorder \<Rightarrow> 'v option"
    and assign :: "'m \<Rightarrow> 'k \<Rightarrow> 'v \<Rightarrow> 'm"
    and erase :: "'m \<Rightarrow> 'k \<Rightarrow> 'm"
    and items :: "'m \<Rightarrow> ('k \<times> 'v) list"
    and wf :: "'m \<Rightarrow> bool"
  assumes wf_empty: "wf empty"
    and wf_assign: "wf m \<Longrightarrow> wf (assign m k v)"
    and wf_erase: "wf m \<Longrightarrow> wf (erase m k)"
    and find_empty: "find empty k = None"
    and find_assign: "wf m \<Longrightarrow> find (assign m k v) k' = (if k' = k then Some v else find m k')"
    and find_erase: "wf m \<Longrightarrow> find (erase m k) k' = (if k' = k then None else find m k')"
    and items_sorted: "wf m \<Longrightarrow> sorted_wrt (<) (map fst (items m))"
    and items_find: "wf m \<Longrightarrow> (k, v) \<in> set (items m) \<longleftrightarrow> find m k = Some v"
begin

lemma items_distinct: "wf m \<Longrightarrow> distinct (map fst (items m))"
  using items_sorted strict_sorted_iff by blast

lemma erase_assign: "wf m \<Longrightarrow> find m k = None \<Longrightarrow> find (erase (assign m k v) k) k' = find m k'"
  by (simp add: find_erase find_assign wf_assign)

lemma items_assign_keys: "wf m \<Longrightarrow> fst ` set (items (assign m k v)) = insert k (fst ` set (items m))"
proof -
  assume m: "wf m"
  have dom: "fst ` set (items n) = {k. find n k \<noteq> None}" if "wf n" for n
    using items_find [OF that] by force
  show ?thesis by (auto simp: dom [OF m] dom [OF wf_assign [OF m]] find_assign [OF m])
qed

end

lemma map_wf_Cons: "map_wf ((k, v) # xs) \<longleftrightarrow> (\<forall>x \<in> fst ` set xs. k < x) \<and> map_wf xs"
  by (simp add: map_wf_def)

lemma map_assign_keys: "fst ` set (map_assign xs k v) = insert k (fst ` set xs)"
  by (induction xs k v rule: map_assign.induct) auto

lemma map_assign_wf: "map_wf xs \<Longrightarrow> map_wf (map_assign xs k v)"
proof (induction xs k v rule: map_assign.induct)
  case (2 k' v' xs k v)
  then show ?case by (auto simp: map_wf_Cons map_assign_keys)
qed (simp add: map_wf_def)

lemma map_erase_subset: "set (map_erase xs k) \<subseteq> set xs"
  by (induction xs k rule: map_erase.induct) auto

lemma map_erase_wf: "map_wf xs \<Longrightarrow> map_wf (map_erase xs k)"
proof (induction xs k rule: map_erase.induct)
  case (2 k' v xs k)
  then show ?case using map_erase_subset [of xs k] by (auto simp: map_wf_Cons)
qed simp

lemma map_find_None: "k \<notin> fst ` set xs \<Longrightarrow> map_find xs k = None"
  by (induction xs) (auto simp: image_iff)

lemma map_find_assign:
  "map_wf xs \<Longrightarrow> map_find (map_assign xs k v) k' = (if k' = k then Some v else map_find xs k')"
proof (induction xs k v rule: map_assign.induct)
  case (2 k1 v1 xs k v)
  then show ?case by (auto simp: map_wf_Cons intro!: map_find_None)
qed simp

lemma map_find_erase:
  "map_wf xs \<Longrightarrow> map_find (map_erase xs k) k' = (if k' = k then None else map_find xs k')"
proof (induction xs k rule: map_erase.induct)
  case (2 k1 v xs k)
  show ?case
  proof (cases "k1 = k")
    case True
    then have "map_find xs k = None" using 2(2) by (intro map_find_None) (auto simp: map_wf_Cons)
    then show ?thesis using True by auto
  qed (use 2 in \<open>auto simp: map_wf_Cons\<close>)
qed simp

lemma map_find_items: "map_wf xs \<Longrightarrow> (k, v) \<in> set xs \<longleftrightarrow> map_find xs k = Some v"
proof (induction xs)
  case (Cons x xs)
  obtain a b where x: "x = (a, b)" by (cases x)
  show ?case
  proof (cases "a = k")
    case True
    then have "(k, v) \<notin> set xs" using Cons.prems by (force simp: x map_wf_Cons)
    then show ?thesis using True by (auto simp: x)
  qed (use Cons in \<open>auto simp: x map_wf_Cons\<close>)
qed simp

interpretation smap: ordered_map "[]" map_find map_assign map_erase "\<lambda>xs. xs" map_wf
  by unfold_locales
    (simp_all add: map_wf_def [of "[]"] map_assign_wf map_erase_wf map_find_assign map_find_erase map_find_items,
     simp add: map_wf_def)

end
