(* ===== verification/Global_Ptr.thy ===== *)
theory Global_Ptr
  imports NVS_Prelude
begin

text \<open>
  \<open>nvs/global_ptr.h\<close>: a global pointer packs the identifier of a log, eight bits, and an offset in
  it, 56 bits, into one 64-bit word. The operations of \<open>GlobalPtrClass\<close> on machine words.
\<close>

type_synonym GlobalPtr = "64 word"
type_synonym LogId = "8 word"
type_synonym Offset = "64 word"

definition kLogIdShift :: nat where "kLogIdShift = 56"

definition EncodeGlobalPtr :: "LogId \<Rightarrow> Offset \<Rightarrow> GlobalPtr" where
  "EncodeGlobalPtr pool_id offset = push_bit kLogIdShift (ucast pool_id) + offset"

definition DecodePoolId :: "GlobalPtr \<Rightarrow> LogId" where
  "DecodePoolId global_ptr = ucast (drop_bit kLogIdShift global_ptr)"

definition DecodeOffset :: "GlobalPtr \<Rightarrow> Offset" where
  "DecodeOffset global_ptr = (push_bit kLogIdShift 1 - 1) AND global_ptr"

definition IsValidOffset :: "Offset \<Rightarrow> bool" where
  "IsValidOffset offset \<longleftrightarrow> offset \<noteq> 0"

definition IsValid :: "GlobalPtr \<Rightarrow> bool" where
  "IsValid p \<longleftrightarrow> True"

lemma offset_high_bits:
  assumes "(offset :: 64 word) < 2 ^ 56" "56 \<le> n"
  shows "\<not> bit offset n"
proof -
  have "unat offset < 2 ^ 56" using assms(1) by (simp add: word_less_nat_alt)
  then have "take_bit 56 offset = offset"
    by (simp add: word_unat_eq_iff unsigned_take_bit_eq take_bit_nat_eq_self)
  then show ?thesis using assms(2) by (metis bit_take_bit_iff not_less)
qed

lemma bit_Encode:
  assumes "offset < 2 ^ 56"
  shows "EncodeGlobalPtr pool_id offset = push_bit kLogIdShift (ucast pool_id) OR offset"
proof -
  have hi: "\<not> bit offset n" if "56 \<le> n" for n using offset_high_bits [OF assms that] .
  have "push_bit kLogIdShift (ucast pool_id) AND offset = (0 :: 64 word)"
    by (rule bit_word_eqI) (auto simp: bit_and_iff bit_push_bit_iff kLogIdShift_def hi)
  then show ?thesis by (simp add: EncodeGlobalPtr_def disjunctive_add_eq_or)
qed

lemma bit_DecodeOffset: "bit (DecodeOffset p) n \<longleftrightarrow> n < 56 \<and> bit p n"
proof -
  have "push_bit 56 1 - 1 = (mask 56 :: 64 word)" by (simp only: mask_eq_exp_minus_1 push_bit_of_1)
  moreover have "n < 56 \<Longrightarrow> n < LENGTH(64)" by simp
  ultimately show ?thesis
    by (auto simp only: DecodeOffset_def kLogIdShift_def bit_and_iff bit_mask_iff possible_bit_word)
qed

text \<open>
  Packing and unpacking: an identifier and an offset below 2^56 come back unchanged, and every
  64-bit word is the packing of what it unpacks to.
\<close>

theorem GlobalPtr_roundtrip:
  "(offset < 2 ^ 56 \<longrightarrow> DecodePoolId (EncodeGlobalPtr pool_id offset) = pool_id \<and>
      DecodeOffset (EncodeGlobalPtr pool_id offset) = offset) \<and>
   EncodeGlobalPtr (DecodePoolId p) (DecodeOffset p) = p"
proof (intro conjI impI)
  show "EncodeGlobalPtr (DecodePoolId p) (DecodeOffset p) = p"
  proof -
    have "push_bit 56 (ucast (DecodePoolId p)) AND DecodeOffset p = (0 :: 64 word)"
      by (rule bit_word_eqI) (auto simp: bit_and_iff bit_push_bit_iff bit_DecodeOffset kLogIdShift_def)
    then have "EncodeGlobalPtr (DecodePoolId p) (DecodeOffset p) =
        push_bit 56 (ucast (DecodePoolId p)) OR DecodeOffset p"
      by (simp add: EncodeGlobalPtr_def kLogIdShift_def disjunctive_add_eq_or)
    also have "\<dots> = p"
      by (rule bit_word_eqI)
        (auto simp: bit_or_iff bit_and_iff bit_push_bit_iff bit_drop_bit_eq bit_ucast_iff
          bit_DecodeOffset DecodePoolId_def kLogIdShift_def)
    finally show ?thesis .
  qed
  assume o: "offset < 2 ^ 56"
  have hi: "\<not> bit offset n" if "56 \<le> n" for n using offset_high_bits [OF o that] .
  show "DecodePoolId (EncodeGlobalPtr pool_id offset) = pool_id"
    by (rule bit_word_eqI)
      (auto simp: bit_Encode [OF o] DecodePoolId_def bit_or_iff bit_push_bit_iff bit_drop_bit_eq bit_ucast_iff
        kLogIdShift_def hi)
  show "DecodeOffset (EncodeGlobalPtr pool_id offset) = offset"
    using hi by (intro bit_word_eqI)
      (auto simp: bit_Encode [OF o] bit_DecodeOffset bit_or_iff bit_push_bit_iff kLogIdShift_def
        not_le [symmetric])
qed

theorem GlobalPtr_roundtrip_witness:
  "DecodePoolId (EncodeGlobalPtr 7 4096) = 7 \<and> DecodeOffset (EncodeGlobalPtr 7 4096) = 4096"
  using GlobalPtr_roundtrip [of 4096 7] by simp

end
