(* ===== verification/Mem_Manager.thy ===== *)
theory Mem_Manager
  imports Root_Heap Std_Map Global_Ptr
begin

text \<open>
  \<open>sheap/memory_manager.cc\<close>: creating logs and finding them again, by identifier, over the root heap
  and the log files. The record \<open>world\<close> is what the calls of one process see: memory, files, pools,
  the \<open>Log\<close> objects it has constructed (a \<open>Log *\<close> is an index into their list) and the manager's
  members. What the operating system contributes to a call is its argument \<open>osd\<close>.
\<close>

record osd =
  os_lib :: libpmem
  os_isp :: "addr \<Rightarrow> nat \<Rightarrow> int"
  os_env1 :: os_env
  os_env2 :: os_env

record world =
  w_mach :: mach
  w_files :: files
  w_pools :: pools
  w_logs :: "plog list"
  is_ready :: bool
  idToLogMap :: "(nat, nat) std_map"

definition NVS_BASE_DIR :: string where "NVS_BASE_DIR = ''/dev/shm''"
definition NVS_USER :: string where "NVS_USER = ''unity''"

definition rootHeapPath :: string where
  "rootHeapPath = NVS_BASE_DIR @ ''/'' @ NVS_USER @ ''_NVS_ROOT''"

definition log_path :: "nat \<Rightarrow> string" where
  "log_path lid = rootHeapPath @ to_string lid"

definition mm_Init :: "world \<Rightarrow> world \<times> ErrorCode" where
  "mm_Init w = (w\<lparr>is_ready := True\<rparr>, NO_ERROR)"

definition mm_Final :: "world \<Rightarrow> world \<times> ErrorCode" where
  "mm_Final w = (w\<lparr>is_ready := False\<rparr>, NO_ERROR)"

text \<open>\<open>new Log(path, size, id)\<close>: the object is added to the process's objects.\<close>

definition new_Log :: "osd \<Rightarrow> world \<Rightarrow> nat \<Rightarrow> nat \<Rightarrow> (world \<times> nat) outcome" where
  "new_Log d w sz lid =
     bindO (Log_new (os_lib d) (os_isp d) (os_env1 d) (os_env2 d) (w_mach w) (w_files w) (log_path lid) sz lid)
       (\<lambda>(m, fs, L). Inr (w\<lparr>w_mach := m, w_files := fs, w_logs := w_logs w @ [L]\<rparr>, length (w_logs w)))"

definition CreateLog :: "osd \<Rightarrow> world \<Rightarrow> nat \<Rightarrow> nat \<Rightarrow> (world \<times> ErrorCode) outcome" where
  "CreateLog d w lid sz =
     (if \<not> is_ready w then Inl Assert_Failed
      else bindO (isLogExist (w_pools w) rootHeapPath lid) (\<lambda>ex.
        if ex then Inr (w, ID_IN_USE)
        else bindO (new_Log d w sz lid) (\<lambda>(w, log).
          let w = (case map_find (idToLogMap w) lid of
                     None \<Rightarrow> w\<lparr>idToLogMap := map_assign (idToLogMap w) lid log\<rparr>
                   | Some _ \<Rightarrow> w)
          in bindO (addLog (w_pools w) rootHeapPath lid) (\<lambda>(pools, ret). Inr (w\<lparr>w_pools := pools\<rparr>, ret)))))"

definition FindLog :: "osd \<Rightarrow> world \<Rightarrow> nat \<Rightarrow> (world \<times> ErrorCode \<times> nat option) outcome" where
  "FindLog d w lid =
     (if \<not> is_ready w then Inl Assert_Failed
      else case map_find (idToLogMap w) lid of
        Some log \<Rightarrow> Inr (w, NO_ERROR, Some log)
      | None \<Rightarrow> bindO (isLogExist (w_pools w) rootHeapPath lid) (\<lambda>ex.
          if \<not> ex then Inr (w, ID_NOT_FOUND, None)
          else bindO (new_Log d w 0 lid) (\<lambda>(w, log). Inr (w, NO_ERROR, Some log))))"

text \<open>The overload that returns the pointer, NULL being \<open>None\<close>.\<close>

definition FindLog_ptr :: "osd \<Rightarrow> world \<Rightarrow> nat \<Rightarrow> (world \<times> nat option) outcome" where
  "FindLog_ptr d w lid =
     (if \<not> is_ready w then Inl Assert_Failed
      else if \<not> lid > 0 then Inl Assert_Failed
      else bindO (FindLog d w lid) (\<lambda>(w, ret, log). Inr (w, if ret \<noteq> NO_ERROR then None else log)))"

text \<open>
  \<open>DestroyLog\<close> and \<open>LocalToGlobal\<close> have no \<open>return\<close>, and \<open>GlobalToLocal\<close> reads the local \<open>addr\<close> before
  anything is stored in it: all three are undefined once the assertion holds.
\<close>

definition DestroyLog :: "world \<Rightarrow> nat \<Rightarrow> (world \<times> ErrorCode) outcome" where
  "DestroyLog w lid = Inl Undefined"

definition GlobalToLocal :: "world \<Rightarrow> GlobalPtr \<Rightarrow> addr outcome" where
  "GlobalToLocal w ptr =
     (if \<not> is_ready w then Inl Assert_Failed
      else if \<not> IsValid ptr then Inr 0
      else Inl Undefined)"

definition LocalToGlobal :: "world \<Rightarrow> addr \<Rightarrow> GlobalPtr outcome" where
  "LocalToGlobal w a = Inl Undefined"

subsection \<open>Invariant\<close>

text \<open>
  The manager is initialised, the root heap is well formed, every registered identifier has its
  file, and every cached identifier is registered and points to an object.
\<close>

definition world_ok :: "world \<Rightarrow> bool" where
  "world_ok w \<longleftrightarrow> is_ready w \<and> map_wf (idToLogMap w) \<and>
     (\<exists>r. w_pools w rootHeapPath = Some r \<and> root_ok r \<and>
        (\<forall>lid. int lid \<in> set (root_ids r) \<longrightarrow> w_files w (log_path lid) \<noteq> None) \<and>
        (\<forall>lid log. map_find (idToLogMap w) lid = Some log \<longrightarrow>
           int lid \<in> set (root_ids r) \<and> log < length (w_logs w)))"

definition registered :: "world \<Rightarrow> nat \<Rightarrow> bool" where
  "registered w lid \<longleftrightarrow> (\<exists>r. w_pools w rootHeapPath = Some r \<and> int lid \<in> set (root_ids r))"

lemma log_path_inj: "log_path a = log_path b \<longleftrightarrow> a = b"
  by (simp add: log_path_def to_string_inj)

lemma isLogExist_registered:
  assumes "world_ok w"
  shows "isLogExist (w_pools w) rootHeapPath lid = Inr (registered w lid)"
  using assms by (auto simp: world_ok_def registered_def isLogExist_def root_Open_def scan_logs_correct)

text \<open>The environment of a call in which the system does its part.\<close>

definition osd_fine :: "osd \<Rightarrow> addr \<Rightarrow> world \<Rightarrow> nat \<Rightarrow> bool" where
  "osd_fine d a w n \<longleftrightarrow> os_fine (os_env1 d) a \<and> os_fine (os_env2 d) a \<and>
     disj (sp (w_mach w)) 32 a n \<and> sp (w_mach w) + 32 < 2 ^ 64 \<and> a + n < 2 ^ 64"

lemma new_Log_fresh:
  assumes "osd_fine d a w sz" "w_files w (log_path lid) = None" "32 < sz" "sz < 2 ^ 63"
  shows "\<exists>m' L. new_Log d w sz lid = Inr (w\<lparr>w_mach := m', w_files := (w_files w)(log_path lid \<mapsto> replicate sz 0),
      w_logs := w_logs w @ [L]\<rparr>, length (w_logs w)) \<and> plog_ok m' L [] \<and>
    (safe_config (os_lib d) \<longrightarrow> plog_durable m' L) \<and> log_id L = lid \<and> pmemaddr L = a \<and> mapped_len L = sz \<and> sp m' = sp (w_mach w)"
proof -
  obtain m' L where "Log_new (os_lib d) (os_isp d) (os_env1 d) (os_env2 d) (w_mach w) (w_files w) (log_path lid) sz lid =
      Inr (m', (w_files w)(log_path lid \<mapsto> replicate sz 0), L)"
    "plog_ok m' L []" "safe_config (os_lib d) \<longrightarrow> plog_durable m' L" "log_id L = lid" "pmemaddr L = a" "mapped_len L = sz"
    "sp m' = sp (w_mach w)"
    using Log_new_fresh [of "os_env1 d" a "w_files w" "log_path lid" sz "w_mach w" "os_lib d" "os_isp d" "os_env2 d" lid]
      assms by (auto simp: osd_fine_def)
  then show ?thesis by (intro exI [of _ m'] exI [of _ L]) (simp add: new_Log_def)
qed

lemma CreateLog_fresh:
  assumes "world_ok w" "\<not> registered w lid" "lid < 256" "w_files w (log_path lid) = None"
    "osd_fine d a w sz" "32 < sz" "sz < 2 ^ 63"
  shows "\<exists>w' L. CreateLog d w lid sz = Inr (w', NO_ERROR) \<and> world_ok w' \<and> registered w' lid \<and>
    w_logs w' = w_logs w @ [L] \<and> map_find (idToLogMap w') lid = Some (length (w_logs w)) \<and>
    plog_ok (w_mach w') L [] \<and> (safe_config (os_lib d) \<longrightarrow> plog_durable (w_mach w') L) \<and> log_id L = lid \<and>
    pmemaddr L = a \<and> mapped_len L = sz \<and> sp (w_mach w') = sp (w_mach w)"
proof -
  obtain r where r: "w_pools w rootHeapPath = Some r" "root_ok r"
      "\<forall>lid. int lid \<in> set (root_ids r) \<longrightarrow> w_files w (log_path lid) \<noteq> None"
      "\<forall>lid log. map_find (idToLogMap w) lid = Some log \<longrightarrow> int lid \<in> set (root_ids r) \<and> log < length (w_logs w)"
    and rdy: "is_ready w" and wf: "map_wf (idToLogMap w)" using assms(1) by (auto simp: world_ok_def)
  have fresh: "int lid \<notin> set (root_ids r)" using assms(2) r(1) by (simp add: registered_def)
  then have nf: "map_find (idToLogMap w) lid = None" using r(4) by (cases "map_find (idToLogMap w) lid") auto
  obtain m' L where n: "new_Log d w sz lid = Inr (w\<lparr>w_mach := m',
      w_files := (w_files w)(log_path lid \<mapsto> replicate sz 0), w_logs := w_logs w @ [L]\<rparr>, length (w_logs w))"
    and L: "plog_ok m' L []" "safe_config (os_lib d) \<longrightarrow> plog_durable m' L" "log_id L = lid" "pmemaddr L = a"
      "mapped_len L = sz" "sp m' = sp (w_mach w)"
    using new_Log_fresh [OF assms(5,4,6,7)] by blast
  obtain r' where r': "addLog (w_pools w) rootHeapPath lid = Inr ((w_pools w)(rootHeapPath \<mapsto> r'), NO_ERROR)"
    "root_ok r'" "root_ids r' = root_ids r @ [int lid]"
    using addLog_fresh [of "w_pools w" rootHeapPath r lid] r(1,2) assms(3) fresh by blast
  let ?w = "w\<lparr>w_mach := m', w_files := (w_files w)(log_path lid \<mapsto> replicate sz 0), w_logs := w_logs w @ [L],
    idToLogMap := map_assign (idToLogMap w) lid (length (w_logs w)), w_pools := (w_pools w)(rootHeapPath \<mapsto> r')\<rparr>"
  have "CreateLog d w lid sz = Inr (?w, NO_ERROR)"
    using isLogExist_registered [OF assms(1), of lid] assms(2) rdy n nf r'(1)
    by (simp add: CreateLog_def Let_def)
  moreover have "world_ok ?w"
    using r r'(2,3) rdy wf by (auto simp: world_ok_def smap.wf_assign smap.find_assign less_Suc_eq)
  moreover have "registered ?w lid" by (simp add: registered_def r'(3))
  ultimately show ?thesis using L wf by (intro exI [of _ ?w] exI [of _ L]) (simp add: smap.find_assign)
qed

lemma new_Log_reopen:
  assumes "log_image img base mlen es" "rd64 img (base + tail_off) < mlen" "32 < mlen"
    "w_files w (log_path lid) = Some (rd img base mlen)" "osd_fine d a w mlen"
  shows "\<exists>m' L. new_Log d w 0 lid = Inr (w\<lparr>w_mach := m', w_logs := w_logs w @ [L]\<rparr>, length (w_logs w)) \<and>
    plog_ok m' L es \<and> plog_durable m' L \<and> pmemaddr L = a \<and> mapped_len L = mlen \<and> sp m' = sp (w_mach w)"
proof -
  have "disj (sp (w_mach w)) 16 a mlen" using assms(5) by (auto simp: osd_fine_def disj_def)
  then obtain m' L where "Log_new (os_lib d) (os_isp d) (os_env1 d) (os_env2 d) (w_mach w) (w_files w) (log_path lid) 0 lid =
      Inr (m', w_files w, L)" "plog_ok m' L es" "plog_durable m' L" "pmemaddr L = a" "mapped_len L = mlen" "sp m' = sp (w_mach w)"
    using Log_new_reopen [of img base mlen es "w_files w" "log_path lid" "os_env1 d" "os_env2 d" a "w_mach w"
        "os_lib d" "os_isp d" lid] assms
    by (auto simp: osd_fine_def os_fine_def sizeof_lhdr_def)
  then show ?thesis by (intro exI [of _ m'] exI [of _ L]) (simp add: new_Log_def)
qed

subsection \<open>A sample world\<close>

definition sample_world :: world where
  "sample_world = \<lparr>w_mach = quiescent (\<lambda>_. 0) 1024, w_files = (\<lambda>_. None),
     w_pools = [rootHeapPath \<mapsto> \<lparr>nr_length = 0, nr_log_id = replicate 256 0\<rparr>], w_logs = [],
     is_ready = True, idToLogMap = []\<rparr>"

definition sample_osd :: osd where
  "sample_osd = \<lparr>os_lib = sample_lib, os_isp = (\<lambda>_ _. 1), os_env1 = sample_env, os_env2 = sample_env\<rparr>"

lemma sample_world_ok: "world_ok sample_world" "\<not> registered sample_world lid"
  by (auto simp: world_ok_def registered_def sample_world_def root_ok_def root_ids_def MAX_LOGS_def map_wf_def)

lemma sample_osd_fine: "osd_fine sample_osd 8192 sample_world 4096"
  by (simp add: osd_fine_def sample_osd_def sample_world_def disj_def)

subsection \<open>Properties\<close>

text \<open>
  C37. Creating a log that is neither registered nor on disk registers it, keeps the invariant of the
  process, yields an empty well-formed log, and finding it afterwards gives that very object.
\<close>

theorem CreateLog_then_FindLog:
  assumes "world_ok w" "\<not> registered w lid" "lid < 256" "w_files w (log_path lid) = None"
    "osd_fine d a w sz" "32 < sz" "sz < 2 ^ 63"
  shows "\<exists>w' L. CreateLog d w lid sz = Inr (w', NO_ERROR) \<and> world_ok w' \<and> registered w' lid \<and>
    w_logs w' = w_logs w @ [L] \<and> plog_ok (w_mach w') L [] \<and>
    FindLog d' w' lid = Inr (w', NO_ERROR, Some (length (w_logs w)))"
proof -
  obtain w' L where "CreateLog d w lid sz = Inr (w', NO_ERROR)" "world_ok w'" "registered w' lid"
    "w_logs w' = w_logs w @ [L]" "map_find (idToLogMap w') lid = Some (length (w_logs w))" "plog_ok (w_mach w') L []"
    using CreateLog_fresh [OF assms] by blast
  then show ?thesis by (intro exI [of _ w'] exI [of _ L]) (simp add: FindLog_def world_ok_def)
qed

theorem CreateLog_then_FindLog_witness:
  "\<exists>w' L. CreateLog sample_osd sample_world 3 4096 = Inr (w', NO_ERROR) \<and> w_logs w' = [L] \<and>
    plog_ok (w_mach w') L [] \<and> FindLog sample_osd w' 3 = Inr (w', NO_ERROR, Some 0)"
  using CreateLog_then_FindLog [OF sample_world_ok(1) sample_world_ok(2), of 3 sample_osd 8192 4096 sample_osd]
    sample_osd_fine by (simp add: sample_world_def) blast

text \<open>
  The answers for known and unknown identifiers: creating a registered one is refused with
  \<open>ID_IN_USE\<close>, finding an unregistered one gives \<open>ID_NOT_FOUND\<close>, and neither changes anything.
\<close>

theorem CreateLog_FindLog_refuse:
  assumes "world_ok w"
  shows "(registered w lid \<longrightarrow> CreateLog d w lid sz = Inr (w, ID_IN_USE)) \<and>
    (\<not> registered w lid \<longrightarrow> FindLog d w lid = Inr (w, ID_NOT_FOUND, None))"
proof -
  have "is_ready w" using assms by (simp add: world_ok_def)
  moreover have "map_find (idToLogMap w) lid = None" if "\<not> registered w lid"
  proof (rule ccontr)
    assume "map_find (idToLogMap w) lid \<noteq> None"
    then obtain log where "map_find (idToLogMap w) lid = Some log" by blast
    then show False using assms that by (auto simp: world_ok_def registered_def)
  qed
  ultimately show ?thesis
    using isLogExist_registered [OF assms, of lid] by (auto simp: CreateLog_def FindLog_def)
qed

theorem CreateLog_FindLog_refuse_witness:
  "FindLog sample_osd sample_world 3 = Inr (sample_world, ID_NOT_FOUND, None)"
  using CreateLog_FindLog_refuse [OF sample_world_ok(1)] sample_world_ok(2) by simp

text \<open>
  A log that this process has not created is reopened from its file with the entries it holds,
  but the object is not remembered: every further \<open>FindLog\<close> maps the file again and makes another
  object with its own \<open>write_offset\<close>.
\<close>

theorem FindLog_reopens_uncached:
  assumes "world_ok w" "registered w lid" "map_find (idToLogMap w) lid = None"
    "log_image img base mlen es" "rd64 img (base + tail_off) < mlen" "32 < mlen"
    "w_files w (log_path lid) = Some (rd img base mlen)" "osd_fine d a w mlen"
  shows "\<exists>w' L. FindLog d w lid = Inr (w', NO_ERROR, Some (length (w_logs w))) \<and>
    w_logs w' = w_logs w @ [L] \<and> plog_ok (w_mach w') L es \<and> plog_durable (w_mach w') L \<and>
    map_find (idToLogMap w') lid = None"
proof -
  obtain m' L where "new_Log d w 0 lid = Inr (w\<lparr>w_mach := m', w_logs := w_logs w @ [L]\<rparr>, length (w_logs w))"
    "plog_ok m' L es" "plog_durable m' L"
    using new_Log_reopen [OF assms(4-8)] by blast
  then show ?thesis
    using isLogExist_registered [OF assms(1), of lid] assms(1-3) by (simp add: FindLog_def world_ok_def)
qed

definition sample_found :: world where
  "sample_found = \<lparr>w_mach = quiescent (\<lambda>_. 0) 1024, w_files = [log_path 7 \<mapsto> rd sample_mem 4096 4096, log_path 9 \<mapsto> []],
     w_pools = [rootHeapPath \<mapsto> sample_root], w_logs = [], is_ready = True, idToLogMap = []\<rparr>"

theorem FindLog_reopens_uncached_witness:
  "\<exists>w' L. FindLog sample_osd sample_found 7 = Inr (w', NO_ERROR, Some 0) \<and> w_logs w' = [L] \<and>
    plog_ok (w_mach w') L []"
proof -
  have img: "log_image sample_mem 4096 4096 []" "rd64 sample_mem (4096 + tail_off) < 4096"
    using sample_log(1) by (simp_all add: plog_ok_def sample_mach_def sample_plog_def)
  have "world_ok sample_found" "registered sample_found 7"
    by (auto simp: world_ok_def registered_def sample_found_def sample_root_ok map_wf_def log_path_inj)
  then show ?thesis
    using FindLog_reopens_uncached [of sample_found 7 sample_mem 4096 4096 "[]" sample_osd 8192] img
    by (auto simp: sample_found_def osd_fine_def sample_osd_def disj_def log_path_inj)
qed

text \<open>
  \<open>CreateLog\<close> makes the file before it registers the identifier. If the process dies in between, the
  file stays without an entry in the root heap, and from then on \<open>CreateLog\<close> of that identifier with a
  size ends the process, while \<open>FindLog\<close> does not see it.
\<close>

theorem CreateLog_orphan_exits:
  assumes "world_ok w" "\<not> registered w lid" "w_files w (log_path lid) \<noteq> None" "sz \<noteq> 0"
    "env_dax (os_env1 d) = None" "env_dax (os_env2 d) = None"
  shows "CreateLog d w lid sz = Inl (Exit 1)"
proof -
  have "new_Log d w sz lid = Inl (Exit 1)"
    using Log_new_exists [of "w_files w" "log_path lid" sz "os_env1 d" "os_env2 d"] assms(3-6)
    by (simp add: new_Log_def)
  then show ?thesis
    using isLogExist_registered [OF assms(1), of lid] assms(1,2) by (simp add: CreateLog_def world_ok_def)
qed

theorem CreateLog_orphan_exits_witness:
  "CreateLog sample_osd (sample_world\<lparr>w_files := [log_path 3 \<mapsto> []]\<rparr>) 3 4096 = Inl (Exit 1)"
proof -
  have "world_ok (sample_world\<lparr>w_files := [log_path 3 \<mapsto> []]\<rparr>)" "\<not> registered (sample_world\<lparr>w_files := [log_path 3 \<mapsto> []]\<rparr>) 3"
    by (auto simp: world_ok_def registered_def sample_world_def root_ok_def root_ids_def MAX_LOGS_def map_wf_def)
  then show ?thesis by (rule CreateLog_orphan_exits) (simp_all add: sample_osd_def)
qed

end
