(* ===== verification/Objects.thy ===== *)
theory Objects
  imports Mem_Manager
begin

text \<open>
  \<open>kvstore/object.h\<close> and \<open>kvstore/object.cc\<close>: the volatile object behind a key, and the page bitmap with
  which the delta store finds what has changed. Sizes and offsets stay below the object's aligned
  size, so the 64-bit products and differences here do not wrap.
\<close>

definition PAGE_SIZE :: nat where "PAGE_SIZE = 4096"

record delta_t =
  dt_start_offset :: nat
  dt_len :: nat

definition delta_less :: "delta_t \<Rightarrow> delta_t \<Rightarrow> bool" where
  "delta_less a b \<longleftrightarrow> dt_len a < dt_len b"

record object =
  ob_name :: string
  ob_size :: nat
  ob_version :: nat
  ob_ptr :: addr
  ob_bitset :: "bool list"
  ob_aligned_size :: nat

text \<open>The constructor; \<open>delta_build\<close> says whether \<open>_DELTA_STORE\<close> is defined.\<close>

definition Object_new :: "bool \<Rightarrow> string \<Rightarrow> nat \<Rightarrow> nat \<Rightarrow> addr \<Rightarrow> object" where
  "Object_new delta_build name sz version ptr =
     (let al = (if delta_build then wsub (wadd sz PAGE_SIZE) 1 AND wnot (PAGE_SIZE - 1) else 0)
      in \<lparr>ob_name = name, ob_size = sz, ob_version = version, ob_ptr = ptr,
          ob_bitset = (if delta_build then replicate (al div PAGE_SIZE) True else []),
          ob_aligned_size = al\<rparr>)"

definition setVersion :: "nat \<Rightarrow> object \<Rightarrow> object" where
  "setVersion version ob = ob\<lparr>ob_version := version\<rparr>"

definition set_modified_bit :: "int \<Rightarrow> object \<Rightarrow> object" where
  "set_modified_bit page_index ob =
     (if page_index > 0 \<and> page_index < int (length (ob_bitset ob))
      then ob\<lparr>ob_bitset := (ob_bitset ob)[nat page_index := True]\<rparr> else ob)"

definition reset_bit_vector :: "object \<Rightarrow> object" where
  "reset_bit_vector ob = ob\<lparr>ob_bitset := map (\<lambda>_. False) (ob_bitset ob)\<rparr>"

text \<open>
  The loop of \<open>get_delta_chunks\<close> from page \<open>i\<close> on: \<open>st\<close> is the status (inside a written region), \<open>so\<close> and
  \<open>ln\<close> the locals \<open>start_offset\<close> and \<open>len\<close>, and the list the bits still to look at.
\<close>

fun delta_scan :: "nat \<Rightarrow> nat \<Rightarrow> bool \<Rightarrow> nat \<Rightarrow> nat \<Rightarrow> bool list \<Rightarrow> delta_t list" where
  "delta_scan sz i st so ln [] = []"
| "delta_scan sz i st so ln (b # bs) =
     (let (st, so, ln) = (if b then (if \<not> st then (True, i, 1) else (True, so, ln + 1)) else (st, so, ln)) in
      if (\<not> b \<or> bs = []) \<and> st then
        \<lparr>dt_start_offset = so * PAGE_SIZE,
         dt_len = (if \<not> b then ln * PAGE_SIZE else sz - so * PAGE_SIZE)\<rparr> # delta_scan sz (i + 1) False so ln bs
      else delta_scan sz (i + 1) st so ln bs)"

definition get_delta_chunks :: "object \<Rightarrow> delta_t list" where
  "get_delta_chunks ob = delta_scan (ob_size ob) 0 False 0 0 (ob_bitset ob)"

subsection \<open>The chunks are the written pages\<close>

definition in_delta :: "nat \<Rightarrow> delta_t \<Rightarrow> bool" where
  "in_delta x d \<longleftrightarrow> dt_start_offset d \<le> x \<and> x < dt_start_offset d + dt_len d"

definition object_ok :: "object \<Rightarrow> bool" where
  "object_ok ob \<longleftrightarrow> ob_size ob \<le> length (ob_bitset ob) * PAGE_SIZE \<and>
     length (ob_bitset ob) * PAGE_SIZE < ob_size ob + PAGE_SIZE"

lemma page_simps: "k * 4096 \<le> x \<longleftrightarrow> k \<le> x div 4096" "x < k * 4096 \<longleftrightarrow> x div 4096 < k" for x k :: nat
  by (simp_all add: less_eq_div_iff_mult_less_eq div_less_iff_less_mult)

lemma in_delta_pages:
  "in_delta x \<lparr>dt_start_offset = so * 4096, dt_len = ln * 4096\<rparr> \<longleftrightarrow> so \<le> x div 4096 \<and> x div 4096 < so + ln"
  by (simp only: in_delta_def delta_t.select_convs page_simps distrib_right [symmetric])

lemma in_delta_tail:
  "so * 4096 \<le> sz \<Longrightarrow> in_delta x \<lparr>dt_start_offset = so * 4096, dt_len = sz - so * 4096\<rparr> \<longleftrightarrow> so \<le> x div 4096 \<and> x < sz"
  by (simp only: in_delta_def delta_t.select_convs page_simps) simp

text \<open>Whether page \<open>q\<close> is covered by the chunks of a scan that starts at page \<open>i\<close>.\<close>

lemma delta_scan_covers:
  "sz \<le> (i + length bs) * 4096 \<Longrightarrow> (i + length bs) * 4096 < sz + 4096 \<Longrightarrow>
   (st \<longrightarrow> so + ln = i \<and> bs \<noteq> []) \<Longrightarrow>
   (\<exists>d \<in> set (delta_scan sz i st so ln bs). in_delta x d) \<longleftrightarrow>
    x < sz \<and> (st \<and> so \<le> x div 4096 \<and> x div 4096 < i \<or> i \<le> x div 4096 \<and> bs ! (x div 4096 - i))"
proof (induction bs arbitrary: i st so ln)
  case Nil
  then have "x < sz \<Longrightarrow> x < i * 4096" by simp
  then show ?case using Nil by (auto simp: page_simps(2) simp del: div_less_iff_less_mult)
next
  case (Cons b bs)
  define q where "q = x div 4096"
  have nth: "i \<le> q \<Longrightarrow> (b # bs) ! (q - i) \<longleftrightarrow> (if q = i then b else bs ! (q - Suc i))"
    by (auto simp: nth_Cons')
  have sz: "i * 4096 < sz" using Cons.prems(2) by simp
  have lo: "q < i \<Longrightarrow> x < sz" using sz page_simps(2) [of x i] by (simp add: q_def)
  have so: "st \<Longrightarrow> so * 4096 \<le> sz" using Cons.prems(3) sz by auto
  note del = in_delta_pages [of x, folded q_def] in_delta_tail [of _ sz x, folded q_def]
  show ?case unfolding q_def [symmetric]
  proof (cases "bs = []")
    case True
    then have hi: "x < sz \<Longrightarrow> q \<le> i" using Cons.prems(1) page_simps(2) [of x "i + 1"] by (simp add: q_def)
    show "(\<exists>d \<in> set (delta_scan sz i st so ln (b # bs)). in_delta x d) \<longleftrightarrow>
        x < sz \<and> (st \<and> so \<le> q \<and> q < i \<or> i \<le> q \<and> (b # bs) ! (q - i))"
    proof (cases b)
      case b: True
      have "(\<exists>d \<in> set (delta_scan sz i st so ln (b # bs)). in_delta x d) \<longleftrightarrow> (if st then so else i) \<le> q \<and> x < sz"
        using True b sz so by (cases st) (simp_all add: PAGE_SIZE_def del)
      then show ?thesis using hi nth b Cons.prems(3) by (cases st) auto
    next
      case b: False
      have "(\<exists>d \<in> set (delta_scan sz i st so ln (b # bs)). in_delta x d) \<longleftrightarrow> st \<and> so \<le> q \<and> q < so + ln"
        using True b by (cases st) (simp_all add: PAGE_SIZE_def del)
      then show ?thesis using hi lo nth b Cons.prems(3) by (cases st) auto
    qed
  next
    case ne: False
    have pre: "sz \<le> (Suc i + length bs) * 4096" "(Suc i + length bs) * 4096 < sz + 4096"
      using Cons.prems(1,2) by simp_all
    note IH = Cons.IH [OF pre, folded q_def]
    show "(\<exists>d \<in> set (delta_scan sz i st so ln (b # bs)). in_delta x d) \<longleftrightarrow>
        x < sz \<and> (st \<and> so \<le> q \<and> q < i \<or> i \<le> q \<and> (b # bs) ! (q - i))"
    proof (cases b)
      case b: True
      have "(\<exists>d \<in> set (delta_scan sz i st so ln (b # bs)). in_delta x d) \<longleftrightarrow>
          x < sz \<and> ((if st then so else i) \<le> q \<and> q < Suc i \<or> Suc i \<le> q \<and> bs ! (q - Suc i))"
        using IH [of True i 1] IH [of True so "ln + 1"] Cons.prems(3) ne b by (cases st) simp_all
      then show ?thesis using nth b Cons.prems(3) by (cases st; cases "q = i") auto
    next
      case b: False
      have "(\<exists>d \<in> set (delta_scan sz i st so ln (b # bs)). in_delta x d) \<longleftrightarrow>
          st \<and> so \<le> q \<and> q < so + ln \<or> x < sz \<and> Suc i \<le> q \<and> bs ! (q - Suc i)"
        using IH [of False so ln] b ne by (cases st) (simp_all add: PAGE_SIZE_def del)
      then show ?thesis using nth b lo Cons.prems(3) by (cases st; cases "q = i") auto
    qed
  qed
qed

lemma delta_scan_starts:
  "(st \<longrightarrow> so + ln = i) \<Longrightarrow> d \<in> set (delta_scan sz i st so ln bs) \<Longrightarrow>
   (if st then so else i) * PAGE_SIZE \<le> dt_start_offset d"
proof (induction bs arbitrary: i st so ln)
  case (Cons b bs)
  let ?so = "if st then so else i"
  show ?case
  proof (cases b)
    case True
    then have "d \<in> set (delta_scan sz (i + 1) True ?so (if st then ln + 1 else 1) bs) \<or>
        d \<in> set (delta_scan sz (i + 1) False ?so (if st then ln + 1 else 1) bs) \<or> dt_start_offset d = ?so * PAGE_SIZE"
      using Cons.prems(2) by (auto split: if_splits)
    moreover have "?so \<le> i + 1" using Cons.prems(1) by auto
    then have "?so * PAGE_SIZE \<le> (i + 1) * PAGE_SIZE" by (rule mult_le_mono1)
    ultimately show ?thesis
      using Cons.IH [of True ?so "if st then ln + 1 else 1" "i + 1"]
        Cons.IH [of False ?so "if st then ln + 1 else 1" "i + 1"] Cons.prems(1) by (auto split: if_splits)
  next
    case False
    then have "d \<in> set (delta_scan sz (i + 1) False so ln bs) \<or> (st \<and> dt_start_offset d = so * PAGE_SIZE)"
      using Cons.prems(2) by (auto split: if_splits)
    moreover have "?so \<le> i + 1" using Cons.prems(1) by auto
    then have "?so * PAGE_SIZE \<le> (i + 1) * PAGE_SIZE" by (rule mult_le_mono1)
    ultimately show ?thesis using Cons.IH [of False so ln "i + 1"] by (auto split: if_splits)
  qed
qed simp

lemma delta_scan_sorted:
  "(st \<longrightarrow> so + ln = i) \<Longrightarrow>
   sorted_wrt (\<lambda>a b. dt_start_offset a + dt_len a < dt_start_offset b) (delta_scan sz i st so ln bs)"
proof (induction bs arbitrary: i st so ln)
  case (Cons b bs)
  show ?case
  proof (cases "b \<and> bs \<noteq> [] \<or> \<not> b \<and> \<not> st")
    case True
    then show ?thesis
      using Cons.IH [of True "if st then so else i" "if st then ln + 1 else 1" "i + 1"]
        Cons.IH [of False so ln "i + 1"] Cons.prems by (auto split: if_splits)
  next
    case False
    have "so * PAGE_SIZE + ln * PAGE_SIZE < dt_start_offset d"
      if "st" "d \<in> set (delta_scan sz (i + 1) False so ln bs)" for d
      using delta_scan_starts [of False so ln "i + 1" d sz bs] that Cons.prems
      by (auto simp: PAGE_SIZE_def simp flip: add_mult_distrib)
    then show ?thesis
      using False Cons.IH [of False so ln "i + 1"] by (auto split: if_splits)
  qed
qed simp

lemma get_delta_chunks_covers:
  "object_ok ob \<Longrightarrow> (\<exists>d \<in> set (get_delta_chunks ob). in_delta x d) \<longleftrightarrow>
    x < ob_size ob \<and> ob_bitset ob ! (x div PAGE_SIZE)"
  using delta_scan_covers [of "ob_size ob" 0 "ob_bitset ob" False 0 0 x]
  by (simp add: get_delta_chunks_def object_ok_def PAGE_SIZE_def)

subsection \<open>Properties\<close>

text \<open>
  C38. \<open>get_delta_chunks\<close> lists exactly the written pages: a byte of the object lies in some chunk
  precisely when its page is marked, no chunk reaches past the object's size, and the chunks come in
  order with a gap between any two (so they are maximal runs).
\<close>

theorem get_delta_chunks_exact:
  assumes "object_ok ob"
  shows "((\<exists>d \<in> set (get_delta_chunks ob). in_delta x d) \<longleftrightarrow>
      x < ob_size ob \<and> ob_bitset ob ! (x div PAGE_SIZE)) \<and>
    sorted_wrt (\<lambda>a b. dt_start_offset a + dt_len a < dt_start_offset b) (get_delta_chunks ob)"
  using get_delta_chunks_covers [OF assms, of x] by (simp add: get_delta_chunks_def delta_scan_sorted)

definition sample_object :: object where
  "sample_object = \<lparr>ob_name = ''x'', ob_size = 17000, ob_version = 0, ob_ptr = 65536,
     ob_bitset = [True, True, False, False, True], ob_aligned_size = 20480\<rparr>"

theorem get_delta_chunks_exact_witness:
  "get_delta_chunks sample_object =
     [\<lparr>dt_start_offset = 0, dt_len = 8192\<rparr>, \<lparr>dt_start_offset = 16384, dt_len = 616\<rparr>] \<and>
   (\<exists>d \<in> set (get_delta_chunks sample_object). in_delta 16999 d)"
  using get_delta_chunks_exact [of sample_object 16999]
  by (simp add: object_ok_def sample_object_def PAGE_SIZE_def get_delta_chunks_def)

text \<open>
  A new object of the delta build is all modified: its chunks cover every byte of it and no more.
\<close>

theorem Object_new_all_modified:
  assumes "sz + PAGE_SIZE < 2 ^ 64"
  shows "object_ok (Object_new True name sz version ptr) \<and>
    ((\<exists>d \<in> set (get_delta_chunks (Object_new True name sz version ptr)). in_delta x d) \<longleftrightarrow> x < sz)"
proof -
  let ?ob = "Object_new True name sz version ptr" and ?n = "(sz + 4095) div 4096"
  have "wsub (wadd sz PAGE_SIZE) 1 = sz + 4095"
    using assms by (simp add: PAGE_SIZE_def wadd_exact wsub_exact)
  moreover have "(sz + 4095) AND wnot (2 ^ 12 - 1) = sz + 4095 - (sz + 4095) mod 2 ^ 12"
    using assms by (intro and_wnot_mask) (simp_all add: PAGE_SIZE_def)
  ultimately have al: "wsub (wadd sz PAGE_SIZE) 1 AND wnot (PAGE_SIZE - 1) = ?n * 4096"
    by (simp add: PAGE_SIZE_def minus_mod_eq_div_mult)
  then have bits: "ob_bitset ?ob = replicate ?n True" "ob_size ?ob = sz"
    by (simp_all add: Object_new_def PAGE_SIZE_def)
  have "?n * 4096 + (sz + 4095) mod 4096 = sz + 4095" "(sz + 4095) mod 4096 < 4096" by simp_all
  then have n: "sz \<le> ?n * 4096" "?n * 4096 < sz + 4096" by linarith+
  then have ok: "object_ok ?ob" by (simp add: object_ok_def bits PAGE_SIZE_def)
  have "x < sz \<Longrightarrow> x div 4096 < ?n" using n(1) page_simps(2) [of x ?n] by linarith
  then show ?thesis using ok get_delta_chunks_covers [OF ok, of x] by (auto simp: bits PAGE_SIZE_def)
qed

theorem Object_new_all_modified_witness:
  "object_ok (Object_new True ''x'' 5000 0 65536) \<and>
   (\<exists>d \<in> set (get_delta_chunks (Object_new True ''x'' 5000 0 65536)). in_delta 4999 d)"
  using Object_new_all_modified [of 5000 "''x''" 0 65536 4999] by (simp add: PAGE_SIZE_def)

text \<open>
  Modifications of the first page are lost: after \<open>reset_bit_vector\<close>, whatever pages are reported
  through \<open>set_modified_bit\<close>, page 0 among them, no chunk contains the object's first byte.
\<close>

theorem first_page_never_modified:
  assumes "object_ok ob" "ob_size ob \<noteq> 0"
  shows "\<not> (\<exists>d \<in> set (get_delta_chunks (fold set_modified_bit pages (reset_bit_vector ob))). in_delta 0 d)"
proof -
  let ?ob = "fold set_modified_bit pages (reset_bit_vector ob)"
  have keep: "object_ok (fold set_modified_bit ps o1) \<and> \<not> ob_bitset (fold set_modified_bit ps o1) ! 0"
    if "object_ok o1" "\<not> ob_bitset o1 ! 0" for ps o1
    using that
    by (induction ps arbitrary: o1) (auto simp: set_modified_bit_def object_ok_def)
  have "object_ok (reset_bit_vector ob)" using assms(1) by (simp add: object_ok_def reset_bit_vector_def)
  moreover have "ob_bitset ob \<noteq> []" using assms by (auto simp: object_ok_def)
  then have "\<not> ob_bitset (reset_bit_vector ob) ! 0" by (cases "ob_bitset ob") (simp_all add: reset_bit_vector_def)
  ultimately have "object_ok ?ob" "\<not> ob_bitset ?ob ! 0" using keep by blast+
  then show ?thesis using get_delta_chunks_covers [of ?ob 0] by simp
qed

theorem first_page_never_modified_witness:
  "\<not> (\<exists>d \<in> set (get_delta_chunks (fold set_modified_bit [0, 3] (reset_bit_vector sample_object))). in_delta 0 d)"
  by (rule first_page_never_modified) (simp_all add: object_ok_def sample_object_def PAGE_SIZE_def)

end
