(* ===== verification/Nvs_Store.thy ===== *)
theory Nvs_Store
  imports Objects
begin

text \<open>
  \<open>kvstore/nvs_store.cc\<close>: the key-value store on one log. \<open>put\<close> appends a header of type \<open>single\<close> and
  the object's bytes; \<open>put_all\<close> appends one entry of type \<open>multiple\<close> that holds every object with a
  header of its own; \<open>get\<close> walks the log from its head for a key and a version. What \<open>malloc\<close> returns
  is an argument; the struct \<open>walkentry\<close> on the stack starts with arbitrary contents.
\<close>

definition LOG_SIZE :: nat where "LOG_SIZE = 100 * 1024 * 1024"

record nvs_store =
  ns_storeId :: string
  ns_log :: nat
  ns_objectMap :: "(string, object) std_map"
  ns_addrMap :: "(addr, string) std_map"

text \<open>The numeric values of \<open>enum ErrorCode\<close>, which \<open>put\<close> returns as \<open>uint64_t\<close>.\<close>

fun err_code :: "ErrorCode \<Rightarrow> nat" where
  "err_code NO_ERROR = 0"
| "err_code DUPLICATE_KEY = 1"
| "err_code ELEM_NOT_FOUND = 2"
| "err_code STORE_NOT_FOUND = 3"
| "err_code KEY_NOT_EXIST = 4"
| "err_code HEAP_NOT_EXIST = 5"
| "err_code ID_IN_USE = 6"
| "err_code LOG_EXIST = 7"
| "err_code OPEN_FAILED = 8"
| "err_code PMEM_ERROR = 9"
| "err_code ID_NOT_FOUND = 10"
| "err_code ID_FOUND = 11"
| "err_code NOT_ENOUGH_SPACE = 12"

subsection \<open>Construction\<close>

text \<open>
  \<open>std::stoi\<close>: white space, a sign, digits; without a digit it throws \<open>invalid_argument\<close>, out of the
  range of \<open>int\<close> it throws \<open>out_of_range\<close>, and nobody catches either.
\<close>

definition stoi :: "string \<Rightarrow> int outcome" where
  "stoi s =
     (let t = dropWhile is_space s;
          u = (case t of [] \<Rightarrow> [] | c # cs \<Rightarrow> if c = CHR ''-'' \<or> c = CHR ''+'' then cs else c # cs);
          n = (if t \<noteq> [] \<and> hd t = CHR ''-'' then - int (read_digits 0 u) else int (read_digits 0 u))
      in if u = [] \<or> digit_val (hd u) = None then Inl Uncaught
         else if n < - (2 ^ 31) \<or> 2 ^ 31 \<le> n then Inl Uncaught
         else Inr n)"

text \<open>
  \<open>s.substr(s.find("/") + 1)\<close>. Without a slash \<open>find\<close> is \<open>npos\<close>, the largest 64-bit number, and the
  sum wraps to 0: the whole string.
\<close>

definition after_slash :: "string \<Rightarrow> string" where
  "after_slash s =
     (if CHR ''/'' \<in> set s then tl (dropWhile (\<lambda>c. c \<noteq> CHR ''/'') s) else s)"

text \<open>
  \<open>LogId\<close> is an 8-bit number, so the assignment of the \<open>int\<close> keeps the low eight bits. The singleton
  \<open>MemoryManager\<close> runs \<open>Init\<close> when it is made. The calls of the memory manager get an environment each.
\<close>

definition mm_GetInstance :: "world \<Rightarrow> world" where
  "mm_GetInstance w = (if is_ready w then w else fst (mm_Init w))"

definition open_store_log ::
    "osd \<Rightarrow> osd \<Rightarrow> osd \<Rightarrow> world \<Rightarrow> string \<Rightarrow> nat \<Rightarrow> (world \<times> nat) outcome" where
  "open_store_log d1 d2 d3 w storeId log_sz =
     bindO (stoi (after_slash storeId)) (\<lambda>n.
       let logId = nat (n mod 256); w = mm_GetInstance w
       in bindO (FindLog d1 w logId) (\<lambda>(w, ret, log).
         if ret = ID_NOT_FOUND then
           bindO (CreateLog d2 w logId log_sz) (\<lambda>(w, ret).
             if ret \<noteq> NO_ERROR then Inl (Exit 1)
             else bindO (FindLog d3 w logId) (\<lambda>(w, ret, log).
               if ret \<noteq> NO_ERROR then Inl (Exit 1)
               else case log of Some l \<Rightarrow> Inr (w, l) | None \<Rightarrow> Inl Undefined))
         else case log of Some l \<Rightarrow> Inr (w, l) | None \<Rightarrow> Inl Undefined))"

definition NVSStore_new :: "osd \<Rightarrow> osd \<Rightarrow> osd \<Rightarrow> world \<Rightarrow> string \<Rightarrow> (world \<times> nvs_store) outcome" where
  "NVSStore_new d1 d2 d3 w storeId =
     bindO (open_store_log d1 d2 d3 w storeId LOG_SIZE) (\<lambda>(w, l).
       Inr (w, \<lparr>ns_storeId = storeId, ns_log = l, ns_objectMap = [], ns_addrMap = []\<rparr>))"

subsection \<open>Objects\<close>

definition NVSStore_create_obj ::
    "bool \<Rightarrow> nvs_store \<Rightarrow> string \<Rightarrow> nat \<Rightarrow> addr \<Rightarrow> (nvs_store \<times> ErrorCode \<times> addr) outcome" where
  "NVSStore_create_obj delta_build s key sz tmp_ptr =
     (let ob = Object_new delta_build key sz 0 tmp_ptr in
      case map_find (ns_objectMap s) key of
        None \<Rightarrow>
          Inr (s\<lparr>ns_objectMap := map_assign (ns_objectMap s) key (setVersion 0 ob),
                 ns_addrMap := map_assign (ns_addrMap s) tmp_ptr key\<rparr>, NO_ERROR, tmp_ptr)
      | Some _ \<Rightarrow> Inl (Exit 1))"

text \<open>
  \<open>free_obj\<close> erases the two map entries and then reads \<open>it2->second\<close>, through the iterator that the
  first \<open>erase\<close> has just made invalid.
\<close>

definition NVSStore_free_obj :: "nvs_store \<Rightarrow> addr \<Rightarrow> (nvs_store \<times> ErrorCode) outcome" where
  "NVSStore_free_obj s obj_addr =
     (case map_find (ns_addrMap s) obj_addr of
        None \<Rightarrow> Inl (Exit 1)
      | Some key \<Rightarrow>
          (case map_find (ns_objectMap s) key of
             None \<Rightarrow> Inl (Exit 1)
           | Some _ \<Rightarrow> Inl Undefined))"

subsection \<open>Writing\<close>

text \<open>
  Filling a \<open>lehdr_t\<close> at \<open>a\<close>, in the order of the assignments; \<open>delta_len\<close>, \<open>deltas\<close> and the padding
  keep what was there.
\<close>

definition put_header :: "mach \<Rightarrow> addr \<Rightarrow> nat \<Rightarrow> string \<Rightarrow> nat \<Rightarrow> HdrType \<Rightarrow> mach" where
  "put_header m a version name sz ty =
     (let m = stores m (a + version_off) (le_bytes 8 version);
          m = stores m a (take (KEY_LEN - 1) (cstr (bytes_of name)) @ [0]);
          m = stores m (a + len_off) (le_bytes 8 sz)
      in stores m (a + type_off) (le_bytes 4 (hdr_code ty)))"

definition NVSStore_put ::
    "libpmem \<Rightarrow> world \<Rightarrow> nvs_store \<Rightarrow> string \<Rightarrow> nat \<Rightarrow> (world \<times> nvs_store \<times> nat) outcome" where
  "NVSStore_put c w s key version =
     (case map_find (ns_objectMap s) key of
        Some ob \<Rightarrow>
          (let l_entry = sp (w_mach w) + 16;
               m = put_header (w_mach w) l_entry version (ob_name ob) (ob_size ob) single
           in bindO (appendv c m (w_logs w ! ns_log s) [(l_entry, sizeof_lehdr), (ob_ptr ob, ob_size ob)])
             (\<lambda>(m, L, ret).
               if ret \<noteq> NO_ERROR then Inl (Exit 1)
               else Inr (w\<lparr>w_mach := m, w_logs := (w_logs w)[ns_log s := L]\<rparr>,
                      s\<lparr>ns_objectMap := map_assign (ns_objectMap s) key (setVersion version ob)\<rparr>,
                      err_code NO_ERROR)))
      | None \<Rightarrow> Inr (w, s, err_code ELEM_NOT_FOUND))"

text \<open>
  The loop of \<open>put_all\<close> over the objects in key order: fill the header, extend the vector, add up
  the sizes at 64 bits.
\<close>

fun put_headers :: "mach \<Rightarrow> addr \<Rightarrow> nat \<Rightarrow> object list \<Rightarrow> mach \<times> iovec list \<times> nat" where
  "put_headers m a tot [] = (m, [], tot)"
| "put_headers m a tot (ob # obs) =
     (let m = put_header m a (wadd (ob_version ob) 1) (ob_name ob) (ob_size ob) single;
          (m, iov, tot) = put_headers m (a + sizeof_lehdr) (wadd tot (wadd sizeof_lehdr (ob_size ob))) obs
      in (m, (a, sizeof_lehdr) # (ob_ptr ob, ob_size ob) # iov, tot))"

text \<open>The outer header, whose \<open>kname\<close> is never written.\<close>

definition put_outer_header :: "mach \<Rightarrow> addr \<Rightarrow> nat \<Rightarrow> mach" where
  "put_outer_header m a tot =
     (let m = stores m (a + version_off) (le_bytes 8 0);
          m = stores m (a + type_off) (le_bytes 4 (hdr_code multiple))
      in stores m (a + len_off) (le_bytes 8 tot))"

definition NVSStore_put_all ::
    "libpmem \<Rightarrow> world \<Rightarrow> nvs_store \<Rightarrow> addr \<Rightarrow> (world \<times> nvs_store \<times> nat) outcome" where
  "NVSStore_put_all c w s l_entry =
     (let (m, iov, tot_cnt) = put_headers (w_mach w) (l_entry + sizeof_lehdr) 0 (map snd (ns_objectMap s));
          m = put_outer_header m l_entry tot_cnt;
          total_size = wadd tot_cnt sizeof_lehdr
      in bindO (appendv c m (w_logs w ! ns_log s) ((l_entry, sizeof_lehdr) # iov)) (\<lambda>(m, L, ret).
           let w = w\<lparr>w_mach := m, w_logs := (w_logs w)[ns_log s := L]\<rparr> in
           if ret \<noteq> NO_ERROR then Inr (w, s, err_code PMEM_ERROR)
           else Inr (w, s\<lparr>ns_objectMap :=
                  map (\<lambda>(k, ob). (k, setVersion (wadd (ob_version ob) 1) ob)) (ns_objectMap s)\<rparr>, total_size)))"

subsection \<open>Reading\<close>

definition hdr_matches :: "lehdr_t \<Rightarrow> walkentry \<Rightarrow> bool" where
  "hdr_matches h we \<longleftrightarrow> strncmp_eq KEY_LEN (le_kname h) (we_key we) \<and> le_version h = we_version we"

text \<open>
  The loop over the inner entries of a \<open>multiple\<close> chunk: \<open>off\<close> is where \<open>i_hdr\<close> points, relative to
  \<open>i_buf\<close>, and \<open>i_index\<close> is the offset after the entry there.
\<close>

partial_function (option) inner_loop ::
    "memory \<Rightarrow> addr \<Rightarrow> nat \<Rightarrow> nat \<Rightarrow> nat \<Rightarrow> walkentry \<Rightarrow> (walkentry \<times> bool) outcome option" where
  "inner_loop mem i_buf len off i_index we =
     (if i_index < len then
        (let i_hdr = read_lehdr mem (i_buf + off) in
         if hdr_matches i_hdr we
         then Some (Inr (we\<lparr>we_datap := i_buf + off + sizeof_lehdr, we_len := le_len i_hdr,
                            we_err := NO_ERROR\<rparr>, False))
         else inner_loop mem i_buf len i_index
                (wadd i_index (wadd sizeof_lehdr (le_len (read_lehdr mem (i_buf + i_index))))) we)
      else Some (Inr (we, True)))"

text \<open>The branch for \<open>delta\<close> has no \<open>return\<close>.\<close>

definition process_chunks :: "memory \<Rightarrow> walkentry callback" where
  "process_chunks mem buf len we =
     (let we = we\<lparr>we_err := ID_NOT_FOUND\<rparr>; lehdr = read_lehdr mem buf in
      if le_type lehdr = hdr_code single then
        (if hdr_matches lehdr we
         then Some (Inr (we\<lparr>we_datap := buf + sizeof_lehdr, we_len := le_len lehdr, we_err := NO_ERROR\<rparr>, False))
         else Some (Inr (we, True)))
      else if le_type lehdr = hdr_code multiple then
        (let i_buf = buf + sizeof_lehdr
         in inner_loop mem i_buf (le_len lehdr) 0 (wadd sizeof_lehdr (le_len (read_lehdr mem i_buf))) we)
      else if le_type lehdr = hdr_code delta then Some (Inl Undefined)
      else Some (Inl (Exit 1)))"

definition walk_query :: "walkentry \<Rightarrow> string \<Rightarrow> nat \<Rightarrow> walkentry" where
  "walk_query we key version =
     we\<lparr>we_version := version, we_start_offset := 0, we_key := snprintf_s (we_key we) KEY_LEN key\<rparr>"

definition NVSStore_get ::
    "world \<Rightarrow> nvs_store \<Rightarrow> walkentry \<Rightarrow> string \<Rightarrow> nat \<Rightarrow> addr \<Rightarrow> (world \<times> ErrorCode) outcome option" where
  "NVSStore_get w s wentry key version obj_addr =
     (let mem = cur (w_mach w) in
      map_option (\<lambda>r. bindO r (\<lambda>(wentry, ret).
          if ret \<noteq> NO_ERROR then Inr (w, ID_NOT_FOUND)
          else if we_err wentry \<noteq> NO_ERROR then Inr (w, ID_NOT_FOUND)
          else Inr (w\<lparr>w_mach := libc_memmove (w_mach w) obj_addr (we_datap wentry) (we_len wentry)\<rparr>, NO_ERROR)))
        (walk mem (w_logs w ! ns_log s) (process_chunks mem) (walk_query wentry key version)))"

text \<open>\<open>get_with_malloc\<close> does not look at what \<open>walk\<close> returns, only at \<open>wentry.err\<close>.\<close>

definition NVSStore_get_with_malloc ::
    "bool \<Rightarrow> world \<Rightarrow> nvs_store \<Rightarrow> walkentry \<Rightarrow> string \<Rightarrow> nat \<Rightarrow> addr \<Rightarrow>
     (world \<times> nvs_store \<times> ErrorCode \<times> addr option) outcome option" where
  "NVSStore_get_with_malloc delta_build w s wentry key version tmp_ptr =
     (let mem = cur (w_mach w) in
      map_option (\<lambda>r. bindO r (\<lambda>(wentry, ret).
          if we_err wentry \<noteq> NO_ERROR then Inr (w, s, ID_NOT_FOUND, None)
          else
            (let ob = (case map_find (ns_objectMap s) key of
                         Some ob \<Rightarrow> ob
                       | None \<Rightarrow> Object_new delta_build key (we_len wentry) version tmp_ptr)
             in Inr (w\<lparr>w_mach := libc_memmove (w_mach w) (ob_ptr ob) (we_datap wentry) (we_len wentry)\<rparr>,
                  s\<lparr>ns_objectMap := map_assign (ns_objectMap s) key (setVersion version ob)\<rparr>,
                  NO_ERROR, Some (ob_ptr ob)))))
        (walk mem (w_logs w ! ns_log s) (process_chunks mem) (walk_query wentry key version)))"

subsection \<open>The abstract store: a list of chunks\<close>

text \<open>
  An item is a key (at most 19 bytes, no NUL), a version and the data. A chunk of the log is one item
  or the list of items of a snapshot. \<open>hdr_is\<close> relates header bytes to their fields; the bytes the
  code leaves alone are arbitrary.
\<close>

type_synonym item = "byte list \<times> nat \<times> byte list"

datatype chunk = Single item | Multiple "item list"

definition hdr_fields :: "byte list \<Rightarrow> nat \<Rightarrow> nat \<Rightarrow> nat \<Rightarrow> bool" where
  "hdr_fields h v n ty \<longleftrightarrow> length h = sizeof_lehdr \<and> le_nat (take 8 (drop version_off h)) = v \<and>
     le_nat (take 8 (drop len_off h)) = n \<and> le_nat (take 4 (drop type_off h)) = ty"

definition hdr_is :: "byte list \<Rightarrow> byte list \<Rightarrow> nat \<Rightarrow> nat \<Rightarrow> nat \<Rightarrow> bool" where
  "hdr_is h k v n ty \<longleftrightarrow> hdr_fields h v n ty \<and> cstr (take KEY_LEN h) = k"

fun items_are :: "item list \<Rightarrow> byte list \<Rightarrow> bool" where
  "items_are [] bs \<longleftrightarrow> bs = []"
| "items_are ((k, v, d) # its) bs \<longleftrightarrow>
     hdr_is (take sizeof_lehdr bs) k v (length d) (hdr_code single) \<and>
     take (length d) (drop sizeof_lehdr bs) = d \<and>
     items_are its (drop (sizeof_lehdr + length d) bs)"

fun chunk_is :: "chunk \<Rightarrow> log_entry \<Rightarrow> bool" where
  "chunk_is (Single (k, v, d)) e \<longleftrightarrow> hdr_is (fst e) k v (length d) (hdr_code single) \<and> snd e = d"
| "chunk_is (Multiple its) e \<longleftrightarrow>
     hdr_fields (fst e) 0 (length (snd e)) (hdr_code multiple) \<and> items_are its (snd e)"

definition store_log :: "mach \<Rightarrow> plog \<Rightarrow> chunk list \<Rightarrow> bool" where
  "store_log m L cs \<longleftrightarrow> (\<exists>es. plog_ok m L es \<and> list_all2 chunk_is cs es)"

definition store_image :: "memory \<Rightarrow> addr \<Rightarrow> nat \<Rightarrow> chunk list \<Rightarrow> bool" where
  "store_image mem base mlen cs \<longleftrightarrow> (\<exists>es. log_image mem base mlen es \<and> list_all2 chunk_is cs es)"

text \<open>The key as a header stores it, and the items a search can see: the last of a snapshot is not.\<close>

definition stored_key :: "string \<Rightarrow> byte list" where
  "stored_key key = take (KEY_LEN - 1) (cstr (bytes_of key))"

fun visible :: "chunk \<Rightarrow> item list" where
  "visible (Single it) = [it]"
| "visible (Multiple its) = butlast its"

definition find_item :: "byte list \<Rightarrow> nat \<Rightarrow> item list \<Rightarrow> byte list option" where
  "find_item k v its = map_option (\<lambda>(_, _, d). d) (find (\<lambda>(k', v', _). k' = k \<and> v' = v) its)"

definition lookup :: "chunk list \<Rightarrow> byte list \<Rightarrow> nat \<Rightarrow> byte list option" where
  "lookup cs k v = find_item k v (concat (map visible cs))"

lemma find_item_simps [simp]:
  "find_item k v [] = None"
  "find_item k v ((k', v', d) # its) = (if k' = k \<and> v' = v then Some d else find_item k v its)"
  by (simp_all add: find_item_def)

lemma find_item_append:
  "find_item k v (xs @ ys) = (case find_item k v xs of None \<Rightarrow> find_item k v ys | Some d \<Rightarrow> Some d)"
  by (induction xs) auto

lemma lookup_simps [simp]:
  "lookup [] k v = None"
  "lookup (c # cs) k v = (case find_item k v (visible c) of None \<Rightarrow> lookup cs k v | Some d \<Rightarrow> Some d)"
  by (simp_all add: lookup_def find_item_append split: option.split)

lemma lookup_append:
  "lookup (cs @ ds) k v = (case lookup cs k v of None \<Rightarrow> lookup ds k v | Some d \<Rightarrow> Some d)"
  by (simp add: lookup_def find_item_append split: option.split)

subsection \<open>Reading headers\<close>

lemma read_hdr:
  assumes "hdr_is (rd mem a sizeof_lehdr) k v n ty"
  shows "le_version (read_lehdr mem a) = v" "le_len (read_lehdr mem a) = n" "le_type (read_lehdr mem a) = ty"
    "cstr (le_kname (read_lehdr mem a)) = k" "rd64 mem (a + len_off) = n"
  using assms
  by (simp_all add: hdr_is_def hdr_fields_def read_lehdr_def rd64_def drop_rd take_rd layout_consts)

lemma read_hdr_fields:
  assumes "hdr_fields (rd mem a sizeof_lehdr) v n ty"
  shows "le_version (read_lehdr mem a) = v" "le_len (read_lehdr mem a) = n" "le_type (read_lehdr mem a) = ty"
  using assms
  by (simp_all add: hdr_fields_def read_lehdr_def rd64_def drop_rd take_rd layout_consts)

text \<open>A query: the key buffer has \<open>KEY_LEN\<close> bytes.\<close>

definition query_ok :: "walkentry \<Rightarrow> byte list \<Rightarrow> nat \<Rightarrow> bool" where
  "query_ok we k v \<longleftrightarrow> length (we_key we) = KEY_LEN \<and> cstr (we_key we) = k \<and> we_version we = v"

lemma hdr_matches_iff:
  assumes "hdr_is (rd mem a sizeof_lehdr) k' v' n ty" "query_ok we k v"
  shows "hdr_matches (read_lehdr mem a) we \<longleftrightarrow> k' = k \<and> v' = v"
proof -
  have "length (le_kname (read_lehdr mem a)) = KEY_LEN" by (simp add: read_lehdr_def)
  then show ?thesis
    using read_hdr [OF assms(1)] assms(2) by (simp add: hdr_matches_def query_ok_def strncmp_eq_iff)
qed

lemma query_ok_walk_query:
  "length (we_key we) = KEY_LEN \<Longrightarrow> query_ok (walk_query we key v) (stored_key key) v"
  by (simp add: query_ok_def walk_query_def stored_key_def cstr_snprintf_s length_snprintf_s KEY_LEN_def)

lemma query_ok_err [simp]: "query_ok (we\<lparr>we_err := x\<rparr>) k v = query_ok we k v"
  by (simp add: query_ok_def)

text \<open>What a search leaves in the query: the data where it is, or the error.\<close>

definition answer :: "memory \<Rightarrow> walkentry \<Rightarrow> byte list option \<Rightarrow> bool" where
  "answer mem we r \<longleftrightarrow>
     (case r of None \<Rightarrow> we_err we \<noteq> NO_ERROR
      | Some d \<Rightarrow> we_err we = NO_ERROR \<and> we_len we = length d \<and> rd mem (we_datap we) (length d) = d)"

lemma length_items_are: "items_are its bs \<Longrightarrow> its \<noteq> [] \<Longrightarrow> sizeof_lehdr \<le> length bs"
  by (cases its) (auto simp: hdr_is_def hdr_fields_def)

lemma items_are_Cons:
  assumes "items_are ((k, v, d) # its) (rd mem a n)"
  shows "hdr_is (rd mem a sizeof_lehdr) k v (length d) (hdr_code single)"
    "rd mem (a + sizeof_lehdr) (length d) = d" "sizeof_lehdr + length d \<le> n"
    "items_are its (rd mem (a + sizeof_lehdr + length d) (n - sizeof_lehdr - length d))"
proof -
  have 1: "sizeof_lehdr \<le> n"
    using length_items_are [OF assms] by simp
  have "length (take (length d) (drop sizeof_lehdr (rd mem a n))) = length d"
    using assms by simp
  then have 2: "length d \<le> n - sizeof_lehdr" by simp
  then show "sizeof_lehdr + length d \<le> n" using 1 by simp
  show "hdr_is (rd mem a sizeof_lehdr) k v (length d) (hdr_code single)"
    using assms 1 by (simp add: take_rd)
  show "rd mem (a + sizeof_lehdr) (length d) = d"
    using assms 1 2 by (simp add: take_rd drop_rd)
  show "items_are its (rd mem (a + sizeof_lehdr + length d) (n - sizeof_lehdr - length d))"
    using assms 1 2 by (simp add: drop_rd add.assoc)
qed

subsection \<open>The search in a snapshot and in a chunk\<close>

lemma inner_loop_items:
  assumes "items_are ((k', v', d) # its) (rd mem (b + off) (n - off))" "n < 2 ^ 64" "off \<le> n"
    "query_ok we k v" "we_err we \<noteq> NO_ERROR"
  shows "\<exists>we'. inner_loop mem b n off (off + sizeof_lehdr + length d) we =
      Some (Inr (we', find_item k v (butlast ((k', v', d) # its)) = None)) \<and>
    answer mem we' (find_item k v (butlast ((k', v', d) # its))) \<and> query_ok we' k v"
  using assms
proof (induction its arbitrary: k' v' d off)
  case Nil
  note I = items_are_Cons [OF Nil.prems(1)]
  have "n - off - sizeof_lehdr - length d = 0" using I(4) by (metis items_are.simps(1) length_0_conv length_rd)
  then have "\<not> off + sizeof_lehdr + length d < n" by linarith
  then show ?case using Nil.prems by (subst inner_loop.simps) (simp add: answer_def)
next
  case (Cons it its)
  obtain k1 v1 d1 where it: "it = (k1, v1, d1)" by (cases it)
  let ?i = "off + sizeof_lehdr + length d"
  note I = items_are_Cons [OF Cons.prems(1)]
  have i4: "items_are ((k1, v1, d1) # its) (rd mem (b + ?i) (n - ?i))"
    using I(4) by (simp add: it add.assoc diff_diff_left)
  note J = items_are_Cons [OF i4]
  have lt: "?i < n" using J(3) by (simp add: sizeof_lehdr_def)
  have adv: "wadd ?i (wadd sizeof_lehdr (length d1)) = ?i + sizeof_lehdr + length d1"
    using J(3) lt Cons.prems(2) by (simp add: wadd_exact add.assoc)
  show ?case
  proof (cases "k' = k \<and> v' = v")
    case True
    then have "hdr_matches (read_lehdr mem (b + off)) we" using hdr_matches_iff [OF I(1) Cons.prems(4)] by simp
    then show ?thesis using lt True read_hdr [OF I(1)] I(2) Cons.prems(4)
      by (subst inner_loop.simps) (simp add: answer_def it query_ok_def)
  next
    case False
    then have "\<not> hdr_matches (read_lehdr mem (b + off)) we" using hdr_matches_iff [OF I(1) Cons.prems(4)] by simp
    then have "inner_loop mem b n off ?i we = inner_loop mem b n ?i (?i + sizeof_lehdr + length d1) we"
      using lt by (subst inner_loop.simps) (simp add: read_hdr [OF J(1)] adv [symmetric])
    then show ?thesis
      using Cons.IH [OF i4 Cons.prems(2) _ Cons.prems(4,5)] lt False by (auto simp: it)
  qed
qed

lemma process_chunks_chunk:
  assumes "chunk_is c e" "rd mem buf (sizeof_lehdr + length (snd e)) = fst e @ snd e"
    "length (snd e) < 2 ^ 64" "query_ok we k v"
  shows "\<exists>we'. process_chunks mem buf n we = Some (Inr (we', find_item k v (visible c) = None)) \<and>
    answer mem we' (find_item k v (visible c)) \<and> query_ok we' k v"
proof -
  have len: "length (fst e) = sizeof_lehdr"
    using assms(2) by (metis add_right_cancel length_append length_rd)
  have f: "fst e = rd mem buf sizeof_lehdr" and s: "snd e = rd mem (buf + sizeof_lehdr) (length (snd e))"
    using assms(2) len by (simp_all add: rd_add append_eq_append_conv)
  let ?we = "we\<lparr>we_err := ID_NOT_FOUND\<rparr>"
  show ?thesis
  proof (cases c)
    case (Single it)
    obtain k' v' d where it: "it = (k', v', d)" by (cases it)
    have h: "hdr_is (rd mem buf sizeof_lehdr) k' v' (length d) (hdr_code single)" and d: "snd e = d"
      using assms(1) by (simp_all add: Single it f)
    have q: "query_ok ?we k v" using assms(4) by simp
    show ?thesis
      using hdr_matches_iff [OF h q] read_hdr [OF h] s d assms(4)
      by (auto simp: process_chunks_def Single it answer_def query_ok_def)
  next
    case (Multiple its)
    have h: "hdr_fields (rd mem buf sizeof_lehdr) 0 (length (snd e)) (hdr_code multiple)"
      and its: "items_are its (snd e)"
      using assms(1) by (simp_all add: Multiple f)
    have p: "process_chunks mem buf n we = inner_loop mem (buf + sizeof_lehdr) (length (snd e)) 0
        (wadd sizeof_lehdr (le_len (read_lehdr mem (buf + sizeof_lehdr)))) ?we"
      using read_hdr_fields [OF h] by (simp add: process_chunks_def Let_def)
    show ?thesis
    proof (cases its)
      case Nil
      then have "snd e = []" using its by simp
      then show ?thesis using p assms(4) by (subst (asm) inner_loop.simps) (simp add: Multiple Nil answer_def)
    next
      case (Cons it its')
      obtain k' v' d where it: "it = (k', v', d)" by (cases it)
      have i: "items_are ((k', v', d) # its') (rd mem (buf + sizeof_lehdr + 0) (length (snd e) - 0))"
        using its s by (simp add: Cons it)
      note I = items_are_Cons [OF i]
      have "wadd sizeof_lehdr (le_len (read_lehdr mem (buf + sizeof_lehdr))) = 0 + sizeof_lehdr + length d"
        using read_hdr(2) [OF I(1)] I(3) assms(3) by (simp add: wadd_exact)
      then show ?thesis
        using inner_loop_items [OF i assms(3), of ?we k v] assms(4) p by (simp add: Multiple Cons it)
    qed
  qed
qed

subsection \<open>The search in the log\<close>

lemma walk_entries_lookup:
  assumes "entries_at mem base off es fin" "fin < 2 ^ 64" "list_all2 chunk_is cs es" "query_ok we k v"
    "cs = [] \<Longrightarrow> we_err we \<noteq> NO_ERROR"
  shows "\<exists>we'. walk_entries base off (process_chunks mem) es we = Some (Inr we') \<and> answer mem we' (lookup cs k v)"
  using assms
proof (induction es arbitrary: off cs we)
  case Nil
  then show ?case by (simp add: answer_def)
next
  case (Cons e es)
  obtain c cs' where cs: "cs = c # cs'" "chunk_is c e" "list_all2 chunk_is cs' es"
    using Cons.prems(3) by (auto simp: list_all2_Cons2)
  have e: "rd mem (base + off) (sizeof_lehdr + length (snd e)) = fst e @ snd e"
    "entries_at mem base (off + entry_size e) es fin"
    using Cons.prems(1) by simp_all
  have "length (snd e) < 2 ^ 64"
    using entries_at_le [OF e(2)] Cons.prems(2) by (simp add: entry_size_def)
  from process_chunks_chunk [OF cs(2) e(1) this Cons.prems(4)] obtain we' where
    p: "process_chunks mem (base + off) (length (snd e)) we = Some (Inr (we', find_item k v (visible c) = None))"
    and a: "answer mem we' (find_item k v (visible c))" and q: "query_ok we' k v" by blast
  show ?case
  proof (cases "find_item k v (visible c)")
    case None
    have "\<exists>we''. walk_entries base (off + entry_size e) (process_chunks mem) es we' = Some (Inr we'') \<and>
        answer mem we'' (lookup cs' k v)"
      by (rule Cons.IH [OF e(2) Cons.prems(2) cs(3) q]) (use a None in \<open>simp add: answer_def\<close>)
    then show ?thesis using p None by (simp add: cs(1))
  next
    case (Some d)
    then show ?thesis using p a by (simp add: cs(1))
  qed
qed

text \<open>\<open>walk\<close> with the store's callback, on the image of a store: it ends, with the answer.\<close>

lemma walk_lookup:
  assumes "store_image mem (pmemaddr L) mlen cs" "query_ok we k v"
  shows "if cs = [] then walk mem L (process_chunks mem) we = Some (Inr (we, ID_NOT_FOUND))
    else \<exists>we'. walk mem L (process_chunks mem) we = Some (Inr (we', NO_ERROR)) \<and> answer mem we' (lookup cs k v)"
proof -
  obtain es where es: "log_image mem (pmemaddr L) mlen es" "list_all2 chunk_is cs es"
    using assms(1) by (auto simp: store_image_def)
  have ent: "entries_at mem (pmemaddr L) sizeof_lhdr es (rd64 mem (pmemaddr L + tail_off))"
    using es(1) by (simp add: log_image_def log_body_def)
  have "cs = [] \<longleftrightarrow> es = []" using es(2) by auto
  then show ?thesis
    using walk_image [OF es(1), of "process_chunks mem" we]
      walk_entries_lookup [OF ent rd64_less es(2) assms(2)] by auto
qed

subsection \<open>Appending a chunk\<close>

definition log_range :: "plog \<Rightarrow> addr set" where
  "log_range L = {pmemaddr L..<pmemaddr L + mapped_len L}"

lemma log_range_update [simp]: "log_range (L\<lparr>write_offset := x\<rparr>) = log_range L"
  by (simp add: log_range_def)

lemma chunk_is_entry_ok: "chunk_is c e \<Longrightarrow> entry_ok e"
  by (induction c e rule: chunk_is.induct) (auto simp: entry_ok_def hdr_is_def hdr_fields_def)

lemma plog_ok_touches:
  assumes "plog_ok m L es" "touches m m' S" "S \<inter> log_range L = {}"
  shows "plog_ok m' L es" and "plog_durable m L \<Longrightarrow> plog_durable m' L"
proof -
  note D = plog_okD [OF assms(1)]
  have out: "x \<notin> S" if "pmemaddr L \<le> x" "x < pmemaddr L + write_offset L" for x
    using that assms(3) D(7) by (auto simp: log_range_def disjoint_iff)
  have "log_image (cur m') (pmemaddr L) (mapped_len L) es"
    by (rule durable_image [OF assms(1)]) (rule touches_cur [OF assms(2) out])
  moreover have "rd64 (cur m') (pmemaddr L + tail_off) = rd64 (cur m) (pmemaddr L + tail_off)"
    using out D(4) by (intro rd64_cong touches_cur [OF assms(2)]) (auto simp: layout_consts)
  ultimately show "plog_ok m' L es"
    using assms(1) touches_sp [OF assms(2)] by (simp add: plog_ok_def frame_ok_def)
  show "plog_durable m' L" if "plog_durable m L"
    using that touches_dur [OF assms(2) out] by (simp add: plog_durable_def)
qed

lemma appendv_touches:
  assumes "plog_ok m L es" "iov_ok (pmemaddr L) (mapped_len L) iov"
    "write_offset L + iov_len iov + 8 \<le> end_offset L" "appendv c m L iov = Inr (m', L', r)"
  shows "touches m m' (frame m \<union> log_range L)"
proof -
  note D = plog_okD [OF assms(1)]
  obtain m1 where p: "publishes c m L (iov_data (cur m) iov) m1 m'"
    using appendv_publishes [OF assms(1,2,3), of c] assms(4) by auto
  let ?d = "pmemaddr L + write_offset L" and ?t = "pmemaddr L + tail_off"
  have t: "touches m m1 (frame m \<union> {?d..<?d + iov_len iov + 8})" "touches m1 m' (frame m \<union> {?t..<?t + 8})"
    using p by (auto simp: publishes_def Let_def)
  have "?d + iov_len iov + 8 \<le> pmemaddr L + mapped_len L" "?t + 8 \<le> pmemaddr L + mapped_len L"
    using assms(3) D(3,6) by (auto simp: layout_consts)
  then show ?thesis
    by (intro touches_trans [OF touches_mono [OF t(1)] touches_mono [OF t(2)]]) (auto simp: log_range_def)
qed

lemma store_append:
  assumes "store_log m L cs" "touches m m1 S" "S \<inter> log_range L = {}"
    "iov_ok (pmemaddr L) (mapped_len L) iov" "iov_data (cur m1) iov = fst e @ snd e" "chunk_is ch e"
    "write_offset L + iov_len iov + 8 \<le> end_offset L"
  shows "\<exists>m'. appendv c m1 L iov = Inr (m', L\<lparr>write_offset := write_offset L + iov_len iov + 8\<rparr>, NO_ERROR) \<and>
    store_log m' (L\<lparr>write_offset := write_offset L + iov_len iov + 8\<rparr>) (cs @ [ch]) \<and>
    touches m1 m' (frame m \<union> log_range L) \<and>
    (safe_config c \<longrightarrow> plog_durable m L \<longrightarrow>
       plog_durable m' (L\<lparr>write_offset := write_offset L + iov_len iov + 8\<rparr>))"
proof -
  obtain es where es: "plog_ok m L es" "list_all2 chunk_is cs es" using assms(1) by (auto simp: store_log_def)
  note ok1 = plog_ok_touches [OF es(1) assms(2,3)]
  obtain m' where m': "appendv c m1 L iov = Inr (m', L\<lparr>write_offset := write_offset L + iov_len iov + 8\<rparr>, NO_ERROR)"
    "plog_ok m' (L\<lparr>write_offset := write_offset L + iov_len iov + 8\<rparr>) (es @ [e])"
    "safe_config c \<longrightarrow> plog_durable m1 L \<longrightarrow>
       plog_durable m' (L\<lparr>write_offset := write_offset L + iov_len iov + 8\<rparr>)"
    using appendv_ok [OF ok1(1) assms(4,5) chunk_is_entry_ok [OF assms(6)] assms(7), of c] by blast
  have "list_all2 chunk_is (cs @ [ch]) (es @ [e])"
    using es(2) assms(6) by (simp add: list_all2_appendI)
  then have "store_log m' (L\<lparr>write_offset := write_offset L + iov_len iov + 8\<rparr>) (cs @ [ch])"
    using m'(2) by (auto simp: store_log_def)
  moreover have "frame m1 = frame m" using touches_sp [OF assms(2)] by (simp add: frame_def)
  then have "touches m1 m' (frame m \<union> log_range L)"
    using appendv_touches [OF ok1(1) assms(4,7) m'(1)] by simp
  ultimately show ?thesis using m' ok1(2) by blast
qed

text \<open>A power failure between the start of the call and its return.\<close>

lemma store_append_crash:
  assumes "safe_config c" "store_log m L cs" "plog_durable m L" "touches m m1 S" "S \<inter> log_range L = {}"
    "iov_ok (pmemaddr L) (mapped_len L) iov" "iov_data (cur m1) iov = fst e @ snd e" "chunk_is ch e"
    "write_offset L + iov_len iov + 8 \<le> end_offset L"
    "appendv c m1 L iov = Inr (m', L', r)" "crash_during m m' img"
    "rd64 img (pmemaddr L + tail_off) \<in> {write_offset L, write_offset L'}"
  shows "store_image img (pmemaddr L) (mapped_len L) cs \<or> store_image img (pmemaddr L) (mapped_len L) (cs @ [ch])"
proof -
  obtain es where es: "plog_ok m L es" "list_all2 chunk_is cs es" using assms(2) by (auto simp: store_log_def)
  note D = plog_okD [OF es(1)]
  note ok1 = plog_ok_touches [OF es(1) assms(4,5)]
  note e = chunk_is_entry_ok [OF assms(8)]
  have all: "list_all2 chunk_is (cs @ [ch]) (es @ [e])"
    using es(2) assms(8) by (simp add: list_all2_appendI)
  from touches_split [OF assms(4) appendv_touches [OF ok1(1) assms(6,9,10)] assms(11)]
  show ?thesis
  proof
    assume c1: "crash_during m m1 img"
    have "log_image img (pmemaddr L) (mapped_len L) es"
    proof (rule durable_image [OF es(1)])
      fix x assume x: "pmemaddr L \<le> x" "x < pmemaddr L + write_offset L"
      then have "x \<notin> S" using assms(5) D(7) by (auto simp: log_range_def disjoint_iff)
      then show "img x = cur m x"
        using touches_crash [OF assms(4) c1] assms(3) x by (simp add: plog_durable_def)
    qed
    then show ?thesis using es(2) by (auto simp: store_image_def)
  next
    assume "crash_during m1 m' img"
    from appendv_crash [OF assms(1) ok1(1) ok1(2) [OF assms(3)] assms(6,7) e assms(9,10) this assms(12)]
    show ?thesis using es(2) all by (auto simp: store_image_def)
  qed
qed

subsection \<open>Filling headers\<close>

lemma cur_stores: "cur (stores m a bs) = wr (cur m) a bs"
  by (rule moved_cur [OF moved_stores])

lemma length_stored_key: "length (stored_key key) < KEY_LEN"
  by (simp add: stored_key_def KEY_LEN_def)

lemma cstr_rd_key:
  assumes "length k < n" "0 \<notin> set k"
  shows "cstr (rd (wr mem a (k @ [0])) a n) = k"
proof -
  obtain r where n: "n = length (k @ [0 :: byte]) + r" using assms(1) less_iff_Suc_add by auto
  have "rd (wr mem a (k @ [0])) a (length (k @ [0 :: byte])) = k @ [0]" by (rule rd_wr_same) simp
  then show ?thesis using assms(2) unfolding n rd_add by (simp add: cstr_append_nul)
qed

lemma put_header_touches: "touches m (put_header m a v name n ty) {a..<a + sizeof_lehdr}"
proof -
  have k: "length (take (KEY_LEN - 1) (cstr (bytes_of name)) @ [0]) \<le> KEY_LEN" by (simp add: KEY_LEN_def)
  show ?thesis
    unfolding put_header_def Let_def
    by (intro touches_trans [OF touches_trans [OF touches_trans [OF touches_stores touches_stores] touches_stores]
          touches_stores]) (use k in \<open>auto simp: layout_consts\<close>)
qed

lemma put_header_is:
  assumes "v < 2 ^ 64" "n < 2 ^ 64"
  shows "hdr_is (rd (cur (put_header m a v name n ty)) a sizeof_lehdr) (stored_key name) v n (hdr_code ty)"
proof -
  let ?k = "take 19 (cstr (bytes_of name))"
  let ?m1 = "wr (wr (cur m) (a + 24) (le_bytes 8 v)) a (?k @ [0])"
  let ?m = "wr (wr ?m1 (a + 32) (le_bytes 8 n)) (a + 40) (le_bytes 4 (hdr_code ty))"
  have c: "cur (put_header m a v name n ty) = ?m"
    by (simp add: put_header_def cur_stores layout_consts)
  have lk: "length (?k @ [0 :: byte]) \<le> 20" by simp
  have z: "0 \<notin> set ?k" using cstr_no_nul by (metis in_set_takeD)
  have "rd ?m a 20 = rd ?m1 a 20" by (simp add: rd_wr_disjoint)
  then have "cstr (rd ?m a 20) = ?k" using cstr_rd_key [OF _ z, of 20] by simp
  moreover have "rd ?m (a + 24) 8 = le_bytes 8 v"
    using lk by (simp add: rd_wr_disjoint rd_wr_same)
  moreover have "rd ?m (a + 32) 8 = le_bytes 8 n" by (simp add: rd_wr_disjoint rd_wr_same)
  moreover have "rd ?m (a + 40) 4 = le_bytes 4 (hdr_code ty)" by (simp add: rd_wr_same)
  moreover have "hdr_code ty < 256 ^ 4" by (cases ty) simp_all
  ultimately show ?thesis
    using assms by (simp add: c hdr_is_def hdr_fields_def drop_rd take_rd layout_consts stored_key_def)
qed

lemma put_outer_header_touches: "touches m (put_outer_header m a n) {a..<a + sizeof_lehdr}"
  unfolding put_outer_header_def Let_def
  by (intro touches_trans [OF touches_trans [OF touches_stores touches_stores] touches_stores])
    (auto simp: layout_consts)

lemma put_outer_header_is:
  assumes "n < 2 ^ 64"
  shows "hdr_fields (rd (cur (put_outer_header m a n)) a sizeof_lehdr) 0 n (hdr_code multiple)"
proof -
  let ?m = "cur (put_outer_header m a n)"
  have "rd ?m (a + 24) 8 = le_bytes 8 0" "rd ?m (a + 32) 8 = le_bytes 8 n" "rd ?m (a + 40) 4 = le_bytes 4 1"
    by (simp_all add: put_outer_header_def Let_def cur_stores layout_consts rd_wr_disjoint rd_wr_same)
  then show ?thesis
    using assms by (simp add: hdr_fields_def drop_rd take_rd layout_consts)
qed

subsection \<open>Invariant of a store\<close>

text \<open>
  The store's log is well formed and holds the chunks \<open>cs\<close>; the frame of a call (the two words of
  \<open>persist\<close> and one header) and the objects lie outside the log and apart from each other.
\<close>

definition obj_placed :: "addr \<Rightarrow> plog \<Rightarrow> object \<Rightarrow> bool" where
  "obj_placed s L ob \<longleftrightarrow> ob_version ob < 2 ^ 64 \<and> ob_ptr ob + ob_size ob < 2 ^ 64 \<and>
     disj (ob_ptr ob) (ob_size ob) (pmemaddr L) (mapped_len L) \<and> disj (ob_ptr ob) (ob_size ob) s 152"

definition store_log_of :: "world \<Rightarrow> nvs_store \<Rightarrow> plog" where
  "store_log_of w s = w_logs w ! ns_log s"

definition store_ok :: "world \<Rightarrow> nvs_store \<Rightarrow> chunk list \<Rightarrow> bool" where
  "store_ok w s cs \<longleftrightarrow> ns_log s < length (w_logs w) \<and> store_log (w_mach w) (store_log_of w s) cs \<and>
     sp (w_mach w) + 152 < 2 ^ 64 \<and>
     disj (sp (w_mach w)) 152 (pmemaddr (store_log_of w s)) (mapped_len (store_log_of w s)) \<and>
     map_wf (ns_objectMap s) \<and>
     (\<forall>(k, ob) \<in> set (ns_objectMap s). ob_name ob = k \<and> obj_placed (sp (w_mach w)) (store_log_of w s) ob)"

lemma store_okD:
  assumes "store_ok w s cs"
  shows "ns_log s < length (w_logs w)" "store_log (w_mach w) (store_log_of w s) cs"
    "sp (w_mach w) + 152 < 2 ^ 64"
    "disj (sp (w_mach w)) 152 (pmemaddr (store_log_of w s)) (mapped_len (store_log_of w s))"
    "map_wf (ns_objectMap s)"
    "(k, ob) \<in> set (ns_objectMap s) \<Longrightarrow> ob_name ob = k \<and> obj_placed (sp (w_mach w)) (store_log_of w s) ob"
  using assms by (auto simp: store_ok_def)

text \<open>The world after an append, and objects that have at most changed their versions.\<close>

definition appended :: "world \<Rightarrow> nvs_store \<Rightarrow> mach \<Rightarrow> nat \<Rightarrow> world" where
  "appended w s m n = w\<lparr>w_mach := m,
     w_logs := (w_logs w)[ns_log s := (store_log_of w s)\<lparr>write_offset := write_offset (store_log_of w s) + n + 8\<rparr>]\<rparr>"

lemma store_ok_appended:
  assumes "store_ok w s cs" "sp m = sp (w_mach w)"
    "store_log m ((store_log_of w s)\<lparr>write_offset := write_offset (store_log_of w s) + n + 8\<rparr>) cs'"
    "map_wf om" "\<And>k ob. (k, ob) \<in> set om \<Longrightarrow> \<exists>v ob'. (k, ob') \<in> set (ns_objectMap s) \<and> v < 2 ^ 64 \<and> ob = setVersion v ob'"
  shows "store_ok (appended w s m n) (s\<lparr>ns_objectMap := om\<rparr>) cs'"
proof -
  note D = store_okD [OF assms(1)]
  have L: "store_log_of (appended w s m n) (s\<lparr>ns_objectMap := om\<rparr>) =
      (store_log_of w s)\<lparr>write_offset := write_offset (store_log_of w s) + n + 8\<rparr>"
    using D(1) by (simp add: store_log_of_def appended_def)
  have "ob_name ob = k \<and> obj_placed (sp (w_mach w)) (store_log_of w s) ob" if kob: "(k, ob) \<in> set om" for k ob
  proof -
    obtain v ob' where "(k, ob') \<in> set (ns_objectMap s)" "v < 2 ^ 64" "ob = setVersion v ob'"
      using assms(5) [OF kob] by blast
    then show ?thesis using D(6) [of k ob'] by (simp add: obj_placed_def setVersion_def)
  qed
  then show ?thesis
    using D(1,3,4) assms(2-4) unfolding store_ok_def L
    by (auto simp: appended_def obj_placed_def)
qed

lemma mem_map_assign:
  assumes "map_wf om" "(k, x) \<in> set (map_assign om key y)"
  shows "k = key \<and> x = y \<or> (k, x) \<in> set om"
proof -
  have "map_find (map_assign om key y) k = Some x"
    using assms by (simp add: map_find_items [symmetric] map_assign_wf)
  then show ?thesis using assms(1) by (auto simp: map_find_assign map_find_items split: if_splits)
qed

subsection \<open>put\<close>

lemma put_frame:
  assumes "store_ok w s cs"
  shows "{sp (w_mach w) + 16..<sp (w_mach w) + 16 + sizeof_lehdr} \<inter> log_range (store_log_of w s) = {}"
    and "(k, ob) \<in> set (ns_objectMap s) \<Longrightarrow>
      {ob_ptr ob..<ob_ptr ob + ob_size ob} \<inter> {sp (w_mach w)..<sp (w_mach w) + 152} = {} \<and>
      {ob_ptr ob..<ob_ptr ob + ob_size ob} \<inter> log_range (store_log_of w s) = {}"
proof -
  note D = store_okD [OF assms]
  show "{sp (w_mach w) + 16..<sp (w_mach w) + 16 + sizeof_lehdr} \<inter> log_range (store_log_of w s) = {}"
    using D(4) by (auto simp: log_range_def disj_def sizeof_lehdr_def)
  show "{ob_ptr ob..<ob_ptr ob + ob_size ob} \<inter> {sp (w_mach w)..<sp (w_mach w) + 152} = {} \<and>
      {ob_ptr ob..<ob_ptr ob + ob_size ob} \<inter> log_range (store_log_of w s) = {}"
    if "(k, ob) \<in> set (ns_objectMap s)"
    using D(6) [OF that] by (auto simp: log_range_def obj_placed_def disj_def)
qed

definition put_chunk :: "world \<Rightarrow> nvs_store \<Rightarrow> object \<Rightarrow> nat \<Rightarrow> chunk" where
  "put_chunk w s ob version =
     Single (stored_key (ob_name ob), version, rd (cur (w_mach w)) (ob_ptr ob) (ob_size ob))"

definition put_iov :: "world \<Rightarrow> object \<Rightarrow> iovec list" where
  "put_iov w ob = [(sp (w_mach w) + 16, sizeof_lehdr), (ob_ptr ob, ob_size ob)]"

definition put_prepared :: "world \<Rightarrow> object \<Rightarrow> nat \<Rightarrow> mach" where
  "put_prepared w ob version =
     put_header (w_mach w) (sp (w_mach w) + 16) version (ob_name ob) (ob_size ob) single"

definition put_fits :: "world \<Rightarrow> nvs_store \<Rightarrow> object \<Rightarrow> bool" where
  "put_fits w s ob \<longleftrightarrow>
     write_offset (store_log_of w s) + (sizeof_lehdr + ob_size ob) + 8 \<le> end_offset (store_log_of w s)"

lemma put_entry:
  assumes "store_ok w s cs" "(k, ob) \<in> set (ns_objectMap s)" "version < 2 ^ 64"
  shows "iov_ok (pmemaddr (store_log_of w s)) (mapped_len (store_log_of w s)) (put_iov w ob)"
    and "touches (w_mach w) (put_prepared w ob version) {sp (w_mach w) + 16..<sp (w_mach w) + 16 + sizeof_lehdr}"
    and "\<exists>e. iov_data (cur (put_prepared w ob version)) (put_iov w ob) = fst e @ snd e \<and>
      chunk_is (put_chunk w s ob version) e"
proof -
  note D = store_okD [OF assms(1)] and O = store_okD(6) [OF assms(1,2)]
  let ?a = "sp (w_mach w) + 16" and ?m = "put_prepared w ob version"
  show "iov_ok (pmemaddr (store_log_of w s)) (mapped_len (store_log_of w s)) (put_iov w ob)"
    using D(3,4) O by (auto simp: iov_ok_def put_iov_def disj_def obj_placed_def sizeof_lehdr_def)
  show t: "touches (w_mach w) ?m {?a..<?a + sizeof_lehdr}"
    unfolding put_prepared_def by (rule put_header_touches)
  have "rd (cur ?m) (ob_ptr ob) (ob_size ob) = rd (cur (w_mach w)) (ob_ptr ob) (ob_size ob)"
    using put_frame(2) [OF assms(1,2)] by (intro rd_touches [OF t]) (auto simp: sizeof_lehdr_def disjoint_iff)
  moreover have "hdr_is (rd (cur ?m) ?a sizeof_lehdr) (stored_key (ob_name ob)) version (ob_size ob) (hdr_code single)"
    unfolding put_prepared_def using assms(3) O by (intro put_header_is) (auto simp: obj_placed_def)
  ultimately show "\<exists>e. iov_data (cur ?m) (put_iov w ob) = fst e @ snd e \<and> chunk_is (put_chunk w s ob version) e"
    by (intro exI [of _ "(rd (cur ?m) ?a sizeof_lehdr, rd (cur (w_mach w)) (ob_ptr ob) (ob_size ob))"])
      (simp add: put_iov_def put_chunk_def)
qed

lemma NVSStore_put_unfold:
  assumes "map_find (ns_objectMap s) key = Some ob"
  shows "NVSStore_put c w s key version =
    bindO (appendv c (put_prepared w ob version) (store_log_of w s) (put_iov w ob))
      (\<lambda>(m, L, ret). if ret \<noteq> NO_ERROR then Inl (Exit 1)
         else Inr (w\<lparr>w_mach := m, w_logs := (w_logs w)[ns_log s := L]\<rparr>,
                s\<lparr>ns_objectMap := map_assign (ns_objectMap s) key (setVersion version ob)\<rparr>, 0))"
  using assms by (simp add: NVSStore_put_def put_prepared_def put_iov_def store_log_of_def Let_def cong: if_cong)

lemma put_ok:
  assumes "store_ok w s cs" "map_find (ns_objectMap s) key = Some ob" "version < 2 ^ 64" "put_fits w s ob"
  shows "\<exists>w' s'. NVSStore_put c w s key version = Inr (w', s', 0) \<and>
    store_ok w' s' (cs @ [put_chunk w s ob version]) \<and>
    s' = s\<lparr>ns_objectMap := map_assign (ns_objectMap s) key (setVersion version ob)\<rparr> \<and>
    touches (w_mach w) (w_mach w') ({sp (w_mach w)..<sp (w_mach w) + 152} \<union> log_range (store_log_of w s)) \<and>
    w' = appended w s (w_mach w') (sizeof_lehdr + ob_size ob) \<and>
    (safe_config c \<longrightarrow> plog_durable (w_mach w) (store_log_of w s) \<longrightarrow> plog_durable (w_mach w') (store_log_of w' s'))"
proof -
  note D = store_okD [OF assms(1)]
  have mem: "(key, ob) \<in> set (ns_objectMap s)" using assms(2) D(5) by (simp add: map_find_items)
  let ?L = "store_log_of w s" and ?m = "put_prepared w ob version" and ?iov = "put_iov w ob"
  note P = put_entry [OF assms(1) mem assms(3)]
  have n: "iov_len ?iov = sizeof_lehdr + ob_size ob" by (simp add: put_iov_def)
  obtain e where e: "iov_data (cur ?m) ?iov = fst e @ snd e" "chunk_is (put_chunk w s ob version) e"
    using P(3) by blast
  have room: "write_offset ?L + iov_len ?iov + 8 \<le> end_offset ?L" using assms(4) by (simp add: put_fits_def n)
  obtain m' where m': "appendv c ?m ?L ?iov = Inr (m', ?L\<lparr>write_offset := write_offset ?L + iov_len ?iov + 8\<rparr>, NO_ERROR)"
    "store_log m' (?L\<lparr>write_offset := write_offset ?L + iov_len ?iov + 8\<rparr>) (cs @ [put_chunk w s ob version])"
    "touches ?m m' (frame (w_mach w) \<union> log_range ?L)"
    "safe_config c \<longrightarrow> plog_durable (w_mach w) ?L \<longrightarrow>
       plog_durable m' (?L\<lparr>write_offset := write_offset ?L + iov_len ?iov + 8\<rparr>)"
    using store_append [OF D(2) P(2) put_frame(1) [OF assms(1)] P(1) e room, of c] by blast
  let ?w = "appended w s m' (sizeof_lehdr + ob_size ob)"
  let ?s = "s\<lparr>ns_objectMap := map_assign (ns_objectMap s) key (setVersion version ob)\<rparr>"
  have t: "touches (w_mach w) m' ({sp (w_mach w)..<sp (w_mach w) + 152} \<union> log_range ?L)"
    by (rule touches_trans [OF touches_mono [OF P(2)] touches_mono [OF m'(3)]])
      (auto simp: frame_def sizeof_lehdr_def)
  have "NVSStore_put c w s key version = Inr (?w, ?s, 0)"
    using m'(1) by (simp add: NVSStore_put_unfold [OF assms(2)] appended_def n)
  moreover have "store_ok ?w ?s (cs @ [put_chunk w s ob version])"
  proof (rule store_ok_appended [OF assms(1) touches_sp [OF t]])
    show "map_wf (map_assign (ns_objectMap s) key (setVersion version ob))" using D(5) by (rule map_assign_wf)
    show "\<exists>v ob''. (k, ob'') \<in> set (ns_objectMap s) \<and> v < 2 ^ 64 \<and> ob' = setVersion v ob''"
      if kob: "(k, ob') \<in> set (map_assign (ns_objectMap s) key (setVersion version ob))" for k ob'
      using mem_map_assign [OF D(5) kob]
    proof
      assume "k = key \<and> ob' = setVersion version ob"
      then show ?thesis using mem assms(3) by blast
    next
      assume old: "(k, ob') \<in> set (ns_objectMap s)"
      then have "ob_version ob' < 2 ^ 64" using D(6) by (simp add: obj_placed_def)
      moreover have "ob' = setVersion (ob_version ob') ob'" by (simp add: setVersion_def)
      ultimately show ?thesis using old by blast
    qed
  qed (use m'(2) n in simp)
  moreover have "store_log_of ?w ?s = ?L\<lparr>write_offset := write_offset ?L + (sizeof_lehdr + ob_size ob) + 8\<rparr>"
    using D(1) by (simp add: store_log_of_def appended_def)
  ultimately show ?thesis using t m'(4) n
    by (intro exI [of _ ?w] exI [of _ ?s]) (simp add: appended_def)
qed

lemma put_crash:
  assumes "safe_config c" "store_ok w s cs" "plog_durable (w_mach w) (store_log_of w s)"
    "map_find (ns_objectMap s) key = Some ob" "version < 2 ^ 64" "put_fits w s ob"
    "NVSStore_put c w s key version = Inr (w', s', r)" "crash_during (w_mach w) (w_mach w') img"
    "rd64 img (pmemaddr (store_log_of w s) + tail_off) \<in> {write_offset (store_log_of w s), write_offset (store_log_of w' s')}"
  shows "\<exists>cs' \<in> {cs, cs @ [put_chunk w s ob version]}.
    store_image img (pmemaddr (store_log_of w s)) (mapped_len (store_log_of w s)) cs'"
proof -
  note D = store_okD [OF assms(2)]
  have mem: "(key, ob) \<in> set (ns_objectMap s)" using assms(4) D(5) by (simp add: map_find_items)
  note P = put_entry [OF assms(2) mem assms(5)]
  obtain e where e: "iov_data (cur (put_prepared w ob version)) (put_iov w ob) = fst e @ snd e"
    "chunk_is (put_chunk w s ob version) e"
    using P(3) by blast
  have room: "write_offset (store_log_of w s) + iov_len (put_iov w ob) + 8 \<le> end_offset (store_log_of w s)"
    using assms(6) by (simp add: put_fits_def put_iov_def)
  obtain m' L' where a: "appendv c (put_prepared w ob version) (store_log_of w s) (put_iov w ob) = Inr (m', L', NO_ERROR)"
    and w': "w' = w\<lparr>w_mach := m', w_logs := (w_logs w)[ns_log s := L']\<rparr>" "ns_log s' = ns_log s"
    using assms(7) by (auto simp: NVSStore_put_unfold [OF assms(4)] split: if_splits)
  have L': "store_log_of w' s' = L'" using w' D(1) by (simp add: store_log_of_def)
  have "crash_during (w_mach w) m' img" using assms(8) by (simp add: w')
  from store_append_crash [OF assms(1) D(2) assms(3) P(2) put_frame(1) [OF assms(2)] P(1) e room a this]
  show ?thesis using assms(9) L' by auto
qed

subsection \<open>get\<close>

lemma store_log_image: "store_log m L cs \<Longrightarrow> store_image (cur m) (pmemaddr L) (mapped_len L) cs"
  by (auto simp: store_log_def store_image_def plog_ok_def)

lemma get_ok:
  assumes "store_ok w s cs" "length (we_key we) = KEY_LEN"
  shows "case lookup cs (stored_key key) version of
      None \<Rightarrow> NVSStore_get w s we key version a = Some (Inr (w, ID_NOT_FOUND))
    | Some d \<Rightarrow> \<exists>m'. NVSStore_get w s we key version a = Some (Inr (w\<lparr>w_mach := m'\<rparr>, NO_ERROR)) \<and>
        touches (w_mach w) m' {a..<a + length d} \<and> rd (cur m') a (length d) = d"
proof -
  let ?mem = "cur (w_mach w)" and ?L = "w_logs w ! ns_log s"
  have img: "store_image ?mem (pmemaddr ?L) (mapped_len ?L) cs"
    using store_log_image store_okD(2) [OF assms(1)] by (auto simp: store_log_of_def)
  note W = walk_lookup [OF img query_ok_walk_query [OF assms(2), of key version]]
  show ?thesis
  proof (cases "cs = []")
    case True
    then show ?thesis using W by (simp add: NVSStore_get_def)
  next
    case False
    then obtain we' where we': "walk ?mem ?L (process_chunks ?mem) (walk_query we key version) = Some (Inr (we', NO_ERROR))"
      "answer ?mem we' (lookup cs (stored_key key) version)"
      using W by auto
    show ?thesis
    proof (cases "lookup cs (stored_key key) version")
      case None
      then show ?thesis using we' by (simp add: NVSStore_get_def answer_def)
    next
      case (Some d)
      have d: "rd ?mem (we_datap we') (we_len we') = d" "we_len we' = length d"
        using we'(2) Some by (simp_all add: answer_def)
      have "NVSStore_get w s we key version a = Some (Inr (w\<lparr>w_mach := stores (w_mach w) a d\<rparr>, NO_ERROR))"
        using we' Some d by (simp add: NVSStore_get_def answer_def libc_memmove_def)
      moreover have "touches (w_mach w) (stores (w_mach w) a d) {a..<a + length d}" by (rule touches_stores) simp
      ultimately show ?thesis using rd_stores [of "length d" d "w_mach w" a] by (auto simp: Some)
    qed
  qed
qed

subsection \<open>put\_all\<close>

definition snap_item :: "memory \<Rightarrow> object \<Rightarrow> item" where
  "snap_item mem ob = (stored_key (ob_name ob), wadd (ob_version ob) 1, rd mem (ob_ptr ob) (ob_size ob))"

definition snap_len :: "object list \<Rightarrow> nat" where
  "snap_len obs = sum_list (map (\<lambda>ob. sizeof_lehdr + ob_size ob) obs)"

lemma snap_len_simps [simp]:
  "snap_len [] = 0" "snap_len (ob # obs) = sizeof_lehdr + ob_size ob + snap_len obs"
  by (simp_all add: snap_len_def)

lemma items_are_app:
  assumes "hdr_is h k v (length d) (hdr_code single)" "items_are its bs"
  shows "items_are ((k, v, d) # its) (h @ d @ bs)"
proof -
  have "length h = sizeof_lehdr" using assms(1) by (simp add: hdr_is_def hdr_fields_def)
  then show ?thesis using assms by simp
qed

lemma put_headers_spec:
  assumes "\<forall>ob \<in> set obs. ob_size ob < 2 ^ 64 \<and> disj (ob_ptr ob) (ob_size ob) a (sizeof_lehdr * length obs)"
    "tot + snap_len obs < 2 ^ 64"
  shows "\<exists>m' iov. put_headers m a tot obs = (m', iov, tot + snap_len obs) \<and>
    touches m m' {a..<a + sizeof_lehdr * length obs} \<and> iov_len iov = snap_len obs \<and>
    items_are (map (snap_item (cur m)) obs) (iov_data (cur m') iov) \<and>
    (\<forall>(b, n) \<in> set iov. a \<le> b \<and> b + n \<le> a + sizeof_lehdr * length obs \<or>
       (\<exists>ob \<in> set obs. b = ob_ptr ob \<and> n = ob_size ob))"
  using assms
proof (induction obs arbitrary: m a tot)
  case Nil
  then show ?case by simp
next
  case (Cons ob obs)
  let ?m1 = "put_header m a (wadd (ob_version ob) 1) (ob_name ob) (ob_size ob) single"
  let ?N = "sizeof_lehdr * length obs"
  have t1: "touches m ?m1 {a..<a + sizeof_lehdr}" by (rule put_header_touches)
  have far: "\<forall>ob \<in> set obs. ob_size ob < 2 ^ 64 \<and> disj (ob_ptr ob) (ob_size ob) (a + sizeof_lehdr) ?N"
    using Cons.prems(1) by (auto simp: disj_def)
  have tot: "wadd tot (wadd sizeof_lehdr (ob_size ob)) = tot + (sizeof_lehdr + ob_size ob)"
    using Cons.prems(2) by (simp add: wadd_exact)
  obtain m' iov where I: "put_headers ?m1 (a + sizeof_lehdr) (tot + (sizeof_lehdr + ob_size ob)) obs =
      (m', iov, tot + (sizeof_lehdr + ob_size ob) + snap_len obs)"
    "touches ?m1 m' {a + sizeof_lehdr..<a + sizeof_lehdr + ?N}" "iov_len iov = snap_len obs"
    "items_are (map (snap_item (cur ?m1)) obs) (iov_data (cur m') iov)"
    "\<forall>(b, n) \<in> set iov. a + sizeof_lehdr \<le> b \<and> b + n \<le> a + sizeof_lehdr + ?N \<or>
       (\<exists>ob \<in> set obs. b = ob_ptr ob \<and> n = ob_size ob)"
    using Cons.IH [OF far, of "tot + (sizeof_lehdr + ob_size ob)" ?m1] Cons.prems(2) by (auto simp: add.assoc)
  have t: "touches m m' {a..<a + sizeof_lehdr * length (ob # obs)}"
    by (rule touches_trans [OF touches_mono [OF t1] touches_mono [OF I(2)]]) auto
  have keep: "rd (cur ?m1) (ob_ptr o') (ob_size o') = rd (cur m) (ob_ptr o') (ob_size o')"
    if "o' \<in> set (ob # obs)" for o'
    using Cons.prems(1) that by (intro rd_touches [OF t1]) (fastforce simp: disj_def)
  have snap: "map (snap_item (cur ?m1)) obs = map (snap_item (cur m)) obs"
    using keep by (simp add: snap_item_def)
  have d: "rd (cur m') (ob_ptr ob) (ob_size ob) = rd (cur m) (ob_ptr ob) (ob_size ob)"
    using Cons.prems(1) by (intro rd_touches [OF t]) (fastforce simp: disj_def)
  have "rd (cur m') a sizeof_lehdr = rd (cur ?m1) a sizeof_lehdr"
    by (rule rd_touches [OF I(2)]) auto
  then have h: "hdr_is (rd (cur m') a sizeof_lehdr) (stored_key (ob_name ob)) (wadd (ob_version ob) 1)
      (length (rd (cur m) (ob_ptr ob) (ob_size ob))) (hdr_code single)"
    using put_header_is [OF wadd_lt, of "ob_size ob" m a "ob_version ob" 1 "ob_name ob" single] Cons.prems(1) by simp
  have "items_are (map (snap_item (cur m)) (ob # obs))
      (iov_data (cur m') ((a, sizeof_lehdr) # (ob_ptr ob, ob_size ob) # iov))"
    using items_are_app [OF h I(4) [unfolded snap]] by (simp add: snap_item_def d)
  moreover have "\<forall>(b, n) \<in> set ((a, sizeof_lehdr) # (ob_ptr ob, ob_size ob) # iov).
      a \<le> b \<and> b + n \<le> a + sizeof_lehdr * length (ob # obs) \<or> (\<exists>ob \<in> set (ob # obs). b = ob_ptr ob \<and> n = ob_size ob)"
    using I(5) by fastforce
  ultimately show ?case
    using I(1,3) t tot by (intro exI [of _ m'] exI [of _ "(a, sizeof_lehdr) # (ob_ptr ob, ob_size ob) # iov"]) simp
qed

definition store_objs :: "nvs_store \<Rightarrow> object list" where
  "store_objs s = map snd (ns_objectMap s)"

definition snap_chunk :: "world \<Rightarrow> nvs_store \<Rightarrow> chunk" where
  "snap_chunk w s = Multiple (map (snap_item (cur (w_mach w))) (store_objs s))"

text \<open>
  The array of headers from \<open>malloc\<close>: outside the log, the frame and the objects; and the whole
  snapshot fits.
\<close>

definition snap_fits :: "world \<Rightarrow> nvs_store \<Rightarrow> addr \<Rightarrow> bool" where
  "snap_fits w s a \<longleftrightarrow>
     (let L = store_log_of w s; n = sizeof_lehdr * (1 + length (store_objs s)) in
      a + n < 2 ^ 64 \<and> disj a n (pmemaddr L) (mapped_len L) \<and> disj a n (sp (w_mach w)) 152 \<and>
      (\<forall>ob \<in> set (store_objs s). disj (ob_ptr ob) (ob_size ob) a n) \<and>
      write_offset L + (sizeof_lehdr + snap_len (store_objs s)) + 8 \<le> end_offset L)"

definition bump :: "nvs_store \<Rightarrow> nvs_store" where
  "bump s = s\<lparr>ns_objectMap := map (\<lambda>(k, ob). (k, setVersion (wadd (ob_version ob) 1) ob)) (ns_objectMap s)\<rparr>"

text \<open>What is ready when \<open>put_all\<close> calls \<open>appendv\<close>.\<close>

lemma put_all_entry:
  assumes "store_ok w s cs" "snap_fits w s a"
  shows "\<exists>m1 iov e. put_headers (w_mach w) (a + sizeof_lehdr) 0 (store_objs s) = (m1, iov, snap_len (store_objs s)) \<and>
    (let m2 = put_outer_header m1 a (snap_len (store_objs s)); iov' = (a, sizeof_lehdr) # iov in
     touches (w_mach w) m2 {a..<a + sizeof_lehdr * (1 + length (store_objs s))} \<and>
     iov_ok (pmemaddr (store_log_of w s)) (mapped_len (store_log_of w s)) iov' \<and>
     iov_len iov' = sizeof_lehdr + snap_len (store_objs s) \<and>
     iov_data (cur m2) iov' = fst e @ snd e \<and> chunk_is (snap_chunk w s) e)"
proof -
  note D = store_okD [OF assms(1)]
  let ?L = "store_log_of w s" and ?obs = "store_objs s" and ?N = "sizeof_lehdr * length (store_objs s)"
  obtain es where ok: "plog_ok (w_mach w) ?L es" using D(2) by (auto simp: store_log_def)
  note P = plog_okD [OF ok]
  have F: "a + sizeof_lehdr + ?N < 2 ^ 64" "disj a (sizeof_lehdr + ?N) (pmemaddr ?L) (mapped_len ?L)"
    "\<And>ob. ob \<in> set ?obs \<Longrightarrow> disj (ob_ptr ob) (ob_size ob) a (sizeof_lehdr + ?N)"
    "write_offset ?L + (sizeof_lehdr + snap_len ?obs) + 8 \<le> end_offset ?L"
    using assms(2) by (simp_all add: snap_fits_def Let_def)
  have placed: "obj_placed (sp (w_mach w)) ?L ob" if "ob \<in> set ?obs" for ob
    using that D(6) by (auto simp: store_objs_def)
  have small: "snap_len ?obs < 2 ^ 64"
    using F(4) P(1,3) by (auto simp: frame_ok_def)
  have "\<forall>ob \<in> set ?obs. ob_size ob < 2 ^ 64 \<and> disj (ob_ptr ob) (ob_size ob) (a + sizeof_lehdr) ?N"
    using F(3) placed by (fastforce simp: disj_def obj_placed_def)
  from put_headers_spec [OF this, of 0 "w_mach w"] small obtain m1 iov where
    m1: "put_headers (w_mach w) (a + sizeof_lehdr) 0 ?obs = (m1, iov, snap_len ?obs)"
    "touches (w_mach w) m1 {a + sizeof_lehdr..<a + sizeof_lehdr + ?N}" "iov_len iov = snap_len ?obs"
    "items_are (map (snap_item (cur (w_mach w))) ?obs) (iov_data (cur m1) iov)"
    and iov': "\<forall>(b, n) \<in> set iov. a + sizeof_lehdr \<le> b \<and> b + n \<le> a + sizeof_lehdr + ?N \<or>
       (\<exists>ob \<in> set ?obs. b = ob_ptr ob \<and> n = ob_size ob)"
    by auto
  have iov: "a + sizeof_lehdr \<le> b \<and> b + n \<le> a + sizeof_lehdr + ?N \<or>
      (\<exists>ob \<in> set ?obs. b = ob_ptr ob \<and> n = ob_size ob)" if "(b, n) \<in> set iov" for b n
    using iov' that by fast
  let ?m2 = "put_outer_header m1 a (snap_len ?obs)"
  have t2: "touches m1 ?m2 {a..<a + sizeof_lehdr}" by (rule put_outer_header_touches)
  have t: "touches (w_mach w) ?m2 {a..<a + sizeof_lehdr * (1 + length ?obs)}"
    by (rule touches_trans [OF touches_mono [OF m1(2)] touches_mono [OF t2]]) auto
  have "iov_data (cur ?m2) iov = iov_data (cur m1) iov"
  proof (rule iov_data_cong)
    fix b n x assume x: "(b, n) \<in> set iov" "b \<le> x" "x < b + n"
    then have "x \<notin> {a..<a + sizeof_lehdr}" using iov [OF x(1)] F(3) by (fastforce simp: disj_def)
    then show "cur ?m2 x = cur m1 x" by (rule touches_cur [OF t2])
  qed
  then have dat: "iov_data (cur ?m2) ((a, sizeof_lehdr) # iov) = rd (cur ?m2) a sizeof_lehdr @ iov_data (cur m1) iov"
    by simp
  have ch: "chunk_is (snap_chunk w s) (rd (cur ?m2) a sizeof_lehdr, iov_data (cur m1) iov)"
    using put_outer_header_is [OF small, of m1 a] m1(3,4) by (simp add: snap_chunk_def)
  have "iov_ok (pmemaddr ?L) (mapped_len ?L) ((a, sizeof_lehdr) # iov)"
  proof -
    have "b + n < 2 ^ 64 \<and> disj b n (pmemaddr ?L) (mapped_len ?L)" if "(b, n) \<in> set iov" for b n
      using iov [OF that]
    proof
      assume "a + sizeof_lehdr \<le> b \<and> b + n \<le> a + sizeof_lehdr + ?N"
      then show ?thesis using F(1,2) by (auto simp: disj_def)
    qed (use placed in \<open>auto simp: obj_placed_def\<close>)
    moreover have "a + sizeof_lehdr < 2 ^ 64 \<and> disj a sizeof_lehdr (pmemaddr ?L) (mapped_len ?L)"
      using F(1,2) by (auto simp: disj_def)
    ultimately show ?thesis by (auto simp: iov_ok_def)
  qed
  then show ?thesis using m1(1,3) t dat ch
    by (intro exI [of _ m1] exI [of _ iov] exI [of _ "(rd (cur ?m2) a sizeof_lehdr, iov_data (cur m1) iov)"])
      (simp add: Let_def)
qed

lemma snap_clear:
  assumes "snap_fits w s a"
  shows "{a..<a + sizeof_lehdr * (1 + length (store_objs s))} \<inter> log_range (store_log_of w s) = {}"
  using assms by (auto simp: snap_fits_def Let_def log_range_def disj_def)

lemma put_all_ok:
  assumes "store_ok w s cs" "snap_fits w s a"
  shows "\<exists>w'. NVSStore_put_all c w s a = Inr (w', bump s, sizeof_lehdr + snap_len (store_objs s)) \<and>
    store_ok w' (bump s) (cs @ [snap_chunk w s]) \<and>
    (safe_config c \<longrightarrow> plog_durable (w_mach w) (store_log_of w s) \<longrightarrow>
       plog_durable (w_mach w') (store_log_of w' (bump s))) \<and>
    mapped_len (store_log_of w' (bump s)) = mapped_len (store_log_of w s) \<and> touches (w_mach w) (w_mach w') UNIV"
proof -
  note D = store_okD [OF assms(1)]
  let ?L = "store_log_of w s" and ?n = "sizeof_lehdr + snap_len (store_objs s)"
  obtain m1 iov e where h: "put_headers (w_mach w) (a + sizeof_lehdr) 0 (store_objs s) = (m1, iov, snap_len (store_objs s))"
    and t: "touches (w_mach w) (put_outer_header m1 a (snap_len (store_objs s)))
      {a..<a + sizeof_lehdr * (1 + length (store_objs s))}"
    and i: "iov_ok (pmemaddr ?L) (mapped_len ?L) ((a, sizeof_lehdr) # iov)" "iov_len ((a, sizeof_lehdr) # iov) = ?n"
    and e: "iov_data (cur (put_outer_header m1 a (snap_len (store_objs s)))) ((a, sizeof_lehdr) # iov) = fst e @ snd e"
      "chunk_is (snap_chunk w s) e"
    using put_all_entry [OF assms] by (auto simp: Let_def)
  let ?m2 = "put_outer_header m1 a (snap_len (store_objs s))"
  have room: "write_offset ?L + iov_len ((a, sizeof_lehdr) # iov) + 8 \<le> end_offset ?L"
    using assms(2) i(2) by (simp add: snap_fits_def Let_def)
  obtain m' where m': "appendv c ?m2 ?L ((a, sizeof_lehdr) # iov) = Inr (m', ?L\<lparr>write_offset := write_offset ?L + ?n + 8\<rparr>, NO_ERROR)"
    "store_log m' (?L\<lparr>write_offset := write_offset ?L + ?n + 8\<rparr>) (cs @ [snap_chunk w s])"
    "touches ?m2 m' (frame (w_mach w) \<union> log_range ?L)"
    "safe_config c \<longrightarrow> plog_durable (w_mach w) ?L \<longrightarrow> plog_durable m' (?L\<lparr>write_offset := write_offset ?L + ?n + 8\<rparr>)"
    using store_append [OF D(2) t snap_clear [OF assms(2)] i(1) e room, of c] i(2) by auto
  have small: "?n < 2 ^ 64"
  proof -
    obtain es where "plog_ok (w_mach w) ?L es" using D(2) by (auto simp: store_log_def)
    then have "frame_ok (w_mach w) ?L" "end_offset ?L = mapped_len ?L - 1" by (simp_all add: plog_okD)
    then show ?thesis using room i(2) by (auto simp: frame_ok_def)
  qed
  have "NVSStore_put_all c w s a = Inr (appended w s m' ?n, bump s, ?n)"
    using h m'(1) small
    by (simp add: NVSStore_put_all_def store_objs_def store_log_of_def appended_def bump_def Let_def wadd_exact add.commute)
  moreover have "store_ok (appended w s m' ?n) (bump s) (cs @ [snap_chunk w s])"
    unfolding bump_def
  proof (rule store_ok_appended [OF assms(1) _ m'(2)])
    show "sp m' = sp (w_mach w)" using touches_sp [OF m'(3)] touches_sp [OF t] by simp
    show "map_wf (map (\<lambda>(k, ob). (k, setVersion (wadd (ob_version ob) 1) ob)) (ns_objectMap s))"
      using D(5) by (simp add: map_wf_def case_prod_beta comp_def)
    show "\<exists>v ob'. (k, ob') \<in> set (ns_objectMap s) \<and> v < 2 ^ 64 \<and> ob = setVersion v ob'"
      if "(k, ob) \<in> set (map (\<lambda>(k, ob). (k, setVersion (wadd (ob_version ob) 1) ob)) (ns_objectMap s))" for k ob
      using that wadd_lt by auto
  qed
  moreover have "store_log_of (appended w s m' ?n) (bump s) = ?L\<lparr>write_offset := write_offset ?L + ?n + 8\<rparr>"
    using D(1) by (simp add: store_log_of_def appended_def bump_def)
  moreover have "touches (w_mach w) m' UNIV"
    by (rule touches_trans [OF touches_mono [OF t] touches_mono [OF m'(3)]]) simp_all
  ultimately show ?thesis using m'(4) by (intro exI [of _ "appended w s m' ?n"]) (simp add: appended_def)
qed

lemma put_all_crash:
  assumes "safe_config c" "store_ok w s cs" "plog_durable (w_mach w) (store_log_of w s)" "snap_fits w s a"
    "NVSStore_put_all c w s a = Inr (w', s', r)" "crash_during (w_mach w) (w_mach w') img"
    "rd64 img (pmemaddr (store_log_of w s) + tail_off) \<in> {write_offset (store_log_of w s), write_offset (store_log_of w' s')}"
  shows "\<exists>cs' \<in> {cs, cs @ [snap_chunk w s]}.
    store_image img (pmemaddr (store_log_of w s)) (mapped_len (store_log_of w s)) cs'"
proof -
  note D = store_okD [OF assms(2)]
  let ?L = "store_log_of w s" and ?n = "sizeof_lehdr + snap_len (store_objs s)"
  obtain m1 iov e where h: "put_headers (w_mach w) (a + sizeof_lehdr) 0 (store_objs s) = (m1, iov, snap_len (store_objs s))"
    and t: "touches (w_mach w) (put_outer_header m1 a (snap_len (store_objs s)))
      {a..<a + sizeof_lehdr * (1 + length (store_objs s))}"
    and i: "iov_ok (pmemaddr ?L) (mapped_len ?L) ((a, sizeof_lehdr) # iov)" "iov_len ((a, sizeof_lehdr) # iov) = ?n"
    and e: "iov_data (cur (put_outer_header m1 a (snap_len (store_objs s)))) ((a, sizeof_lehdr) # iov) = fst e @ snd e"
      "chunk_is (snap_chunk w s) e"
    using put_all_entry [OF assms(2,4)] by (auto simp: Let_def)
  have room: "write_offset ?L + iov_len ((a, sizeof_lehdr) # iov) + 8 \<le> end_offset ?L"
    using assms(4) i(2) by (simp add: snap_fits_def Let_def)
  obtain m' L' r' where ap: "appendv c (put_outer_header m1 a (snap_len (store_objs s))) ?L ((a, sizeof_lehdr) # iov) =
      Inr (m', L', r')"
    and w': "w_mach w' = m'" "w_logs w' = (w_logs w)[ns_log s := L']" "ns_log s' = ns_log s"
    using assms(5) h by (auto simp: NVSStore_put_all_def store_objs_def store_log_of_def Let_def split: if_splits)
  have "store_log_of w' s' = L'" using w' D(1) by (simp add: store_log_of_def)
  then show ?thesis
    using store_append_crash [OF assms(1) D(2) assms(3) t snap_clear [OF assms(4)] i(1) e room ap] assms(6,7) w'
    by auto
qed

subsection \<open>Opening a store\<close>

lemma FindLog_unregistered:
  assumes "world_ok w" "\<not> registered w lid"
  shows "FindLog d w lid = Inr (w, ID_NOT_FOUND, None)"
proof -
  have "map_find (idToLogMap w) lid = None"
    using assms by (cases "map_find (idToLogMap w) lid") (auto simp: world_ok_def registered_def)
  then show ?thesis using isLogExist_registered [OF assms(1), of lid] assms by (simp add: FindLog_def world_ok_def)
qed


lemma digit_not_space: "digit_val c = Some d \<Longrightarrow> \<not> is_space c \<and> c \<noteq> CHR ''-'' \<and> c \<noteq> CHR ''+''"
  by (auto simp: digit_val_def is_space_def Let_def split: if_splits)

lemma stoi_to_string: "n < 2 ^ 31 \<Longrightarrow> stoi (to_string n) = Inr (int n)"
proof -
  assume n: "n < 2 ^ 31"
  obtain c cs where t: "to_string n = c # cs" using to_string_nonempty by (metis list.exhaust)
  obtain d where d: "digit_val c = Some d" using to_string_digits [of n] by (auto simp: t)
  have "int n < 2 ^ 31" using n by (metis of_nat_less_iff of_nat_numeral of_nat_power)
  then show ?thesis
    using digit_not_space [OF d] d read_digits_to_string [of n] by (simp add: stoi_def t)
qed

lemma after_slash_id: "CHR ''/'' \<notin> set h \<Longrightarrow> after_slash (h @ ''/'' @ t) = t"
  by (simp add: after_slash_def dropWhile_append)

text \<open>The environment of an opening: also the frame of a later \<open>put\<close> is clear of the mapping.\<close>

definition open_fine :: "osd \<Rightarrow> addr \<Rightarrow> world \<Rightarrow> nat \<Rightarrow> bool" where
  "open_fine d a w n \<longleftrightarrow> osd_fine d a w n \<and> sp (w_mach w) + 152 < 2 ^ 64 \<and> disj (sp (w_mach w)) 152 a n"


lemma opened_store_ok:
  assumes "w_logs w' = w_logs w @ [L]" "plog_ok (w_mach w') L es" "list_all2 chunk_is cs es"
    "sp (w_mach w') = sp (w_mach w)" "open_fine d a w (mapped_len L)" "pmemaddr L = a"
  shows "store_ok w' \<lparr>ns_storeId = i, ns_log = length (w_logs w), ns_objectMap = [], ns_addrMap = []\<rparr> cs"
  using assms by (auto simp: store_ok_def store_log_of_def store_log_def open_fine_def map_wf_def)

lemma mm_GetInstance_ready: "is_ready w \<Longrightarrow> mm_GetInstance w = w"
  by (simp add: mm_GetInstance_def)

lemma NVSStore_new_fresh:
  assumes "world_ok w" "\<not> registered w lid" "lid < 256" "w_files w (log_path lid) = None"
    "open_fine d2 a w LOG_SIZE" "CHR ''/'' \<notin> set h" "sid = h @ ''/'' @ to_string lid"
  shows "\<exists>w' s. NVSStore_new d1 d2 d3 w sid = Inr (w', s) \<and> store_ok w' s [] \<and> world_ok w' \<and> registered w' lid \<and>
    (safe_config (os_lib d2) \<longrightarrow> plog_durable (w_mach w') (store_log_of w' s))"
proof -
  have fine: "osd_fine d2 a w LOG_SIZE" using assms(5) by (simp add: open_fine_def)
  obtain w' L where c: "CreateLog d2 w lid LOG_SIZE = Inr (w', NO_ERROR)" "world_ok w'" "registered w' lid"
    "w_logs w' = w_logs w @ [L]" "map_find (idToLogMap w') lid = Some (length (w_logs w))" "plog_ok (w_mach w') L []"
    "safe_config (os_lib d2) \<longrightarrow> plog_durable (w_mach w') L" "pmemaddr L = a" "mapped_len L = LOG_SIZE"
    "sp (w_mach w') = sp (w_mach w)"
    using CreateLog_fresh [OF assms(1-4) fine] by (auto simp: LOG_SIZE_def)
  let ?s = "\<lparr>ns_storeId = sid, ns_log = length (w_logs w), ns_objectMap = [], ns_addrMap = []\<rparr>"
  have "stoi (after_slash sid) = Inr (int lid)"
    using assms(3) by (simp add: assms(7) after_slash_id [OF assms(6), simplified] stoi_to_string)
  moreover have "is_ready w" using assms(1) by (simp add: world_ok_def)
  moreover have "FindLog d3 w' lid = Inr (w', NO_ERROR, Some (length (w_logs w)))"
    using c(2,5) by (simp add: FindLog_def world_ok_def)
  moreover have "FindLog d1 w lid = Inr (w, ID_NOT_FOUND, None)" by (rule FindLog_unregistered [OF assms(1,2)])
  moreover have "nat (int lid mod 256) = lid" using assms(3) by simp
  ultimately have "NVSStore_new d1 d2 d3 w sid = Inr (w', ?s)"
    using c(1) by (simp add: NVSStore_new_def open_store_log_def Let_def mm_GetInstance_ready)
  moreover have "store_ok w' ?s []"
    using opened_store_ok [OF c(4,6) _ c(10) _ c(8)] assms(5) c(9) by simp
  moreover have "store_log_of w' ?s = L" using c(4) by (simp add: store_log_of_def)
  ultimately show ?thesis using c(2,3,7) by auto
qed

lemma NVSStore_new_reopen:
  assumes "world_ok w" "registered w lid" "map_find (idToLogMap w) lid = None" "lid < 256"
    "store_image img base mlen cs" "rd64 img (base + tail_off) < mlen" "32 < mlen"
    "w_files w (log_path lid) = Some (rd img base mlen)" "open_fine d1 a w mlen"
    "CHR ''/'' \<notin> set h" "sid = h @ ''/'' @ to_string lid"
  shows "\<exists>w' s. NVSStore_new d1 d2 d3 w sid = Inr (w', s) \<and> store_ok w' s cs \<and>
    plog_durable (w_mach w') (store_log_of w' s)"
proof -
  obtain es where es: "log_image img base mlen es" "list_all2 chunk_is cs es"
    using assms(5) by (auto simp: store_image_def)
  have fine: "osd_fine d1 a w mlen" using assms(9) by (simp add: open_fine_def)
  obtain m' L where n: "new_Log d1 w 0 lid = Inr (w\<lparr>w_mach := m', w_logs := w_logs w @ [L]\<rparr>, length (w_logs w))"
    "plog_ok m' L es" "plog_durable m' L" "pmemaddr L = a" "mapped_len L = mlen" "sp m' = sp (w_mach w)"
    using new_Log_reopen [OF es(1) assms(6-8) fine] by blast
  let ?w = "w\<lparr>w_mach := m', w_logs := w_logs w @ [L]\<rparr>"
  let ?s = "\<lparr>ns_storeId = sid, ns_log = length (w_logs w), ns_objectMap = [], ns_addrMap = []\<rparr>"
  have "stoi (after_slash sid) = Inr (int lid)"
    using assms(4) by (simp add: assms(11) after_slash_id [OF assms(10), simplified] stoi_to_string)
  moreover have "is_ready w" using assms(1) by (simp add: world_ok_def)
  moreover have "nat (int lid mod 256) = lid" using assms(4) by simp
  ultimately have "NVSStore_new d1 d2 d3 w sid = Inr (?w, ?s)"
    using n(1) assms(3) isLogExist_registered [OF assms(1), of lid] assms(2)
    by (simp add: NVSStore_new_def open_store_log_def Let_def mm_GetInstance_ready FindLog_def)
  moreover have "store_ok ?w ?s cs"
    using opened_store_ok [of ?w w L es cs d1 a sid] n(2,4-6) es(2) assms(9) by simp
  moreover have "store_log_of ?w ?s = L" by (simp add: store_log_of_def)
  ultimately show ?thesis using n(3) by auto
qed

subsection \<open>A sample store\<close>

text \<open>Two objects, \<open>x\<close> and \<open>y\<close>, of four bytes each, and the empty log of the sample machine.\<close>

definition sample_store :: nvs_store where
  "sample_store = \<lparr>ns_storeId = ''s/1'', ns_log = 0,
     ns_objectMap = [(''x'', Object_new False ''x'' 4 0 2048), (''y'', Object_new False ''y'' 4 0 2052)],
     ns_addrMap = [(2048, ''x''), (2052, ''y'')]\<rparr>"

definition sample_sworld :: world where
  "sample_sworld = sample_world\<lparr>w_mach := sample_mach, w_logs := [sample_plog]\<rparr>"

definition sample_we :: walkentry where
  "sample_we = \<lparr>we_len = 0, we_datap = 0, we_version = 0, we_start_offset = 0, we_key = replicate 20 7,
     we_err = NO_ERROR, we_delta_len = 0, we_deltas = []\<rparr>"

lemma sample_store_ok:
  "store_ok sample_sworld sample_store []" "plog_durable (w_mach sample_sworld) (store_log_of sample_sworld sample_store)"
  "length (we_key sample_we) = KEY_LEN"
proof -
  have "store_log sample_mach sample_plog []" using sample_log(1) by (auto simp: store_log_def)
  then show "store_ok sample_sworld sample_store []"
    by (simp add: store_ok_def sample_sworld_def sample_store_def store_log_of_def sample_mach_def
        quiescent_def map_wf_def obj_placed_def Object_new_def Let_def disj_def sample_plog_def)
  show "plog_durable (w_mach sample_sworld) (store_log_of sample_sworld sample_store)"
    using sample_log(2) by (simp add: sample_sworld_def store_log_of_def sample_store_def)
  show "length (we_key sample_we) = KEY_LEN" by (simp add: sample_we_def KEY_LEN_def)
qed

lemma sample_put_fits:
  "map_find (ns_objectMap sample_store) ''x'' = Some (Object_new False ''x'' 4 0 2048)"
  "put_fits sample_sworld sample_store (Object_new False ''x'' 4 0 2048)"
  "snap_fits sample_sworld sample_store 16384"
  by (simp_all add: sample_store_def put_fits_def snap_fits_def store_objs_def sample_sworld_def store_log_of_def
      sample_plog_def Object_new_def Let_def layout_consts disj_def sample_mach_def quiescent_def)

lemma sample_object_bytes: "rd (cur (w_mach sample_sworld)) 2048 4 = replicate 4 0"
  by (simp add: sample_sworld_def sample_mach_def sample_mem_def rd_wr_disjoint rd_const)

subsection \<open>Properties\<close>

text \<open>
  C5. \<open>get\<close> is the first match. On a well-formed store that holds the chunks \<open>cs\<close>, for every key and
  version, \<open>get\<close> returns: \<open>ID_NOT_FOUND\<close> and no change when the visible items of \<open>cs\<close> have no such key
  and version, otherwise \<open>NO_ERROR\<close> with the bytes of the first such item at the given address and
  nothing else changed.
\<close>

theorem get_correct:
  assumes "store_ok w s cs" "length (we_key we) = KEY_LEN"
  shows "case lookup cs (stored_key key) version of
      None \<Rightarrow> NVSStore_get w s we key version a = Some (Inr (w, ID_NOT_FOUND))
    | Some d \<Rightarrow> \<exists>m'. NVSStore_get w s we key version a = Some (Inr (w\<lparr>w_mach := m'\<rparr>, NO_ERROR)) \<and>
        touches (w_mach w) m' {a..<a + length d} \<and> rd (cur m') a (length d) = d"
  by (rule get_ok [OF assms])

theorem get_correct_witness:
  "\<exists>w s m'. NVSStore_put sample_lib sample_sworld sample_store ''x'' 3 = Inr (w, s, 0) \<and>
    NVSStore_get w s sample_we ''x'' 4 3000 = Some (Inr (w, ID_NOT_FOUND)) \<and>
    NVSStore_get w s sample_we ''x'' 3 3000 = Some (Inr (w\<lparr>w_mach := m'\<rparr>, NO_ERROR)) \<and> rd (cur m') 3000 4 = replicate 4 0"
proof -
  let ?ob = "Object_new False ''x'' 4 0 2048"
  have o: "ob_name ?ob = ''x''" "ob_ptr ?ob = 2048" "ob_size ?ob = 4" by (simp_all add: Object_new_def)
  obtain w s where p: "NVSStore_put sample_lib sample_sworld sample_store ''x'' 3 = Inr (w, s, 0)"
    "store_ok w s [put_chunk sample_sworld sample_store ?ob 3]"
    using put_ok [OF sample_store_ok(1) sample_put_fits(1) _ sample_put_fits(2), of 3 sample_lib] by auto
  have c: "put_chunk sample_sworld sample_store ?ob 3 = Single (stored_key ''x'', 3, replicate 4 0)"
    using sample_object_bytes o by (simp add: put_chunk_def)
  show ?thesis
    using get_correct [OF p(2) sample_store_ok(3), of "''x''" 4 3000] get_correct [OF p(2) sample_store_ok(3), of "''x''" 3 3000] p(1)
    by (auto simp: c lookup_def)
qed

text \<open>
  C4. \<open>put\<close> then \<open>get\<close>. If the object exists and fits, \<open>put\<close> returns 0 and leaves a well-formed store with
  one more chunk; a following \<open>get\<close> of the same key and version returns the bytes the object had at
  the time of the \<open>put\<close>, unless the log already held that key and version: then it still
  returns the older bytes.
\<close>

theorem put_then_get:
  assumes "store_ok w s cs" "map_find (ns_objectMap s) key = Some ob" "version < 2 ^ 64" "put_fits w s ob"
    "length (we_key we) = KEY_LEN"
  shows "\<exists>w' s' m''. NVSStore_put c w s key version = Inr (w', s', 0) \<and>
    store_ok w' s' (cs @ [Single (stored_key key, version, rd (cur (w_mach w)) (ob_ptr ob) (ob_size ob))]) \<and>
    NVSStore_get w' s' we key version a = Some (Inr (w'\<lparr>w_mach := m''\<rparr>, NO_ERROR)) \<and>
    (case lookup cs (stored_key key) version of
       None \<Rightarrow> rd (cur m'') a (ob_size ob) = rd (cur (w_mach w)) (ob_ptr ob) (ob_size ob)
     | Some d \<Rightarrow> rd (cur m'') a (length d) = d)"
proof -
  have "(key, ob) \<in> set (ns_objectMap s)" using assms(2) store_okD(5) [OF assms(1)] by (simp add: map_find_items)
  then have n: "ob_name ob = key" using store_okD(6) [OF assms(1)] by blast
  obtain w' s' where p: "NVSStore_put c w s key version = Inr (w', s', 0)" "store_ok w' s' (cs @ [put_chunk w s ob version])"
    using put_ok [OF assms(1-4), of c] by blast
  show ?thesis
    using get_ok [OF p(2) assms(5), of key version a] p
    by (auto simp: lookup_append put_chunk_def n split: option.splits)
qed

theorem put_then_get_witness:
  "\<exists>w' s' m''. NVSStore_put sample_lib sample_sworld sample_store ''x'' 3 = Inr (w', s', 0) \<and>
    NVSStore_get w' s' sample_we ''x'' 3 3000 = Some (Inr (w'\<lparr>w_mach := m''\<rparr>, NO_ERROR)) \<and>
    rd (cur m'') 3000 4 = replicate 4 0"
proof -
  have "ob_ptr (Object_new False ''x'' 4 0 2048) = 2048" "ob_size (Object_new False ''x'' 4 0 2048) = 4"
    by (simp_all add: Object_new_def)
  then show ?thesis
    using put_then_get [OF sample_store_ok(1) sample_put_fits(1) _ sample_put_fits(2) sample_store_ok(3), of 3 sample_lib 3000]
      sample_object_bytes by auto
qed

text \<open>The items of a snapshot that a search finds: all but the last.\<close>

lemma find_item_nth:
  assumes "distinct (map fst its)" "i < length its" "its ! i = (k, v, d)"
  shows "find_item k v its = Some d"
  using assms
proof (induction its arbitrary: i)
  case (Cons it its)
  show ?case
  proof (cases i)
    case (Suc j)
    then have "(k, v, d) \<in> set its" using Cons.prems by (metis Suc_less_eq length_Cons nth_Cons_Suc nth_mem)
    then have "k \<in> fst ` set its" by (rule rev_image_eqI) simp
    then have "fst it \<noteq> k" using Cons.prems(1) by auto
    then show ?thesis using Cons Suc by (cases it) auto
  qed (use Cons.prems in simp)
qed simp

lemma find_item_absent: "k \<notin> fst ` set its \<Longrightarrow> find_item k v its = None"
  by (induction its) auto

lemma find_item_butlast:
  assumes "distinct (map fst its)" "i < length its" "its ! i = (k, v, d)"
  shows "find_item k v (butlast its) = (if Suc i < length its then Some d else None)"
proof (cases "Suc i < length its")
  case True
  then show ?thesis
    using assms by (auto simp: map_butlast distinct_butlast nth_butlast intro!: find_item_nth [of _ i])
next
  case False
  then have "i = length its - 1" using assms(2) by linarith
  moreover have ne: "its \<noteq> []" using assms(2) by auto
  ultimately have l: "its \<noteq> []" "last its = (k, v, d)" using assms(3) by (simp_all add: last_conv_nth)
  then have "map fst its = map fst (butlast its) @ [k]" by (metis append_butlast_last_id fst_conv list.simps(8,9) map_append)
  then have "k \<notin> fst ` set (butlast its)" using assms(1) by simp
  then show ?thesis using False by (simp add: find_item_absent)
qed

text \<open>
  C6. A snapshot. If it fits, \<open>put_all\<close> returns the bytes written, adds one chunk with every object at its
  version plus one, and raises the version of every object of the store by one, changing nothing else of
  it. When the stored keys are distinct and the log does not hold the key and the new version of an object,
  \<open>get\<close> then finds the bytes the object had, except for the last object in key order, for
  which it answers \<open>ID_NOT_FOUND\<close>: the inner loop of \<open>process_chunks\<close> stops when the offset after the
  entry reaches the length, before it compares that entry.
\<close>

theorem put_all_then_get:
  assumes "store_ok w s cs" "snap_fits w s a" "length (we_key we) = KEY_LEN"
    "distinct (map (stored_key \<circ> ob_name) (store_objs s))" "i < length (store_objs s)" "ob = store_objs s ! i"
    "lookup cs (stored_key (ob_name ob)) (wadd (ob_version ob) 1) = None"
  shows "\<exists>w' s'. NVSStore_put_all c w s a = Inr (w', s', 136 + snap_len (store_objs s)) \<and>
    store_ok w' s' (cs @ [snap_chunk w s]) \<and>
    s' = s\<lparr>ns_objectMap := map (\<lambda>(k, ob). (k, ob\<lparr>ob_version := wadd (ob_version ob) 1\<rparr>)) (ns_objectMap s)\<rparr> \<and>
    (if Suc i < length (store_objs s)
     then \<exists>m''. NVSStore_get w' s' we (ob_name ob) (wadd (ob_version ob) 1) b = Some (Inr (w'\<lparr>w_mach := m''\<rparr>, NO_ERROR)) \<and>
       rd (cur m'') b (ob_size ob) = rd (cur (w_mach w)) (ob_ptr ob) (ob_size ob)
     else NVSStore_get w' s' we (ob_name ob) (wadd (ob_version ob) 1) b = Some (Inr (w', ID_NOT_FOUND)))"
proof -
  let ?its = "map (snap_item (cur (w_mach w))) (store_objs s)"
  obtain w' where w': "NVSStore_put_all c w s a = Inr (w', bump s, sizeof_lehdr + snap_len (store_objs s))"
    "store_ok w' (bump s) (cs @ [snap_chunk w s])"
    using put_all_ok [OF assms(1,2), of c] by blast
  have bump: "bump s = s\<lparr>ns_objectMap := map (\<lambda>(k, ob). (k, ob\<lparr>ob_version := wadd (ob_version ob) 1\<rparr>)) (ns_objectMap s)\<rparr>"
    by (simp add: bump_def setVersion_def)
  have "map fst ?its = map (stored_key \<circ> ob_name) (store_objs s)" by (simp add: snap_item_def)
  then have dist: "distinct (map fst ?its)" using assms(4) by argo
  have nth: "?its ! i = (stored_key (ob_name ob), wadd (ob_version ob) 1, rd (cur (w_mach w)) (ob_ptr ob) (ob_size ob))"
    using assms(5,6) by (simp add: snap_item_def)
  have "find_item (stored_key (ob_name ob)) (wadd (ob_version ob) 1) (butlast ?its) =
      (if Suc i < length (store_objs s) then Some (rd (cur (w_mach w)) (ob_ptr ob) (ob_size ob)) else None)"
    using find_item_butlast [OF dist _ nth] assms(5) by simp
  then have "lookup (cs @ [snap_chunk w s]) (stored_key (ob_name ob)) (wadd (ob_version ob) 1) =
      (if Suc i < length (store_objs s) then Some (rd (cur (w_mach w)) (ob_ptr ob) (ob_size ob)) else None)"
    using assms(7) by (simp add: lookup_append snap_chunk_def)
  then have "if Suc i < length (store_objs s)
     then \<exists>m''. NVSStore_get w' (bump s) we (ob_name ob) (wadd (ob_version ob) 1) b = Some (Inr (w'\<lparr>w_mach := m''\<rparr>, NO_ERROR)) \<and>
       rd (cur m'') b (ob_size ob) = rd (cur (w_mach w)) (ob_ptr ob) (ob_size ob)
     else NVSStore_get w' (bump s) we (ob_name ob) (wadd (ob_version ob) 1) b = Some (Inr (w', ID_NOT_FOUND))"
    using get_ok [OF w'(2) assms(3), of "ob_name ob" "wadd (ob_version ob) 1" b] by (auto split: if_splits)
  then show ?thesis using w' bump by (intro exI [of _ w'] exI [of _ "bump s"]) (simp add: sizeof_lehdr_def)
qed

theorem put_all_then_get_witness:
  "\<exists>w' s' m''. NVSStore_put_all sample_lib sample_sworld sample_store 16384 = Inr (w', s', 416) \<and>
    map (ob_version \<circ> snd) (ns_objectMap s') = [1, 1] \<and>
    NVSStore_get w' s' sample_we ''x'' 1 3000 = Some (Inr (w'\<lparr>w_mach := m''\<rparr>, NO_ERROR)) \<and>
    NVSStore_get w' s' sample_we ''y'' 1 3000 = Some (Inr (w', ID_NOT_FOUND))"
proof -
  have o: "store_objs sample_store = [Object_new False ''x'' 4 0 2048, Object_new False ''y'' 4 0 2052]"
    by (simp add: store_objs_def sample_store_def)
  have k: "stored_key ''x'' = [120]" "stored_key ''y'' = [121]"
    by (simp_all add: stored_key_def KEY_LEN_def cstr_def bytes_of_def)
  have v: "map (\<lambda>p. ob_version (snd p)) (ns_objectMap sample_store) = [0, 0]" by (simp add: sample_store_def Object_new_def)
  note T = put_all_then_get [OF sample_store_ok(1) sample_put_fits(3) sample_store_ok(3), of _ _ sample_lib 3000]
  show ?thesis using T [of 0] T [of 1] v
    by (auto simp: o k Object_new_def Let_def wadd_def sizeof_lehdr_def comp_def split_beta)
qed

text \<open>
  \<open>get_with_malloc\<close> on an empty log reads the field \<open>err\<close> of a struct that nobody has filled: if the
  stack happens to hold 0 there it reports success, and hands out an object of a garbage length.
\<close>

theorem get_with_malloc_empty_log:
  assumes "store_ok w s []" "length (we_key we) = KEY_LEN" "map_find (ns_objectMap s) key = None"
  shows "(\<exists>w' s'. NVSStore_get_with_malloc False w s we key version p = Some (Inr (w', s', NO_ERROR, Some p)) \<and>
      (\<exists>ob. map_find (ns_objectMap s') key = Some ob \<and> ob_size ob = we_len we)) \<longleftrightarrow> we_err we = NO_ERROR"
proof -
  let ?mem = "cur (w_mach w)" and ?L = "w_logs w ! ns_log s"
  have img: "store_image ?mem (pmemaddr ?L) (mapped_len ?L) []"
    using store_log_image store_okD(2) [OF assms(1)] by (auto simp: store_log_of_def)
  have wf: "map_wf (ns_objectMap s)" by (rule store_okD(5) [OF assms(1)])
  have q: "walk ?mem ?L (process_chunks ?mem) (walk_query we key version) = Some (Inr (walk_query we key version, ID_NOT_FOUND))"
    using walk_lookup [OF img query_ok_walk_query [OF assms(2), of key version]] by simp
  have "we_err (walk_query we key version) = we_err we" "we_len (walk_query we key version) = we_len we"
    by (simp_all add: walk_query_def)
  then show ?thesis
    using assms(3) wf
    by (auto simp: NVSStore_get_with_malloc_def Let_def q map_find_assign Object_new_def setVersion_def)
qed

theorem get_with_malloc_empty_log_witness:
  "\<exists>w' s'. NVSStore_get_with_malloc False sample_sworld sample_store sample_we ''z'' 3 3000 =
     Some (Inr (w', s', NO_ERROR, Some 3000))"
proof -
  have "map_find (ns_objectMap sample_store) ''z'' = None" by (simp add: sample_store_def)
  then show ?thesis
    using get_with_malloc_empty_log [OF sample_store_ok(1,3), of "''z''" 3 3000] by (auto simp: sample_we_def)
qed

end
