(* ===== verification/Delta_Store.thy ===== *)
theory Delta_Store
  imports Nvs_Store
begin

text \<open>
  \<open>kvstore/delta_store.cc\<close>: the store that writes only the pages of an object that have changed since
  the last \<open>put\<close>. Objects are page aligned; after a \<open>put\<close> their pages are write protected, and the
  handler of the page fault marks the page in the object's bitmap. Page protections, as \<open>mprotect\<close>
  sets them, are part of the state.
\<close>

definition DELTA_LOG_SIZE :: nat where "DELTA_LOG_SIZE = 500 * 1024 * 1024"

datatype prot = PROT_NONE | PROT_READ | PROT_WRITE

type_synonym page_table = "nat \<Rightarrow> prot"

text \<open>\<open>mprotect\<close> refuses an address that is not page aligned; the callers only log that.\<close>

definition mprotect :: "page_table \<Rightarrow> addr \<Rightarrow> nat \<Rightarrow> prot \<Rightarrow> page_table" where
  "mprotect pt a n pr =
     (if a mod PAGE_SIZE = 0 then (\<lambda>q. if a div PAGE_SIZE \<le> q \<and> q * PAGE_SIZE < a + n then pr else pt q)
      else pt)"

definition enable_protection :: "page_table \<Rightarrow> addr \<Rightarrow> nat \<Rightarrow> page_table" where
  "enable_protection pt ptr aligned_size = mprotect pt ptr aligned_size PROT_NONE"

definition enable_write_protection :: "page_table \<Rightarrow> addr \<Rightarrow> nat \<Rightarrow> page_table" where
  "enable_write_protection pt ptr aligned_size = mprotect pt ptr aligned_size PROT_READ"

definition disable_protection :: "page_table \<Rightarrow> addr \<Rightarrow> nat \<Rightarrow> page_table \<times> nat" where
  "disable_protection pt page_start aligned_size = (mprotect pt page_start aligned_size PROT_WRITE, aligned_size)"

record delta_store =
  ds_storeId :: string
  ds_log :: nat
  ds_objectMap :: "(string, object) std_map"
  ds_addrMap :: "(addr, string) std_map"
  ds_pages :: page_table

text \<open>\<open>sigaction\<close> may fail, and that ends the process.\<close>

definition install_sighandler :: "bool \<Rightarrow> unit outcome" where
  "install_sighandler sigaction_ok = (if sigaction_ok then Inr () else Inl (Exit 1))"

definition DeltaStore_new ::
    "osd \<Rightarrow> osd \<Rightarrow> osd \<Rightarrow> bool \<Rightarrow> page_table \<Rightarrow> world \<Rightarrow> string \<Rightarrow> (world \<times> delta_store) outcome" where
  "DeltaStore_new d1 d2 d3 sigaction_ok pt w storeId =
     bindO (open_store_log d1 d2 d3 w storeId DELTA_LOG_SIZE) (\<lambda>(w, l).
       bindO (install_sighandler sigaction_ok) (\<lambda>_.
         Inr (w, \<lparr>ds_storeId = storeId, ds_log = l, ds_objectMap = [], ds_addrMap = [], ds_pages = pt\<rparr>)))"

subsection \<open>The fault handler\<close>

text \<open>
  The loop over the objects, in key order: the first whose unsigned distance to the address is at
  most its aligned size.
\<close>

fun find_faulting :: "(string, object) std_map \<Rightarrow> addr \<Rightarrow> (string \<times> object) option" where
  "find_faulting [] a = None"
| "find_faulting ((k, ob) # om) a =
     (if wsub a (ob_ptr ob) \<le> ob_aligned_size ob then Some (k, ob) else find_faulting om a)"

text \<open>The second component: the fault was the store's own; otherwise the old handler is called.\<close>

definition delta_handler :: "delta_store \<Rightarrow> addr \<Rightarrow> delta_store \<times> bool" where
  "delta_handler s si_addr =
     (if si_addr = 0 then (s, True)
      else case find_faulting (ds_objectMap s) si_addr of
        Some (k, ob) \<Rightarrow>
          (let offset = wsub si_addr (ob_ptr ob);
               pageptr = si_addr AND wnot (PAGE_SIZE - 1);
               page_index = drop_bit 12 offset
           in (s\<lparr>ds_pages := fst (disable_protection (ds_pages s) pageptr PAGE_SIZE),
                 ds_objectMap := map_assign (ds_objectMap s) k (set_modified_bit (int page_index) ob)\<rparr>, True))
      | None \<Rightarrow> (s, False))"

subsection \<open>Objects\<close>

text \<open>\<open>tmp_ptr\<close> is what \<open>posix_memalign\<close> stored, if anything: a failure is only logged.\<close>

definition DeltaStore_create_obj ::
    "delta_store \<Rightarrow> string \<Rightarrow> nat \<Rightarrow> addr \<Rightarrow> (delta_store \<times> ErrorCode \<times> addr) outcome" where
  "DeltaStore_create_obj s key sz tmp_ptr =
     (case map_find (ds_objectMap s) key of
        None \<Rightarrow>
          Inr (s\<lparr>ds_objectMap := map_assign (ds_objectMap s) key (setVersion 0 (Object_new True key sz 0 tmp_ptr))\<rparr>,
               NO_ERROR, tmp_ptr)
      | Some _ \<Rightarrow> Inl (Exit 1))"

definition DeltaStore_free_obj :: "delta_store \<Rightarrow> addr \<Rightarrow> (delta_store \<times> ErrorCode) outcome" where
  "DeltaStore_free_obj s obj_addr =
     (case map_find (ds_addrMap s) obj_addr of
        None \<Rightarrow> Inl (Exit 1)
      | Some key \<Rightarrow>
          (case map_find (ds_objectMap s) key of
             None \<Rightarrow> Inl (Exit 1)
           | Some _ \<Rightarrow> Inl Undefined))"

subsection \<open>Writing\<close>

text \<open>
  The loop over the chunks of an object: pairs of the header's array \<open>deltas\<close>, which has five
  elements (a sixth is out of bounds), the vectors, and the sum of the lengths.
\<close>

fun put_deltas :: "mach \<Rightarrow> addr \<Rightarrow> addr \<Rightarrow> nat \<Rightarrow> nat \<Rightarrow> delta_t list \<Rightarrow> (mach \<times> iovec list \<times> nat) outcome" where
  "put_deltas m l_entry ptr i delta_len [] = Inr (m, [], delta_len)"
| "put_deltas m l_entry ptr i delta_len (d # dc) =
     (if i \<ge> 5 then Inl Undefined
      else
        (let m = stores m (l_entry + deltas_off + 16 * i) (le_bytes 8 (dt_start_offset d));
             m = stores m (l_entry + deltas_off + 16 * i + 8) (le_bytes 8 (dt_len d))
         in bindO (put_deltas m l_entry ptr (i + 1) (wadd delta_len (dt_len d)) dc) (\<lambda>(m, iov, delta_len).
              Inr (m, (ptr + dt_start_offset d, dt_len d) # iov, delta_len))))"

definition put_delta_header :: "mach \<Rightarrow> addr \<Rightarrow> nat \<Rightarrow> string \<Rightarrow> nat \<Rightarrow> nat \<Rightarrow> mach" where
  "put_delta_header m a version name sz delta_len =
     (let m = stores m (a + version_off) (le_bytes 8 version);
          m = stores m a (take (KEY_LEN - 1) (cstr (bytes_of name)) @ [0]);
          m = stores m (a + len_off) (le_bytes 8 sz);
          m = stores m (a + delta_len_off) (le_bytes 8 delta_len)
      in stores m (a + type_off) (le_bytes 4 (hdr_code delta)))"

definition DeltaStore_put ::
    "libpmem \<Rightarrow> world \<Rightarrow> delta_store \<Rightarrow> string \<Rightarrow> nat \<Rightarrow> (world \<times> delta_store \<times> nat) outcome" where
  "DeltaStore_put c w s key version =
     (case map_find (ds_objectMap s) key of
        Some ob \<Rightarrow>
          (let l_entry = sp (w_mach w) + 16 in
           bindO (put_deltas (w_mach w) l_entry (ob_ptr ob) 0 0 (get_delta_chunks ob)) (\<lambda>(m, iov, delta_len).
             let m = put_delta_header m l_entry version (ob_name ob) (ob_size ob) delta_len;
                 total_size = wadd delta_len sizeof_lehdr
             in bindO (appendv c m (w_logs w ! ds_log s) ((l_entry, sizeof_lehdr) # iov)) (\<lambda>(m, L, ret).
                  let w = w\<lparr>w_mach := m, w_logs := (w_logs w)[ds_log s := L]\<rparr> in
                  if ret \<noteq> NO_ERROR then Inr (w, s, err_code PMEM_ERROR)
                  else Inr (w, s\<lparr>ds_objectMap := map_assign (ds_objectMap s) key
                                    (reset_bit_vector (setVersion version ob)),
                                 ds_pages := enable_write_protection (ds_pages s) (ob_ptr ob) (ob_aligned_size ob)\<rparr>,
                            total_size))))
      | None \<Rightarrow> Inr (w, s, err_code ELEM_NOT_FOUND))"

text \<open>\<open>put_all\<close>: the loop over the objects, with the header of each in the array at \<open>a\<close>.\<close>

fun put_delta_objects :: "mach \<Rightarrow> addr \<Rightarrow> nat \<Rightarrow> object list \<Rightarrow> (mach \<times> iovec list list \<times> nat) outcome" where
  "put_delta_objects m a tot_cnt [] = Inr (m, [], tot_cnt)"
| "put_delta_objects m a tot_cnt (ob # obs) =
     bindO (put_deltas m a (ob_ptr ob) 0 0 (get_delta_chunks ob)) (\<lambda>(m, iov, delta_len).
       let m = put_delta_header m a (wadd (ob_version ob) 1) (ob_name ob) (ob_size ob) delta_len
       in bindO (put_delta_objects m (a + sizeof_lehdr) (wadd tot_cnt (wadd delta_len sizeof_lehdr)) obs)
            (\<lambda>(m, iovpp, tot_cnt). Inr (m, ((a, sizeof_lehdr) # iov) # iovpp, tot_cnt)))"

definition DeltaStore_put_all ::
    "libpmem \<Rightarrow> world \<Rightarrow> delta_store \<Rightarrow> addr \<Rightarrow> (world \<times> delta_store \<times> nat) outcome" where
  "DeltaStore_put_all c w s l_entryp =
     bindO (put_delta_objects (w_mach w) (l_entryp + sizeof_lehdr) 0 (map snd (ds_objectMap s)))
       (\<lambda>(m, iovpp, tot_cnt).
         let m = put_outer_header m l_entryp tot_cnt;
             total_size = wadd tot_cnt sizeof_lehdr
         in bindO (appendmv c m (w_logs w ! ds_log s) ([(l_entryp, sizeof_lehdr)] # iovpp)) (\<lambda>(m, L, ret).
              let w = w\<lparr>w_mach := m, w_logs := (w_logs w)[ds_log s := L]\<rparr> in
              if ret \<noteq> NO_ERROR then Inr (w, s, err_code PMEM_ERROR)
              else Inr (w, s\<lparr>ds_objectMap := map (\<lambda>(k, ob). (k, reset_bit_vector (setVersion (wadd (ob_version ob) 1) ob)))
                                (ds_objectMap s),
                             ds_pages := fold (\<lambda>ob pt. enable_write_protection pt (ob_ptr ob) (ob_aligned_size ob))
                                (map snd (ds_objectMap s)) (ds_pages s)\<rparr>, total_size)))"

subsection \<open>Reading\<close>

text \<open>The branches for \<open>multiple\<close> and \<open>delta\<close> have no \<open>return\<close>.\<close>

definition delta_process_chunks :: "memory \<Rightarrow> walkentry callback" where
  "delta_process_chunks mem buf len we =
     (let we = we\<lparr>we_err := ID_NOT_FOUND\<rparr>; hdr = read_lehdr mem buf in
      if le_type hdr = hdr_code single then
        (if hdr_matches hdr we
         then Some (Inr (we\<lparr>we_datap := buf + sizeof_lehdr, we_len := le_len hdr, we_deltas := le_deltas hdr,
                            we_delta_len := le_delta_len hdr, we_err := NO_ERROR\<rparr>, False))
         else Some (Inr (we, True)))
      else if le_type hdr = hdr_code multiple then Some (Inl Undefined)
      else if le_type hdr = hdr_code delta then Some (Inl Undefined)
      else Some (Inl (Exit 1)))"

text \<open>\<open>get\<close> only logs that it is not supported, and has no \<open>return\<close>.\<close>

definition DeltaStore_get :: "world \<Rightarrow> delta_store \<Rightarrow> string \<Rightarrow> nat \<Rightarrow> addr \<Rightarrow> (world \<times> ErrorCode) outcome" where
  "DeltaStore_get w s key version obj_addr = Inl Undefined"

text \<open>
  \<open>delta_memcpy\<close>: the caller passes the number of bytes as \<open>delta_len\<close>, the loop counts array elements
  with it.
\<close>

fun delta_memcpy :: "mach \<Rightarrow> addr \<Rightarrow> addr \<Rightarrow> (nat \<times> nat) list \<Rightarrow> nat \<Rightarrow> nat \<Rightarrow> mach outcome" where
  "delta_memcpy m dst src deltas src_offset 0 = Inr m"
| "delta_memcpy m dst src [] src_offset (Suc n) = Inl Undefined"
| "delta_memcpy m dst src ((start, len) # deltas) src_offset (Suc n) =
     delta_memcpy (libc_memmove m (dst + start) (src + src_offset) len) dst src deltas (wadd src_offset len) n"

text \<open>In the branch for a key without an object the out parameter \<open>addr\<close> is not set: \<open>None\<close>.\<close>

definition DeltaStore_get_with_malloc ::
    "world \<Rightarrow> delta_store \<Rightarrow> walkentry \<Rightarrow> string \<Rightarrow> nat \<Rightarrow> addr \<Rightarrow>
     (world \<times> delta_store \<times> ErrorCode \<times> addr option) outcome option" where
  "DeltaStore_get_with_malloc w s wentry key version tmp_ptr =
     (let mem = cur (w_mach w) in
      map_option (\<lambda>r. bindO r (\<lambda>(wentry, ret).
          if we_err wentry \<noteq> NO_ERROR then Inr (w, s, ID_NOT_FOUND, None)
          else
            (case map_find (ds_objectMap s) key of
               Some ob \<Rightarrow>
                 bindO (delta_memcpy (w_mach w) (ob_ptr ob) (we_datap wentry) (we_deltas wentry) 0 (we_delta_len wentry))
                   (\<lambda>m. Inr (w\<lparr>w_mach := m\<rparr>, s\<lparr>ds_objectMap := map_assign (ds_objectMap s) key (setVersion version ob)\<rparr>,
                        NO_ERROR, Some (ob_ptr ob)))
             | None \<Rightarrow>
                 Inr (w, s\<lparr>ds_objectMap := map_assign (ds_objectMap s) key
                              (Object_new True key (we_len wentry) version tmp_ptr)\<rparr>, NO_ERROR, None))))
        (walk mem (w_logs w ! ds_log s) (delta_process_chunks mem) (walk_query wentry key version)))"

subsection \<open>Page tracking\<close>

text \<open>
  The program writing to its objects: a write to a page that may be written changes nothing here; on
  a protected page the handler runs, and the instruction is executed again if the page is then
  writable.
\<close>

inductive app_write :: "delta_store \<Rightarrow> addr \<Rightarrow> delta_store \<Rightarrow> bool" where
  direct: "ds_pages s (a div PAGE_SIZE) = PROT_WRITE \<Longrightarrow> app_write s a s"
| fault: "ds_pages s (a div PAGE_SIZE) \<noteq> PROT_WRITE \<Longrightarrow> delta_handler s a = (s', True) \<Longrightarrow>
    ds_pages s' (a div PAGE_SIZE) = PROT_WRITE \<Longrightarrow> app_write s a s'"

inductive app_writes :: "delta_store \<Rightarrow> addr list \<Rightarrow> delta_store \<Rightarrow> bool" where
  no_writes: "app_writes s [] s"
| one_more: "app_writes s as s1 \<Longrightarrow> app_write s1 a s2 \<Longrightarrow> app_writes s (as @ [a]) s2"

text \<open>
  An object placed for tracking: page aligned, its bitmap has a bit per page, no wrap. Two objects
  are apart when a byte separates them (the handler takes the address just after an object for its own).
\<close>

definition traceable :: "object \<Rightarrow> bool" where
  "traceable ob \<longleftrightarrow> ob_ptr ob mod PAGE_SIZE = 0 \<and> ob_ptr ob \<noteq> 0 \<and> ob_ptr ob + ob_aligned_size ob < 2 ^ 64 \<and>
     ob_aligned_size ob = length (ob_bitset ob) * PAGE_SIZE"

definition apart :: "object \<Rightarrow> object \<Rightarrow> bool" where
  "apart a b \<longleftrightarrow> ob_ptr a + ob_aligned_size a < ob_ptr b \<or> ob_ptr b + ob_aligned_size b < ob_ptr a"

definition tracking :: "delta_store \<Rightarrow> bool" where
  "tracking s \<longleftrightarrow> map_wf (ds_objectMap s) \<and>
     (\<forall>(k, ob) \<in> set (ds_objectMap s). traceable ob) \<and>
     (\<forall>(k, a) \<in> set (ds_objectMap s). \<forall>(l, b) \<in> set (ds_objectMap s). k \<noteq> l \<longrightarrow> apart a b)"

text \<open>Nothing has been written since the last \<open>put\<close>: no bit is set, every page is protected.\<close>

definition just_put :: "delta_store \<Rightarrow> string \<Rightarrow> bool" where
  "just_put s k \<longleftrightarrow> (\<exists>ob. map_find (ds_objectMap s) k = Some ob \<and>
     (\<forall>q < length (ob_bitset ob). \<not> ob_bitset ob ! q \<and> ds_pages s (ob_ptr ob div PAGE_SIZE + q) = PROT_READ))"

definition in_page :: "object \<Rightarrow> nat \<Rightarrow> addr \<Rightarrow> bool" where
  "in_page ob q a \<longleftrightarrow> a div PAGE_SIZE = ob_ptr ob div PAGE_SIZE + q"

lemma in_page_range:
  assumes "traceable ob" "q < length (ob_bitset ob)" "in_page ob q a"
  shows "ob_ptr ob \<le> a" "a < ob_ptr ob + ob_aligned_size ob" "(a - ob_ptr ob) div PAGE_SIZE = q"
proof -
  obtain p where p: "ob_ptr ob = p * 4096" using assms(1) by (auto simp: traceable_def PAGE_SIZE_def)
  have q: "a div 4096 = p + q" using assms(3) by (simp add: in_page_def p PAGE_SIZE_def)
  then have a: "a = (p + q) * 4096 + a mod 4096" by (metis div_mult_mod_eq)
  then show "ob_ptr ob \<le> a" by (simp add: p)
  have "q + 1 \<le> length (ob_bitset ob)" using assms(2) by simp
  then have "(q + 1) * 4096 \<le> length (ob_bitset ob) * 4096" by (rule mult_le_mono1)
  moreover have "a mod 4096 < 4096" by simp
  ultimately show "a < ob_ptr ob + ob_aligned_size ob"
    using a assms(1) by (simp add: p traceable_def PAGE_SIZE_def)
  have "a - ob_ptr ob = q * 4096 + a mod 4096" using a by (simp add: p)
  then show "(a - ob_ptr ob) div PAGE_SIZE = q" by (simp add: PAGE_SIZE_def)
qed

lemma wsub_le_iff:
  assumes "p + n < 2 ^ 64" "a < 2 ^ 64"
  shows "wsub a p \<le> n \<longleftrightarrow> p \<le> a \<and> a \<le> p + n"
proof (cases "p \<le> a")
  case True
  then show ?thesis using assms(2) by (auto simp: wsub_exact)
next
  case False
  then have "wsub a p = 2 ^ 64 - (p - a)" using assms(1) by (intro wsub_wraps) linarith+
  then show ?thesis using False assms(1) by linarith
qed

lemma find_faulting_Some:
  "find_faulting om a = Some (k, ob) \<Longrightarrow> (k, ob) \<in> set om \<and> wsub a (ob_ptr ob) \<le> ob_aligned_size ob"
  by (induction om a rule: find_faulting.induct) (auto split: if_splits)

lemma find_faulting_unique:
  assumes "(k, ob) \<in> set om" "wsub a (ob_ptr ob) \<le> ob_aligned_size ob"
    "\<And>l ob'. (l, ob') \<in> set om \<Longrightarrow> (l, ob') \<noteq> (k, ob) \<Longrightarrow> \<not> wsub a (ob_ptr ob') \<le> ob_aligned_size ob'"
  shows "find_faulting om a = Some (k, ob)"
  using assms by (induction om a rule: find_faulting.induct) (auto split: if_splits)

text \<open>The handler finds the object that the address lies in.\<close>

lemma find_faulting_object:
  assumes tr: "tracking s" and k: "map_find (ds_objectMap s) k = Some ob"
    and a: "ob_ptr ob \<le> a" "a < ob_ptr ob + ob_aligned_size ob"
  shows "find_faulting (ds_objectMap s) a = Some (k, ob)"
proof (rule find_faulting_unique)
  have wf: "map_wf (ds_objectMap s)" using tr by (simp add: tracking_def)
  show mem: "(k, ob) \<in> set (ds_objectMap s)" using k wf by (simp add: map_find_items)
  then have t: "traceable ob" using tr by (auto simp: tracking_def)
  then have a64: "a < 2 ^ 64" using a(2) by (simp add: traceable_def)
  show "wsub a (ob_ptr ob) \<le> ob_aligned_size ob"
    using t a a64 by (subst wsub_le_iff) (auto simp: traceable_def)
  show "\<not> wsub a (ob_ptr ob') \<le> ob_aligned_size ob'"
    if m': "(l, ob') \<in> set (ds_objectMap s)" and ne: "(l, ob') \<noteq> (k, ob)" for l ob'
  proof -
    have "l \<noteq> k" using ne m' mem wf by (auto simp: map_find_items)
    then have ap: "apart ob' ob" and t': "traceable ob'" using tr m' mem by (auto simp: tracking_def)
    have "wsub a (ob_ptr ob') \<le> ob_aligned_size ob' \<longleftrightarrow> ob_ptr ob' \<le> a \<and> a \<le> ob_ptr ob' + ob_aligned_size ob'"
      using t' a64 by (intro wsub_le_iff) (simp_all add: traceable_def)
    then show ?thesis using ap a by (auto simp: apart_def)
  qed
qed

text \<open>What a run of the handler changes, seen from an object.\<close>

lemma page_start: "a < 2 ^ 64 \<Longrightarrow> a AND wnot (PAGE_SIZE - 1) = a div 4096 * 4096"
  using and_wnot_mask [of a 12] by (simp add: PAGE_SIZE_def minus_mod_eq_div_mult)

lemma handler_pages:
  assumes "delta_handler s a = (s', True)" "a \<noteq> 0" "a < 2 ^ 64"
  shows "ds_pages s' = (ds_pages s)(a div PAGE_SIZE := PROT_WRITE)"
proof -
  obtain k ob where f: "find_faulting (ds_objectMap s) a = Some (k, ob)"
    using assms(1,2) by (auto simp: delta_handler_def split: option.splits)
  have "ds_pages s' = mprotect (ds_pages s) (a div 4096 * 4096) 4096 PROT_WRITE"
    using assms(1,2) page_start [OF assms(3)] f
    by (auto simp: delta_handler_def disable_protection_def Let_def PAGE_SIZE_def)
  also have "\<dots> = (ds_pages s)(a div PAGE_SIZE := PROT_WRITE)"
  proof (rule ext)
    fix q
    have "a div 4096 \<le> q \<and> q * 4096 < a div 4096 * 4096 + 4096 \<longleftrightarrow> q = a div 4096"
      by linarith
    then show "mprotect (ds_pages s) (a div 4096 * 4096) 4096 PROT_WRITE q = ((ds_pages s)(a div PAGE_SIZE := PROT_WRITE)) q"
      by (simp add: mprotect_def PAGE_SIZE_def)
  qed
  finally show ?thesis .
qed

lemma handler_other:
  assumes "tracking s" "map_find (ds_objectMap s) k = Some ob" "delta_handler s a = (s', True)" "a < 2 ^ 64"
    "\<not> (ob_ptr ob \<le> a \<and> a < ob_ptr ob + ob_aligned_size ob)"
  shows "map_find (ds_objectMap s') k = Some ob"
proof -
  have wf: "map_wf (ds_objectMap s)" using assms(1) by (simp add: tracking_def)
  have mem: "(k, ob) \<in> set (ds_objectMap s)" using assms(2) wf by (simp add: map_find_items)
  then have t: "traceable ob" using assms(1) by (auto simp: tracking_def)
  show ?thesis
  proof (cases "a = 0")
    case True
    then show ?thesis using assms(2,3) by (auto simp: delta_handler_def)
  next
    case False
    then obtain l ob' where f: "find_faulting (ds_objectMap s) a = Some (l, ob')"
      and s': "ds_objectMap s' = map_assign (ds_objectMap s) l (set_modified_bit (int (drop_bit 12 (wsub a (ob_ptr ob')))) ob')"
      using assms(3) by (auto simp: delta_handler_def Let_def split: option.splits)
    show ?thesis
    proof (cases "l = k")
      case True
      then have "ob' = ob" using find_faulting_Some [OF f] mem wf by (auto simp: map_find_items)
      then have "a = ob_ptr ob + ob_aligned_size ob"
        using find_faulting_Some [OF f] assms(4,5) t wsub_le_iff [of "ob_ptr ob" "ob_aligned_size ob" a]
        by (auto simp: traceable_def)
      then have "wsub a (ob_ptr ob) = length (ob_bitset ob) * 4096"
        using t by (simp add: wsub_exact traceable_def PAGE_SIZE_def)
      then have "drop_bit 12 (wsub a (ob_ptr ob)) = length (ob_bitset ob)"
        by (simp add: drop_bit_eq_div)
      then show ?thesis using s' wf True \<open>ob' = ob\<close> by (simp add: map_find_assign set_modified_bit_def)
    next
      case False
      then show ?thesis using s' wf assms(2) by (simp add: map_find_assign)
    qed
  qed
qed

lemma handler_inside:
  assumes "tracking s" "map_find (ds_objectMap s) k = Some ob" "delta_handler s a = (s', True)"
    "ob_ptr ob \<le> a" "a < ob_ptr ob + ob_aligned_size ob"
  shows "map_find (ds_objectMap s') k = Some (set_modified_bit (int ((a - ob_ptr ob) div PAGE_SIZE)) ob)"
proof -
  have wf: "map_wf (ds_objectMap s)" using assms(1) by (simp add: tracking_def)
  have "(k, ob) \<in> set (ds_objectMap s)" using assms(2) wf by (simp add: map_find_items)
  then have t: "traceable ob" using assms(1) by (auto simp: tracking_def)
  have "a \<noteq> 0" using t assms(4) by (auto simp: traceable_def)
  moreover have "wsub a (ob_ptr ob) = a - ob_ptr ob"
    using assms(4,5) t by (intro wsub_exact) (auto simp: traceable_def)
  ultimately show ?thesis
    using assms(3) find_faulting_object [OF assms(1,2,4,5)] wf
    by (auto simp: delta_handler_def Let_def map_find_assign drop_bit_eq_div PAGE_SIZE_def)
qed

subsection \<open>The tracking invariant\<close>

lemma set_modified_bit_fields [simp]:
  "ob_ptr (set_modified_bit i ob) = ob_ptr ob" "ob_size (set_modified_bit i ob) = ob_size ob"
  "ob_aligned_size (set_modified_bit i ob) = ob_aligned_size ob"
  "length (ob_bitset (set_modified_bit i ob)) = length (ob_bitset ob)"
  "ob_name (set_modified_bit i ob) = ob_name ob"
  by (simp_all add: set_modified_bit_def)

lemma tracking_handler:
  assumes "tracking s" "delta_handler s a = (s', ok)"
  shows "tracking s'"
proof (cases "ds_objectMap s' = ds_objectMap s")
  case True
  then show ?thesis using assms(1) by (simp add: tracking_def)
next
  case False
  have wf: "map_wf (ds_objectMap s)" using assms(1) by (simp add: tracking_def)
  have "a \<noteq> 0" using assms(2) False by (cases "a = 0") (simp_all add: delta_handler_def)
  then obtain k ob where ff: "find_faulting (ds_objectMap s) a = Some (k, ob)"
    using assms(2) False by (cases "find_faulting (ds_objectMap s) a") (auto simp: delta_handler_def)
  define i where "i = int (drop_bit 12 (wsub a (ob_ptr ob)))"
  have f: "(k, ob) \<in> set (ds_objectMap s)" "ds_objectMap s' = map_assign (ds_objectMap s) k (set_modified_bit i ob)"
    using assms(2) \<open>a \<noteq> 0\<close> ff find_faulting_Some [OF ff] by (auto simp: delta_handler_def Let_def i_def)
  have orig: "\<exists>ob1. (l, ob1) \<in> set (ds_objectMap s) \<and> ob_ptr ob' = ob_ptr ob1 \<and>
      ob_aligned_size ob' = ob_aligned_size ob1 \<and> length (ob_bitset ob') = length (ob_bitset ob1)"
    if "(l, ob') \<in> set (ds_objectMap s')" for l ob'
    using mem_map_assign [OF wf that [unfolded f(2)]] f(1) by auto
  have "map_wf (ds_objectMap s')" using wf by (simp add: f(2) map_assign_wf)
  moreover have "traceable ob'" if "(l, ob') \<in> set (ds_objectMap s')" for l ob'
    using orig [OF that] assms(1) by (auto simp: tracking_def traceable_def)
  moreover have "apart o1 o2" if o: "(l1, o1) \<in> set (ds_objectMap s')" "(l2, o2) \<in> set (ds_objectMap s')" "l1 \<noteq> l2" for l1 o1 l2 o2
  proof -
    obtain p1 p2 where "(l1, p1) \<in> set (ds_objectMap s)" "(l2, p2) \<in> set (ds_objectMap s)"
      "ob_ptr o1 = ob_ptr p1" "ob_aligned_size o1 = ob_aligned_size p1"
      "ob_ptr o2 = ob_ptr p2" "ob_aligned_size o2 = ob_aligned_size p2"
      using orig [OF o(1)] orig [OF o(2)] by blast
    then show ?thesis using assms(1) o(3) unfolding tracking_def apart_def by fastforce
  qed
  ultimately show ?thesis by (auto simp: tracking_def)
qed

text \<open>The state of an object after writes to the addresses \<open>as\<close>.\<close>

definition same_place :: "object \<Rightarrow> object \<Rightarrow> bool" where
  "same_place a b \<longleftrightarrow> ob_ptr a = ob_ptr b \<and> ob_size a = ob_size b \<and> length (ob_bitset a) = length (ob_bitset b)"

definition tracked :: "delta_store \<Rightarrow> string \<Rightarrow> object \<Rightarrow> addr list \<Rightarrow> bool" where
  "tracked s k ob0 as \<longleftrightarrow> tracking s \<and> (\<exists>ob. map_find (ds_objectMap s) k = Some ob \<and> same_place ob ob0 \<and>
     (\<forall>q < length (ob_bitset ob).
        (ob_bitset ob ! q \<longleftrightarrow> q \<noteq> 0 \<and> (\<exists>a \<in> set as. in_page ob q a)) \<and>
        (ds_pages s (ob_ptr ob div PAGE_SIZE + q) = PROT_WRITE \<longleftrightarrow> (\<exists>a \<in> set as. in_page ob q a))))"

lemma tracked_write:
  assumes "tracked s k ob0 as" "app_write s a s'" "a < 2 ^ 64"
  shows "tracked s' k ob0 (as @ [a])"
proof -
  obtain ob where tr: "tracking s" and k: "map_find (ds_objectMap s) k = Some ob" and sm: "same_place ob ob0"
    and b: "\<And>q. q < length (ob_bitset ob) \<Longrightarrow> ob_bitset ob ! q \<longleftrightarrow> q \<noteq> 0 \<and> (\<exists>a \<in> set as. in_page ob q a)"
    and pg: "\<And>q. q < length (ob_bitset ob) \<Longrightarrow>
      ds_pages s (ob_ptr ob div PAGE_SIZE + q) = PROT_WRITE \<longleftrightarrow> (\<exists>a \<in> set as. in_page ob q a)"
    using assms(1) by (auto simp: tracked_def)
  have t: "traceable ob" using tr k by (auto simp: tracking_def map_find_items)
  from assms(2) show ?thesis
  proof (cases rule: app_write.cases)
    case direct
    have "(\<exists>x \<in> set (as @ [a]). in_page ob q x) \<longleftrightarrow> (\<exists>x \<in> set as. in_page ob q x)" if "q < length (ob_bitset ob)" for q
    proof -
      have "\<exists>x \<in> set as. in_page ob q x" if "in_page ob q a"
        using pg [OF \<open>q < length (ob_bitset ob)\<close>] direct(2) that by (simp add: in_page_def)
      then show ?thesis by auto
    qed
    then show ?thesis using tr k b pg sm direct(1) by (auto simp: tracked_def)
  next
    case fault
    have a0: "a \<noteq> 0"
    proof
      assume "a = 0"
      then have "s' = s" using fault(2) by (simp add: delta_handler_def)
      then show False using fault(1,3) by simp
    qed
    note pages = handler_pages [OF fault(2) a0 assms(3)]
    have pg': "ds_pages s' (ob_ptr ob div PAGE_SIZE + q) = PROT_WRITE \<longleftrightarrow> (\<exists>x \<in> set (as @ [a]). in_page ob q x)"
      if "q < length (ob_bitset ob)" for q
      using pg [OF that] by (auto simp: pages in_page_def)
    show ?thesis
    proof (cases "ob_ptr ob \<le> a \<and> a < ob_ptr ob + ob_aligned_size ob")
      case True
      let ?i = "(a - ob_ptr ob) div PAGE_SIZE"
      let ?ob = "set_modified_bit (int ?i) ob"
      have k': "map_find (ds_objectMap s') k = Some ?ob" using handler_inside [OF tr k fault(2)] True by blast
      have "a - ob_ptr ob < length (ob_bitset ob) * 4096"
        using True t by (auto simp: traceable_def PAGE_SIZE_def)
      then have i: "?i < length (ob_bitset ob)" by (simp add: PAGE_SIZE_def div_less_iff_less_mult)
      obtain p where p: "ob_ptr ob = p * 4096" using t by (auto simp: traceable_def PAGE_SIZE_def)
      obtain r where r: "a = r + p * 4096" using True p by (metis le_add_diff_inverse2)
      then have "a div 4096 = (a - ob_ptr ob) div 4096 + p" by (simp add: p)
      then have ip: "in_page ob q a \<longleftrightarrow> q = ?i" for q by (auto simp: in_page_def p PAGE_SIZE_def)
      have "ob_bitset ?ob ! q \<longleftrightarrow> q \<noteq> 0 \<and> (\<exists>x \<in> set (as @ [a]). in_page ob q x)" if q: "q < length (ob_bitset ob)" for q
        using b [OF q] q i ip [of q] by (cases "q = ?i") (auto simp: set_modified_bit_def)
      then show ?thesis using tracking_handler [OF tr fault(2)] k' pg' sm
        by (auto simp: tracked_def in_page_def same_place_def)
    next
      case False
      have k': "map_find (ds_objectMap s') k = Some ob" using handler_other [OF tr k fault(2) assms(3) False] .
      have "(\<exists>x \<in> set (as @ [a]). in_page ob q x) \<longleftrightarrow> (\<exists>x \<in> set as. in_page ob q x)" if "q < length (ob_bitset ob)" for q
        using in_page_range [OF t that, of a] False by auto
      then show ?thesis using tracking_handler [OF tr fault(2)] k' pg' b sm by (auto simp: tracked_def)
    qed
  qed
qed

lemma tracked_writes:
  "app_writes s as s' \<Longrightarrow> tracked s k ob0 [] \<Longrightarrow> \<forall>a \<in> set as. a < 2 ^ 64 \<Longrightarrow> tracked s' k ob0 as"
  by (induction rule: app_writes.induct) (auto intro: tracked_write)

subsection \<open>put\<close>

definition delta_bytes :: "object \<Rightarrow> nat" where
  "delta_bytes ob = sum_list (map dt_len (get_delta_chunks ob))"

definition delta_iov :: "object \<Rightarrow> iovec list" where
  "delta_iov ob = map (\<lambda>d. (ob_ptr ob + dt_start_offset d, dt_len d)) (get_delta_chunks ob)"

lemma put_deltas_spec:
  assumes "i + length dc \<le> 5" "dl + sum_list (map dt_len dc) < 2 ^ 64"
  shows "\<exists>m'. put_deltas m a ptr i dl dc =
      Inr (m', map (\<lambda>d. (ptr + dt_start_offset d, dt_len d)) dc, dl + sum_list (map dt_len dc)) \<and>
    touches m m' {a + deltas_off..<a + sizeof_lehdr}"
  using assms
proof (induction dc arbitrary: m i dl)
  case (Cons d dc)
  let ?m = "stores (stores m (a + deltas_off + 16 * i) (le_bytes 8 (dt_start_offset d)))
    (a + deltas_off + 16 * i + 8) (le_bytes 8 (dt_len d))"
  let ?S = "{a + deltas_off..<a + sizeof_lehdr}"
  have i: "i < 5" using Cons.prems(1) by simp
  have t: "touches m ?m ?S"
    using i by (intro touches_trans [OF touches_stores touches_stores]) (auto simp: layout_consts)
  have dl: "wadd dl (dt_len d) = dl + dt_len d" using Cons.prems(2) by (simp add: wadd_exact)
  obtain m' where "put_deltas ?m a ptr (i + 1) (dl + dt_len d) dc =
      Inr (m', map (\<lambda>d. (ptr + dt_start_offset d, dt_len d)) dc, dl + dt_len d + sum_list (map dt_len dc))"
    "touches ?m m' ?S"
    using Cons.IH [of "i + 1" "dl + dt_len d" ?m] Cons.prems by auto
  then show ?case using i touches_trans [OF t] by (intro exI [of _ m']) (simp add: dl add.assoc)
qed simp

lemma put_deltas_too_many: "5 < i + length dc \<Longrightarrow> i \<le> 5 \<Longrightarrow> put_deltas m a ptr i dl dc = Inl Undefined"
  by (induction dc arbitrary: m i dl) (auto simp: Let_def)

lemma put_delta_header_touches: "touches m (put_delta_header m a v name n dl) {a..<a + sizeof_lehdr}"
proof -
  have k: "length (take (KEY_LEN - 1) (cstr (bytes_of name)) @ [0]) \<le> KEY_LEN" by (simp add: KEY_LEN_def)
  show ?thesis
    unfolding put_delta_header_def Let_def
    by (intro touches_trans [OF touches_trans [OF touches_trans [OF touches_trans [OF touches_stores touches_stores]
          touches_stores] touches_stores] touches_stores]) (use k in \<open>auto simp: layout_consts\<close>)
qed

lemma put_delta_header_is:
  assumes "v < 2 ^ 64" "n < 2 ^ 64"
  shows "hdr_is (rd (cur (put_delta_header m a v name n dl)) a sizeof_lehdr) (stored_key name) v n (hdr_code delta)"
proof -
  let ?k = "take 19 (cstr (bytes_of name))"
  let ?m1 = "wr (wr (cur m) (a + 24) (le_bytes 8 v)) a (?k @ [0])"
  let ?m = "wr (wr (wr ?m1 (a + 32) (le_bytes 8 n)) (a + 48) (le_bytes 8 dl)) (a + 40) (le_bytes 4 2)"
  have c: "cur (put_delta_header m a v name n dl) = ?m"
    by (simp add: put_delta_header_def cur_stores layout_consts)
  have lk: "length (?k @ [0 :: byte]) \<le> 20" by simp
  have z: "0 \<notin> set ?k" using cstr_no_nul by (metis in_set_takeD)
  have "rd ?m a 20 = rd ?m1 a 20" by (simp add: rd_wr_disjoint)
  then have "cstr (rd ?m a 20) = ?k" using cstr_rd_key [OF _ z, of 20] by simp
  moreover have "rd ?m (a + 24) 8 = le_bytes 8 v"
    using lk by (simp add: rd_wr_disjoint rd_wr_same)
  moreover have "rd ?m (a + 32) 8 = le_bytes 8 n" by (simp add: rd_wr_disjoint rd_wr_same)
  moreover have "rd ?m (a + 40) 4 = le_bytes 4 2" by (simp add: rd_wr_same)
  ultimately show ?thesis
    using assms by (simp add: c hdr_is_def hdr_fields_def drop_rd take_rd layout_consts stored_key_def)
qed

lemma delta_scan_within:
  "(i + length bs) * PAGE_SIZE < sz + PAGE_SIZE \<Longrightarrow> (st \<longrightarrow> so + ln = i) \<Longrightarrow>
   d \<in> set (delta_scan sz i st so ln bs) \<Longrightarrow> dt_start_offset d + dt_len d \<le> sz"
proof (induction bs arbitrary: i st so ln)
  case (Cons b bs)
  have i: "i * PAGE_SIZE < sz" using Cons.prems(1) by (simp add: PAGE_SIZE_def)
  have so: "st \<Longrightarrow> so * PAGE_SIZE + ln * PAGE_SIZE \<le> sz"
    using i Cons.prems(2) by (metis add_mult_distrib less_imp_le)
  have pre: "(i + 1 + length bs) * PAGE_SIZE < sz + PAGE_SIZE" using Cons.prems(1) by simp
  show ?case
    using Cons.prems(2,3) i so
      Cons.IH [OF pre, of True so "ln + 1"] Cons.IH [OF pre, of True i 1]
      Cons.IH [OF pre, of False so ln] Cons.IH [OF pre, of False i 1] Cons.IH [OF pre, of False so "ln + 1"]
    by (cases b; cases st) (auto split: if_splits)
qed simp

lemma get_delta_chunks_within:
  "object_ok ob \<Longrightarrow> d \<in> set (get_delta_chunks ob) \<Longrightarrow> dt_start_offset d + dt_len d \<le> ob_size ob"
  using delta_scan_within [of 0 "ob_bitset ob" "ob_size ob" False 0 0 d]
  by (simp add: get_delta_chunks_def object_ok_def)

text \<open>A store whose log and object are in place for a \<open>put\<close> that fits.\<close>

definition dput_ready :: "world \<Rightarrow> delta_store \<Rightarrow> object \<Rightarrow> log_entry list \<Rightarrow> bool" where
  "dput_ready w s ob es \<longleftrightarrow>
     (let L = w_logs w ! ds_log s; b = sp (w_mach w) in
      ds_log s < length (w_logs w) \<and> plog_ok (w_mach w) L es \<and> b + 152 < 2 ^ 64 \<and>
      disj b 152 (pmemaddr L) (mapped_len L) \<and> obj_placed b L ob \<and> object_ok ob \<and>
      map_wf (ds_objectMap s) \<and> length (get_delta_chunks ob) \<le> 5 \<and>
      write_offset L + (sizeof_lehdr + delta_bytes ob) + 8 \<le> end_offset L)"

lemma dput_appends:
  assumes "dput_ready w s ob es" "map_find (ds_objectMap s) key = Some ob" "version < 2 ^ 64"
  defines "L \<equiv> w_logs w ! ds_log s"
  shows "\<exists>m'. DeltaStore_put c w s key version =
      Inr (w\<lparr>w_mach := m', w_logs := (w_logs w)[ds_log s :=
             L\<lparr>write_offset := write_offset L + (sizeof_lehdr + delta_bytes ob) + 8\<rparr>]\<rparr>,
        s\<lparr>ds_objectMap := map_assign (ds_objectMap s) key (reset_bit_vector (setVersion version ob)),
          ds_pages := enable_write_protection (ds_pages s) (ob_ptr ob) (ob_aligned_size ob)\<rparr>,
        sizeof_lehdr + delta_bytes ob) \<and>
    hdr_is (rd (cur m') (pmemaddr L + write_offset L) sizeof_lehdr) (stored_key (ob_name ob)) version
      (ob_size ob) (hdr_code delta) \<and>
    rd (cur m') (pmemaddr L + write_offset L + sizeof_lehdr) (delta_bytes ob) = iov_data (cur (w_mach w)) (delta_iov ob) \<and>
    rd64 (cur m') (pmemaddr L + tail_off) = write_offset L + (sizeof_lehdr + delta_bytes ob) + 8 \<and>
    rd64 (cur m') (pmemaddr L + head_off) = sizeof_lhdr"
proof -
  have R: "ds_log s < length (w_logs w)" "plog_ok (w_mach w) L es" "sp (w_mach w) + 152 < 2 ^ 64"
    "disj (sp (w_mach w)) 152 (pmemaddr L) (mapped_len L)" "obj_placed (sp (w_mach w)) L ob" "object_ok ob"
    "length (get_delta_chunks ob) \<le> 5" "write_offset L + (sizeof_lehdr + delta_bytes ob) + 8 \<le> end_offset L"
    using assms(1) by (auto simp: dput_ready_def Let_def L_def)
  note P = plog_okD [OF R(2)]
  let ?a = "sp (w_mach w) + 16"
  let ?iov = "(?a, sizeof_lehdr) # delta_iov ob"
  have small: "sizeof_lehdr + delta_bytes ob < 2 ^ 64" using R(8) P(1,3) by (auto simp: frame_ok_def)
  obtain m1 where m1: "put_deltas (w_mach w) ?a (ob_ptr ob) 0 0 (get_delta_chunks ob) = Inr (m1, delta_iov ob, delta_bytes ob)"
    "touches (w_mach w) m1 {?a + deltas_off..<?a + sizeof_lehdr}"
    using put_deltas_spec [of 0 "get_delta_chunks ob" 0 "w_mach w" ?a "ob_ptr ob"] R(7) small
    by (auto simp: delta_bytes_def delta_iov_def)
  let ?m2 = "put_delta_header m1 ?a version (ob_name ob) (ob_size ob) (delta_bytes ob)"
  have h: "hdr_is (rd (cur ?m2) ?a sizeof_lehdr) (stored_key (ob_name ob)) version (ob_size ob) (hdr_code delta)"
    using assms(3) R(5) by (intro put_delta_header_is) (auto simp: obj_placed_def)
  have t: "touches (w_mach w) ?m2 {?a..<?a + sizeof_lehdr}"
    by (rule touches_trans [OF touches_mono [OF m1(2)] put_delta_header_touches]) auto
  have chunk: "ob_ptr ob \<le> b \<and> b + n \<le> ob_ptr ob + ob_size ob" if "(b, n) \<in> set (delta_iov ob)" for b n
    using that get_delta_chunks_within [OF R(6)] by (fastforce simp: delta_iov_def)
  have dat: "iov_data (cur ?m2) (delta_iov ob) = iov_data (cur (w_mach w)) (delta_iov ob)"
  proof (rule iov_data_cong)
    fix b n x assume x: "(b, n) \<in> set (delta_iov ob)" "b \<le> x" "x < b + n"
    then have "x \<notin> {?a..<?a + sizeof_lehdr}"
      using chunk [OF x(1)] R(5) by (auto simp: obj_placed_def disj_def sizeof_lehdr_def)
    then show "cur ?m2 x = cur (w_mach w) x" by (rule touches_cur [OF t])
  qed
  have "{?a..<?a + sizeof_lehdr} \<inter> log_range L = {}"
    using R(4) by (auto simp: log_range_def disj_def sizeof_lehdr_def)
  then have ok2: "plog_ok ?m2 L es" by (rule plog_ok_touches(1) [OF R(2) t])
  have iov: "iov_ok (pmemaddr L) (mapped_len L) ?iov"
  proof -
    have "b + n < 2 ^ 64 \<and> disj b n (pmemaddr L) (mapped_len L)" if "(b, n) \<in> set (delta_iov ob)" for b n
      using chunk [OF that] R(5) by (auto simp: obj_placed_def disj_def)
    then show ?thesis using R(3,4) by (auto simp: iov_ok_def disj_def sizeof_lehdr_def)
  qed
  have len: "iov_len ?iov = sizeof_lehdr + delta_bytes ob"
    by (simp add: iov_len_def delta_iov_def delta_bytes_def comp_def)
  obtain mp m' where ap: "appendv c ?m2 L ?iov =
      Inr (m', L\<lparr>write_offset := write_offset L + (sizeof_lehdr + delta_bytes ob) + 8\<rparr>, NO_ERROR)"
    and pub: "publishes c ?m2 L (iov_data (cur ?m2) ?iov) mp m'"
    using appendv_publishes [OF ok2 iov, of c] R(8) len by auto
  let ?d = "pmemaddr L + write_offset L" and ?t = "pmemaddr L + tail_off"
  have f2: "frame ?m2 = frame (w_mach w)" using touches_sp [OF t] by (simp add: frame_def)
  have tail: "touches mp m' (frame (w_mach w) \<union> {?t..<?t + 8})"
    and bytes: "rd (cur mp) ?d (iov_len ?iov) = iov_data (cur ?m2) ?iov"
    and tl: "rd64 (cur m') ?t = write_offset L + iov_len ?iov + 8"
    and hd: "touches ?m2 mp (frame (w_mach w) \<union> {?d..<?d + iov_len ?iov + 8})"
    using pub f2 by (simp_all add: publishes_def Let_def)
  have in_log: "x \<notin> frame (w_mach w)" if "pmemaddr L \<le> x" "x < pmemaddr L + mapped_len L" for x
    by (rule log_not_frame [OF P(1) that])
  have "rd (cur m') ?d (iov_len ?iov) = rd (cur mp) ?d (iov_len ?iov)"
  proof (rule rd_cong)
    fix x assume x: "?d \<le> x" "x < ?d + iov_len ?iov"
    have "x < pmemaddr L + mapped_len L" using x R(8) P(3) len by linarith
    moreover have "pmemaddr L \<le> x" "?t + 8 \<le> x" using x P(4) by (auto simp: layout_consts)
    ultimately show "cur m' x = cur mp x" using in_log by (intro touches_cur [OF tail]) auto
  qed
  then have all: "rd (cur m') ?d (sizeof_lehdr + delta_bytes ob) = iov_data (cur ?m2) ?iov" using bytes len by simp
  have hdr: "rd (cur m') ?d sizeof_lehdr = rd (cur ?m2) ?a sizeof_lehdr"
    and data: "rd (cur m') (?d + sizeof_lehdr) (delta_bytes ob) = iov_data (cur (w_mach w)) (delta_iov ob)"
    using all by (simp_all add: rd_add dat)
  have "rd64 (cur m') (pmemaddr L + head_off) = rd64 (cur ?m2) (pmemaddr L + head_off)"
  proof (rule rd64_cong)
    fix x assume x: "pmemaddr L + head_off \<le> x" "x < pmemaddr L + head_off + 8"
    then have "x \<notin> frame (w_mach w)" using P(6) by (intro in_log) (auto simp: layout_consts)
    then show "cur m' x = cur ?m2 x"
      using x P(4) touches_cur [OF tail, of x] touches_cur [OF hd, of x] by (auto simp: layout_consts)
  qed
  moreover have "rd64 (cur ?m2) (pmemaddr L + head_off) = sizeof_lhdr"
    using plog_okD(2) [OF ok2] by (simp add: log_body_def)
  moreover have "wadd (delta_bytes ob) sizeof_lehdr = sizeof_lehdr + delta_bytes ob"
    using small by (simp add: wadd_exact add.commute)
  ultimately show ?thesis
    using h hdr data tl len m1(1) ap assms(2) by (intro exI [of _ m']) (simp add: DeltaStore_put_def Let_def L_def)
qed

lemma appendv_NO_ERROR: "appendv c m L iov = Inr (m', L', r) \<Longrightarrow> r = NO_ERROR"
  by (auto simp: appendv_def Let_def split: if_splits prod.splits)

text \<open>Whatever the log does, a \<open>put\<close> that returns leaves the object clean and protected.\<close>

lemma put_protects:
  assumes "DeltaStore_put c w s key version = Inr (w', s', n)" "map_find (ds_objectMap s) key = Some ob"
  shows "ds_objectMap s' = map_assign (ds_objectMap s) key (reset_bit_vector (setVersion version ob))"
    "ds_pages s' = enable_write_protection (ds_pages s) (ob_ptr ob) (ob_aligned_size ob)"
proof -
  let ?a = "sp (w_mach w) + 16"
  obtain m1 iov dl where d: "put_deltas (w_mach w) ?a (ob_ptr ob) 0 0 (get_delta_chunks ob) = Inr (m1, iov, dl)"
    using assms by (auto simp: DeltaStore_put_def Let_def)
  let ?m2 = "put_delta_header m1 ?a version (ob_name ob) (ob_size ob) dl"
  obtain m3 L3 r where a: "appendv c ?m2 (w_logs w ! ds_log s) ((?a, sizeof_lehdr) # iov) = Inr (m3, L3, r)"
    using assms d by (cases "appendv c ?m2 (w_logs w ! ds_log s) ((?a, sizeof_lehdr) # iov)")
      (auto simp: DeltaStore_put_def Let_def)
  then have "r = NO_ERROR" by (rule appendv_NO_ERROR)
  then have "s' = s\<lparr>ds_objectMap := map_assign (ds_objectMap s) key (reset_bit_vector (setVersion version ob)),
      ds_pages := enable_write_protection (ds_pages s) (ob_ptr ob) (ob_aligned_size ob)\<rparr>"
    using assms a d by (simp add: DeltaStore_put_def Let_def)
  then show "ds_objectMap s' = map_assign (ds_objectMap s) key (reset_bit_vector (setVersion version ob))"
    "ds_pages s' = enable_write_protection (ds_pages s) (ob_ptr ob) (ob_aligned_size ob)" by simp_all
qed

lemma protect_pages:
  assumes "traceable ob" "q < length (ob_bitset ob)"
  shows "enable_write_protection pt (ob_ptr ob) (ob_aligned_size ob) (ob_ptr ob div PAGE_SIZE + q) = PROT_READ"
proof -
  obtain p where p: "ob_ptr ob = p * 4096" using assms(1) by (auto simp: traceable_def PAGE_SIZE_def)
  have "q * 4096 < ob_aligned_size ob" using assms by (simp add: traceable_def PAGE_SIZE_def)
  then show ?thesis by (simp add: enable_write_protection_def mprotect_def p PAGE_SIZE_def add_mult_distrib)
qed

lemma clean_fields [simp]:
  "ob_ptr (reset_bit_vector (setVersion v ob)) = ob_ptr ob"
  "ob_size (reset_bit_vector (setVersion v ob)) = ob_size ob"
  "ob_aligned_size (reset_bit_vector (setVersion v ob)) = ob_aligned_size ob"
  "length (ob_bitset (reset_bit_vector (setVersion v ob))) = length (ob_bitset ob)"
  "q < length (ob_bitset ob) \<Longrightarrow> \<not> ob_bitset (reset_bit_vector (setVersion v ob)) ! q"
  by (simp_all add: reset_bit_vector_def setVersion_def)

lemma put_tracked:
  assumes "DeltaStore_put c w s key version = Inr (w', s', n)" "map_find (ds_objectMap s) key = Some ob" "tracking s"
  shows "tracked s' key ob []"
proof -
  note P = put_protects [OF assms(1,2)]
  let ?ob = "reset_bit_vector (setVersion version ob)"
  have wf: "map_wf (ds_objectMap s)" using assms(3) by (simp add: tracking_def)
  have mem: "(key, ob) \<in> set (ds_objectMap s)" using assms(2) wf by (simp add: map_find_items)
  then have t: "traceable ob" using assms(3) by (auto simp: tracking_def)
  have orig: "\<exists>ob1. (l, ob1) \<in> set (ds_objectMap s) \<and> ob_ptr ob' = ob_ptr ob1 \<and>
      ob_aligned_size ob' = ob_aligned_size ob1 \<and> length (ob_bitset ob') = length (ob_bitset ob1)"
    if "(l, ob') \<in> set (ds_objectMap s')" for l ob'
    using mem_map_assign [OF wf that [unfolded P(1)]] mem by auto
  have "tracking s'"
    unfolding tracking_def
  proof (intro conjI ballI; (simp only: split_paired_all split_conv)?)
    show "map_wf (ds_objectMap s')" using wf by (simp add: P(1) map_assign_wf)
    show "traceable ob'" if "(l, ob') \<in> set (ds_objectMap s')" for l ob'
      using orig [OF that] assms(3) by (auto simp: tracking_def traceable_def)
    show "\<forall>(l2, o2) \<in> set (ds_objectMap s'). l1 \<noteq> l2 \<longrightarrow> apart o1 o2" if o1: "(l1, o1) \<in> set (ds_objectMap s')" for l1 o1
    proof (intro ballI; simp only: split_paired_all split_conv; intro impI)
      fix l2 o2 assume o2: "(l2, o2) \<in> set (ds_objectMap s')" and "l1 \<noteq> l2"
      moreover obtain p1 p2 where "(l1, p1) \<in> set (ds_objectMap s)" "(l2, p2) \<in> set (ds_objectMap s)"
        "ob_ptr o1 = ob_ptr p1" "ob_aligned_size o1 = ob_aligned_size p1"
        "ob_ptr o2 = ob_ptr p2" "ob_aligned_size o2 = ob_aligned_size p2"
        using orig [OF o1] orig [OF o2] by blast
      ultimately show "apart o1 o2" using assms(3) unfolding tracking_def apart_def by fastforce
    qed
  qed
  moreover have "map_find (ds_objectMap s') key = Some ?ob" using wf by (simp add: P(1) map_find_assign)
  ultimately show ?thesis using protect_pages [OF t] by (auto simp: tracked_def same_place_def P(2))
qed

subsection \<open>A sample\<close>

text \<open>An object of two pages at 65536, the second page modified, on the sample log.\<close>

definition sample_dob :: object where
  "sample_dob = \<lparr>ob_name = ''x'', ob_size = 4100, ob_version = 0, ob_ptr = 65536,
     ob_bitset = [False, True], ob_aligned_size = 8192\<rparr>"

definition sample_dstore :: delta_store where
  "sample_dstore = \<lparr>ds_storeId = ''s/1'', ds_log = 0, ds_objectMap = [(''x'', sample_dob)], ds_addrMap = [],
     ds_pages = (\<lambda>_. PROT_WRITE)\<rparr>"

lemma sample_chunks: "get_delta_chunks sample_dob = [\<lparr>dt_start_offset = 4096, dt_len = 4\<rparr>]"
  by (simp add: get_delta_chunks_def sample_dob_def PAGE_SIZE_def)

lemma sample_dput_ready: "dput_ready sample_sworld sample_dstore sample_dob []"
  using sample_log(1)
  by (simp add: dput_ready_def Let_def sample_dstore_def sample_sworld_def sample_plog_def sample_mach_def
      quiescent_def obj_placed_def disj_def object_ok_def sample_chunks delta_bytes_def layout_consts map_wf_def)
    (simp add: sample_dob_def PAGE_SIZE_def)

definition sample_put :: delta_store where
  "sample_put = sample_dstore\<lparr>ds_objectMap := [(''x'', reset_bit_vector (setVersion 1 sample_dob))],
     ds_pages := enable_write_protection (ds_pages sample_dstore) (ob_ptr sample_dob) (ob_aligned_size sample_dob)\<rparr>"

lemma sample_write: "\<exists>s. app_writes sample_put [69634] s"
proof -
  have "ds_pages sample_put (69634 div PAGE_SIZE) \<noteq> PROT_WRITE"
    by (simp add: sample_put_def enable_write_protection_def mprotect_def sample_dob_def PAGE_SIZE_def)
  moreover obtain s where "delta_handler sample_put 69634 = (s, True)" "ds_pages s (69634 div PAGE_SIZE) = PROT_WRITE"
    by (simp add: delta_handler_def sample_put_def sample_dob_def setVersion_def reset_bit_vector_def PAGE_SIZE_def disable_protection_def mprotect_def wsub_def wnot_def)
  ultimately show ?thesis using one_more [OF no_writes fault] by fastforce
qed

lemma sample_tracking: "tracking sample_dstore"
  by (simp add: tracking_def sample_dstore_def map_wf_def traceable_def sample_dob_def PAGE_SIZE_def)

subsection \<open>Properties\<close>

text \<open>
  C14. Modification tracking. After a \<open>put\<close> of an object that returns, let the program write to any
  addresses (each write to a protected page runs the fault handler). Then the chunks the next \<open>put\<close>
  will write contain a byte of the object exactly when its page is not the first one and one of the
  writes went to that page. The objects must be a byte apart, so that the handler can tell them.
\<close>

theorem delta_tracking_exact:
  assumes "DeltaStore_put c w s key version = Inr (w', s', n)" "map_find (ds_objectMap s) key = Some ob"
    "tracking s" "object_ok ob" "app_writes s' as s''" "\<forall>a \<in> set as. a < 2 ^ 64"
  shows "\<exists>ob'. map_find (ds_objectMap s'') key = Some ob' \<and>
    ((\<exists>d \<in> set (get_delta_chunks ob'). in_delta x d) \<longleftrightarrow>
       x < ob_size ob \<and> x div PAGE_SIZE \<noteq> 0 \<and> (\<exists>a \<in> set as. in_page ob (x div PAGE_SIZE) a))"
proof -
  have "tracked s'' key ob as" by (rule tracked_writes [OF assms(5) put_tracked [OF assms(1-3)] assms(6)])
  then obtain ob' where k: "map_find (ds_objectMap s'') key = Some ob'" and sm: "same_place ob' ob"
    and b: "\<And>q. q < length (ob_bitset ob') \<Longrightarrow> ob_bitset ob' ! q \<longleftrightarrow> q \<noteq> 0 \<and> (\<exists>a \<in> set as. in_page ob' q a)"
    by (auto simp: tracked_def)
  have ok: "object_ok ob'" using assms(4) sm by (simp add: object_ok_def same_place_def)
  have "x div PAGE_SIZE < length (ob_bitset ob')" if "x < ob_size ob'"
    using ok that page_simps(2) [of x "length (ob_bitset ob')"] by (simp add: object_ok_def PAGE_SIZE_def)
  then show ?thesis
    using k sm get_delta_chunks_covers [OF ok, of x] b by (auto simp: same_place_def in_page_def)
qed

theorem delta_tracking_exact_witness:
  "\<exists>w' s' n s'' ob'. DeltaStore_put sample_lib sample_sworld sample_dstore ''x'' 1 = Inr (w', s', n) \<and>
     app_writes s' [69634] s'' \<and> map_find (ds_objectMap s'') ''x'' = Some ob' \<and>
     (\<exists>d\<in>set (get_delta_chunks ob'). in_delta 4098 d) \<and> \<not> (\<exists>d\<in>set (get_delta_chunks ob'). in_delta 7 d)"
proof -
  obtain w' n where p: "DeltaStore_put sample_lib sample_sworld sample_dstore ''x'' 1 = Inr (w', sample_put, n)"
    using dput_appends [OF sample_dput_ready, of "''x''" 1 sample_lib] by (auto simp: sample_dstore_def sample_put_def)
  have find: "map_find (ds_objectMap sample_dstore) ''x'' = Some sample_dob" by (simp add: sample_dstore_def)
  have ok: "object_ok sample_dob" by (simp add: object_ok_def sample_dob_def PAGE_SIZE_def)
  obtain s'' where s: "app_writes sample_put [69634] s''" using sample_write by blast
  have a: "\<forall>a \<in> set [69634]. a < (2::nat) ^ 64" by simp
  note T = delta_tracking_exact [OF p find sample_tracking ok s a]
  have "in_page sample_dob 1 69634" by (simp add: in_page_def sample_dob_def PAGE_SIZE_def)
  then obtain ob' where "map_find (ds_objectMap s'') ''x'' = Some ob'" "\<exists>d\<in>set (get_delta_chunks ob'). in_delta 4098 d"
      "\<not> (\<exists>d\<in>set (get_delta_chunks ob'). in_delta 7 d)"
    using T [of 4098] T [of 7] by (simp add: PAGE_SIZE_def sample_dob_def) (elim exE conjE, simp)
  with p s show ?thesis by blast
qed



text \<open>
  C39. What it writes it cannot read: after a \<open>put\<close> on an empty log, \<open>get_with_malloc\<close>, of any key and
  version, runs into the branch of \<open>process_chunks\<close> that has no \<open>return\<close>.
\<close>

theorem DeltaStore_put_then_get_undefined:
  assumes "dput_ready w s ob []" "map_find (ds_objectMap s) key = Some ob" "version < 2 ^ 64"
  shows "\<exists>w' s' n. DeltaStore_put c w s key version = Inr (w', s', n) \<and>
    DeltaStore_get_with_malloc w' s' we key' version' p = Some (Inl Undefined)"
proof -
  let ?L = "w_logs w ! ds_log s"
  have lt: "ds_log s < length (w_logs w)" and ok: "plog_ok (w_mach w) ?L []"
    using assms(1) by (simp_all add: dput_ready_def Let_def)
  have wo: "write_offset ?L = sizeof_lhdr" using plog_okD(2) [OF ok] by (simp add: log_body_def)
  obtain m' where m': "DeltaStore_put c w s key version =
      Inr (w\<lparr>w_mach := m', w_logs := (w_logs w)[ds_log s :=
             ?L\<lparr>write_offset := write_offset ?L + (sizeof_lehdr + delta_bytes ob) + 8\<rparr>]\<rparr>,
        s\<lparr>ds_objectMap := map_assign (ds_objectMap s) key (reset_bit_vector (setVersion version ob)),
          ds_pages := enable_write_protection (ds_pages s) (ob_ptr ob) (ob_aligned_size ob)\<rparr>,
        sizeof_lehdr + delta_bytes ob)"
    "hdr_is (rd (cur m') (pmemaddr ?L + write_offset ?L) sizeof_lehdr) (stored_key (ob_name ob)) version
      (ob_size ob) (hdr_code delta)"
    "rd64 (cur m') (pmemaddr ?L + tail_off) = write_offset ?L + (sizeof_lehdr + delta_bytes ob) + 8"
    "rd64 (cur m') (pmemaddr ?L + head_off) = sizeof_lhdr"
    using dput_appends [OF assms, of c] by blast
  have "delta_process_chunks (cur m') (pmemaddr ?L + sizeof_lhdr) n q = Some (Inl Undefined)" for n q
    using read_hdr(3) [OF m'(2)] by (simp add: delta_process_chunks_def wo)
  then have "walk (cur m') (?L\<lparr>write_offset := x\<rparr>) (delta_process_chunks (cur m')) q = Some (Inl Undefined)" for x q
    using m'(3,4) wo by (subst walk_def) (simp add: Let_def read_lhdr_def walk_loop.simps)
  then show ?thesis using m'(1) lt by (simp add: DeltaStore_get_with_malloc_def Let_def)
qed

theorem DeltaStore_put_then_get_undefined_witness:
  "\<exists>w' s' n. DeltaStore_put sample_lib sample_sworld sample_dstore ''x'' 1 = Inr (w', s', n) \<and>
    DeltaStore_get_with_malloc w' s' sample_we ''x'' 1 3000 = Some (Inl Undefined)"
  using DeltaStore_put_then_get_undefined [OF sample_dput_ready, of "''x''" 1 sample_lib sample_we "''x''" 1 3000]
  by (simp add: sample_dstore_def)

end
