(* ===== verification/File_Store.thy ===== *)
theory File_Store
  imports Nvs_Store
begin

text \<open>
  \<open>kvstore/file_store.cc\<close>: every version of an object in a file of its own. Files are a map from names
  to contents; whether a call of the C library succeeds, and how much it transfers, is the
  environment \<open>fenv\<close>.
\<close>

datatype file_build = TMPFS | PMFS | NO_FS

fun ROOT_FILE_PATH :: "file_build \<Rightarrow> string" where
  "ROOT_FILE_PATH TMPFS = ''/dev/shm/unity''"
| "ROOT_FILE_PATH PMFS = ''/mnt/pmfs/unity''"
| "ROOT_FILE_PATH NO_FS = ''INVALID''"

record fenv =
  fe_open :: "string \<Rightarrow> bool"
  fe_written :: "string \<Rightarrow> nat \<Rightarrow> nat"
  fe_read :: "string \<Rightarrow> nat \<Rightarrow> nat"

record file_store =
  fl_build :: file_build
  fl_storeId :: string
  fl_objectMap :: "(string, object) std_map"
  fl_addrMap :: "(addr, string) std_map"

text \<open>\<open>exists\<close> and \<open>create_directories\<close> of the file system library answer through the last two arguments.\<close>

definition FileStore_new :: "file_build \<Rightarrow> string \<Rightarrow> (string \<Rightarrow> bool) \<Rightarrow> (string \<Rightarrow> bool) \<Rightarrow> file_store outcome" where
  "FileStore_new build storeId path_exists created =
     (let fsPath = ROOT_FILE_PATH build @ ''/'' @ storeId in
      if \<not> path_exists fsPath \<and> \<not> created fsPath then Inl (Exit 1)
      else Inr \<lparr>fl_build = build, fl_storeId = storeId, fl_objectMap = [], fl_addrMap = []\<rparr>)"

definition trim_right :: "string \<Rightarrow> string" where
  "trim_right s = rev (dropWhile is_space (rev s))"

definition version_file :: "file_store \<Rightarrow> string \<Rightarrow> nat \<Rightarrow> string" where
  "version_file s key version = ROOT_FILE_PATH (fl_build s) @ ''/'' @ fl_storeId s @ ''/'' @ key @ to_string version"

definition snapshot_file :: "file_store \<Rightarrow> string \<Rightarrow> nat \<Rightarrow> string" where
  "snapshot_file s key version =
     ROOT_FILE_PATH (fl_build s) @ ''/'' @ fl_storeId s @ ''/'' @ key @ ''_'' @ to_string version"

text \<open>Opening a file for writing, writing an object and closing it; a short write fails the assertion.\<close>

definition write_object :: "fenv \<Rightarrow> mach \<Rightarrow> files \<Rightarrow> string \<Rightarrow> object \<Rightarrow> (files \<times> nat) outcome" where
  "write_object e m fs file_name ob =
     (if \<not> fe_open e file_name then Inl (Exit 1)
      else
        (let tsize = min (fe_written e file_name (ob_size ob)) (ob_size ob);
             fs = fs(file_name \<mapsto> take tsize (rd (cur m) (ob_ptr ob) (ob_size ob)))
         in if tsize \<noteq> ob_size ob then Inl Assert_Failed else Inr (fs, tsize)))"

definition FileStore_put :: "fenv \<Rightarrow> mach \<Rightarrow> files \<Rightarrow> file_store \<Rightarrow> string \<Rightarrow> nat \<Rightarrow> (files \<times> nat) outcome" where
  "FileStore_put e m fs s key version =
     (let key = trim_right key in
      case map_find (fl_objectMap s) key of
        Some ob \<Rightarrow> write_object e m fs (version_file s key version) ob
      | None \<Rightarrow> Inr (fs, err_code ELEM_NOT_FOUND))"

fun put_files :: "fenv \<Rightarrow> mach \<Rightarrow> files \<Rightarrow> file_store \<Rightarrow> nat \<Rightarrow> (string, object) std_map \<Rightarrow>
    (files \<times> (string, object) std_map \<times> nat) outcome" where
  "put_files e m fs s total_size [] = Inr (fs, [], total_size)"
| "put_files e m fs s total_size ((key, ob) # om) =
     (let version = wadd (ob_version ob) 1 in
      bindO (write_object e m fs (snapshot_file s key version) ob) (\<lambda>(fs, tsize).
        bindO (put_files e m fs s (wadd total_size tsize) om) (\<lambda>(fs, om, total_size).
          Inr (fs, (key, setVersion version ob) # om, total_size))))"

definition FileStore_put_all :: "fenv \<Rightarrow> mach \<Rightarrow> files \<Rightarrow> file_store \<Rightarrow> (files \<times> file_store \<times> nat) outcome" where
  "FileStore_put_all e m fs s =
     bindO (put_files e m fs s 0 (fl_objectMap s)) (\<lambda>(fs, om, total_size). Inr (fs, s\<lparr>fl_objectMap := om\<rparr>, total_size))"

text \<open>Reading a whole file to an address.\<close>

definition read_file :: "fenv \<Rightarrow> mach \<Rightarrow> string \<Rightarrow> byte list \<Rightarrow> addr \<Rightarrow> mach outcome" where
  "read_file e m file_name contents a =
     (let filesize = length contents; tsize = min (fe_read e file_name filesize) filesize;
          m = stores m a (take tsize contents)
      in if tsize \<noteq> filesize then Inl Assert_Failed else Inr m)"

definition FileStore_get ::
    "fenv \<Rightarrow> mach \<Rightarrow> files \<Rightarrow> file_store \<Rightarrow> string \<Rightarrow> nat \<Rightarrow> addr \<Rightarrow> (mach \<times> ErrorCode) outcome" where
  "FileStore_get e m fs s key version a =
     (let key = trim_right key; file_name = version_file s key version in
      case fs file_name of
        None \<Rightarrow> Inr (m, ELEM_NOT_FOUND)
      | Some contents \<Rightarrow>
          if \<not> fe_open e file_name then Inr (m, ELEM_NOT_FOUND)
          else bindO (read_file e m file_name contents a) (\<lambda>m. Inr (m, NO_ERROR)))"

definition FileStore_get_with_malloc ::
    "bool \<Rightarrow> fenv \<Rightarrow> mach \<Rightarrow> files \<Rightarrow> file_store \<Rightarrow> string \<Rightarrow> nat \<Rightarrow> addr \<Rightarrow>
     (mach \<times> file_store \<times> ErrorCode \<times> addr option) outcome" where
  "FileStore_get_with_malloc delta_build e m fs s key version tmp_ptr =
     (let key = trim_right key; file_name = version_file s key version in
      case fs file_name of
        None \<Rightarrow> Inr (m, s, ELEM_NOT_FOUND, None)
      | Some contents \<Rightarrow>
          if \<not> fe_open e file_name then Inr (m, s, ELEM_NOT_FOUND, None)
          else
            (let ob = (case map_find (fl_objectMap s) key of
                         Some ob \<Rightarrow> ob
                       | None \<Rightarrow> Object_new delta_build key (length contents) version tmp_ptr);
                 s = s\<lparr>fl_objectMap := map_assign (fl_objectMap s) key (setVersion version ob)\<rparr>
             in bindO (read_file e m file_name contents (ob_ptr ob)) (\<lambda>m. Inr (m, s, NO_ERROR, Some (ob_ptr ob)))))"

definition FileStore_create_obj ::
    "bool \<Rightarrow> file_store \<Rightarrow> string \<Rightarrow> nat \<Rightarrow> addr \<Rightarrow> (file_store \<times> ErrorCode \<times> addr) outcome" where
  "FileStore_create_obj delta_build s key sz tmp_ptr =
     (let key = trim_right key; ob = Object_new delta_build key sz 0 tmp_ptr in
      case map_find (fl_objectMap s) key of
        None \<Rightarrow> Inr (s\<lparr>fl_objectMap := map_assign (fl_objectMap s) key ob\<rparr>, NO_ERROR, tmp_ptr)
      | Some _ \<Rightarrow> Inl (Exit 1))"

definition FileStore_free_obj :: "file_store \<Rightarrow> addr \<Rightarrow> (file_store \<times> ErrorCode) outcome" where
  "FileStore_free_obj s obj_addr =
     (case map_find (fl_addrMap s) obj_addr of
        None \<Rightarrow> Inl (Exit 1)
      | Some key \<Rightarrow>
          (case map_find (fl_objectMap s) key of
             None \<Rightarrow> Inl (Exit 1)
           | Some _ \<Rightarrow> Inl Undefined))"

subsection \<open>Behaviour when the file system does its part\<close>

definition fenv_fine :: "fenv \<Rightarrow> bool" where
  "fenv_fine e \<longleftrightarrow> (\<forall>f. fe_open e f) \<and> (\<forall>f n. fe_written e f n = n) \<and> (\<forall>f n. fe_read e f n = n)"

lemma write_object_fine:
  assumes "fenv_fine e"
  shows "write_object e m fs f ob = Inr (fs(f \<mapsto> rd (cur m) (ob_ptr ob) (ob_size ob)), ob_size ob)"
  using assms by (simp add: write_object_def fenv_fine_def Let_def)

lemma FileStore_put_fine:
  assumes "fenv_fine e" "map_find (fl_objectMap s) (trim_right key) = Some ob"
  shows "FileStore_put e m fs s key version =
    Inr (fs(version_file s (trim_right key) version \<mapsto> rd (cur m) (ob_ptr ob) (ob_size ob)), ob_size ob)"
  using assms by (simp add: FileStore_put_def write_object_fine Let_def)

lemma FileStore_get_fine:
  assumes "fenv_fine e"
  shows "FileStore_get e m fs s key version a =
    (case fs (version_file s (trim_right key) version) of
       None \<Rightarrow> Inr (m, ELEM_NOT_FOUND)
     | Some d \<Rightarrow> Inr (stores m a d, NO_ERROR))"
  using assms by (simp add: FileStore_get_def read_file_def fenv_fine_def Let_def split: option.split)

lemma put_files_fine:
  assumes "fenv_fine e"
  shows "\<exists>fs' total_size'. put_files e m fs s total_size om =
      Inr (fs', map (\<lambda>(k, ob). (k, setVersion (wadd (ob_version ob) 1) ob)) om, total_size') \<and>
    (\<forall>f. f \<notin> (\<lambda>(k, ob). snapshot_file s k (wadd (ob_version ob) 1)) ` set om \<longrightarrow> fs' f = fs f)"
proof (induction om arbitrary: fs total_size)
  case (Cons x om)
  obtain k ob where x: "x = (k, ob)" by (cases x)
  let ?fs = "fs(snapshot_file s k (wadd (ob_version ob) 1) \<mapsto> rd (cur m) (ob_ptr ob) (ob_size ob))"
  obtain fs' total_size' where "put_files e m ?fs s (wadd total_size (ob_size ob)) om =
      Inr (fs', map (\<lambda>(k, ob). (k, setVersion (wadd (ob_version ob) 1) ob)) om, total_size')"
    "\<forall>f. f \<notin> (\<lambda>(k, ob). snapshot_file s k (wadd (ob_version ob) 1)) ` set om \<longrightarrow> fs' f = ?fs f"
    using Cons.IH [of ?fs "wadd total_size (ob_size ob)"] by blast
  then show ?case using write_object_fine [OF assms] by (auto simp: x Let_def)
qed simp

subsection \<open>Properties\<close>

definition sample_fenv :: fenv where
  "sample_fenv = \<lparr>fe_open = (\<lambda>_. True), fe_written = (\<lambda>_ n. n), fe_read = (\<lambda>_ n. n)\<rparr>"

definition sample_fstore :: file_store where
  "sample_fstore = \<lparr>fl_build = TMPFS, fl_storeId = ''s'',
     fl_objectMap = [(''a'', Object_new False ''a'' 2 0 2048), (''a1'', Object_new False ''a1'' 2 0 2050)], fl_addrMap = []\<rparr>"

lemma sample_fenv_fine: "fenv_fine sample_fenv"
  by (simp add: fenv_fine_def sample_fenv_def)

text \<open>
  File names are ambiguous: the file of a version is the key and the version's digits written one
  after the other. If two keys and versions spell the same name, a \<open>put\<close> of the second replaces the
  first, and \<open>get\<close> of the first then returns the bytes of the other object.
\<close>

theorem FileStore_name_collision:
  assumes "fenv_fine e" "map_find (fl_objectMap s) k1 = Some o1" "map_find (fl_objectMap s) k2 = Some o2"
    "trim_right k1 = k1" "trim_right k2 = k2" "k1 @ to_string v1 = k2 @ to_string v2"
  shows "\<exists>fs1 fs2 m'. FileStore_put e m fs s k1 v1 = Inr (fs1, ob_size o1) \<and>
    FileStore_put e m fs1 s k2 v2 = Inr (fs2, ob_size o2) \<and>
    FileStore_get e m fs2 s k1 v1 a = Inr (m', NO_ERROR) \<and>
    rd (cur m') a (ob_size o2) = rd (cur m) (ob_ptr o2) (ob_size o2)"
  using assms by (simp add: FileStore_put_fine FileStore_get_fine version_file_def rd_stores)

theorem FileStore_name_collision_witness:
  "\<exists>fs1 fs2 m'. FileStore_put sample_fenv (quiescent (\<lambda>x. of_nat x) 1024) Map.empty sample_fstore ''a1'' 1 = Inr (fs1, 2) \<and>
    FileStore_put sample_fenv (quiescent (\<lambda>x. of_nat x) 1024) fs1 sample_fstore ''a'' 11 = Inr (fs2, 2) \<and>
    FileStore_get sample_fenv (quiescent (\<lambda>x. of_nat x) 1024) fs2 sample_fstore ''a1'' 1 4096 = Inr (m', NO_ERROR) \<and>
    rd (cur m') 4096 2 = rd (\<lambda>x. of_nat x) 2048 2"
proof -
  have "''a1'' @ to_string 1 = ''a'' @ to_string 11"
    by code_simp
  moreover have "trim_right ''a1'' = ''a1''" "trim_right ''a'' = ''a''"
    by (simp_all add: trim_right_def is_space_def)
  moreover have "map_find (fl_objectMap sample_fstore) ''a1'' = Some (Object_new False ''a1'' 2 0 2050)"
    "map_find (fl_objectMap sample_fstore) ''a'' = Some (Object_new False ''a'' 2 0 2048)"
    by (simp_all add: sample_fstore_def)
  moreover have "ob_size (Object_new False k 2 0 p) = 2" "ob_ptr (Object_new False k 2 0 p) = p" for k p
    by (simp_all add: Object_new_def)
  ultimately show ?thesis
    using FileStore_name_collision [OF sample_fenv_fine, of sample_fstore "''a1''" "Object_new False ''a1'' 2 0 2050" "''a''"
        "Object_new False ''a'' 2 0 2048" 1 11
        "quiescent (\<lambda>x. of_nat x) 1024" Map.empty 4096] by simp
qed

text \<open>
  Snapshots are not found: \<open>put_all\<close> puts an underscore between key and version, \<open>get\<close> and
  \<open>get_with_malloc\<close> do not. For a key without an underscore whose version had no file before,
  \<open>get\<close> after the snapshot answers \<open>ELEM_NOT_FOUND\<close>.
\<close>

theorem FileStore_snapshot_unreadable:
  assumes "fenv_fine e" "(key, ob) \<in> set (fl_objectMap s)" "trim_right key = key" "CHR ''_'' \<notin> set key"
    "fs (version_file s key (wadd (ob_version ob) 1)) = None"
  shows "\<exists>fs' s' n. FileStore_put_all e m fs s = Inr (fs', s', n) \<and>
    FileStore_get e m fs' s' key (wadd (ob_version ob) 1) a = Inr (m, ELEM_NOT_FOUND)"
proof -
  let ?v = "wadd (ob_version ob) 1" and ?g = "\<lambda>(k, ob). snapshot_file s k (wadd (ob_version ob) 1)"
  obtain fs' total_size where p: "put_files e m fs s 0 (fl_objectMap s) =
      Inr (fs', map (\<lambda>(k, ob). (k, setVersion (wadd (ob_version ob) 1) ob)) (fl_objectMap s), total_size)"
    "\<forall>f. f \<notin> ?g ` set (fl_objectMap s) \<longrightarrow> fs' f = fs f"
    using put_files_fine [OF assms(1), of m fs s 0 "fl_objectMap s"] by blast
  have "CHR ''_'' \<notin> set (to_string ?v)"
    using to_string_digits [of ?v] by (force simp: digit_val_def)
  then have "key @ to_string ?v \<noteq> k @ CHR ''_'' # x" for k x
    using assms(4) by (metis Un_iff in_set_conv_decomp set_append)
  then have "version_file s key ?v \<notin> ?g ` set (fl_objectMap s)"
    by (auto simp: version_file_def snapshot_file_def)
  then have "fs' (version_file s key ?v) = None" using p(2) assms(5) by simp
  then show ?thesis
    using p(1) assms(3) by (simp add: FileStore_put_all_def FileStore_get_fine [OF assms(1)] version_file_def)
qed

theorem FileStore_snapshot_unreadable_witness:
  "\<exists>fs' s' n. FileStore_put_all sample_fenv (quiescent (\<lambda>_. 0) 1024) Map.empty sample_fstore = Inr (fs', s', n) \<and>
    FileStore_get sample_fenv (quiescent (\<lambda>_. 0) 1024) fs' s' ''a'' 1 4096 = Inr (quiescent (\<lambda>_. 0) 1024, ELEM_NOT_FOUND)"
proof -
  have "(''a'', Object_new False ''a'' 2 0 2048) \<in> set (fl_objectMap sample_fstore)" "trim_right ''a'' = ''a''"
    "wadd (ob_version (Object_new False ''a'' 2 0 2048)) 1 = 1"
    by (simp_all add: sample_fstore_def trim_right_def is_space_def Object_new_def wadd_def)
  then show ?thesis
    using FileStore_snapshot_unreadable [OF sample_fenv_fine, of "''a''" _ sample_fstore Map.empty
        "quiescent (\<lambda>_. 0) 1024" 4096] by fastforce
qed

end
