(* ===== verification/Stores.thy ===== *)
theory Stores
  imports Delta_Store File_Store
begin

text \<open>
  \<open>nvs/store.h\<close> and its remaining implementations: the contract of a store as a locale, \<open>null_store.h\<close>,
  and \<open>timing_store.h\<close>, which wraps another store and measures its calls. What \<open>NVSStore\<close> and
  \<open>FileStore\<close> share is shown once, as interpretations of the contract, and the wrapper keeps it.
\<close>

subsection \<open>NullStore\<close>

record null_store =
  nl_storeId :: string

definition NullStore_new :: "string \<Rightarrow> null_store" where
  "NullStore_new storeId = \<lparr>nl_storeId = storeId\<rparr>"

definition NullStore_create_obj :: "null_store \<Rightarrow> string \<Rightarrow> nat \<Rightarrow> addr \<Rightarrow> null_store \<times> ErrorCode \<times> addr" where
  "NullStore_create_obj s key sz tmp_ptr = (s, NO_ERROR, tmp_ptr)"

definition NullStore_put :: "null_store \<Rightarrow> string \<Rightarrow> nat \<Rightarrow> null_store \<times> nat" where
  "NullStore_put s key version = (s, 0)"

definition NullStore_put_all :: "null_store \<Rightarrow> null_store \<times> nat" where
  "NullStore_put_all s = (s, 0)"

definition NullStore_get :: "mach \<Rightarrow> null_store \<Rightarrow> string \<Rightarrow> nat \<Rightarrow> addr \<Rightarrow> mach \<times> ErrorCode" where
  "NullStore_get m s key version obj_addr = (m, NO_ERROR)"

definition NullStore_free_obj :: "null_store \<Rightarrow> addr \<Rightarrow> null_store \<times> ErrorCode" where
  "NullStore_free_obj s obj_addr = (s, NO_ERROR)"

text \<open>\<open>get_with_malloc\<close> reports success and leaves the caller's pointer as it was.\<close>

definition NullStore_get_with_malloc :: "mach \<Rightarrow> null_store \<Rightarrow> string \<Rightarrow> nat \<Rightarrow> addr \<Rightarrow> mach \<times> ErrorCode \<times> addr" where
  "NullStore_get_with_malloc m s key version p = (m, NO_ERROR, p)"

definition NullStore_stats :: "null_store \<Rightarrow> null_store" where
  "NullStore_stats s = s"

definition NullStore_get_store_id :: "null_store \<Rightarrow> string" where
  "NullStore_get_store_id s = nl_storeId s"

subsection \<open>TimingStore\<close>

text \<open>\<open>rdtsc\<close> leaves the counter in two 32-bit registers.\<close>

definition read_tsc :: "nat \<Rightarrow> nat \<Rightarrow> nat" where
  "read_tsc a d = a OR push_bit 32 d"

record 'st timing_store =
  ts_store :: 'st
  ts_get_start :: nat
  ts_get_end :: nat
  ts_get_total :: nat
  ts_get_niterations :: nat
  ts_put_start :: nat
  ts_put_end :: nat
  ts_put_total :: nat
  ts_put_niterations :: nat
  ts_putall_start :: nat
  ts_putall_end :: nat
  ts_putall_total :: nat
  ts_putall_niterations :: nat
  ts_app_start :: nat
  ts_snap_time :: nat
  ts_app_end :: nat
  ts_vmap :: "(string, nat) std_map"
  ts_nmap :: "(string, nat) std_map"
  ts_plist :: "nat list"
  ts_tlist :: "nat list"
  ts_slist :: "nat list"
  ts_total_size :: nat

text \<open>The constructor; members it does not set keep what is in the memory, the argument \<open>raw\<close>.\<close>

definition TimingStore_new :: "'st timing_store \<Rightarrow> 'st \<Rightarrow> nat \<Rightarrow> 'st timing_store" where
  "TimingStore_new raw st now = raw\<lparr>ts_store := st, ts_get_niterations := 0, ts_get_total := 0,
     ts_put_niterations := 0, ts_put_total := 0, ts_putall_total := 0, ts_putall_niterations := 0,
     ts_total_size := 0, ts_snap_time := 0, ts_app_start := now, ts_vmap := [], ts_nmap := [],
     ts_plist := [], ts_tlist := [], ts_slist := []\<rparr>"

text \<open>
  The calls, over the corresponding operation of the store inside; \<open>t0\<close> and \<open>t1\<close> are the readings of
  the counter before and after it.
\<close>

definition TimingStore_get ::
    "('st \<Rightarrow> string \<Rightarrow> nat \<Rightarrow> addr \<Rightarrow> ('st \<times> ErrorCode) outcome option) \<Rightarrow> nat \<Rightarrow> nat \<Rightarrow>
     'st timing_store \<Rightarrow> string \<Rightarrow> nat \<Rightarrow> addr \<Rightarrow> ('st timing_store \<times> ErrorCode) outcome option" where
  "TimingStore_get get t0 t1 ts key version obj_addr =
     map_option (\<lambda>r. bindO r (\<lambda>(st, ret).
       Inr (ts\<lparr>ts_store := st, ts_get_start := t0, ts_get_end := t1,
               ts_get_total := wadd (ts_get_total ts) (wsub t1 t0),
               ts_get_niterations := wadd (ts_get_niterations ts) 1\<rparr>, ret)))
     (get (ts_store ts) key version obj_addr)"

definition TimingStore_get_with_malloc ::
    "('st \<Rightarrow> string \<Rightarrow> nat \<Rightarrow> ('st \<times> ErrorCode \<times> addr option) outcome option) \<Rightarrow> nat \<Rightarrow> nat \<Rightarrow>
     'st timing_store \<Rightarrow> string \<Rightarrow> nat \<Rightarrow> ('st timing_store \<times> ErrorCode \<times> addr option) outcome option" where
  "TimingStore_get_with_malloc get t0 t1 ts key version =
     (let key = trim_right key; get_tmp = wsub t1 t0 in
      map_option (\<lambda>r. bindO r (\<lambda>(st, ret, a).
        let ts = ts\<lparr>ts_store := st, ts_get_start := t0, ts_get_end := t1\<rparr> in
        Inr (case map_find (ts_vmap ts) key of
               Some x \<Rightarrow>
                 ts\<lparr>ts_vmap := map_assign (ts_vmap ts) key (wadd x get_tmp),
                    ts_nmap := map_assign (ts_nmap ts) key
                      (wadd (case map_find (ts_nmap ts) key of Some n \<Rightarrow> n | None \<Rightarrow> 0) 1)\<rparr>
             | None \<Rightarrow>
                 ts\<lparr>ts_vmap := map_assign (ts_vmap ts) key get_tmp, ts_nmap := map_assign (ts_nmap ts) key 1\<rparr>,
             ret, a)))
      (get (ts_store ts) key version))"

definition TimingStore_create_obj ::
    "('st \<Rightarrow> string \<Rightarrow> nat \<Rightarrow> ('st \<times> ErrorCode \<times> addr) outcome) \<Rightarrow>
     'st timing_store \<Rightarrow> string \<Rightarrow> nat \<Rightarrow> ('st timing_store \<times> ErrorCode \<times> addr) outcome" where
  "TimingStore_create_obj create ts key sz =
     bindO (create (ts_store ts) (trim_right key) sz) (\<lambda>(st, ret, a).
       Inr (ts\<lparr>ts_store := st, ts_total_size := wadd (ts_total_size ts) sz\<rparr>, ret, a))"

definition TimingStore_free_obj ::
    "('st \<Rightarrow> addr \<Rightarrow> ('st \<times> ErrorCode) outcome) \<Rightarrow> 'st timing_store \<Rightarrow> addr \<Rightarrow> ('st timing_store \<times> ErrorCode) outcome" where
  "TimingStore_free_obj free ts obj_addr =
     bindO (free (ts_store ts) obj_addr) (\<lambda>(st, ret). Inr (ts\<lparr>ts_store := st\<rparr>, ret))"

definition TimingStore_put ::
    "('st \<Rightarrow> string \<Rightarrow> nat \<Rightarrow> ('st \<times> nat) outcome) \<Rightarrow> nat \<Rightarrow> nat \<Rightarrow>
     'st timing_store \<Rightarrow> string \<Rightarrow> nat \<Rightarrow> ('st timing_store \<times> nat) outcome" where
  "TimingStore_put put t0 t1 ts key version =
     bindO (put (ts_store ts) key version) (\<lambda>(st, ret).
       Inr (ts\<lparr>ts_store := st, ts_put_start := t0, ts_put_end := t1,
               ts_put_total := wadd (ts_put_total ts) (wsub t1 t0),
               ts_put_niterations := wadd (ts_put_niterations ts) 1\<rparr>, ret))"

definition TimingStore_put_all ::
    "('st \<Rightarrow> ('st \<times> nat) outcome) \<Rightarrow> nat \<Rightarrow> nat \<Rightarrow> 'st timing_store \<Rightarrow> ('st timing_store \<times> nat) outcome" where
  "TimingStore_put_all put_all t0 t1 ts =
     bindO (put_all (ts_store ts)) (\<lambda>(st, ret).
       let temp = wsub t1 t0;
           iter_time = (if ts_snap_time ts = 0 then wsub t1 (ts_app_start ts) else wsub t1 (ts_snap_time ts))
       in Inr (ts\<lparr>ts_store := st, ts_putall_start := t0, ts_putall_end := t1, ts_snap_time := t1,
                  ts_plist := ts_plist ts @ [temp], ts_slist := ts_slist ts @ [ret], ts_tlist := ts_tlist ts @ [iter_time],
                  ts_putall_total := wadd (ts_putall_total ts) temp,
                  ts_putall_niterations := wadd (ts_putall_niterations ts) 1\<rparr>, ret))"

text \<open>
  \<open>stats\<close>: the identifier is parsed again, and the loop over the two maps ends the process when their
  keys differ. The formatting of the times is not modelled.
\<close>

fun stats_loop :: "(string, nat) std_map \<Rightarrow> (string, nat) std_map \<Rightarrow> (string \<times> nat \<times> nat) list outcome" where
  "stats_loop ((k, v) # vs) ((l, n) # ns) =
     (if k \<noteq> l then Inl (Exit (- 1)) else bindO (stats_loop vs ns) (\<lambda>r. Inr ((k, v, n) # r)))"
| "stats_loop _ _ = Inr []"

definition TimingStore_stats ::
    "('st \<Rightarrow> string) \<Rightarrow> nat \<Rightarrow> 'st timing_store \<Rightarrow> ('st timing_store \<times> string \<times> (string \<times> nat \<times> nat) list) outcome" where
  "TimingStore_stats get_store_id now ts =
     bindO (stoi (after_slash (get_store_id (ts_store ts)))) (\<lambda>logId.
       bindO (stats_loop (ts_vmap ts) (ts_nmap ts)) (\<lambda>rows.
         Inr (ts\<lparr>ts_app_end := now\<rparr>, ''stats/store_'' @ to_string (nat (logId mod 2 ^ 64)) @ ''.txt'', rows)))"

subsection \<open>The contract of a store\<close>

text \<open>
  The stored contents are a map from names to bytes, where \<open>name\<close> says under which name a key and
  version are kept. \<open>put\<close> of an object that fits, under a new name, adds its bytes; \<open>get\<close> answers
  from the map.
\<close>

locale versioned_store =
  fixes holds :: "'st \<Rightarrow> ('n \<Rightarrow> byte list option) \<Rightarrow> bool"
    and name :: "string \<Rightarrow> nat \<Rightarrow> 'n"
    and put :: "'st \<Rightarrow> string \<Rightarrow> nat \<Rightarrow> ('st \<times> nat) outcome"
    and get :: "'st \<Rightarrow> string \<Rightarrow> nat \<Rightarrow> addr \<Rightarrow> ('st \<times> ErrorCode) outcome option"
    and obj :: "'st \<Rightarrow> string \<Rightarrow> byte list option"
    and fits :: "'st \<Rightarrow> string \<Rightarrow> bool"
    and bytes :: "'st \<Rightarrow> addr \<Rightarrow> nat \<Rightarrow> byte list"
  assumes put_law: "holds st c \<Longrightarrow> obj st k = Some d \<Longrightarrow> fits st k \<Longrightarrow> v < 2 ^ 64 \<Longrightarrow> c (name k v) = None \<Longrightarrow>
      \<exists>st' r. put st k v = Inr (st', r) \<and> holds st' (c(name k v \<mapsto> d)) \<and> obj st' = obj st"
    and get_found: "holds st c \<Longrightarrow> c (name k v) = Some d \<Longrightarrow>
      \<exists>st'. get st k v a = Some (Inr (st', NO_ERROR)) \<and> bytes st' a (length d) = d"
    and get_missing: "holds st c \<Longrightarrow> c (name k v) = None \<Longrightarrow>
      \<exists>st' e. get st k v a = Some (Inr (st', e)) \<and> e \<noteq> NO_ERROR \<and> holds st' c \<and> obj st' = obj st"
begin

lemma put_get:
  assumes "holds st c" "obj st k = Some d" "fits st k" "v < 2 ^ 64" "c (name k v) = None"
  shows "\<exists>st' r st''. put st k v = Inr (st', r) \<and> get st' k v a = Some (Inr (st'', NO_ERROR)) \<and>
    bytes st'' a (length d) = d"
proof -
  obtain st' r where p: "put st k v = Inr (st', r)" "holds st' (c(name k v \<mapsto> d))"
    using put_law [OF assms] by blast
  then show ?thesis using get_found [OF p(2), of k v d a] by auto
qed

lemma put_keeps:
  assumes "holds st c" "obj st k = Some d" "fits st k" "v < 2 ^ 64" "c (name k v) = None" "c (name k' v') = Some d'"
  shows "\<exists>st' r st''. put st k v = Inr (st', r) \<and> get st' k' v' a = Some (Inr (st'', NO_ERROR)) \<and>
    bytes st'' a (length d') = d'"
proof -
  obtain st' r where p: "put st k v = Inr (st', r)" "holds st' (c(name k v \<mapsto> d))"
    using put_law [OF assms(1-5)] by blast
  have "name k' v' \<noteq> name k v" using assms(5,6) by auto
  then show ?thesis using get_found [OF p(2), of k' v' d' a] p(1) assms(6) by auto
qed

end

text \<open>Whatever the readings of the counter, the timing wrapper of a store keeps the contract.\<close>

locale inner_store = versioned_store +
  fixes t0 t1 :: nat

sublocale inner_store \<subseteq> timed: versioned_store "\<lambda>ts. holds (ts_store ts)" name "TimingStore_put put t0 t1"
  "TimingStore_get get t0 t1" "\<lambda>ts. obj (ts_store ts)" "\<lambda>ts. fits (ts_store ts)" "\<lambda>ts. bytes (ts_store ts)"
proof
  fix ts :: "'a timing_store" and c k d v
  assume "holds (ts_store ts) c" "obj (ts_store ts) k = Some d" "fits (ts_store ts) k" "v < 2 ^ 64" "c (name k v) = None"
  from put_law [OF this] obtain st' r where "put (ts_store ts) k v = Inr (st', r)"
    "holds st' (c(name k v \<mapsto> d))" "obj st' = obj (ts_store ts)" by blast
  then show "\<exists>ts' r. TimingStore_put put t0 t1 ts k v = Inr (ts', r) \<and> holds (ts_store ts') (c(name k v \<mapsto> d)) \<and>
      obj (ts_store ts') = obj (ts_store ts)"
    by (simp add: TimingStore_put_def)
next
  fix ts :: "'a timing_store" and c k v d a
  assume "holds (ts_store ts) c" "c (name k v) = Some d"
  from get_found [OF this, of a] show "\<exists>ts'. TimingStore_get get t0 t1 ts k v a = Some (Inr (ts', NO_ERROR)) \<and>
      bytes (ts_store ts') a (length d) = d"
    by (auto simp: TimingStore_get_def)
next
  fix ts :: "'a timing_store" and c k v a
  assume "holds (ts_store ts) c" "c (name k v) = None"
  from get_missing [OF this, of a] show "\<exists>ts' e. TimingStore_get get t0 t1 ts k v a = Some (Inr (ts', e)) \<and> e \<noteq> NO_ERROR \<and>
      holds (ts_store ts') c \<and> obj (ts_store ts') = obj (ts_store ts)"
    by (auto simp: TimingStore_get_def)
qed

subsection \<open>NVSStore keeps the contract\<close>

text \<open>
  The state of a call: the process, the store and the garbage in the struct \<open>walkentry\<close>. Items are named
  by the key cut to 19 bytes and the version.
\<close>

type_synonym nvs_state = "world \<times> nvs_store \<times> walkentry"

definition nvs_holds :: "nvs_state \<Rightarrow> (byte list \<times> nat \<Rightarrow> byte list option) \<Rightarrow> bool" where
  "nvs_holds st c \<longleftrightarrow> (case st of (w, s, we) \<Rightarrow>
     length (we_key we) = KEY_LEN \<and> (\<exists>cs. store_ok w s cs \<and> (\<forall>k v. c (k, v) = lookup cs k v)))"

definition nvs_name :: "string \<Rightarrow> nat \<Rightarrow> byte list \<times> nat" where
  "nvs_name key version = (stored_key key, version)"

definition nvs_put :: "libpmem \<Rightarrow> nvs_state \<Rightarrow> string \<Rightarrow> nat \<Rightarrow> (nvs_state \<times> nat) outcome" where
  "nvs_put c st key version = (case st of (w, s, we) \<Rightarrow>
     bindO (NVSStore_put c w s key version) (\<lambda>(w, s, r). Inr ((w, s, we), r)))"

definition nvs_get :: "nvs_state \<Rightarrow> string \<Rightarrow> nat \<Rightarrow> addr \<Rightarrow> (nvs_state \<times> ErrorCode) outcome option" where
  "nvs_get st key version a = (case st of (w, s, we) \<Rightarrow>
     map_option (\<lambda>r. bindO r (\<lambda>(w, e). Inr ((w, s, we), e))) (NVSStore_get w s we key version a))"

definition nvs_obj :: "nvs_state \<Rightarrow> string \<Rightarrow> byte list option" where
  "nvs_obj st key = (case st of (w, s, we) \<Rightarrow>
     map_option (\<lambda>ob. rd (cur (w_mach w)) (ob_ptr ob) (ob_size ob)) (map_find (ns_objectMap s) key))"

definition nvs_fits :: "nvs_state \<Rightarrow> string \<Rightarrow> bool" where
  "nvs_fits st key = (case st of (w, s, we) \<Rightarrow>
     (case map_find (ns_objectMap s) key of None \<Rightarrow> False | Some ob \<Rightarrow> put_fits w s ob))"

definition nvs_bytes :: "nvs_state \<Rightarrow> addr \<Rightarrow> nat \<Rightarrow> byte list" where
  "nvs_bytes st a n = rd (cur (w_mach (fst st))) a n"

text \<open>A \<open>put\<close> leaves the bytes of all objects alone.\<close>

lemma nvs_put_obj:
  assumes "store_ok w s cs" "map_find (ns_objectMap s) key = Some ob"
    "touches (w_mach w) (w_mach w') ({sp (w_mach w)..<sp (w_mach w) + 152} \<union> log_range (store_log_of w s))"
    "s' = s\<lparr>ns_objectMap := map_assign (ns_objectMap s) key (setVersion version ob)\<rparr>"
  shows "nvs_obj (w', s', we) = nvs_obj (w, s, we)"
proof
  fix k
  have wf: "map_wf (ns_objectMap s)" by (rule store_okD(5) [OF assms(1)])
  have same: "rd (cur (w_mach w')) (ob_ptr o1) (ob_size o1) = rd (cur (w_mach w)) (ob_ptr o1) (ob_size o1)"
    if "map_find (ns_objectMap s) l = Some o1" for l o1
  proof -
    have "(l, o1) \<in> set (ns_objectMap s)" using that wf by (simp add: map_find_items)
    from put_frame(2) [OF assms(1) this] show ?thesis by (intro rd_touches [OF assms(3)]) blast
  qed
  show "nvs_obj (w', s', we) k = nvs_obj (w, s, we) k"
    using same assms(2) wf
    by (cases "map_find (ns_objectMap s) k") (auto simp: nvs_obj_def assms(4) map_find_assign setVersion_def)
qed

interpretation nvs: inner_store nvs_holds nvs_name "nvs_put c" nvs_get nvs_obj nvs_fits nvs_bytes t0 t1
  for c :: libpmem and t0 t1 :: nat
proof
  fix st ct k d v
  assume h: "nvs_holds st ct" and o: "nvs_obj st k = Some d" and f: "nvs_fits st k" and v: "v < 2 ^ 64"
    and n: "ct (nvs_name k v) = None"
  obtain w s we where st: "st = (w, s, we)" by (cases st)
  obtain cs where cs: "store_ok w s cs" "\<And>k v. ct (k, v) = lookup cs k v" "length (we_key we) = KEY_LEN"
    using h by (auto simp: nvs_holds_def st)
  obtain ob where ob: "map_find (ns_objectMap s) k = Some ob" "d = rd (cur (w_mach w)) (ob_ptr ob) (ob_size ob)"
    "put_fits w s ob"
    using o f by (auto simp: nvs_obj_def nvs_fits_def st)
  have nm: "ob_name ob = k" using store_okD(5,6) [OF cs(1)] ob(1) by (simp add: map_find_items)
  obtain w' s' where p: "NVSStore_put c w s k v = Inr (w', s', 0)" "store_ok w' s' (cs @ [put_chunk w s ob v])"
    "s' = s\<lparr>ns_objectMap := map_assign (ns_objectMap s) k (setVersion v ob)\<rparr>"
    "touches (w_mach w) (w_mach w') ({sp (w_mach w)..<sp (w_mach w) + 152} \<union> log_range (store_log_of w s))"
    using put_ok [OF cs(1) ob(1) v ob(3), of c] by blast
  have "(ct(nvs_name k v \<mapsto> d)) (k', v') = lookup (cs @ [put_chunk w s ob v]) k' v'" for k' v'
    using n cs(2) by (auto simp: nvs_name_def lookup_append put_chunk_def nm ob(2) split: option.split)
  then have "nvs_holds (w', s', we) (ct(nvs_name k v \<mapsto> d))"
    using p(2) cs(3) by (auto simp: nvs_holds_def)
  moreover have "nvs_obj (w', s', we) = nvs_obj st"
    unfolding st by (rule nvs_put_obj [OF cs(1) ob(1) p(4,3)])
  ultimately show "\<exists>st' r. nvs_put c st k v = Inr (st', r) \<and> nvs_holds st' (ct(nvs_name k v \<mapsto> d)) \<and> nvs_obj st' = nvs_obj st"
    using p(1) by (intro exI [of _ "(w', s', we)"] exI [of _ 0]) (simp add: nvs_put_def st)
next
  fix st ct k v d a
  assume h: "nvs_holds st ct" and n: "ct (nvs_name k v) = Some d"
  obtain w s we where st: "st = (w, s, we)" by (cases st)
  obtain cs where cs: "store_ok w s cs" "\<And>k v. ct (k, v) = lookup cs k v" "length (we_key we) = KEY_LEN"
    using h by (auto simp: nvs_holds_def st)
  have "lookup cs (stored_key k) v = Some d" using n cs(2) by (simp add: nvs_name_def)
  then show "\<exists>st'. nvs_get st k v a = Some (Inr (st', NO_ERROR)) \<and> nvs_bytes st' a (length d) = d"
    using get_ok [OF cs(1,3), of k v a] by (auto simp: nvs_get_def nvs_bytes_def st)
next
  fix st ct k v a
  assume h: "nvs_holds st ct" and n: "ct (nvs_name k v) = None"
  obtain w s we where st: "st = (w, s, we)" by (cases st)
  obtain cs where cs: "store_ok w s cs" "\<And>k v. ct (k, v) = lookup cs k v" "length (we_key we) = KEY_LEN"
    using h by (auto simp: nvs_holds_def st)
  have "lookup cs (stored_key k) v = None" using n cs(2) by (simp add: nvs_name_def)
  then have "nvs_get st k v a = Some (Inr (st, ID_NOT_FOUND))"
    using get_ok [OF cs(1,3), of k v a] by (simp add: nvs_get_def st)
  then show "\<exists>st' e. nvs_get st k v a = Some (Inr (st', e)) \<and> e \<noteq> NO_ERROR \<and> nvs_holds st' ct \<and> nvs_obj st' = nvs_obj st"
    using h by auto
qed

subsection \<open>FileStore keeps the contract\<close>

type_synonym fls_state = "fenv \<times> mach \<times> files \<times> file_store"

definition fls_name :: "string \<Rightarrow> nat \<Rightarrow> string" where
  "fls_name key version = trim_right key @ to_string version"

definition fls_holds :: "fls_state \<Rightarrow> (string \<Rightarrow> byte list option) \<Rightarrow> bool" where
  "fls_holds st c \<longleftrightarrow> (case st of (e, m, fs, s) \<Rightarrow> fenv_fine e \<and>
     (\<forall>n. c n = fs (ROOT_FILE_PATH (fl_build s) @ ''/'' @ fl_storeId s @ ''/'' @ n)))"

definition fls_put :: "fls_state \<Rightarrow> string \<Rightarrow> nat \<Rightarrow> (fls_state \<times> nat) outcome" where
  "fls_put st key version = (case st of (e, m, fs, s) \<Rightarrow>
     bindO (FileStore_put e m fs s key version) (\<lambda>(fs, r). Inr ((e, m, fs, s), r)))"

definition fls_get :: "fls_state \<Rightarrow> string \<Rightarrow> nat \<Rightarrow> addr \<Rightarrow> (fls_state \<times> ErrorCode) outcome option" where
  "fls_get st key version a = (case st of (e, m, fs, s) \<Rightarrow>
     Some (bindO (FileStore_get e m fs s key version a) (\<lambda>(m, err). Inr ((e, m, fs, s), err))))"

definition fls_obj :: "fls_state \<Rightarrow> string \<Rightarrow> byte list option" where
  "fls_obj st key = (case st of (e, m, fs, s) \<Rightarrow>
     map_option (\<lambda>ob. rd (cur m) (ob_ptr ob) (ob_size ob)) (map_find (fl_objectMap s) (trim_right key)))"

definition fls_bytes :: "fls_state \<Rightarrow> addr \<Rightarrow> nat \<Rightarrow> byte list" where
  "fls_bytes st a n = (case st of (e, m, fs, s) \<Rightarrow> rd (cur m) a n)"

interpretation fls: inner_store fls_holds fls_name fls_put fls_get fls_obj "\<lambda>_ _. True" fls_bytes t0 t1
  for t0 t1 :: nat
proof
  fix st ct k d v
  assume h: "fls_holds st ct" and o: "fls_obj st k = Some d"
  obtain e m fs s where st: "st = (e, m, fs, s)" by (cases st)
  have e: "fenv_fine e" using h by (simp add: fls_holds_def st)
  obtain ob where ob: "map_find (fl_objectMap s) (trim_right k) = Some ob" "d = rd (cur m) (ob_ptr ob) (ob_size ob)"
    using o by (auto simp: fls_obj_def st)
  let ?fs = "fs(version_file s (trim_right k) v \<mapsto> d)"
  have "fls_put st k v = Inr ((e, m, ?fs, s), ob_size ob)"
    using FileStore_put_fine [OF e ob(1), of m fs v] ob(2) by (simp add: fls_put_def st)
  moreover have "fls_holds (e, m, ?fs, s) (ct(fls_name k v \<mapsto> d))"
    using h by (auto simp: fls_holds_def st fls_name_def version_file_def)
  moreover have "fls_obj (e, m, ?fs, s) = fls_obj st" by (auto simp: fls_obj_def st)
  ultimately show "\<exists>st' r. fls_put st k v = Inr (st', r) \<and> fls_holds st' (ct(fls_name k v \<mapsto> d)) \<and> fls_obj st' = fls_obj st"
    by blast
next
  fix st ct k v d a
  assume h: "fls_holds st ct" and n: "ct (fls_name k v) = Some d"
  obtain e m fs s where st: "st = (e, m, fs, s)" by (cases st)
  have "fenv_fine e" "fs (version_file s (trim_right k) v) = Some d"
    using h n by (auto simp: fls_holds_def st fls_name_def version_file_def)
  then show "\<exists>st'. fls_get st k v a = Some (Inr (st', NO_ERROR)) \<and> fls_bytes st' a (length d) = d"
    by (simp add: fls_get_def st FileStore_get_fine fls_bytes_def rd_stores)
next
  fix st ct k v a
  assume h: "fls_holds st ct" and n: "ct (fls_name k v) = None"
  obtain e m fs s where st: "st = (e, m, fs, s)" by (cases st)
  have "fenv_fine e" "fs (version_file s (trim_right k) v) = None"
    using h n by (auto simp: fls_holds_def st fls_name_def version_file_def)
  then have "fls_get st k v a = Some (Inr (st, ELEM_NOT_FOUND))"
    by (simp add: fls_get_def st FileStore_get_fine)
  then show "\<exists>st' er. fls_get st k v a = Some (Inr (st', er)) \<and> er \<noteq> NO_ERROR \<and> fls_holds st' ct \<and> fls_obj st' = fls_obj st"
    using h by auto
qed

subsection \<open>StoreManager\<close>

text \<open>
  Which store \<open>GetInstance\<close> makes is a matter of the build: the kind, and whether it is wrapped. Later
  calls return the first store, whatever path they ask for.
\<close>

datatype store_build = FILE_STORE | DELTA_STORE | NULL_STORE | NVS_STORE

datatype base_store = Nvs nvs_store | Delta delta_store | File file_store | Null null_store

datatype store_obj = Plain base_store | Timing "base_store timing_store"

record sm_env =
  se_osd1 :: osd
  se_osd2 :: osd
  se_osd3 :: osd
  se_sigaction :: bool
  se_pages :: page_table
  se_build :: file_build
  se_exists :: "string \<Rightarrow> bool"
  se_created :: "string \<Rightarrow> bool"
  se_raw :: "base_store timing_store"
  se_now :: nat

definition make_base :: "store_build \<Rightarrow> sm_env \<Rightarrow> world \<Rightarrow> string \<Rightarrow> (world \<times> base_store) outcome" where
  "make_base b e w storePath =
     (case b of
        FILE_STORE \<Rightarrow> bindO (FileStore_new (se_build e) storePath (se_exists e) (se_created e)) (\<lambda>s. Inr (w, File s))
      | DELTA_STORE \<Rightarrow>
          bindO (DeltaStore_new (se_osd1 e) (se_osd2 e) (se_osd3 e) (se_sigaction e) (se_pages e) w storePath)
            (\<lambda>(w, s). Inr (w, Delta s))
      | NULL_STORE \<Rightarrow> Inr (w, Null (NullStore_new storePath))
      | NVS_STORE \<Rightarrow>
          bindO (NVSStore_new (se_osd1 e) (se_osd2 e) (se_osd3 e) w storePath) (\<lambda>(w, s). Inr (w, Nvs s)))"

definition StoreManager_GetInstance ::
    "store_build \<Rightarrow> bool \<Rightarrow> sm_env \<Rightarrow> world \<Rightarrow> store_obj option \<Rightarrow> string \<Rightarrow> (world \<times> store_obj option \<times> store_obj) outcome" where
  "StoreManager_GetInstance b timing e w inst storePath =
     (case inst of
        Some tmp \<Rightarrow> Inr (w, inst, tmp)
      | None \<Rightarrow>
          bindO (make_base b e w storePath) (\<lambda>(w, base).
            let tmp = (if timing then Timing (TimingStore_new (se_raw e) base (se_now e)) else Plain base)
            in Inr (w, Some tmp, tmp)))"

subsection \<open>Properties\<close>

definition sample_raw :: "'st \<Rightarrow> 'st timing_store" where
  "sample_raw st = \<lparr>ts_store = st, ts_get_start = 0, ts_get_end = 0, ts_get_total = 0, ts_get_niterations = 0,
     ts_put_start = 0, ts_put_end = 0, ts_put_total = 0, ts_put_niterations = 0, ts_putall_start = 0, ts_putall_end = 0,
     ts_putall_total = 0, ts_putall_niterations = 0, ts_app_start = 0, ts_snap_time = 0, ts_app_end = 0, ts_vmap = [],
     ts_nmap = [], ts_plist = [], ts_tlist = [], ts_slist = [], ts_total_size = 0\<rparr>"

definition sample_nvs_state :: nvs_state where
  "sample_nvs_state = (sample_sworld, sample_store, sample_we)"

lemma sample_nvs_holds:
  "nvs_holds sample_nvs_state (\<lambda>_. None)" "nvs_fits sample_nvs_state ''x''" "nvs_obj sample_nvs_state ''x'' = Some (replicate 4 0)"
proof -
  have "store_ok sample_sworld sample_store [] \<and> (\<forall>k v. None = lookup [] k v)" using sample_store_ok(1) by simp
  then show "nvs_holds sample_nvs_state (\<lambda>_. None)"
    using sample_store_ok(3) unfolding nvs_holds_def sample_nvs_state_def by auto
  show "nvs_fits sample_nvs_state ''x''"
    using sample_put_fits by (simp add: nvs_fits_def sample_nvs_state_def)
  have "ob_ptr (Object_new False ''x'' 4 0 2048) = 2048" "ob_size (Object_new False ''x'' 4 0 2048) = 4"
    by (simp_all add: Object_new_def)
  then show "nvs_obj sample_nvs_state ''x'' = Some (replicate 4 0)"
    using sample_put_fits(1) sample_object_bytes by (simp add: nvs_obj_def sample_nvs_state_def)
qed

text \<open>
  The store of the default build, \<open>NVSStore\<close> inside \<open>TimingStore\<close>: whatever the clock reads, a \<open>put\<close> of
  an object that fits under a new key and version, followed by \<open>get\<close>, gives back its bytes; the counter
  of \<open>put\<close> calls goes up by one.
\<close>

theorem timed_nvs_put_get:
  assumes "nvs_holds (ts_store ts) ct" "nvs_obj (ts_store ts) k = Some d" "nvs_fits (ts_store ts) k" "v < 2 ^ 64"
    "ct (stored_key k, v) = None"
  shows "\<exists>ts' r ts''. TimingStore_put (nvs_put c) t0 t1 ts k v = Inr (ts', r) \<and>
    ts_put_niterations ts' = wadd (ts_put_niterations ts) 1 \<and>
    TimingStore_get nvs_get t2 t3 ts' k v a = Some (Inr (ts'', NO_ERROR)) \<and> nvs_bytes (ts_store ts'') a (length d) = d"
proof -
  have n: "ct (nvs_name k v) = None" using assms(5) by (simp add: nvs_name_def)
  obtain ts' r where p: "TimingStore_put (nvs_put c) t0 t1 ts k v = Inr (ts', r)"
    "nvs_holds (ts_store ts') (ct(nvs_name k v \<mapsto> d))"
    using nvs.timed.put_law [OF assms(1-4) n, of c t0 t1] by blast
  moreover have "ts_put_niterations ts' = wadd (ts_put_niterations ts) 1"
    using p(1) by (auto simp: TimingStore_put_def)
  ultimately show ?thesis using nvs.timed.get_found [OF p(2), of k v d t2 t3 a] by auto
qed

theorem timed_nvs_put_get_witness:
  "\<exists>ts' r ts''. TimingStore_put (nvs_put sample_lib) 5 9 (sample_raw sample_nvs_state) ''x'' 3 = Inr (ts', r) \<and>
    TimingStore_get nvs_get 11 12 ts' ''x'' 3 3000 = Some (Inr (ts'', NO_ERROR)) \<and>
    nvs_bytes (ts_store ts'') 3000 4 = replicate 4 0"
proof -
  have s: "ts_store (sample_raw sample_nvs_state) = sample_nvs_state" by (simp add: sample_raw_def)
  note H = timed_nvs_put_get [of "sample_raw sample_nvs_state" "\<lambda>_. None" "''x''" "replicate 4 0" 3 sample_lib 5 9 11 12 3000,
      unfolded s, OF sample_nvs_holds(1,3,2)]
  then show ?thesis by auto
qed

text \<open>The statistics are consistent: the two maps have the same keys, the three lists the same length.\<close>

definition timing_ok :: "'st timing_store \<Rightarrow> bool" where
  "timing_ok ts \<longleftrightarrow> map_wf (ts_vmap ts) \<and> map_wf (ts_nmap ts) \<and> map fst (ts_vmap ts) = map fst (ts_nmap ts) \<and>
     length (ts_plist ts) = length (ts_slist ts) \<and> length (ts_tlist ts) = length (ts_slist ts)"

lemma stats_loop_ok: "map fst vs = map fst ns \<Longrightarrow> \<exists>rows. stats_loop vs ns = Inr rows \<and> length rows = length vs"
  by (induction vs ns rule: stats_loop.induct) auto

lemma map_assign_same_keys:
  "map fst vs = map fst ns \<Longrightarrow> map fst (map_assign vs k x) = map fst (map_assign ns k y)"
proof (induction vs arbitrary: ns)
  case (Cons v vs)
  then show ?case by (cases v; cases ns; cases "hd ns") auto
qed simp

lemma timing_ok_get_with_malloc:
  assumes "timing_ok ts" "TimingStore_get_with_malloc g t0 t1 ts key version = Some (Inr (ts', r, a))"
  shows "timing_ok ts'"
  using assms
  by (auto simp: TimingStore_get_with_malloc_def timing_ok_def Let_def map_assign_wf
      split: option.splits intro!: map_assign_same_keys)

text \<open>
  Every operation of the timing store keeps its statistics consistent, from the constructor on, so the
  loop of \<open>stats\<close> never meets two different keys and its \<open>exit(-1)\<close> is not reached.
\<close>

theorem timing_statistics_consistent:
  assumes "timing_ok ts"
  shows "timing_ok (TimingStore_new raw st now) \<and>
    (\<forall>ts' r a. TimingStore_get_with_malloc g t0 t1 ts key v = Some (Inr (ts', r, a)) \<longrightarrow> timing_ok ts') \<and>
    (\<forall>ts' r. TimingStore_put_all pa t0 t1 ts = Inr (ts', r) \<longrightarrow> timing_ok ts') \<and>
    (\<forall>ts' r. TimingStore_put p t0 t1 ts key v = Inr (ts', r) \<longrightarrow> timing_ok ts') \<and>
    (\<exists>rows. stats_loop (ts_vmap ts) (ts_nmap ts) = Inr rows \<and> length rows = length (ts_vmap ts))"
proof (intro conjI allI impI)
  show "timing_ok (TimingStore_new raw st now)" by (simp add: timing_ok_def TimingStore_new_def map_wf_def)
  show "timing_ok ts'" if "TimingStore_get_with_malloc g t0 t1 ts key v = Some (Inr (ts', r, a))" for ts' r a
    by (rule timing_ok_get_with_malloc [OF assms that])
  show "timing_ok ts'" if "TimingStore_put_all pa t0 t1 ts = Inr (ts', r)" for ts' r
    using assms that by (auto simp: TimingStore_put_all_def timing_ok_def Let_def)
  show "timing_ok ts'" if "TimingStore_put p t0 t1 ts key v = Inr (ts', r)" for ts' r
    using assms that by (auto simp: TimingStore_put_def timing_ok_def)
  show "\<exists>rows. stats_loop (ts_vmap ts) (ts_nmap ts) = Inr rows \<and> length rows = length (ts_vmap ts)"
    using assms by (intro stats_loop_ok) (simp add: timing_ok_def)
qed

theorem timing_statistics_consistent_witness:
  "timing_ok (TimingStore_new (sample_raw (0 :: nat)) 1 7) \<and>
   stats_loop (ts_vmap (sample_raw (0 :: nat))) (ts_nmap (sample_raw (0 :: nat))) = Inr []"
proof -
  have "timing_ok (sample_raw (0 :: nat))" by (simp add: timing_ok_def sample_raw_def map_wf_def)
  note T = timing_statistics_consistent [OF this, of "sample_raw 0" 1 7 "\<lambda>_ _ _. None" 0 0 "''k''" 0 "\<lambda>_. Inl Undefined"
      "\<lambda>_ _ _. Inl Undefined"]
  have "timing_ok (TimingStore_new (sample_raw (0 :: nat)) 1 7)"
    "\<exists>rows. stats_loop (ts_vmap (sample_raw (0 :: nat))) (ts_nmap (sample_raw (0 :: nat))) = Inr rows \<and>
       length rows = length (ts_vmap (sample_raw (0 :: nat)))"
    using T by blast+
  then show ?thesis by (auto simp: sample_raw_def)
qed

end
