(* ===== verification/Singleton.thy ===== *)
theory Singleton
  imports Main
begin

text \<open>
  The singletons \<open>MemoryManager::GetInstance\<close> and \<open>StoreManager::GetInstance\<close>: both are the same double-checked
  lock. Threads interleave between the accesses to the shared pointer and the mutex; the fences of the
  source make the relaxed accesses to the pointer behave as here, in one order for all threads.
\<close>

text \<open>
  Where a thread is: before the first load, waiting for the mutex, after the lock, inside the
  constructor, about to publish the new object, about to unlock, or returned with a pointer.
\<close>

datatype gi_pc = Start | Want_Lock | Has_Lock | Constructing | Publishing nat | Unlocking nat | Returned nat

record gi_state =
  instance_ptr :: "nat option"
  mutex_owner :: "nat option"
  objects_made :: nat
  thread_pc :: "nat \<Rightarrow> gi_pc"

definition goto_pc :: "gi_state \<Rightarrow> nat \<Rightarrow> gi_pc \<Rightarrow> gi_state" where
  "goto_pc s i p = s\<lparr>thread_pc := (thread_pc s)(i := p)\<rparr>"

inductive gi_step :: "nat \<Rightarrow> gi_state \<Rightarrow> gi_state \<Rightarrow> bool" for i where
  load_hit: "thread_pc s i = Start \<Longrightarrow> instance_ptr s = Some x \<Longrightarrow> gi_step i s (goto_pc s i (Returned x))"
| load_miss: "thread_pc s i = Start \<Longrightarrow> instance_ptr s = None \<Longrightarrow> gi_step i s (goto_pc s i Want_Lock)"
| acquire: "thread_pc s i = Want_Lock \<Longrightarrow> mutex_owner s = None \<Longrightarrow>
    gi_step i s (goto_pc (s\<lparr>mutex_owner := Some i\<rparr>) i Has_Lock)"
| reload_hit: "thread_pc s i = Has_Lock \<Longrightarrow> instance_ptr s = Some x \<Longrightarrow> gi_step i s (goto_pc s i (Unlocking x))"
| reload_miss: "thread_pc s i = Has_Lock \<Longrightarrow> instance_ptr s = None \<Longrightarrow> gi_step i s (goto_pc s i Constructing)"
| construct: "thread_pc s i = Constructing \<Longrightarrow>
    gi_step i s (goto_pc (s\<lparr>objects_made := objects_made s + 1\<rparr>) i (Publishing (objects_made s)))"
| publish: "thread_pc s i = Publishing x \<Longrightarrow> gi_step i s (goto_pc (s\<lparr>instance_ptr := Some x\<rparr>) i (Unlocking x))"
| release: "thread_pc s i = Unlocking x \<Longrightarrow> gi_step i s (goto_pc (s\<lparr>mutex_owner := None\<rparr>) i (Returned x))"

definition gi_init :: gi_state where
  "gi_init = \<lparr>instance_ptr = None, mutex_owner = None, objects_made = 0, thread_pc = (\<lambda>_. Start)\<rparr>"

inductive gi_run :: "nat list \<Rightarrow> gi_state \<Rightarrow> bool" where
  gi_start: "gi_run [] gi_init"
| gi_next: "gi_run is s \<Longrightarrow> gi_step i s s' \<Longrightarrow> gi_run (is @ [i]) s'"

subsection \<open>Invariant\<close>

fun in_section :: "gi_pc \<Rightarrow> bool" where
  "in_section Has_Lock = True"
| "in_section Constructing = True"
| "in_section (Publishing x) = True"
| "in_section (Unlocking x) = True"
| "in_section _ = False"

text \<open>
  A thread is between lock and unlock exactly when it owns the mutex; the object is made once, by the
  thread that found none; every pointer around is that object.
\<close>

definition gi_inv :: "gi_state \<Rightarrow> bool" where
  "gi_inv s \<longleftrightarrow>
     (\<forall>i. in_section (thread_pc s i) \<longleftrightarrow> mutex_owner s = Some i) \<and>
     objects_made s = (if instance_ptr s \<noteq> None \<or> (\<exists>i. thread_pc s i = Publishing 0) then 1 else 0) \<and>
     (\<forall>x. instance_ptr s = Some x \<longrightarrow> x = 0) \<and>
     (\<forall>i. (thread_pc s i = Constructing \<longrightarrow> instance_ptr s = None) \<and>
          (\<forall>x. thread_pc s i = Publishing x \<longrightarrow> x = 0 \<and> instance_ptr s = None) \<and>
          (\<forall>x. thread_pc s i = Unlocking x \<or> thread_pc s i = Returned x \<longrightarrow> instance_ptr s = Some x))"

lemma gi_invD:
  assumes "gi_inv s"
  shows "in_section (thread_pc s i) \<longleftrightarrow> mutex_owner s = Some i"
    "objects_made s = (if instance_ptr s \<noteq> None \<or> (\<exists>i. thread_pc s i = Publishing 0) then 1 else 0)"
    "instance_ptr s = Some x \<Longrightarrow> x = 0"
    "thread_pc s i = Constructing \<Longrightarrow> instance_ptr s = None"
    "thread_pc s i = Publishing x \<Longrightarrow> x = 0 \<and> instance_ptr s = None"
    "thread_pc s i = Unlocking x \<Longrightarrow> instance_ptr s = Some x" "thread_pc s i = Returned x \<Longrightarrow> instance_ptr s = Some x"
  using assms unfolding gi_inv_def by blast+

lemma gi_inv_init: "gi_inv gi_init"
  by (simp add: gi_inv_def gi_init_def)

text \<open>The mutex excludes: what the owner does, no other thread is doing.\<close>

lemma only_owner:
  assumes "gi_inv s" "in_section (thread_pc s i)" "j \<noteq> i"
  shows "\<not> in_section (thread_pc s j)"
  using gi_invD(1) [OF assms(1)] assms(2,3) by simp

lemma only_owner_pc:
  assumes "gi_inv s" "in_section (thread_pc s i)" "j \<noteq> i"
  shows "thread_pc s j \<noteq> Constructing" "thread_pc s j \<noteq> Publishing x" "thread_pc s j \<noteq> Unlocking x"
    "thread_pc s j \<noteq> Has_Lock"
  using only_owner [OF assms] by auto

text \<open>A step that changes neither the pointer nor the number of objects, and no publisher.\<close>

lemma gi_inv_move:
  assumes inv: "gi_inv s" and p: "\<And>x. p \<noteq> Publishing x" "\<And>x. thread_pc s i \<noteq> Publishing x"
    and own: "\<And>j. in_section (((thread_pc s)(i := p)) j) \<longleftrightarrow> ow = Some j"
    and c: "p = Constructing \<Longrightarrow> instance_ptr s = None"
    and r: "\<And>x. p = Unlocking x \<Longrightarrow> instance_ptr s = Some x" "\<And>x. p = Returned x \<Longrightarrow> instance_ptr s = Some x"
  shows "gi_inv (goto_pc (s\<lparr>mutex_owner := ow\<rparr>) i p)"
proof -
  have "(\<exists>j. ((thread_pc s)(i := p)) j = Publishing 0) \<longleftrightarrow> (\<exists>j. thread_pc s j = Publishing 0)"
    using p by (metis fun_upd_apply)
  then show ?thesis
    using own c r p gi_invD [OF inv] unfolding gi_inv_def goto_pc_def by auto
qed

lemma gi_inv_step: "gi_step i s s' \<Longrightarrow> gi_inv s \<Longrightarrow> gi_inv s'"
proof (induction rule: gi_step.induct)
  case (load_hit s x)
  have "gi_inv (goto_pc (s\<lparr>mutex_owner := mutex_owner s\<rparr>) i (Returned x))"
    using load_hit gi_invD(1) [OF load_hit(3), of i] gi_invD(1) [OF load_hit(3)] by (intro gi_inv_move) auto
  then show ?case by (simp add: goto_pc_def)
next
  case (load_miss s)
  have "gi_inv (goto_pc (s\<lparr>mutex_owner := mutex_owner s\<rparr>) i Want_Lock)"
    using load_miss gi_invD(1) [OF load_miss(3), of i] gi_invD(1) [OF load_miss(3)] by (intro gi_inv_move) auto
  then show ?case by (simp add: goto_pc_def)
next
  case (acquire s)
  then show ?case using gi_invD(1) [OF acquire(3)] by (intro gi_inv_move) auto
next
  case (reload_hit s x)
  have "gi_inv (goto_pc (s\<lparr>mutex_owner := mutex_owner s\<rparr>) i (Unlocking x))"
    using reload_hit gi_invD(1) [OF reload_hit(3), of i] gi_invD(1) [OF reload_hit(3)]
    by (intro gi_inv_move) auto
  then show ?case by (simp add: goto_pc_def)
next
  case (reload_miss s)
  have "gi_inv (goto_pc (s\<lparr>mutex_owner := mutex_owner s\<rparr>) i Constructing)"
    using reload_miss gi_invD(1) [OF reload_miss(3), of i] gi_invD(1) [OF reload_miss(3)]
    by (intro gi_inv_move) auto
  then show ?case by (simp add: goto_pc_def)
next
  case (construct s)
  note D = gi_invD [OF construct(2)]
  have o: "mutex_owner s = Some i" using D(1) [of i] construct(1) by simp
  have n: "instance_ptr s = None" using D(4) construct(1) by blast
  have np: "thread_pc s j \<noteq> Publishing x" for j x
    using only_owner_pc(2) [OF construct(2), of i j x] construct(1) by (cases "j = i") auto
  then have z: "objects_made s = 0" using D(2) n by simp
  show ?case
    using D(1) D(6,7) o n np unfolding gi_inv_def goto_pc_def z by auto
next
  case (publish s x)
  note D = gi_invD [OF publish(2)]
  have o: "mutex_owner s = Some i" using D(1) [of i] publish(1) by simp
  have x: "x = 0" "instance_ptr s = None" using D(5) publish(1) by blast+
  have np: "thread_pc s j \<noteq> Publishing y" "thread_pc s j \<noteq> Constructing" if "j \<noteq> i" for j y
    using only_owner_pc [OF publish(2) _ that] publish(1) by auto
  have z: "objects_made s = 1" using D(2) publish(1) x by auto
  have nr: "thread_pc s j \<noteq> Returned y" "thread_pc s j \<noteq> Unlocking y" for j y using D(6,7) [of j y] x by auto
  show ?case
    using D(1) o x np nr unfolding gi_inv_def goto_pc_def by (auto simp: z)
next
  case (release s x)
  then show ?case
    using gi_invD(1) [OF release(2), of i] gi_invD(1) [OF release(2)] gi_invD(6) [OF release(2), of i]
    by (intro gi_inv_move) auto
qed

lemma gi_run_inv: "gi_run is s \<Longrightarrow> gi_inv s"
  by (induction rule: gi_run.induct) (auto intro: gi_inv_init gi_inv_step)

subsection \<open>Progress\<close>

text \<open>Steps still to make; every step lowers the number of the thread that makes it.\<close>

fun gi_left :: "gi_pc \<Rightarrow> nat" where
  "gi_left Start = 6"
| "gi_left Want_Lock = 5"
| "gi_left Has_Lock = 4"
| "gi_left Constructing = 3"
| "gi_left (Publishing x) = 2"
| "gi_left (Unlocking x) = 1"
| "gi_left (Returned x) = 0"

lemma gi_step_left: "gi_step i s s' \<Longrightarrow>
   gi_left (thread_pc s' i) < gi_left (thread_pc s i) \<and> (\<forall>j. j \<noteq> i \<longrightarrow> thread_pc s' j = thread_pc s j)"
  by (induction rule: gi_step.induct) (auto simp: goto_pc_def)

lemma gi_enabled:
  assumes "\<And>y. thread_pc s j \<noteq> Returned y" "thread_pc s j = Want_Lock \<Longrightarrow> mutex_owner s = None"
  shows "\<exists>s'. gi_step j s s'"
proof (cases "thread_pc s j")
  case Start
  then show ?thesis using load_hit [of s j] load_miss [of s j] by (cases "instance_ptr s") blast+
next
  case Want_Lock
  then show ?thesis using acquire [OF Want_Lock assms(2) [OF Want_Lock]] by blast
next
  case Has_Lock
  then show ?thesis using reload_hit [of s j] reload_miss [of s j] by (cases "instance_ptr s") blast+
next
  case Constructing
  then show ?thesis using construct [of s j] by blast
next
  case (Publishing x)
  then show ?thesis using publish [of s j x] by blast
next
  case (Unlocking x)
  then show ?thesis using release [of s j x] by blast
next
  case (Returned x)
  then show ?thesis using assms(1) by blast
qed

lemma gi_can_step:
  assumes "gi_inv s" "\<And>y. thread_pc s i \<noteq> Returned y"
  shows "\<exists>j s'. gi_step j s s' \<and> (j = i \<or> in_section (thread_pc s j))"
proof (cases "mutex_owner s")
  case None
  then show ?thesis using gi_enabled [of s i] assms(2) by blast
next
  case (Some j)
  then have j: "in_section (thread_pc s j)" using gi_invD(1) [OF assms(1)] by simp
  then have "thread_pc s j \<noteq> Returned y" "thread_pc s j \<noteq> Want_Lock" for y by auto
  then show ?thesis using gi_enabled [of s j] j by blast
qed

lemma gi_run_others: "gi_run is s \<Longrightarrow> j \<notin> set is \<Longrightarrow> thread_pc s j = Start"
proof (induction rule: gi_run.induct)
  case (gi_next "is" s i s')
  then show ?case using gi_step_left [OF gi_next.hyps(2)] by auto
qed (simp add: gi_init_def)

text \<open>A run of \<open>n\<close> threads has at most six steps for each.\<close>

lemma gi_run_bound:
  "gi_run is s \<Longrightarrow> set is \<subseteq> {..<n} \<Longrightarrow> length is + (\<Sum>i<n. gi_left (thread_pc s i)) \<le> 6 * n"
proof (induction rule: gi_run.induct)
  case gi_start
  then show ?case by (simp add: gi_init_def)
next
  case (gi_next "is" s i s')
  have i: "i \<in> {..<n}" using gi_next.prems by simp
  note L = gi_step_left [OF gi_next.hyps(2)]
  have "(\<Sum>i<n. gi_left (thread_pc s' i)) < (\<Sum>i<n. gi_left (thread_pc s i))"
  proof (rule sum_strict_mono_ex1)
    show "\<forall>j \<in> {..<n}. gi_left (thread_pc s' j) \<le> gi_left (thread_pc s j)"
    proof
      fix j show "gi_left (thread_pc s' j) \<le> gi_left (thread_pc s j)" using L by (cases "j = i") auto
    qed
    show "\<exists>j \<in> {..<n}. gi_left (thread_pc s' j) < gi_left (thread_pc s j)" using L i by blast
  qed simp
  then show ?case using gi_next by simp
qed

subsection \<open>Properties\<close>

text \<open>
  C34. In every interleaving of any number of threads, \<open>GetInstance\<close> constructs at most one object, and every
  thread that has returned got a pointer to it.
\<close>

theorem GetInstance_unique:
  assumes "gi_run is s"
  shows "objects_made s \<le> 1 \<and> (\<forall>i x. thread_pc s i = Returned x \<longrightarrow> x = 0 \<and> objects_made s = 1)"
proof -
  note D = gi_invD [OF gi_run_inv [OF assms]]
  have "x = 0 \<and> objects_made s = 1" if "thread_pc s i = Returned x" for i x
    using D(2) D(3) D(7) [of i x] that by simp
  then show ?thesis using D(2) by auto
qed

definition sample_gi :: gi_state where
  "sample_gi = \<lparr>instance_ptr = None, mutex_owner = Some 1, objects_made = 0,
     thread_pc = (\<lambda>_. Start)(0 := Want_Lock, 1 := Has_Lock)\<rparr>"

lemma sample_gi_run: "gi_run [0, 1, 1] sample_gi"
proof -
  let ?s1 = "goto_pc gi_init 0 Want_Lock"
  let ?s2 = "goto_pc ?s1 1 Want_Lock"
  have "gi_run [0] ?s1" using gi_next [OF gi_start load_miss [of gi_init 0]] by (simp add: gi_init_def)
  from gi_next [OF this load_miss [of ?s1 1]] have "gi_run [0, 1] ?s2" by (simp add: gi_init_def goto_pc_def)
  from gi_next [OF this acquire [of ?s2 1]] show ?thesis
    by (simp add: gi_init_def goto_pc_def sample_gi_def fun_upd_twist)
qed

lemma sample_gi_race: "\<exists>s. gi_run [0, 1, 1, 1, 1, 1, 1, 0, 0, 0] s \<and> thread_pc s 0 = Returned 0 \<and> thread_pc s 1 = Returned 0"
proof -
  let ?s1 = "goto_pc gi_init 0 Want_Lock" let ?s2 = "goto_pc ?s1 1 Want_Lock"
  let ?s3 = "goto_pc (?s2\<lparr>mutex_owner := Some 1\<rparr>) 1 Has_Lock" let ?s4 = "goto_pc ?s3 1 Constructing"
  let ?s5 = "goto_pc (?s4\<lparr>objects_made := objects_made ?s4 + 1\<rparr>) 1 (Publishing (objects_made ?s4))"
  let ?s6 = "goto_pc (?s5\<lparr>instance_ptr := Some 0\<rparr>) 1 (Unlocking 0)" let ?s7 = "goto_pc (?s6\<lparr>mutex_owner := None\<rparr>) 1 (Returned 0)"
  let ?s8 = "goto_pc (?s7\<lparr>mutex_owner := Some 0\<rparr>) 0 Has_Lock" let ?s9 = "goto_pc ?s8 0 (Unlocking 0)"
  let ?s10 = "goto_pc (?s9\<lparr>mutex_owner := None\<rparr>) 0 (Returned 0)"
  note d = gi_init_def goto_pc_def
  have 1: "gi_run ([] @ [0]) ?s1" by (rule gi_next [OF gi_start load_miss]) (simp_all add: d)
  have 2: "gi_run (([] @ [0]) @ [1]) ?s2" by (rule gi_next [OF 1 load_miss]) (simp_all add: d)
  have 3: "gi_run ((([] @ [0]) @ [1]) @ [1]) ?s3" by (rule gi_next [OF 2 acquire]) (simp_all add: d)
  have 4: "gi_run (((([] @ [0]) @ [1]) @ [1]) @ [1]) ?s4" by (rule gi_next [OF 3 reload_miss]) (simp_all add: d)
  have 5: "gi_run ((((([] @ [0]) @ [1]) @ [1]) @ [1]) @ [1]) ?s5" by (rule gi_next [OF 4 construct]) (simp_all add: d)
  have 6: "gi_run (((((([] @ [0]) @ [1]) @ [1]) @ [1]) @ [1]) @ [1]) ?s6" by (rule gi_next [OF 5 publish]) (simp_all add: d)
  have 7: "gi_run ((((((([] @ [0]) @ [1]) @ [1]) @ [1]) @ [1]) @ [1]) @ [1]) ?s7" by (rule gi_next [OF 6 release]) (simp_all add: d)
  have 8: "gi_run (((((((([] @ [0]) @ [1]) @ [1]) @ [1]) @ [1]) @ [1]) @ [1]) @ [0]) ?s8" by (rule gi_next [OF 7 acquire]) (simp_all add: d)
  have 9: "gi_run ((((((((([] @ [0]) @ [1]) @ [1]) @ [1]) @ [1]) @ [1]) @ [1]) @ [0]) @ [0]) ?s9" by (rule gi_next [OF 8 reload_hit]) (simp_all add: d)
  have 10: "gi_run (((((((((([] @ [0]) @ [1]) @ [1]) @ [1]) @ [1]) @ [1]) @ [1]) @ [0]) @ [0]) @ [0]) ?s10" by (rule gi_next [OF 9 release]) (simp_all add: d)
  then show ?thesis by (intro exI [of _ ?s10]) (simp add: d)
qed

theorem GetInstance_unique_witness:
  "\<exists>s. gi_run [0, 1, 1, 1, 1, 1, 1, 0, 0, 0] s \<and> thread_pc s 0 = Returned 0 \<and> thread_pc s 1 = Returned 0 \<and>
     objects_made s = 1"
proof -
  obtain s where s: "gi_run [0, 1, 1, 1, 1, 1, 1, 0, 0, 0] s" "thread_pc s 0 = Returned 0" "thread_pc s 1 = Returned 0"
    using sample_gi_race by blast
  then show ?thesis using GetInstance_unique [OF s(1)] by blast
qed

text \<open>
  C35. No schedule of \<open>n\<close> threads gets stuck or runs forever: after at most \<open>6 n\<close> steps none is possible,
  and as long as one of them has not returned, one of them can make a step.
\<close>

theorem GetInstance_progress:
  assumes "gi_run is s" "set is \<subseteq> {..<n}"
  shows "length is \<le> 6 * n \<and>
    ((\<exists>i<n. \<forall>x. thread_pc s i \<noteq> Returned x) \<longrightarrow> (\<exists>j<n. \<exists>s'. gi_step j s s' \<and> gi_run (is @ [j]) s'))"
proof (intro conjI impI)
  show "length is \<le> 6 * n" using gi_run_bound [OF assms] by linarith
  assume "\<exists>i<n. \<forall>x. thread_pc s i \<noteq> Returned x"
  then obtain i j s' where i: "i < n" and st: "gi_step j s s'" "j = i \<or> in_section (thread_pc s j)"
    using gi_can_step [OF gi_run_inv [OF assms(1)]] by meson
  have "j < n"
  proof (cases "j = i")
    case False
    then have "j \<in> set is" using st(2) gi_run_others [OF assms(1), of j] by force
    then show ?thesis using assms(2) by blast
  qed (use i in simp)
  then show "\<exists>j<n. \<exists>s'. gi_step j s s' \<and> gi_run (is @ [j]) s'" using st(1) gi_next [OF assms(1)] by blast
qed

theorem GetInstance_progress_witness:
  "gi_run [0, 1, 1] sample_gi \<and> (\<exists>j s'. gi_step j sample_gi s' \<and> gi_run [0, 1, 1, j] s')"
proof -
  have "\<exists>i<2. \<forall>x. thread_pc sample_gi i \<noteq> Returned x" by (intro exI [of _ 0]) (simp add: sample_gi_def)
  then show ?thesis using GetInstance_progress [OF sample_gi_run, of 2] sample_gi_run by auto
qed

end
