(* ===== verification/Fio_Crc.thy ===== *)
theory Fio_Crc
  imports Main "HOL-Library.Word"
begin

text \<open>
  The cyclic redundancy checks of fio, \<open>fio/crc/crc7.c\<close>, \<open>crc16.c\<close>, \<open>crc32.c\<close>, \<open>crc32c.c\<close> and \<open>crc64.c\<close>, which its
  verify mode stores with every block. Each is a table of 256 entries and a loop over the bytes of a
  buffer. The reference is the division of polynomials over GF(2), bit by bit: \<open>rstep\<close> for the
  reflected checks (least significant bit first) and \<open>fstep\<close> for the others. The locales hold the
  theory of a table-driven check; the five checks interpret them with the tables of the source.
\<close>

unbundle bit_operations_syntax

subsection \<open>Words and bytes\<close>

text \<open>A load of several bytes on the little-endian machines the program runs on, and the bytes of a word.\<close>

fun le_word :: "8 word list \<Rightarrow> 'w :: len word" where
  "le_word [] = 0"
| "le_word (b # bs) = ucast b OR push_bit 8 (le_word bs)"

fun le_bytes :: "nat \<Rightarrow> 'w :: len word \<Rightarrow> 8 word list" where
  "le_bytes 0 w = []"
| "le_bytes (Suc n) w = ucast w # le_bytes n (drop_bit 8 w)"

lemma le_word_bound: "bit (le_word bs :: 'w :: len word) i \<Longrightarrow> i < 8 * length bs"
proof (induction bs arbitrary: i)
  case (Cons b bs)
  have "i - 8 < 8 * length bs" if "bit (le_word bs :: 'w word) (i - 8)" using Cons.IH that .
  then show ?case using Cons.prems bit_imp_le_length [of b i]
    by (auto simp: bit_or_iff bit_push_bit_iff bit_ucast_iff)
qed simp

lemma le_bytes_word: "8 * length bs \<le> LENGTH('w) \<Longrightarrow> le_bytes (length bs) (le_word bs :: 'w :: len word) = bs"
proof (induction bs)
  case (Cons b bs)
  let ?w = "le_word bs :: 'w word"
  have "ucast (ucast b OR push_bit 8 ?w) = b"
    by (rule bit_word_eqI) (use Cons.prems in \<open>auto simp: bit_ucast_iff bit_or_iff bit_push_bit_iff\<close>)
  moreover have "drop_bit 8 (ucast b OR push_bit 8 ?w) = ?w"
  proof (rule bit_word_eqI)
    fix n assume "n < LENGTH('w)"
    show "bit (drop_bit 8 (ucast b OR push_bit 8 ?w)) n = bit ?w n"
      using le_word_bound [of bs n, where 'w = 'w] Cons.prems bit_imp_le_length [of b "8 + n"]
      by (auto simp: bit_drop_bit_eq bit_or_iff bit_push_bit_iff bit_ucast_iff)
  qed
  ultimately show ?case using Cons by simp
qed simp

subsection \<open>Bit-serial references\<close>

definition rstep :: "'w :: len word \<Rightarrow> 'w word \<Rightarrow> 'w word" where
  "rstep poly c = drop_bit 1 c XOR (if bit c 0 then poly else 0)"

definition fstep :: "'w :: len word \<Rightarrow> 'w word \<Rightarrow> 'w word" where
  "fstep poly c = push_bit 1 c XOR (if bit c (LENGTH('w) - 1) then poly else 0)"

definition rstep8 :: "'w :: len word \<Rightarrow> 'w word \<Rightarrow> 'w word" where
  "rstep8 poly = rstep poly ^^ 8"

definition fstep8 :: "'w :: len word \<Rightarrow> 'w word \<Rightarrow> 'w word" where
  "fstep8 poly = fstep poly ^^ 8"

text \<open>One byte of the message enters at the low end, or at the high end.\<close>

definition rcrc_byte :: "'w :: len word \<Rightarrow> 'w word \<Rightarrow> 8 word \<Rightarrow> 'w word" where
  "rcrc_byte poly c b = rstep8 poly (c XOR ucast b)"

definition fcrc_byte :: "'w :: len word \<Rightarrow> 'w word \<Rightarrow> 8 word \<Rightarrow> 'w word" where
  "fcrc_byte poly c b = fstep8 poly (c XOR push_bit (LENGTH('w) - 8) (ucast b))"

subsection \<open>Linearity\<close>

lemma bit_xor_word: "bit (a XOR b) n \<longleftrightarrow> bit a n \<noteq> bit b n" for a b :: "'w :: len word"
  by (simp add: bit_xor_iff)

lemma rstep_xor: "rstep poly (x XOR y) = rstep poly x XOR rstep poly y"
  by (cases "bit x 0"; cases "bit y 0") (simp_all add: rstep_def bit_xor_word drop_bit_xor ac_simps)

lemma fstep_xor: "fstep poly (x XOR y) = fstep poly x XOR fstep poly y" for x y :: "'w :: len word"
  by (cases "bit x (LENGTH('w) - 1)"; cases "bit y (LENGTH('w) - 1)")
    (simp_all add: fstep_def bit_xor_word push_bit_xor ac_simps)

lemma rsteps_xor: "(rstep poly ^^ n) (x XOR y) = (rstep poly ^^ n) x XOR (rstep poly ^^ n) y"
  by (induction n) (simp_all add: rstep_xor)

lemma fsteps_xor: "(fstep poly ^^ n) (x XOR y) = (fstep poly ^^ n) x XOR (fstep poly ^^ n) y"
  by (induction n) (simp_all add: fstep_xor)

lemma rstep8_xor: "rstep8 poly (x XOR y) = rstep8 poly x XOR rstep8 poly y"
  by (simp add: rstep8_def rsteps_xor)

lemma fstep8_xor: "fstep8 poly (x XOR y) = fstep8 poly x XOR fstep8 poly y"
  by (simp add: fstep8_def fsteps_xor)

subsection \<open>Shifts of clear bits\<close>

lemma rsteps_clear: "take_bit n c = 0 \<Longrightarrow> (rstep poly ^^ n) c = drop_bit n c"
proof (induction n arbitrary: c)
  case (Suc n)
  have "bit (take_bit (Suc n) c) i = bit 0 i" for i using Suc.prems by simp
  then have low: "\<not> bit c i" if "i < Suc n" for i using that by (simp add: bit_take_bit_iff)
  then have s: "rstep poly c = drop_bit 1 c" by (simp add: rstep_def)
  have "take_bit n (drop_bit 1 c) = 0"
    by (rule bit_eqI) (use low in \<open>auto simp: bit_take_bit_iff bit_drop_bit_eq\<close>)
  from Suc.IH [OF this] show ?case by (simp add: s funpow_Suc_right del: funpow.simps(2))
qed simp

lemma bit_push1: "bit (push_bit 1 c) i \<longleftrightarrow> 0 < i \<and> i < LENGTH('w) \<and> bit c (i - 1)" for c :: "'w :: len word"
  by (simp only: bit_push_bit_iff) (auto dest: bit_imp_le_length)

lemma xor_cancel: "c XOR a = c XOR b \<longleftrightarrow> a = b" for a :: "'w :: len word"
  by (metis xor.assoc xor_self_eq xor.left_neutral)

lemma fsteps_clear:
  fixes c :: "'w :: len word"
  shows "n \<le> LENGTH('w) \<Longrightarrow> drop_bit (LENGTH('w) - n) c = 0 \<Longrightarrow> (fstep poly ^^ n) c = push_bit n c"
proof (induction n arbitrary: c)
  case (Suc n)
  have "bit (drop_bit (LENGTH('w) - Suc n) c) i = bit 0 i" for i using Suc.prems(2) by simp
  then have hi: "\<not> bit c (LENGTH('w) - Suc n + i)" for i by (simp add: bit_drop_bit_eq)
  then have top: "\<not> bit c i" if "LENGTH('w) - Suc n \<le> i" for i using that by (metis le_add_diff_inverse)
  then have s: "fstep poly c = push_bit 1 c" by (simp add: fstep_def)
  have "\<not> bit (push_bit 1 c) (LENGTH('w) - n + i)" for i
    unfolding bit_push1 using top [of "LENGTH('w) - n + i - 1"] Suc.prems(1) by auto
  then have "drop_bit (LENGTH('w) - n) (push_bit 1 c) = 0"
    by (intro bit_eqI) (simp only: bit_drop_bit_eq comp_apply bit_0_eq bot_apply, simp)
  from Suc.IH [OF _ this] Suc.prems(1) show ?case
    by (simp add: s funpow_Suc_right push_bit_push_bit del: funpow.simps(2) push_bit_of_1)
qed simp

subsection \<open>Injectivity\<close>

text \<open>With the leading bit of the polynomial set, a step can be undone: the bit that left shows there.\<close>

lemma rstep_inj:
  fixes x y poly :: "'w :: len word"
  assumes "bit poly (LENGTH('w) - 1)" "rstep poly x = rstep poly y"
  shows "x = y"
proof -
  have t: "bit (rstep poly z) (LENGTH('w) - 1) \<longleftrightarrow> bit z 0" for z :: "'w word"
    using assms(1) by (auto simp: rstep_def bit_xor_word bit_drop_bit_eq dest: bit_imp_le_length)
  then have z: "bit x 0 \<longleftrightarrow> bit y 0" using assms(2) by metis
  then have "drop_bit 1 x = drop_bit 1 y" using assms(2) by (cases "bit x 0") (simp_all add: rstep_def xor.commute [of _ poly] xor_cancel)
  then have "bit x (Suc n) \<longleftrightarrow> bit y (Suc n)" for n by (metis bit_drop_bit_eq comp_apply plus_1_eq_Suc)
  then show ?thesis using z by (intro bit_eqI) (metis not0_implies_Suc)
qed

lemma fstep_inj:
  fixes x y poly :: "'w :: len word"
  assumes "bit poly 0" "fstep poly x = fstep poly y"
  shows "x = y"
proof -
  have t: "bit (fstep poly z) 0 \<longleftrightarrow> bit z (LENGTH('w) - 1)" for z :: "'w word"
    using assms(1) by (simp only: fstep_def bit_xor_word bit_push1) simp
  then have z: "bit x (LENGTH('w) - 1) \<longleftrightarrow> bit y (LENGTH('w) - 1)" using assms(2) by metis
  then have p: "push_bit 1 x = push_bit 1 y"
    using assms(2) by (cases "bit x (LENGTH('w) - 1)") (simp_all add: fstep_def xor.commute [of _ poly] xor_cancel)
  have "bit x n \<longleftrightarrow> bit y n" if "n < LENGTH('w) - 1" for n
  proof -
    have "bit (push_bit 1 x) (Suc n) \<longleftrightarrow> bit (push_bit 1 y) (Suc n)" using p by simp
    then show ?thesis using that by (simp only: bit_push1) auto
  qed
  moreover have "bit x n \<longleftrightarrow> bit y n" if "\<not> n < LENGTH('w) - 1" "n < LENGTH('w)" for n
    using z that by (metis One_nat_def Suc_pred len_gt_0 less_antisym)
  ultimately show ?thesis by (intro bit_word_eqI) blast
qed

lemma funpow_inj: "(f ^^ n) x = (f ^^ n) y \<Longrightarrow> x = y" if inj: "\<And>x y. f x = f y \<Longrightarrow> x = y" for f :: "'a \<Rightarrow> 'a"
proof (induction n arbitrary: x y)
  case (Suc n)
  then have "f ((f ^^ n) x) = f ((f ^^ n) y)" by simp
  then show ?case by (rule Suc.IH [OF inj])
qed simp

subsection \<open>Checking a table\<close>

text \<open>
  A reflected table is determined by its entry for 1: dividing once more takes entry \<open>2 i\<close> to entry \<open>i\<close>,
  and an odd entry differs from the even one below it by that of 1. A forward table doubles the
  other way round.
\<close>

fun evens :: "'a list \<Rightarrow> 'a list" where
  "evens (x # y # r) = x # evens r"
| "evens xs = xs"

fun odds :: "'a list \<Rightarrow> 'a list" where
  "odds (x # y # r) = y # odds r"
| "odds xs = []"

lemma evens_nth: "2 * i < length xs \<Longrightarrow> i < length (evens xs) \<and> evens xs ! i = xs ! (2 * i)"
proof (induction xs arbitrary: i rule: evens.induct)
  case (1 x y r)
  then show ?case by (cases i) auto
qed auto

lemma odds_nth: "Suc (2 * i) < length xs \<Longrightarrow> i < length (odds xs) \<and> odds xs ! i = xs ! Suc (2 * i)"
proof (induction xs arbitrary: i rule: odds.induct)
  case (1 x y r)
  then show ?case by (cases i) auto
qed auto

definition rtable :: "'w :: len word \<Rightarrow> 'w word list \<Rightarrow> bool" where
  "rtable poly t \<longleftrightarrow> length t = 256 \<and> t ! 0 = 0 \<and> t ! 1 = rstep8 poly 1 \<and>
     map (rstep poly) (evens t) = take 128 t \<and> odds t = map (\<lambda>x. x XOR t ! 1) (evens t)"

definition ftable :: "'w :: len word \<Rightarrow> 'w word list \<Rightarrow> bool" where
  "ftable poly t \<longleftrightarrow> length t = 256 \<and> t ! 0 = 0 \<and> t ! 1 = fstep8 poly (push_bit (LENGTH('w) - 8) 1) \<and>
     map (fstep poly) (take 128 t) = evens t \<and> odds t = map (\<lambda>x. x XOR t ! 1) (evens t)"

lemma table_odd:
  assumes "odds t = map (\<lambda>x. x XOR t ! 1) (evens t)" "Suc (2 * i) < length t"
  shows "t ! Suc (2 * i) = t ! (2 * i) XOR t ! 1"
  using odds_nth [OF assms(2)] evens_nth [of i t] assms by simp

lemma of_nat_odd: "of_nat (Suc (2 * i)) = of_nat (2 * i) XOR (1 :: 'w :: len word)"
  by (rule bit_word_eqI) (auto simp: bit_xor_word bit_1_iff bit_of_nat_iff bit_double_iff even_bit_succ_iff)

lemma rstep_even: "rstep poly (of_nat (2 * i)) = of_nat i" if "2 * i < 2 ^ LENGTH('w)" for poly :: "'w :: len word"
proof -
  have "drop_bit 1 (of_nat (2 * i) :: 'w word) = of_nat i"
  proof -
    have "unat (drop_bit 1 (of_nat (2 * i) :: 'w word)) = drop_bit 1 (unat (of_nat (2 * i) :: 'w word))"
      by (simp only: unat_drop_bit_eq)
    also have "\<dots> = i" using that by (simp add: unat_of_nat drop_bit_Suc del: of_nat_mult)
    also have "\<dots> = unat (of_nat i :: 'w word)" using that by (simp add: unat_of_nat)
    finally show ?thesis by (simp only: word_unat_eq_iff)
  qed
  then show ?thesis by (simp add: rstep_def bit_0 del: One_nat_def)
qed

lemma fstep_top: "fstep poly (push_bit (LENGTH('w) - 8) (of_nat i)) = push_bit (LENGTH('w) - 8) (of_nat (2 * i))"
  if "i < 128" "8 \<le> LENGTH('w)" for poly :: "'w :: len word"
proof -
  have i: "\<not> bit i n" if "7 \<le> n" for n
  proof -
    have "(128 :: nat) \<le> 2 ^ n" using power_increasing [OF that, of "2 :: nat"] by simp
    then show ?thesis using \<open>i < 128\<close> by (simp add: bit_iff_odd)
  qed
  have "\<not> bit (push_bit (LENGTH('w) - 8) (of_nat i) :: 'w word) (LENGTH('w) - 1)"
    using that(2) i [of 7] by (simp only: bit_push_bit_iff bit_of_nat_iff) (auto intro: i)
  moreover have "push_bit 1 (push_bit k x) = push_bit k (2 * x)" for k and x :: "'w word"
    by (simp only: push_bit_push_bit add.commute [of 1 k]) (simp only: push_bit_push_bit [symmetric], simp add: mult.commute)
  ultimately show ?thesis by (simp add: fstep_def del: One_nat_def)
qed

lemma rtable_entry:
  fixes poly :: "'w :: len word"
  assumes t: "rtable poly t" and p: "bit poly (LENGTH('w) - 1)" and w: "8 \<le> LENGTH('w)"
  shows "n < 256 \<Longrightarrow> t ! n = rstep8 poly (of_nat n)"
proof (induction n rule: less_induct)
  case (less n)
  have big: "(256 :: nat) \<le> 2 ^ LENGTH('w)" using power_increasing [OF w, of "2 :: nat"] by simp
  consider "n = 0" | "n = 1" | i where "n = 2 * i" "0 < i" | i where "n = Suc (2 * i)" "0 < i"
    by (metis One_nat_def even_Suc evenE gr0I mult_0_right oddE Suc_eq_plus1)
  then show ?case
  proof cases
    case (3 i)
    have "rstep poly (t ! n) = t ! i"
      using t evens_nth [of i t] 3 less.prems nth_map [of i "evens t" "rstep poly"] by (simp add: rtable_def)
    also have "\<dots> = rstep8 poly (rstep poly (of_nat n))"
      using less.IH [of i] 3 less.prems rstep_even [of i poly] big by simp
    also have "\<dots> = rstep poly (rstep8 poly (of_nat n))" by (simp add: rstep8_def funpow_swap1)
    finally show ?thesis using rstep_inj [OF p] by blast
  next
    case (4 i)
    have "t ! n = t ! (2 * i) XOR t ! 1" using table_odd [of t i] t 4 less.prems by (simp add: rtable_def)
    also have "\<dots> = rstep8 poly (of_nat (2 * i)) XOR rstep8 poly 1"
      using less.IH [of "2 * i"] 4 less.prems t by (simp add: rtable_def)
    finally show ?thesis by (simp only: rstep8_xor [symmetric] of_nat_odd [symmetric] 4)
  qed (use t in \<open>simp_all add: rtable_def rstep8_def rsteps_clear\<close>)
qed

lemma ftable_entry:
  fixes poly :: "'w :: len word"
  assumes t: "ftable poly t" and w: "8 \<le> LENGTH('w)"
  shows "n < 256 \<Longrightarrow> t ! n = fstep8 poly (push_bit (LENGTH('w) - 8) (of_nat n))"
proof (induction n rule: less_induct)
  case (less n)
  consider "n = 0" | "n = 1" | i where "n = 2 * i" "0 < i" | i where "n = Suc (2 * i)" "0 < i"
    by (metis One_nat_def even_Suc evenE gr0I mult_0_right oddE Suc_eq_plus1)
  then show ?case
  proof cases
    case (3 i)
    have "t ! n = fstep poly (t ! i)"
      using t evens_nth [of i t] 3 less.prems nth_map [of i "take 128 t" "fstep poly"] by (simp add: ftable_def)
    also have "\<dots> = fstep8 poly (fstep poly (push_bit (LENGTH('w) - 8) (of_nat i)))"
      using less.IH [of i] 3 less.prems by (simp add: fstep8_def funpow_swap1)
    also have "\<dots> = fstep8 poly (push_bit (LENGTH('w) - 8) (of_nat n))"
      using fstep_top [OF _ w, of i poly] 3 less.prems by (simp del: of_nat_mult)
    finally show ?thesis .
  next
    case (4 i)
    have "t ! n = t ! (2 * i) XOR t ! 1" using table_odd [of t i] t 4 less.prems by (simp add: ftable_def)
    also have "\<dots> = fstep8 poly (push_bit (LENGTH('w) - 8) (of_nat (2 * i))) XOR fstep8 poly (push_bit (LENGTH('w) - 8) 1)"
      using less.IH [of "2 * i"] 4 less.prems t by (simp add: ftable_def)
    finally show ?thesis by (simp only: fstep8_xor [symmetric] push_bit_xor [symmetric] of_nat_odd [symmetric] 4)
  qed (use t w in \<open>simp_all add: ftable_def fstep8_def fsteps_clear\<close>)
qed

subsection \<open>A check that folds bytes into a register\<close>

locale byte_check =
  fixes upd :: "'c \<Rightarrow> 'b \<Rightarrow> 'c"
  assumes upd_inj: "upd c b = upd d b \<Longrightarrow> c = d"
    and upd_byte: "upd c a = upd c b \<Longrightarrow> a = b"
begin

lemma fold_inj: "foldl upd c bs = foldl upd d bs \<Longrightarrow> c = d"
  by (induction bs arbitrary: c d) (auto dest: upd_inj)

lemma one_byte: "foldl upd c (xs @ a # zs) = foldl upd c (xs @ b # zs) \<longleftrightarrow> a = b"
  by (auto dest: fold_inj upd_byte)

lemma one_difference:
  assumes "length ms = length ns" "i < length ms" "ms ! i \<noteq> ns ! i" "\<forall>j < length ms. j \<noteq> i \<longrightarrow> ms ! j = ns ! j"
  shows "foldl upd c ms \<noteq> foldl upd c ns"
proof -
  have "take i ms = take i ns" "drop (Suc i) ms = drop (Suc i) ns"
    using assms by (auto simp: list_eq_iff_nth_eq)
  then have "ms = take i ms @ ms ! i # drop (Suc i) ms" "ns = take i ms @ ns ! i # drop (Suc i) ms"
    using assms(1,2) id_take_nth_drop [of i ms] id_take_nth_drop [of i ns] by simp_all
  then show ?thesis using one_byte assms(3) by metis
qed

end

lemma ucast_byte: "(ucast a :: 'w :: len word) = ucast b \<longleftrightarrow> a = b" if "8 \<le> LENGTH('w)" for a b :: "8 word"
proof
  assume eq: "(ucast a :: 'w word) = ucast b"
  have "bit a n = bit b n" if "n < 8" for n
    using arg_cong [OF eq, of "\<lambda>w. bit w n"] that \<open>8 \<le> LENGTH('w)\<close> by (simp add: bit_ucast_iff)
  then show "a = b" by (intro bit_word_eqI) simp
qed simp

lemma unat_low_byte: "unat (x AND 0xff) < 256" for x :: "'w :: len word"
proof -
  have "x AND 0xff = take_bit 8 x"
    by (simp add: take_bit_eq_mask mask_eq_exp_minus_1)
  then have "unat (x AND 0xff) = take_bit 8 (unat x)" by (simp only: unsigned_take_bit_eq)
  then show ?thesis by (simp add: take_bit_eq_mod)
qed

locale crc_reflected =
  fixes poly :: "'w :: len word" and tab :: "'w word list"
  assumes width: "8 \<le> LENGTH('w)"
    and lead: "bit poly (LENGTH('w) - 1)"
    and table: "rtable poly tab"
begin

lemma update: "drop_bit 8 c XOR tab ! unat ((c XOR ucast b) AND 0xff) = rcrc_byte poly c b"
proof -
  let ?x = "c XOR ucast b" and ?l = "(c XOR ucast b) AND 0xff"
  have m: "(0xff :: 'w word) = mask 8" by (simp add: mask_eq_exp_minus_1)
  have low: "?l = take_bit 8 ?x" unfolding m by (simp add: take_bit_eq_mask)
  have "tab ! unat ?l = rstep8 poly ?l" using rtable_entry [OF table lead width unat_low_byte [of "c XOR ucast b"]] by simp
  moreover have "drop_bit 8 c = rstep8 poly (push_bit 8 (drop_bit 8 ?x))"
  proof -
    have "drop_bit 8 (ucast b :: 'w word) = 0"
      by (rule bit_word_eqI) (auto simp: bit_drop_bit_eq bit_ucast_iff dest: bit_imp_le_length)
    then have "drop_bit 8 ?x = drop_bit 8 c" by (simp add: drop_bit_xor)
    moreover have "drop_bit 8 (push_bit 8 (drop_bit 8 c)) = drop_bit 8 c"
      by (rule bit_word_eqI) (auto simp: bit_simps dest: bit_imp_le_length)
    ultimately show ?thesis by (simp add: rstep8_def rsteps_clear take_bit_push_bit)
  qed
  moreover have "push_bit 8 (drop_bit 8 ?x) XOR ?l = ?x"
    unfolding low by (rule bit_word_eqI) (auto simp: bit_simps)
  ultimately show ?thesis by (metis rcrc_byte_def rstep8_xor)
qed

lemma rstep8_inj: "rstep8 poly x = rstep8 poly y \<Longrightarrow> x = y"
  unfolding rstep8_def by (rule funpow_inj [OF rstep_inj [OF lead]])

end

sublocale crc_reflected \<subseteq> byte: byte_check "rcrc_byte poly"
proof
  show "c = d" if "rcrc_byte poly c b = rcrc_byte poly d b" for b c d
    using that xor_cancel [of "ucast b" c d] by (auto simp: rcrc_byte_def xor.commute dest!: rstep8_inj)
  show "a = b" if "rcrc_byte poly c a = rcrc_byte poly c b" for c a b
    using that by (auto simp: rcrc_byte_def xor_cancel ucast_byte [OF width] dest!: rstep8_inj)
qed

locale crc_forward =
  fixes poly :: "'w :: len word" and tab :: "'w word list"
  assumes width: "8 \<le> LENGTH('w)"
    and last_bit: "bit poly 0"
    and table: "ftable poly tab"
begin

lemma update: "push_bit 8 c XOR tab ! unat ((drop_bit (LENGTH('w) - 8) c XOR ucast b) AND 0xff) = fcrc_byte poly c b"
proof -
  let ?k = "LENGTH('w) - 8"
  let ?x = "c XOR push_bit ?k (ucast b)" and ?l = "(drop_bit ?k c XOR ucast b) AND 0xff"
  have m: "(0xff :: 'w word) = mask 8" by (simp add: mask_eq_exp_minus_1)
  have "tab ! unat ?l = fstep8 poly (push_bit ?k ?l)"
    using ftable_entry [OF table width unat_low_byte [of "drop_bit ?k c XOR ucast b"]] by simp
  moreover have "push_bit 8 c = fstep8 poly (take_bit ?k c)"
  proof -
    have "drop_bit ?k (take_bit ?k c) = 0"
      by (rule bit_word_eqI) (auto simp: bit_simps)
    moreover have "push_bit 8 (take_bit ?k c) = push_bit 8 c"
      by (rule bit_word_eqI) (use width in \<open>auto simp: bit_simps\<close>)
    ultimately show ?thesis using width by (simp add: fstep8_def fsteps_clear)
  qed
  moreover have "take_bit ?k c XOR push_bit ?k ?l = ?x"
    unfolding m by (rule bit_word_eqI) (use width in \<open>auto simp: bit_simps\<close>)
  ultimately show ?thesis by (metis fcrc_byte_def fstep8_xor)
qed

lemma fstep8_inj: "fstep8 poly x = fstep8 poly y \<Longrightarrow> x = y"
  unfolding fstep8_def by (rule funpow_inj [OF fstep_inj [OF last_bit]])

lemma push_byte: "push_bit (LENGTH('w) - 8) (ucast a :: 'w word) = push_bit (LENGTH('w) - 8) (ucast b) \<longleftrightarrow> a = b"
  for a b :: "8 word"
proof
  assume eq: "push_bit (LENGTH('w) - 8) (ucast a :: 'w word) = push_bit (LENGTH('w) - 8) (ucast b)"
  have "bit a n = bit b n" if "n < 8" for n
    using arg_cong [OF eq, of "\<lambda>w. bit w (LENGTH('w) - 8 + n)"] that width
    by (auto simp: bit_push_bit_iff bit_ucast_iff)
  then show "a = b" by (intro bit_word_eqI) simp
qed simp

end

sublocale crc_forward \<subseteq> byte: byte_check "fcrc_byte poly"
proof
  show "c = d" if "fcrc_byte poly c b = fcrc_byte poly d b" for b c d
    using that xor_cancel [of "push_bit (LENGTH('w) - 8) (ucast b)" c d]
    by (auto simp: fcrc_byte_def xor.commute dest!: fstep8_inj)
  show "a = b" if "fcrc_byte poly c a = fcrc_byte poly c b" for c a b
    using that by (auto simp: fcrc_byte_def xor_cancel push_byte dest!: fstep8_inj)
qed

subsection \<open>The checks of the source\<close>

text \<open>The buffer of each function is the list of its first \<open>len\<close> bytes.\<close>

definition crc7_syndrome_table :: "8 word list" where
  "crc7_syndrome_table = [
    0x00, 0x09, 0x12, 0x1B, 0x24, 0x2D, 0x36, 0x3F, 0x48, 0x41, 0x5A, 0x53, 0x6C, 0x65, 0x7E, 0x77,
    0x19, 0x10, 0x0B, 0x02, 0x3D, 0x34, 0x2F, 0x26, 0x51, 0x58, 0x43, 0x4A, 0x75, 0x7C, 0x67, 0x6E,
    0x32, 0x3B, 0x20, 0x29, 0x16, 0x1F, 0x04, 0x0D, 0x7A, 0x73, 0x68, 0x61, 0x5E, 0x57, 0x4C, 0x45,
    0x2B, 0x22, 0x39, 0x30, 0x0F, 0x06, 0x1D, 0x14, 0x63, 0x6A, 0x71, 0x78, 0x47, 0x4E, 0x55, 0x5C,
    0x64, 0x6D, 0x76, 0x7F, 0x40, 0x49, 0x52, 0x5B, 0x2C, 0x25, 0x3E, 0x37, 0x08, 0x01, 0x1A, 0x13,
    0x7D, 0x74, 0x6F, 0x66, 0x59, 0x50, 0x4B, 0x42, 0x35, 0x3C, 0x27, 0x2E, 0x11, 0x18, 0x03, 0x0A,
    0x56, 0x5F, 0x44, 0x4D, 0x72, 0x7B, 0x60, 0x69, 0x1E, 0x17, 0x0C, 0x05, 0x3A, 0x33, 0x28, 0x21,
    0x4F, 0x46, 0x5D, 0x54, 0x6B, 0x62, 0x79, 0x70, 0x07, 0x0E, 0x15, 0x1C, 0x23, 0x2A, 0x31, 0x38,
    0x41, 0x48, 0x53, 0x5A, 0x65, 0x6C, 0x77, 0x7E, 0x09, 0x00, 0x1B, 0x12, 0x2D, 0x24, 0x3F, 0x36,
    0x58, 0x51, 0x4A, 0x43, 0x7C, 0x75, 0x6E, 0x67, 0x10, 0x19, 0x02, 0x0B, 0x34, 0x3D, 0x26, 0x2F,
    0x73, 0x7A, 0x61, 0x68, 0x57, 0x5E, 0x45, 0x4C, 0x3B, 0x32, 0x29, 0x20, 0x1F, 0x16, 0x0D, 0x04,
    0x6A, 0x63, 0x78, 0x71, 0x4E, 0x47, 0x5C, 0x55, 0x22, 0x2B, 0x30, 0x39, 0x06, 0x0F, 0x14, 0x1D,
    0x25, 0x2C, 0x37, 0x3E, 0x01, 0x08, 0x13, 0x1A, 0x6D, 0x64, 0x7F, 0x76, 0x49, 0x40, 0x5B, 0x52,
    0x3C, 0x35, 0x2E, 0x27, 0x18, 0x11, 0x0A, 0x03, 0x74, 0x7D, 0x66, 0x6F, 0x50, 0x59, 0x42, 0x4B,
    0x17, 0x1E, 0x05, 0x0C, 0x33, 0x3A, 0x21, 0x28, 0x5F, 0x56, 0x4D, 0x44, 0x7B, 0x72, 0x69, 0x60,
    0x0E, 0x07, 0x1C, 0x15, 0x2A, 0x23, 0x38, 0x31, 0x46, 0x4F, 0x54, 0x5D, 0x62, 0x6B, 0x70, 0x79]"

definition crc7_byte :: "8 word \<Rightarrow> 8 word \<Rightarrow> 8 word" where
  "crc7_byte crc data = crc7_syndrome_table ! unat ((push_bit 1 (ucast crc :: 32 word)) XOR ucast data)"

definition fio_crc7 :: "8 word list \<Rightarrow> 8 word" where
  "fio_crc7 buffer = foldl crc7_byte 0 buffer"

definition crc16_table :: "16 word list" where
  "crc16_table = [
    0x0000, 0xC0C1, 0xC181, 0x0140, 0xC301, 0x03C0, 0x0280, 0xC241,
    0xC601, 0x06C0, 0x0780, 0xC741, 0x0500, 0xC5C1, 0xC481, 0x0440,
    0xCC01, 0x0CC0, 0x0D80, 0xCD41, 0x0F00, 0xCFC1, 0xCE81, 0x0E40,
    0x0A00, 0xCAC1, 0xCB81, 0x0B40, 0xC901, 0x09C0, 0x0880, 0xC841,
    0xD801, 0x18C0, 0x1980, 0xD941, 0x1B00, 0xDBC1, 0xDA81, 0x1A40,
    0x1E00, 0xDEC1, 0xDF81, 0x1F40, 0xDD01, 0x1DC0, 0x1C80, 0xDC41,
    0x1400, 0xD4C1, 0xD581, 0x1540, 0xD701, 0x17C0, 0x1680, 0xD641,
    0xD201, 0x12C0, 0x1380, 0xD341, 0x1100, 0xD1C1, 0xD081, 0x1040,
    0xF001, 0x30C0, 0x3180, 0xF141, 0x3300, 0xF3C1, 0xF281, 0x3240,
    0x3600, 0xF6C1, 0xF781, 0x3740, 0xF501, 0x35C0, 0x3480, 0xF441,
    0x3C00, 0xFCC1, 0xFD81, 0x3D40, 0xFF01, 0x3FC0, 0x3E80, 0xFE41,
    0xFA01, 0x3AC0, 0x3B80, 0xFB41, 0x3900, 0xF9C1, 0xF881, 0x3840,
    0x2800, 0xE8C1, 0xE981, 0x2940, 0xEB01, 0x2BC0, 0x2A80, 0xEA41,
    0xEE01, 0x2EC0, 0x2F80, 0xEF41, 0x2D00, 0xEDC1, 0xEC81, 0x2C40,
    0xE401, 0x24C0, 0x2580, 0xE541, 0x2700, 0xE7C1, 0xE681, 0x2640,
    0x2200, 0xE2C1, 0xE381, 0x2340, 0xE101, 0x21C0, 0x2080, 0xE041,
    0xA001, 0x60C0, 0x6180, 0xA141, 0x6300, 0xA3C1, 0xA281, 0x6240,
    0x6600, 0xA6C1, 0xA781, 0x6740, 0xA501, 0x65C0, 0x6480, 0xA441,
    0x6C00, 0xACC1, 0xAD81, 0x6D40, 0xAF01, 0x6FC0, 0x6E80, 0xAE41,
    0xAA01, 0x6AC0, 0x6B80, 0xAB41, 0x6900, 0xA9C1, 0xA881, 0x6840,
    0x7800, 0xB8C1, 0xB981, 0x7940, 0xBB01, 0x7BC0, 0x7A80, 0xBA41,
    0xBE01, 0x7EC0, 0x7F80, 0xBF41, 0x7D00, 0xBDC1, 0xBC81, 0x7C40,
    0xB401, 0x74C0, 0x7580, 0xB541, 0x7700, 0xB7C1, 0xB681, 0x7640,
    0x7200, 0xB2C1, 0xB381, 0x7340, 0xB101, 0x71C0, 0x7080, 0xB041,
    0x5000, 0x90C1, 0x9181, 0x5140, 0x9301, 0x53C0, 0x5280, 0x9241,
    0x9601, 0x56C0, 0x5780, 0x9741, 0x5500, 0x95C1, 0x9481, 0x5440,
    0x9C01, 0x5CC0, 0x5D80, 0x9D41, 0x5F00, 0x9FC1, 0x9E81, 0x5E40,
    0x5A00, 0x9AC1, 0x9B81, 0x5B40, 0x9901, 0x59C0, 0x5880, 0x9841,
    0x8801, 0x48C0, 0x4980, 0x8941, 0x4B00, 0x8BC1, 0x8A81, 0x4A40,
    0x4E00, 0x8EC1, 0x8F81, 0x4F40, 0x8D01, 0x4DC0, 0x4C80, 0x8C41,
    0x4400, 0x84C1, 0x8581, 0x4540, 0x8701, 0x47C0, 0x4680, 0x8641,
    0x8201, 0x42C0, 0x4380, 0x8341, 0x4100, 0x81C1, 0x8081, 0x4040]"

definition crc16_byte :: "16 word \<Rightarrow> 8 word \<Rightarrow> 16 word" where
  "crc16_byte crc data = drop_bit 8 crc XOR crc16_table ! unat ((crc XOR ucast data) AND 0xff)"

definition fio_crc16 :: "8 word list \<Rightarrow> 16 word" where
  "fio_crc16 buffer = foldl crc16_byte 0 buffer"

definition crctab :: "32 word list" where
  "crctab = [
    0x00000000, 0x04C11DB7, 0x09823B6E, 0x0D4326D9, 0x130476DC, 0x17C56B6B, 0x1A864DB2, 0x1E475005,
    0x2608EDB8, 0x22C9F00F, 0x2F8AD6D6, 0x2B4BCB61, 0x350C9B64, 0x31CD86D3, 0x3C8EA00A, 0x384FBDBD,
    0x4C11DB70, 0x48D0C6C7, 0x4593E01E, 0x4152FDA9, 0x5F15ADAC, 0x5BD4B01B, 0x569796C2, 0x52568B75,
    0x6A1936C8, 0x6ED82B7F, 0x639B0DA6, 0x675A1011, 0x791D4014, 0x7DDC5DA3, 0x709F7B7A, 0x745E66CD,
    0x9823B6E0, 0x9CE2AB57, 0x91A18D8E, 0x95609039, 0x8B27C03C, 0x8FE6DD8B, 0x82A5FB52, 0x8664E6E5,
    0xBE2B5B58, 0xBAEA46EF, 0xB7A96036, 0xB3687D81, 0xAD2F2D84, 0xA9EE3033, 0xA4AD16EA, 0xA06C0B5D,
    0xD4326D90, 0xD0F37027, 0xDDB056FE, 0xD9714B49, 0xC7361B4C, 0xC3F706FB, 0xCEB42022, 0xCA753D95,
    0xF23A8028, 0xF6FB9D9F, 0xFBB8BB46, 0xFF79A6F1, 0xE13EF6F4, 0xE5FFEB43, 0xE8BCCD9A, 0xEC7DD02D,
    0x34867077, 0x30476DC0, 0x3D044B19, 0x39C556AE, 0x278206AB, 0x23431B1C, 0x2E003DC5, 0x2AC12072,
    0x128E9DCF, 0x164F8078, 0x1B0CA6A1, 0x1FCDBB16, 0x018AEB13, 0x054BF6A4, 0x0808D07D, 0x0CC9CDCA,
    0x7897AB07, 0x7C56B6B0, 0x71159069, 0x75D48DDE, 0x6B93DDDB, 0x6F52C06C, 0x6211E6B5, 0x66D0FB02,
    0x5E9F46BF, 0x5A5E5B08, 0x571D7DD1, 0x53DC6066, 0x4D9B3063, 0x495A2DD4, 0x44190B0D, 0x40D816BA,
    0xACA5C697, 0xA864DB20, 0xA527FDF9, 0xA1E6E04E, 0xBFA1B04B, 0xBB60ADFC, 0xB6238B25, 0xB2E29692,
    0x8AAD2B2F, 0x8E6C3698, 0x832F1041, 0x87EE0DF6, 0x99A95DF3, 0x9D684044, 0x902B669D, 0x94EA7B2A,
    0xE0B41DE7, 0xE4750050, 0xE9362689, 0xEDF73B3E, 0xF3B06B3B, 0xF771768C, 0xFA325055, 0xFEF34DE2,
    0xC6BCF05F, 0xC27DEDE8, 0xCF3ECB31, 0xCBFFD686, 0xD5B88683, 0xD1799B34, 0xDC3ABDED, 0xD8FBA05A,
    0x690CE0EE, 0x6DCDFD59, 0x608EDB80, 0x644FC637, 0x7A089632, 0x7EC98B85, 0x738AAD5C, 0x774BB0EB,
    0x4F040D56, 0x4BC510E1, 0x46863638, 0x42472B8F, 0x5C007B8A, 0x58C1663D, 0x558240E4, 0x51435D53,
    0x251D3B9E, 0x21DC2629, 0x2C9F00F0, 0x285E1D47, 0x36194D42, 0x32D850F5, 0x3F9B762C, 0x3B5A6B9B,
    0x0315D626, 0x07D4CB91, 0x0A97ED48, 0x0E56F0FF, 0x1011A0FA, 0x14D0BD4D, 0x19939B94, 0x1D528623,
    0xF12F560E, 0xF5EE4BB9, 0xF8AD6D60, 0xFC6C70D7, 0xE22B20D2, 0xE6EA3D65, 0xEBA91BBC, 0xEF68060B,
    0xD727BBB6, 0xD3E6A601, 0xDEA580D8, 0xDA649D6F, 0xC423CD6A, 0xC0E2D0DD, 0xCDA1F604, 0xC960EBB3,
    0xBD3E8D7E, 0xB9FF90C9, 0xB4BCB610, 0xB07DABA7, 0xAE3AFBA2, 0xAAFBE615, 0xA7B8C0CC, 0xA379DD7B,
    0x9B3660C6, 0x9FF77D71, 0x92B45BA8, 0x9675461F, 0x8832161A, 0x8CF30BAD, 0x81B02D74, 0x857130C3,
    0x5D8A9099, 0x594B8D2E, 0x5408ABF7, 0x50C9B640, 0x4E8EE645, 0x4A4FFBF2, 0x470CDD2B, 0x43CDC09C,
    0x7B827D21, 0x7F436096, 0x7200464F, 0x76C15BF8, 0x68860BFD, 0x6C47164A, 0x61043093, 0x65C52D24,
    0x119B4BE9, 0x155A565E, 0x18197087, 0x1CD86D30, 0x029F3D35, 0x065E2082, 0x0B1D065B, 0x0FDC1BEC,
    0x3793A651, 0x3352BBE6, 0x3E119D3F, 0x3AD08088, 0x2497D08D, 0x2056CD3A, 0x2D15EBE3, 0x29D4F654,
    0xC5A92679, 0xC1683BCE, 0xCC2B1D17, 0xC8EA00A0, 0xD6AD50A5, 0xD26C4D12, 0xDF2F6BCB, 0xDBEE767C,
    0xE3A1CBC1, 0xE760D676, 0xEA23F0AF, 0xEEE2ED18, 0xF0A5BD1D, 0xF464A0AA, 0xF9278673, 0xFDE69BC4,
    0x89B8FD09, 0x8D79E0BE, 0x803AC667, 0x84FBDBD0, 0x9ABC8BD5, 0x9E7D9662, 0x933EB0BB, 0x97FFAD0C,
    0xAFB010B1, 0xAB710D06, 0xA6322BDF, 0xA2F33668, 0xBCB4666D, 0xB8757BDA, 0xB5365D03, 0xB1F740B4]"

definition fio_crc32 :: "8 word list \<Rightarrow> 32 word" where
  "fio_crc32 buffer = foldl (\<lambda>crc b. push_bit 8 crc XOR crctab ! unat ((drop_bit 24 crc XOR ucast b) AND 0xFF)) 0 buffer"

definition crc32c_table :: "32 word list" where
  "crc32c_table = [
    0x00000000, 0xF26B8303, 0xE13B70F7, 0x1350F3F4, 0xC79A971F, 0x35F1141C, 0x26A1E7E8, 0xD4CA64EB,
    0x8AD958CF, 0x78B2DBCC, 0x6BE22838, 0x9989AB3B, 0x4D43CFD0, 0xBF284CD3, 0xAC78BF27, 0x5E133C24,
    0x105EC76F, 0xE235446C, 0xF165B798, 0x030E349B, 0xD7C45070, 0x25AFD373, 0x36FF2087, 0xC494A384,
    0x9A879FA0, 0x68EC1CA3, 0x7BBCEF57, 0x89D76C54, 0x5D1D08BF, 0xAF768BBC, 0xBC267848, 0x4E4DFB4B,
    0x20BD8EDE, 0xD2D60DDD, 0xC186FE29, 0x33ED7D2A, 0xE72719C1, 0x154C9AC2, 0x061C6936, 0xF477EA35,
    0xAA64D611, 0x580F5512, 0x4B5FA6E6, 0xB93425E5, 0x6DFE410E, 0x9F95C20D, 0x8CC531F9, 0x7EAEB2FA,
    0x30E349B1, 0xC288CAB2, 0xD1D83946, 0x23B3BA45, 0xF779DEAE, 0x05125DAD, 0x1642AE59, 0xE4292D5A,
    0xBA3A117E, 0x4851927D, 0x5B016189, 0xA96AE28A, 0x7DA08661, 0x8FCB0562, 0x9C9BF696, 0x6EF07595,
    0x417B1DBC, 0xB3109EBF, 0xA0406D4B, 0x522BEE48, 0x86E18AA3, 0x748A09A0, 0x67DAFA54, 0x95B17957,
    0xCBA24573, 0x39C9C670, 0x2A993584, 0xD8F2B687, 0x0C38D26C, 0xFE53516F, 0xED03A29B, 0x1F682198,
    0x5125DAD3, 0xA34E59D0, 0xB01EAA24, 0x42752927, 0x96BF4DCC, 0x64D4CECF, 0x77843D3B, 0x85EFBE38,
    0xDBFC821C, 0x2997011F, 0x3AC7F2EB, 0xC8AC71E8, 0x1C661503, 0xEE0D9600, 0xFD5D65F4, 0x0F36E6F7,
    0x61C69362, 0x93AD1061, 0x80FDE395, 0x72966096, 0xA65C047D, 0x5437877E, 0x4767748A, 0xB50CF789,
    0xEB1FCBAD, 0x197448AE, 0x0A24BB5A, 0xF84F3859, 0x2C855CB2, 0xDEEEDFB1, 0xCDBE2C45, 0x3FD5AF46,
    0x7198540D, 0x83F3D70E, 0x90A324FA, 0x62C8A7F9, 0xB602C312, 0x44694011, 0x5739B3E5, 0xA55230E6,
    0xFB410CC2, 0x092A8FC1, 0x1A7A7C35, 0xE811FF36, 0x3CDB9BDD, 0xCEB018DE, 0xDDE0EB2A, 0x2F8B6829,
    0x82F63B78, 0x709DB87B, 0x63CD4B8F, 0x91A6C88C, 0x456CAC67, 0xB7072F64, 0xA457DC90, 0x563C5F93,
    0x082F63B7, 0xFA44E0B4, 0xE9141340, 0x1B7F9043, 0xCFB5F4A8, 0x3DDE77AB, 0x2E8E845F, 0xDCE5075C,
    0x92A8FC17, 0x60C37F14, 0x73938CE0, 0x81F80FE3, 0x55326B08, 0xA759E80B, 0xB4091BFF, 0x466298FC,
    0x1871A4D8, 0xEA1A27DB, 0xF94AD42F, 0x0B21572C, 0xDFEB33C7, 0x2D80B0C4, 0x3ED04330, 0xCCBBC033,
    0xA24BB5A6, 0x502036A5, 0x4370C551, 0xB11B4652, 0x65D122B9, 0x97BAA1BA, 0x84EA524E, 0x7681D14D,
    0x2892ED69, 0xDAF96E6A, 0xC9A99D9E, 0x3BC21E9D, 0xEF087A76, 0x1D63F975, 0x0E330A81, 0xFC588982,
    0xB21572C9, 0x407EF1CA, 0x532E023E, 0xA145813D, 0x758FE5D6, 0x87E466D5, 0x94B49521, 0x66DF1622,
    0x38CC2A06, 0xCAA7A905, 0xD9F75AF1, 0x2B9CD9F2, 0xFF56BD19, 0x0D3D3E1A, 0x1E6DCDEE, 0xEC064EED,
    0xC38D26C4, 0x31E6A5C7, 0x22B65633, 0xD0DDD530, 0x0417B1DB, 0xF67C32D8, 0xE52CC12C, 0x1747422F,
    0x49547E0B, 0xBB3FFD08, 0xA86F0EFC, 0x5A048DFF, 0x8ECEE914, 0x7CA56A17, 0x6FF599E3, 0x9D9E1AE0,
    0xD3D3E1AB, 0x21B862A8, 0x32E8915C, 0xC083125F, 0x144976B4, 0xE622F5B7, 0xF5720643, 0x07198540,
    0x590AB964, 0xAB613A67, 0xB831C993, 0x4A5A4A90, 0x9E902E7B, 0x6CFBAD78, 0x7FAB5E8C, 0x8DC0DD8F,
    0xE330A81A, 0x115B2B19, 0x020BD8ED, 0xF0605BEE, 0x24AA3F05, 0xD6C1BC06, 0xC5914FF2, 0x37FACCF1,
    0x69E9F0D5, 0x9B8273D6, 0x88D28022, 0x7AB90321, 0xAE7367CA, 0x5C18E4C9, 0x4F48173D, 0xBD23943E,
    0xF36E6F75, 0x0105EC76, 0x12551F82, 0xE03E9C81, 0x34F4F86A, 0xC69F7B69, 0xD5CF889D, 0x27A40B9E,
    0x79B737BA, 0x8BDCB4B9, 0x988C474D, 0x6AE7C44E, 0xBE2DA0A5, 0x4C4623A6, 0x5F16D052, 0xAD7D5351]"

definition crc32c_sw :: "8 word list \<Rightarrow> 32 word" where
  "crc32c_sw data = foldl (\<lambda>crc b. crc32c_table ! unat ((crc XOR ucast b) AND 0xFF) XOR drop_bit 8 crc) (NOT 0) data"

definition crctab64 :: "64 word list" where
  "crctab64 = [
    0x0000000000000000, 0x7AD870C830358979, 0xF5B0E190606B12F2, 0x8F689158505E9B8B,
    0xC038E5739841B68F, 0xBAE095BBA8743FF6, 0x358804E3F82AA47D, 0x4F50742BC81F2D04,
    0xAB28ECB46814FE75, 0xD1F09C7C5821770C, 0x5E980D24087FEC87, 0x24407DEC384A65FE,
    0x6B1009C7F05548FA, 0x11C8790FC060C183, 0x9EA0E857903E5A08, 0xE478989FA00BD371,
    0x7D08FF3B88BE6F81, 0x07D08FF3B88BE6F8, 0x88B81EABE8D57D73, 0xF2606E63D8E0F40A,
    0xBD301A4810FFD90E, 0xC7E86A8020CA5077, 0x4880FBD87094CBFC, 0x32588B1040A14285,
    0xD620138FE0AA91F4, 0xACF86347D09F188D, 0x2390F21F80C18306, 0x594882D7B0F40A7F,
    0x1618F6FC78EB277B, 0x6CC0863448DEAE02, 0xE3A8176C18803589, 0x997067A428B5BCF0,
    0xFA11FE77117CDF02, 0x80C98EBF2149567B, 0x0FA11FE77117CDF0, 0x75796F2F41224489,
    0x3A291B04893D698D, 0x40F16BCCB908E0F4, 0xCF99FA94E9567B7F, 0xB5418A5CD963F206,
    0x513912C379682177, 0x2BE1620B495DA80E, 0xA489F35319033385, 0xDE51839B2936BAFC,
    0x9101F7B0E12997F8, 0xEBD98778D11C1E81, 0x64B116208142850A, 0x1E6966E8B1770C73,
    0x8719014C99C2B083, 0xFDC17184A9F739FA, 0x72A9E0DCF9A9A271, 0x08719014C99C2B08,
    0x4721E43F0183060C, 0x3DF994F731B68F75, 0xB29105AF61E814FE, 0xC849756751DD9D87,
    0x2C31EDF8F1D64EF6, 0x56E99D30C1E3C78F, 0xD9810C6891BD5C04, 0xA3597CA0A188D57D,
    0xEC09088B6997F879, 0x96D1784359A27100, 0x19B9E91B09FCEA8B, 0x636199D339C963F2,
    0xDF7ADABD7A6E2D6F, 0xA5A2AA754A5BA416, 0x2ACA3B2D1A053F9D, 0x50124BE52A30B6E4,
    0x1F423FCEE22F9BE0, 0x659A4F06D21A1299, 0xEAF2DE5E82448912, 0x902AAE96B271006B,
    0x74523609127AD31A, 0x0E8A46C1224F5A63, 0x81E2D7997211C1E8, 0xFB3AA75142244891,
    0xB46AD37A8A3B6595, 0xCEB2A3B2BA0EECEC, 0x41DA32EAEA507767, 0x3B024222DA65FE1E,
    0xA2722586F2D042EE, 0xD8AA554EC2E5CB97, 0x57C2C41692BB501C, 0x2D1AB4DEA28ED965,
    0x624AC0F56A91F461, 0x1892B03D5AA47D18, 0x97FA21650AFAE693, 0xED2251AD3ACF6FEA,
    0x095AC9329AC4BC9B, 0x7382B9FAAAF135E2, 0xFCEA28A2FAAFAE69, 0x8632586ACA9A2710,
    0xC9622C4102850A14, 0xB3BA5C8932B0836D, 0x3CD2CDD162EE18E6, 0x460ABD1952DB919F,
    0x256B24CA6B12F26D, 0x5FB354025B277B14, 0xD0DBC55A0B79E09F, 0xAA03B5923B4C69E6,
    0xE553C1B9F35344E2, 0x9F8BB171C366CD9B, 0x10E3202993385610, 0x6A3B50E1A30DDF69,
    0x8E43C87E03060C18, 0xF49BB8B633338561, 0x7BF329EE636D1EEA, 0x012B592653589793,
    0x4E7B2D0D9B47BA97, 0x34A35DC5AB7233EE, 0xBBCBCC9DFB2CA865, 0xC113BC55CB19211C,
    0x5863DBF1E3AC9DEC, 0x22BBAB39D3991495, 0xADD33A6183C78F1E, 0xD70B4AA9B3F20667,
    0x985B3E827BED2B63, 0xE2834E4A4BD8A21A, 0x6DEBDF121B863991, 0x1733AFDA2BB3B0E8,
    0xF34B37458BB86399, 0x8993478DBB8DEAE0, 0x06FBD6D5EBD3716B, 0x7C23A61DDBE6F812,
    0x3373D23613F9D516, 0x49ABA2FE23CC5C6F, 0xC6C333A67392C7E4, 0xBC1B436E43A74E9D,
    0x95AC9329AC4BC9B5, 0xEF74E3E19C7E40CC, 0x601C72B9CC20DB47, 0x1AC40271FC15523E,
    0x5594765A340A7F3A, 0x2F4C0692043FF643, 0xA02497CA54616DC8, 0xDAFCE7026454E4B1,
    0x3E847F9DC45F37C0, 0x445C0F55F46ABEB9, 0xCB349E0DA4342532, 0xB1ECEEC59401AC4B,
    0xFEBC9AEE5C1E814F, 0x8464EA266C2B0836, 0x0B0C7B7E3C7593BD, 0x71D40BB60C401AC4,
    0xE8A46C1224F5A634, 0x927C1CDA14C02F4D, 0x1D148D82449EB4C6, 0x67CCFD4A74AB3DBF,
    0x289C8961BCB410BB, 0x5244F9A98C8199C2, 0xDD2C68F1DCDF0249, 0xA7F41839ECEA8B30,
    0x438C80A64CE15841, 0x3954F06E7CD4D138, 0xB63C61362C8A4AB3, 0xCCE411FE1CBFC3CA,
    0x83B465D5D4A0EECE, 0xF96C151DE49567B7, 0x76048445B4CBFC3C, 0x0CDCF48D84FE7545,
    0x6FBD6D5EBD3716B7, 0x15651D968D029FCE, 0x9A0D8CCEDD5C0445, 0xE0D5FC06ED698D3C,
    0xAF85882D2576A038, 0xD55DF8E515432941, 0x5A3569BD451DB2CA, 0x20ED197575283BB3,
    0xC49581EAD523E8C2, 0xBE4DF122E51661BB, 0x3125607AB548FA30, 0x4BFD10B2857D7349,
    0x04AD64994D625E4D, 0x7E7514517D57D734, 0xF11D85092D094CBF, 0x8BC5F5C11D3CC5C6,
    0x12B5926535897936, 0x686DE2AD05BCF04F, 0xE70573F555E26BC4, 0x9DDD033D65D7E2BD,
    0xD28D7716ADC8CFB9, 0xA85507DE9DFD46C0, 0x273D9686CDA3DD4B, 0x5DE5E64EFD965432,
    0xB99D7ED15D9D8743, 0xC3450E196DA80E3A, 0x4C2D9F413DF695B1, 0x36F5EF890DC31CC8,
    0x79A59BA2C5DC31CC, 0x037DEB6AF5E9B8B5, 0x8C157A32A5B7233E, 0xF6CD0AFA9582AA47,
    0x4AD64994D625E4DA, 0x300E395CE6106DA3, 0xBF66A804B64EF628, 0xC5BED8CC867B7F51,
    0x8AEEACE74E645255, 0xF036DC2F7E51DB2C, 0x7F5E4D772E0F40A7, 0x05863DBF1E3AC9DE,
    0xE1FEA520BE311AAF, 0x9B26D5E88E0493D6, 0x144E44B0DE5A085D, 0x6E963478EE6F8124,
    0x21C640532670AC20, 0x5B1E309B16452559, 0xD476A1C3461BBED2, 0xAEAED10B762E37AB,
    0x37DEB6AF5E9B8B5B, 0x4D06C6676EAE0222, 0xC26E573F3EF099A9, 0xB8B627F70EC510D0,
    0xF7E653DCC6DA3DD4, 0x8D3E2314F6EFB4AD, 0x0256B24CA6B12F26, 0x788EC2849684A65F,
    0x9CF65A1B368F752E, 0xE62E2AD306BAFC57, 0x6946BB8B56E467DC, 0x139ECB4366D1EEA5,
    0x5CCEBF68AECEC3A1, 0x2616CFA09EFB4AD8, 0xA97E5EF8CEA5D153, 0xD3A62E30FE90582A,
    0xB0C7B7E3C7593BD8, 0xCA1FC72BF76CB2A1, 0x45775673A732292A, 0x3FAF26BB9707A053,
    0x70FF52905F188D57, 0x0A2722586F2D042E, 0x854FB3003F739FA5, 0xFF97C3C80F4616DC,
    0x1BEF5B57AF4DC5AD, 0x61372B9F9F784CD4, 0xEE5FBAC7CF26D75F, 0x9487CA0FFF135E26,
    0xDBD7BE24370C7322, 0xA10FCEEC0739FA5B, 0x2E675FB4576761D0, 0x54BF2F7C6752E8A9,
    0xCDCF48D84FE75459, 0xB71738107FD2DD20, 0x387FA9482F8C46AB, 0x42A7D9801FB9CFD2,
    0x0DF7ADABD7A6E2D6, 0x772FDD63E7936BAF, 0xF8474C3BB7CDF024, 0x829F3CF387F8795D,
    0x66E7A46C27F3AA2C, 0x1C3FD4A417C62355, 0x935745FC4798B8DE, 0xE98F353477AD31A7,
    0xA6DF411FBFB21CA3, 0xDC0731D78F8795DA, 0x536FA08FDFD90E51, 0x29B7D047EFEC8728]"

definition fio_crc64 :: "8 word list \<Rightarrow> 64 word" where
  "fio_crc64 buffer = foldl (\<lambda>crc b. crctab64 ! unat ((crc XOR ucast b) AND 0xff) XOR drop_bit 8 crc) 0 buffer"

lemma rstep8_unroll: "rstep8 p c = rstep p (rstep p (rstep p (rstep p (rstep p (rstep p (rstep p (rstep p c)))))))"
  by (simp add: rstep8_def eval_nat_numeral)

lemma fstep8_unroll: "fstep8 p c = fstep p (fstep p (fstep p (fstep p (fstep p (fstep p (fstep p (fstep p c)))))))"
  by (simp add: fstep8_def eval_nat_numeral)

lemma crc16_rtable: "rtable 0xA001 crc16_table"
  unfolding rtable_def by (simp add: crc16_table_def rstep_def rstep8_unroll)

lemma crc32c_rtable: "rtable 0x82F63B78 crc32c_table"
  unfolding rtable_def by (simp add: crc32c_table_def rstep_def rstep8_unroll)

lemma crc64_rtable: "rtable 0x95AC9329AC4BC9B5 crctab64"
  unfolding rtable_def by (simp add: crctab64_def rstep_def rstep8_unroll)

lemma crc32_ftable: "ftable 0x04C11DB7 crctab"
  unfolding ftable_def by (simp add: crctab_def fstep_def fstep8_unroll)

lemma crc7_ftable: "ftable 0x12 (map (push_bit 1) crc7_syndrome_table)"
  unfolding ftable_def by (simp add: crc7_syndrome_table_def fstep_def fstep8_unroll)

interpretation c16: crc_reflected "0xA001 :: 16 word" crc16_table
  by unfold_locales (simp_all add: crc16_rtable)

interpretation c32c: crc_reflected "0x82F63B78 :: 32 word" crc32c_table
  by unfold_locales (simp_all add: crc32c_rtable)

interpretation c64: crc_reflected "0x95AC9329AC4BC9B5 :: 64 word" crctab64
  by unfold_locales (simp_all add: crc64_rtable)

interpretation c32: crc_forward "0x04C11DB7 :: 32 word" crctab
  by unfold_locales (simp_all add: crc32_ftable)

lemma fio_crc16_serial: "fio_crc16 bs = foldl (rcrc_byte 0xA001) 0 bs"
proof -
  have "crc16_byte = rcrc_byte 0xA001" by (intro ext) (simp add: crc16_byte_def c16.update)
  then show ?thesis by (simp add: fio_crc16_def)
qed

lemma crc32c_sw_serial: "crc32c_sw bs = foldl (rcrc_byte 0x82F63B78) (NOT 0) bs"
  unfolding crc32c_sw_def by (subst xor.commute, subst c32c.update) simp

lemma fio_crc64_serial: "fio_crc64 bs = foldl (rcrc_byte 0x95AC9329AC4BC9B5) 0 bs"
  unfolding fio_crc64_def by (subst xor.commute, subst c64.update) simp

lemma fio_crc32_serial: "fio_crc32 bs = foldl (fcrc_byte 0x04C11DB7) 0 bs"
  unfolding fio_crc32_def using c32.update by simp

subsection \<open>The 7-bit check\<close>

text \<open>The register holds the remainder shifted right once; the index stays in the table because it is below 128.\<close>

lemma crc7_small: "n < 256 \<Longrightarrow> crc7_syndrome_table ! n < 128"
proof -
  have "\<forall>x \<in> set crc7_syndrome_table. x < 128" by (simp add: crc7_syndrome_table_def)
  moreover have "length crc7_syndrome_table = 256" by (simp add: crc7_syndrome_table_def)
  ultimately show "n < 256 \<Longrightarrow> crc7_syndrome_table ! n < 128" by simp
qed

lemma crc7_index: "unat ((push_bit 1 (ucast crc :: 32 word)) XOR ucast data) = unat (push_bit 1 crc XOR data)"
  if "crc < 128" for crc data :: "8 word"
proof -
  have "\<not> bit (unat crc) 7" using that by (simp add: word_less_nat_alt bit_iff_odd)
  then have "\<not> bit crc 7" by (simp add: bit_unsigned_iff)
  then have hi: "\<not> bit crc (n - 1)" if "\<not> n < 8" for n
    using that bit_imp_le_length [of crc "n - 1"] by (cases "n = 8") auto
  then have "push_bit 1 (ucast crc :: 32 word) XOR ucast data = ucast (push_bit 1 crc XOR data)"
    by (intro bit_word_eqI) (use hi in \<open>auto simp: bit_xor_word bit_push1 bit_ucast_iff dest: bit_imp_le_length simp del: One_nat_def push_bit_of_1\<close>)
  moreover have "unat (ucast x :: 32 word) = unat x" for x :: "8 word"
    unfolding unsigned_ucast_eq by (intro take_bit_nat_eq_self order.strict_trans [OF unsigned_less]) simp
  ultimately show ?thesis by (simp only:)
qed

lemma crc7_step:
  assumes "crc < 128"
  shows "crc7_byte crc b < 128" "push_bit 1 (crc7_byte crc b) = fcrc_byte 0x12 (push_bit 1 crc) b"
proof -
  let ?i = "push_bit 1 crc XOR b"
  have e: "crc7_byte crc b = crc7_syndrome_table ! unat ?i"
    unfolding crc7_byte_def by (simp only: crc7_index [OF assms])
  have i: "unat ?i < 256" using unsigned_less [of ?i] by simp
  show "crc7_byte crc b < 128" unfolding e by (rule crc7_small [OF i])
  have "length crc7_syndrome_table = 256" by (simp add: crc7_syndrome_table_def)
  then have "push_bit 1 (crc7_syndrome_table ! unat ?i) = fstep8 0x12 (of_nat (unat ?i))"
    using ftable_entry [OF crc7_ftable _ i] i by simp
  then show "push_bit 1 (crc7_byte crc b) = fcrc_byte 0x12 (push_bit 1 crc) b"
    unfolding e fcrc_byte_def by simp
qed

lemma fio_crc7_serial: "fio_crc7 bs < 128 \<and> push_bit 1 (fio_crc7 bs) = foldl (fcrc_byte 0x12) 0 bs"
proof -
  have "crc < 128 \<Longrightarrow> foldl crc7_byte crc bs < 128 \<and> push_bit 1 (foldl crc7_byte crc bs) = foldl (fcrc_byte 0x12) (push_bit 1 crc) bs" for crc
  proof (induction bs arbitrary: crc)
    case (Cons b bs)
    from Cons.IH [OF crc7_step(1) [OF Cons.prems, of b]] crc7_step(2) [OF Cons.prems, of b]
    show ?case by (simp only: foldl_Cons)
  qed simp
  from this [of 0] show ?thesis by (simp add: fio_crc7_def)
qed

subsection \<open>The SSE4.2 version\<close>

text \<open>
  \<open>crc32c_intel\<close> feeds eight bytes at a time to the \<open>crc32\<close> instruction and the rest one by one. The
  instruction in its two widths is a parameter; \<open>crc32_instruction\<close> is what the manual says of it. The
  number of words is kept in an \<open>unsigned int\<close>.
\<close>

fun crc32c_intel_le_hw_byte :: "(32 word \<Rightarrow> 8 word \<Rightarrow> 32 word) \<Rightarrow> 32 word \<Rightarrow> 8 word list \<Rightarrow> nat \<Rightarrow> 32 word" where
  "crc32c_intel_le_hw_byte hw8 crc data 0 = crc"
| "crc32c_intel_le_hw_byte hw8 crc data (Suc n) = crc32c_intel_le_hw_byte hw8 (hw8 crc (hd data)) (tl data) n"

fun crc32c_intel_words :: "(32 word \<Rightarrow> 64 word \<Rightarrow> 32 word) \<Rightarrow> 32 word \<Rightarrow> 8 word list \<Rightarrow> nat \<Rightarrow> 32 word \<times> 8 word list" where
  "crc32c_intel_words hw64 crc ptmp 0 = (crc, ptmp)"
| "crc32c_intel_words hw64 crc ptmp (Suc n) = crc32c_intel_words hw64 (hw64 crc (le_word (take 8 ptmp))) (drop 8 ptmp) n"

definition crc32c_intel :: "(32 word \<Rightarrow> 8 word \<Rightarrow> 32 word) \<Rightarrow> (32 word \<Rightarrow> 64 word \<Rightarrow> 32 word) \<Rightarrow> 8 word list \<Rightarrow> 32 word" where
  "crc32c_intel hw8 hw64 data =
    (let iquotient = (length data div 8) mod 2 ^ 32;
         iremainder = length data mod 8;
         (crc, ptmp) = crc32c_intel_words hw64 (NOT 0) data iquotient
     in if iremainder \<noteq> 0 then crc32c_intel_le_hw_byte hw8 crc ptmp iremainder else crc)"

definition fio_crc32c :: "bool \<Rightarrow> (8 word list \<Rightarrow> 32 word) \<Rightarrow> bool \<Rightarrow> (8 word list \<Rightarrow> 32 word) \<Rightarrow> 8 word list \<Rightarrow> 32 word" where
  "fio_crc32c crc32c_arm64_available crc32c_arm64 crc32c_intel_available intel buf =
    (if crc32c_arm64_available then crc32c_arm64 buf
     else if crc32c_intel_available then intel buf
     else crc32c_sw buf)"

definition crc32_instruction :: "(32 word \<Rightarrow> 8 word \<Rightarrow> 32 word) \<Rightarrow> (32 word \<Rightarrow> 64 word \<Rightarrow> 32 word) \<Rightarrow> bool" where
  "crc32_instruction hw8 hw64 \<longleftrightarrow> (\<forall>c b. hw8 c b = rcrc_byte 0x82F63B78 c b) \<and>
     (\<forall>c q. hw64 c q = foldl (rcrc_byte 0x82F63B78) c (le_bytes 8 q))"

lemma hw_bytes:
  assumes "\<forall>c b. hw8 c b = rcrc_byte 0x82F63B78 c b" "n \<le> length bs"
  shows "crc32c_intel_le_hw_byte hw8 c bs n = foldl (rcrc_byte 0x82F63B78) c (take n bs)"
  using assms(2)
proof (induction n arbitrary: c bs)
  case (Suc n)
  then show ?case using assms(1) by (cases bs) auto
qed simp

lemma hw_words:
  assumes "\<forall>c q. hw64 c q = foldl (rcrc_byte 0x82F63B78) c (le_bytes 8 q)" "8 * n \<le> length bs"
  shows "crc32c_intel_words hw64 c bs n = (foldl (rcrc_byte 0x82F63B78) c (take (8 * n) bs), drop (8 * n) bs)"
  using assms(2)
proof (induction n arbitrary: c bs)
  case (Suc n)
  have "hw64 c (le_word (take 8 bs)) = foldl (rcrc_byte 0x82F63B78) c (take 8 bs)"
    using assms(1) le_bytes_word [of "take 8 bs", where 'w = 64] Suc.prems by simp
  then show ?case using Suc by (simp add: take_add foldl_append [symmetric] add.commute del: foldl_append)
qed simp

lemma crc32c_intel_sw:
  assumes "crc32_instruction hw8 hw64" "length data < 2 ^ 35"
  shows "crc32c_intel hw8 hw64 data = crc32c_sw data"
proof -
  let ?q = "length data div 8" and ?r = "length data mod 8" and ?u = "rcrc_byte 0x82F63B78 :: 32 word \<Rightarrow> _"
  have q: "?q mod 2 ^ 32 = ?q" using assms(2) by simp
  have w: "crc32c_intel_words hw64 (NOT 0) data ?q = (foldl ?u (NOT 0) (take (8 * ?q) data), drop (8 * ?q) data)"
    using assms(1) by (intro hw_words) (simp_all add: crc32_instruction_def)
  have b: "crc32c_intel_le_hw_byte hw8 c (drop (8 * ?q) data) ?r = foldl ?u c (drop (8 * ?q) data)" for c
  proof -
    have "?r = length (drop (8 * ?q) data)" by (simp add: minus_mult_div_eq_mod)
    then show ?thesis using hw_bytes [of hw8 ?r "drop (8 * ?q) data" c] assms(1) by (simp add: crc32_instruction_def)
  qed
  have z: "drop (8 * ?q) data = []" if "?r = 0" using that by auto
  have "crc32c_intel hw8 hw64 data = foldl ?u (foldl ?u (NOT 0) (take (8 * ?q) data)) (drop (8 * ?q) data)"
    unfolding crc32c_intel_def Let_def q w using b z by simp
  then show ?thesis by (simp only: foldl_append [symmetric] append_take_drop_id crc32c_sw_serial)
qed

subsection \<open>Properties\<close>

text \<open>
  C23. Every check of fio is the division it stands for: with the tables of the source, \<open>fio_crc7\<close>,
  \<open>fio_crc16\<close>, \<open>fio_crc32\<close>, \<open>crc32c_sw\<close> and \<open>fio_crc64\<close> compute, for every buffer, what the bit-serial
  division by their polynomial computes from the value the code starts from. This is all ones for
  \<open>crc32c_sw\<close> and zero for the others; also for \<open>fio_crc64\<close>, although the comment at the head of
  \<open>crc64.c\<close> gives all ones as its initial value. The 7-bit check stays below 128, so its table index
  is in bounds.
\<close>
theorem crc_is_division:
  "fio_crc7 buf < 128 \<and> push_bit 1 (fio_crc7 buf) = foldl (fcrc_byte 0x12) 0 buf \<and>
   fio_crc16 buf = foldl (rcrc_byte 0xA001) 0 buf \<and>
   fio_crc32 buf = foldl (fcrc_byte 0x04C11DB7) 0 buf \<and>
   crc32c_sw buf = foldl (rcrc_byte 0x82F63B78) (NOT 0) buf \<and>
   fio_crc64 buf = foldl (rcrc_byte 0x95AC9329AC4BC9B5) 0 buf"
  using fio_crc7_serial [of buf]
  by (simp only: fio_crc16_serial fio_crc32_serial crc32c_sw_serial fio_crc64_serial)

text \<open>The check of seven bits cannot tell two bytes that differ by its polynomial.\<close>

lemma crc7_misses_byte: "fio_crc7 [0x89] = fio_crc7 [0]"
  by (simp add: fio_crc7_def crc7_byte_def crc7_syndrome_table_def)

text \<open>
  C24. The four checks of 16 bits and more notice every corruption confined to one byte: if two buffers
  of the same length differ in exactly one byte, then their \<open>fio_crc16\<close>, \<open>fio_crc32\<close>, \<open>crc32c_sw\<close>
  and \<open>fio_crc64\<close> differ. This does not hold of \<open>fio_crc7\<close>, as \<open>crc7_misses_byte\<close> shows.
\<close>
theorem crc_detects_byte:
  assumes "length ms = length ns" "i < length ms" "ms ! i \<noteq> ns ! i" "\<forall>j < length ms. j \<noteq> i \<longrightarrow> ms ! j = ns ! j"
  shows "fio_crc16 ms \<noteq> fio_crc16 ns \<and> fio_crc32 ms \<noteq> fio_crc32 ns \<and> crc32c_sw ms \<noteq> crc32c_sw ns \<and>
    fio_crc64 ms \<noteq> fio_crc64 ns"
  unfolding fio_crc16_serial fio_crc32_serial crc32c_sw_serial fio_crc64_serial
  using c16.byte.one_difference [OF assms] c32.byte.one_difference [OF assms] c32c.byte.one_difference [OF assms]
    c64.byte.one_difference [OF assms] by simp

theorem crc_detects_byte_witness: "fio_crc16 [1, 2, 3] \<noteq> fio_crc16 [1, 7, 3] \<and> fio_crc64 [1, 2, 3] \<noteq> fio_crc64 [1, 7, 3]"
  using crc_detects_byte [of "[1, 2, 3]" "[1, 7, 3]" 1] by (simp add: less_Suc_eq numeral_3_eq_3)

text \<open>
  C25. The SSE4.2 version agrees with the table-driven one on every buffer below 32 GB, where the
  number of words fits its \<open>unsigned int\<close>, so the choice \<open>fio_crc32c\<close> makes at run time is not visible.
\<close>
theorem fio_crc32c_intel:
  assumes "crc32_instruction hw8 hw64" "length buf < 2 ^ 35"
  shows "fio_crc32c False arm64 intel_available (crc32c_intel hw8 hw64) buf = crc32c_sw buf"
  using crc32c_intel_sw [OF assms] by (simp add: fio_crc32c_def)

theorem fio_crc32c_intel_witness:
  "fio_crc32c False crc32c_sw True (crc32c_intel (rcrc_byte 0x82F63B78)
     (\<lambda>c q. foldl (rcrc_byte 0x82F63B78) c (le_bytes 8 q))) [1, 2, 3, 4, 5, 6, 7, 8, 9] = crc32c_sw [1, 2, 3, 4, 5, 6, 7, 8, 9]"
  by (rule fio_crc32c_intel) (simp_all add: crc32_instruction_def)

end
