(* ===== verification/Sine_Table.thy ===== *)
theory Sine_Table
  imports Complex_Main "HOL-Library.Word"
begin

text \<open>
  The constants of RFC 1321. They are defined there from the sine function: the integer part of
  \<open>2\<^sup>3\<^sup>2 |sin i|\<close>, with \<open>i\<close> in radians. The angles are turned by one radian at a time, in
  integers scaled by \<open>2\<^sup>1\<^sup>2\<^sup>8\<close> with a bound on the error, and the sixty-four integer parts are read off. The
  block function of \<open>fio/crc/md5.c\<close>, which has the constants as literals, is compared with these.
\<close>

subsection \<open>The definition of the RFC\<close>

definition md5_T :: "nat \<Rightarrow> 32 word" where
  "md5_T i = of_int \<lfloor>2 ^ 32 * \<bar>sin (real i)\<bar>\<rfloor>"

subsection \<open>Sine and cosine of whole angles\<close>

definition sin_1 :: int where
  "sin_1 = 286337738405724074564845076175058320434"

definition cos_1 :: int where
  "cos_1 = 183855347493651442427684920285310598441"

fun turn_by :: "nat \<Rightarrow> int \<times> int" where
  "turn_by 0 = (0, 2 ^ 128)"
| "turn_by (Suc n) = (let (s, c) = turn_by n in ((s * cos_1 + c * sin_1) div 2 ^ 128, (c * cos_1 - s * sin_1) div 2 ^ 128))"

lemma sin_1_close: "\<bar>sin 1 - of_int sin_1 / 2 ^ 128\<bar> \<le> 1 / (2 ^ 127 :: real)"
proof -
  have t: "\<bar>sin 1 - (\<Sum>m<36. sin_coeff m)\<bar> \<le> 1 / (2 ^ 128 :: real)"
    using Maclaurin_sin_bound [of 1 36] by (simp add: fact_numeral)
  have "0 \<le> (\<Sum>m<36. sin_coeff m) - of_int sin_1 / 2 ^ 128"
       "(\<Sum>m<36. sin_coeff m) - of_int sin_1 / 2 ^ 128 \<le> 1 / (2 ^ 128 :: real)"
    by (simp_all add: sin_coeff_def sin_1_def lessThan_nat_numeral fact_numeral)
  with t have "\<bar>sin 1 - of_int sin_1 / 2 ^ 128\<bar> \<le> 1 / 2 ^ 128 + 1 / (2 ^ 128 :: real)" by linarith
  then show ?thesis by simp
qed

lemma cos_1_close: "\<bar>cos 1 - of_int cos_1 / 2 ^ 128\<bar> \<le> 1 / (2 ^ 127 :: real)"
proof -
  obtain t where "cos 1 = (\<Sum>m<36. cos_coeff m) + cos (t + 1 / 2 * real 36 * pi) / fact 36"
    using Maclaurin_cos_expansion [of 1 36] by auto
  moreover have "\<bar>cos (t + 1 / 2 * real 36 * pi) / fact 36\<bar> \<le> 1 / (2 ^ 128 :: real)"
  proof -
    have "\<bar>cos (t + 1 / 2 * real 36 * pi) / fact 36\<bar> \<le> 1 / fact 36"
      by (simp only: abs_divide) (simp add: divide_right_mono)
    also have "\<dots> \<le> 1 / (2 ^ 128 :: real)" by (simp add: fact_numeral)
    finally show ?thesis .
  qed
  ultimately have t: "\<bar>cos 1 - (\<Sum>m<36. cos_coeff m)\<bar> \<le> 1 / (2 ^ 128 :: real)" by simp
  have "0 \<le> (\<Sum>m<36. cos_coeff m) - of_int cos_1 / 2 ^ 128"
       "(\<Sum>m<36. cos_coeff m) - of_int cos_1 / 2 ^ 128 \<le> 1 / (2 ^ 128 :: real)"
    by (simp_all add: cos_coeff_def cos_1_def lessThan_nat_numeral fact_numeral)
  with t have "\<bar>cos 1 - of_int cos_1 / 2 ^ 128\<bar> \<le> 1 / 2 ^ 128 + 1 / (2 ^ 128 :: real)" by linarith
  then show ?thesis by simp
qed

lemma product_close:
  fixes x y :: real
  assumes "\<bar>x - x'\<bar> \<le> e" "\<bar>y - y'\<bar> \<le> u" "\<bar>y\<bar> \<le> 1" "\<bar>x\<bar> \<le> 1" "e \<le> 1" 
  shows "\<bar>x * y - x' * y'\<bar> \<le> e + 2 * u"
proof -
  have "x * y - x' * y' = (x - x') * y + x' * (y - y')" by (simp add: algebra_simps)
  moreover have "\<bar>(x - x') * y\<bar> \<le> e * 1" unfolding abs_mult by (intro mult_mono) (use assms in auto)
  moreover have "\<bar>x' * (y - y')\<bar> \<le> 2 * u" unfolding abs_mult by (intro mult_mono) (use assms in auto)
  ultimately show ?thesis by linarith
qed

lemma sum_close:
  fixes a b z :: real
  assumes "\<bar>a - a'\<bar> \<le> p" "\<bar>b - b'\<bar> \<le> q"
  shows "\<bar>a' + b' - z\<bar> \<le> r \<Longrightarrow> \<bar>a + b - z\<bar> \<le> p + q + r"
    and "\<bar>a' - b' - z\<bar> \<le> r \<Longrightarrow> \<bar>a - b - z\<bar> \<le> p + q + r"
  using assms by linarith+

lemma div_close: "\<bar>of_int k / 2 ^ 256 - of_int (k div 2 ^ 128) / 2 ^ 128\<bar> \<le> 1 / (2 ^ 127 :: real)"
proof -
  have "of_int k = of_int (2 ^ 128 * (k div 2 ^ 128) + k mod 2 ^ 128)" by simp
  then have "(of_int k :: real) = 2 ^ 128 * of_int (k div 2 ^ 128) + of_int (k mod 2 ^ 128)"
    by (simp only: of_int_add of_int_mult of_int_power of_int_numeral)
  moreover have "0 \<le> (of_int (k mod 2 ^ 128) :: real)" "(of_int (k mod 2 ^ 128) :: real) \<le> 2 ^ 128"
    using pos_mod_bound [of "2 ^ 128" k] by (simp_all)
  ultimately show ?thesis by (simp add: field_simps)
qed

lemma turn_by_close:
  "n \<le> 64 \<Longrightarrow> \<bar>sin (real n) - of_int (fst (turn_by n)) / 2 ^ 128\<bar> \<le> (6 * 2 ^ n - 5) / 2 ^ 127 \<and>
    \<bar>cos (real n) - of_int (snd (turn_by n)) / 2 ^ 128\<bar> \<le> (6 * 2 ^ n - 5) / (2 ^ 127 :: real)"
proof (induction n)
  case (Suc n)
  let ?e = "(6 * 2 ^ n - 5) / (2 ^ 127 :: real)" and ?u = "1 / (2 ^ 127 :: real)"
  obtain s c where sc: "turn_by n = (s, c)" by (cases "turn_by n")
  have "(6 * 2 ^ n - 5 :: real) \<le> 6 * 2 ^ 64" using Suc.prems power_increasing [of n 64 "2 :: real"] by simp
  then have e: "?e \<le> 1" by simp
  note IH = Suc.IH [unfolded sc fst_conv snd_conv]
  have s: "\<bar>sin (real n) - of_int s / 2 ^ 128\<bar> \<le> ?e" and c: "\<bar>cos (real n) - of_int c / 2 ^ 128\<bar> \<le> ?e"
    using IH Suc.prems by simp_all
  have q: "of_int a / 2 ^ 128 * (of_int b / 2 ^ 128) = (of_int (a * b) / 2 ^ 256 :: real)" for a b :: int by simp
  have sn: "sin (real (Suc n)) = sin (real n) * cos 1 + cos (real n) * sin 1"
    and cn: "cos (real (Suc n)) = cos (real n) * cos 1 - sin (real n) * sin 1"
    using sin_add [of "real n" 1] cos_add [of "real n" 1] by (simp_all add: add.commute)
  have 1: "\<bar>sin (real n) * cos 1 - of_int (s * cos_1) / 2 ^ 256\<bar> \<le> ?e + 2 * ?u"
    using product_close [OF s cos_1_close _ _ e] by (simp only: q) simp
  have 2: "\<bar>cos (real n) * sin 1 - of_int (c * sin_1) / 2 ^ 256\<bar> \<le> ?e + 2 * ?u"
    using product_close [OF c sin_1_close _ _ e] by (simp only: q) simp
  have 3: "\<bar>cos (real n) * cos 1 - of_int (c * cos_1) / 2 ^ 256\<bar> \<le> ?e + 2 * ?u"
    using product_close [OF c cos_1_close _ _ e] by (simp only: q) simp
  have 4: "\<bar>sin (real n) * sin 1 - of_int (s * sin_1) / 2 ^ 256\<bar> \<le> ?e + 2 * ?u"
    using product_close [OF s sin_1_close _ _ e] by (simp only: q) simp
  have E: "(?e + 2 * ?u) + (?e + 2 * ?u) + ?u = (6 * 2 ^ Suc n - 5) / (2 ^ 127 :: real)"
    by (simp add: field_simps)
  have "\<bar>sin (real (Suc n)) - of_int ((s * cos_1 + c * sin_1) div 2 ^ 128) / 2 ^ 128\<bar> \<le>
      (?e + 2 * ?u) + (?e + 2 * ?u) + ?u"
    unfolding sn by (rule sum_close(1) [OF 1 2], rule div_close [of "s * cos_1 + c * sin_1", unfolded of_int_add add_divide_distrib])
  moreover have "\<bar>cos (real (Suc n)) - of_int ((c * cos_1 - s * sin_1) div 2 ^ 128) / 2 ^ 128\<bar> \<le>
      (?e + 2 * ?u) + (?e + 2 * ?u) + ?u"
    unfolding cn by (rule sum_close(2) [OF 3 4], rule div_close [of "c * cos_1 - s * sin_1", unfolded of_int_diff diff_divide_distrib])
  ultimately show ?case unfolding E by (simp only: turn_by.simps sc Let_def prod.case fst_conv snd_conv)
qed simp

lemma floor_close:
  fixes x y :: real
  assumes "\<bar>x - y / 2 ^ 128\<bar> \<le> 2 ^ 72 / 2 ^ 128" "2 ^ 96 * of_int k + 2 ^ 72 \<le> y" "y + 2 ^ 72 < 2 ^ 96 * (of_int k + 1)"
  shows "\<lfloor>2 ^ 32 * x\<rfloor> = k"
proof -
  have "y \<le> x * 2 ^ 128 + 2 ^ 72" "x * 2 ^ 128 \<le> y + 2 ^ 72"
    using assms(1) by (simp_all add: abs_le_iff field_simps)
  then show ?thesis using assms(2,3) by (simp add: floor_eq_iff)
qed

lemma md5_T_value:
  assumes "n \<le> 64" "2 ^ 96 * k + 2 ^ 72 \<le> \<bar>fst (turn_by n)\<bar>" "\<bar>fst (turn_by n)\<bar> + 2 ^ 72 < 2 ^ 96 * (k + 1)"
  shows "md5_T n = of_int k"
proof -
  let ?s = "fst (turn_by n)"
  have "(6 * 2 ^ n - 5 :: real) \<le> 6 * 2 ^ 64" using assms(1) power_increasing [of n 64 "2 :: real"] by simp
  then have "(6 * 2 ^ n - 5) / 2 ^ 127 \<le> 2 ^ 72 / (2 ^ 128 :: real)" by simp
  then have d: "\<bar>sin (real n) - of_int ?s / 2 ^ 128\<bar> \<le> 2 ^ 72 / (2 ^ 128 :: real)"
    using turn_by_close [OF assms(1)] by linarith
  have a: "(of_int (2 ^ 96 * k + 2 ^ 72) :: real) \<le> of_int \<bar>?s\<bar>" "(of_int (\<bar>?s\<bar> + 2 ^ 72) :: real) < of_int (2 ^ 96 * (k + 1))"
    using assms(2,3) by (simp_all only: of_int_le_iff of_int_less_iff)
  have "\<bar>\<bar>sin (real n)\<bar> - \<bar>of_int ?s\<bar> / 2 ^ 128\<bar> \<le> 2 ^ 72 / (2 ^ 128 :: real)"
    using d abs_triangle_ineq3 [of "sin (real n)" "of_int ?s / 2 ^ 128"] by simp
  then have "\<lfloor>2 ^ 32 * \<bar>sin (real n)\<bar>\<rfloor> = k"
    by (rule floor_close) (use a in simp_all)
  then show ?thesis by (simp add: md5_T_def)
qed

subsection \<open>The table\<close>

fun sines_fit :: "int \<Rightarrow> int \<Rightarrow> int list \<Rightarrow> bool" where
  "sines_fit s c [] \<longleftrightarrow> True"
| "sines_fit s c (k # ks) \<longleftrightarrow> 2 ^ 96 * k + 2 ^ 72 \<le> \<bar>s\<bar> \<and> \<bar>s\<bar> + 2 ^ 72 < 2 ^ 96 * (k + 1) \<and>
     sines_fit ((s * cos_1 + c * sin_1) div 2 ^ 128) ((c * cos_1 - s * sin_1) div 2 ^ 128) ks"

lemma sines_fit_T:
  "sines_fit (fst (turn_by n)) (snd (turn_by n)) ks \<Longrightarrow> n + length ks \<le> 65 \<Longrightarrow>
    map md5_T [n..<n + length ks] = map of_int ks"
proof (induction ks arbitrary: n)
  case (Cons k ks)
  have "md5_T n = of_int k" using Cons.prems by (intro md5_T_value) simp_all
  moreover have "map md5_T [Suc n..<Suc n + length ks] = map of_int ks"
    using Cons.prems by (intro Cons.IH) (simp_all add: case_prod_beta)
  moreover have "[n..<n + length (k # ks)] = n # [Suc n..<Suc n + length ks]" by (subst upt_conv_Cons) simp_all
  ultimately show ?case by (simp only: list.map)
qed simp

definition sines :: "int list" where
  "sines = [
    0xd76aa478, 0xe8c7b756, 0x242070db, 0xc1bdceee, 0xf57c0faf, 0x4787c62a, 0xa8304613, 0xfd469501,
    0x698098d8, 0x8b44f7af, 0xffff5bb1, 0x895cd7be, 0x6b901122, 0xfd987193, 0xa679438e, 0x49b40821,
    0xf61e2562, 0xc040b340, 0x265e5a51, 0xe9b6c7aa, 0xd62f105d, 0x02441453, 0xd8a1e681, 0xe7d3fbc8,
    0x21e1cde6, 0xc33707d6, 0xf4d50d87, 0x455a14ed, 0xa9e3e905, 0xfcefa3f8, 0x676f02d9, 0x8d2a4c8a,
    0xfffa3942, 0x8771f681, 0x6d9d6122, 0xfde5380c, 0xa4beea44, 0x4bdecfa9, 0xf6bb4b60, 0xbebfbc70,
    0x289b7ec6, 0xeaa127fa, 0xd4ef3085, 0x04881d05, 0xd9d4d039, 0xe6db99e5, 0x1fa27cf8, 0xc4ac5665,
    0xf4292244, 0x432aff97, 0xab9423a7, 0xfc93a039, 0x655b59c3, 0x8f0ccc92, 0xffeff47d, 0x85845dd1,
    0x6fa87e4f, 0xfe2ce6e0, 0xa3014314, 0x4e0811a1, 0xf7537e82, 0xbd3af235, 0x2ad7d2bb, 0xeb86d391]"

lemma sines_ok: "sines_fit sin_1 cos_1 sines"
  by code_simp

lemma length_sines: "length sines = 64"
  by code_simp

lemma md5_T_table: "map md5_T [1..<65] = map of_int sines"
proof -
  have "turn_by 1 = (sin_1, cos_1)" by (simp add: sin_1_def cos_1_def)
  then have "map md5_T [1..<1 + length sines] = map of_int sines"
    by (intro sines_fit_T) (simp_all only: fst_conv snd_conv sines_ok length_sines)
  then show ?thesis by (simp only: length_sines) simp
qed

lemma md5_T_nth: "i < 64 \<Longrightarrow> md5_T (i + 1) = of_int (sines ! i)"
proof -
  assume i: "i < 64"
  then have "map md5_T [1..<65] ! i = map of_int sines ! i" by (simp only: md5_T_table)
  with i show ?thesis by (simp add: length_sines nth_upt del: upt_conv_Cons)
qed

end
