(* ===== verification/Fio_Md5.thy ===== *)
theory Fio_Md5
  imports Fio_Crc Sine_Table
begin

text \<open>
  The message digests of fio, \<open>fio/crc/md5.c\<close>, \<open>sha1.c\<close> and \<open>sha256.c\<close>. Each has an unrolled block
  function, whose lines are kept here one by one with the registers they name, and a streaming
  interface that buffers what does not fill a block. The locale \<open>unrolled\<close> turns a list of lines
  whose registers rotate into the loop of the standards; the locale \<open>streaming\<close> is the contract of
  init, update and final: however the message is cut up, the digest is that of the whole message.
\<close>

unbundle bit_operations_syntax

subsection \<open>Unrolled rounds with rotating registers\<close>

datatype reg = RA | RB | RC | RD | RE | RF | RG | RH

type_synonym 'v regfile = "reg \<Rightarrow> 'v"

definition rot :: "'a list \<Rightarrow> 'a list" where
  "rot p = last p # butlast p"

definition view :: "reg list \<Rightarrow> 'v regfile \<times> 's \<Rightarrow> 'v list \<times> 's" where
  "view p st = (map (fst st) p, snd st)"

fun chained :: "reg list \<Rightarrow> (reg list \<times> 'p) list \<Rightarrow> bool" where
  "chained p [] \<longleftrightarrow> True"
| "chained p ((q, x) # ls) \<longleftrightarrow> q = p \<and> chained (rot p) ls"

definition rotn :: "nat \<Rightarrow> 'a list \<Rightarrow> 'a list" where
  "rotn n = rot ^^ n"

locale unrolled =
  fixes line :: "reg list \<Rightarrow> 'p \<Rightarrow> 'v regfile \<times> 's \<Rightarrow> 'v regfile \<times> 's"
    and round :: "'p \<Rightarrow> 'v list \<times> 's \<Rightarrow> 'v list \<times> 's"
    and width :: nat
  assumes width_pos: "0 < width"
    and line: "distinct p \<Longrightarrow> length p = width \<Longrightarrow> view (rot p) (line p x st) = round x (view p st)"
begin

lemma rot_ok: "distinct p \<and> length p = width \<Longrightarrow> distinct (rot p) \<and> length (rot p) = width"
  using width_pos by (cases p rule: rev_cases) (auto simp: rot_def)

lemma lines: "distinct p \<Longrightarrow> length p = width \<Longrightarrow> chained p ls \<Longrightarrow>
    view (rotn (length ls) p) (fold (\<lambda>(q, x). line q x) ls st) = fold round (map snd ls) (view p st)"
proof (induction ls arbitrary: p st)
  case (Cons l ls)
  obtain x where l: "l = (p, x)" "chained (rot p) ls" using Cons.prems by (cases l) auto
  have "view (rotn (length ls) (rot p)) (fold (\<lambda>(q, x). line q x) ls (line p x st)) =
      fold round (map snd ls) (view (rot p) (line p x st))"
    using Cons.IH [OF _ _ l(2)] rot_ok [of p] Cons.prems(1,2) by blast
  then show ?case using line Cons.prems(1,2) l(1) by (simp add: rotn_def funpow_swap1)
qed (simp add: rotn_def)

end

subsection \<open>Streaming\<close>

text \<open>What a digest of blocks makes of a message: the chaining value after its full blocks, and the rest.\<close>

function absorb :: "('h \<Rightarrow> 8 word list \<Rightarrow> 'h) \<Rightarrow> 'h \<Rightarrow> 8 word list \<Rightarrow> 'h \<times> 8 word list" where
  "absorb f h bs = (if length bs < 64 then (h, bs) else absorb f (f h (take 64 bs)) (drop 64 bs))"
  by auto
termination by (relation "measure (\<lambda>(f, h, bs). length bs)") auto

declare absorb.simps [simp del]

lemma absorb_short: "length bs < 64 \<Longrightarrow> absorb f h bs = (h, bs)"
  by (subst absorb.simps) simp

lemma absorb_block: "length b = 64 \<Longrightarrow> absorb f h (b @ bs) = absorb f (f h b) bs"
  by (subst absorb.simps) simp

lemma absorb_append: "absorb f h (xs @ ys) = (case absorb f h xs of (h', r) \<Rightarrow> absorb f h' (r @ ys))"
proof (induction f h xs rule: absorb.induct)
  case (1 f h bs)
  show ?case
  proof (cases "length bs < 64")
    case False
    then have "bs = take 64 bs @ drop 64 bs" "length (take 64 bs) = 64" by simp_all
    then have "absorb f h (bs @ ys) = absorb f (f h (take 64 bs)) (drop 64 bs @ ys)"
      "absorb f h bs = absorb f (f h (take 64 bs)) (drop 64 bs)"
      using absorb_block [of "take 64 bs" f h] by (metis append.assoc, metis)
    then show ?thesis using 1 [OF False] by simp
  qed (simp add: absorb_short)
qed

lemma absorb_rest: "length (snd (absorb f h bs)) = length bs mod 64"
proof (induction f h bs rule: absorb.induct)
  case (1 f h bs)
  then show ?case by (cases "length bs < 64") (simp_all add: absorb.simps [of f h bs] le_mod_geq not_less)
qed

text \<open>A \<open>memcpy\<close> into the buffer of a context. Leaving the buffer shows as a change of its length.\<close>

definition block_put :: "8 word list \<Rightarrow> nat \<Rightarrow> 8 word list \<Rightarrow> 8 word list" where
  "block_put blk off bs = take off blk @ bs @ drop (off + length bs) blk"

lemma block_put_len: "off + length bs \<le> length blk \<Longrightarrow> length (block_put blk off bs) = length blk"
  by (simp add: block_put_def)

lemma block_put_take: "off + length bs \<le> length blk \<Longrightarrow> take (off + length bs) (block_put blk off bs) = take off blk @ bs"
  by (simp add: block_put_def)

text \<open>The context holds a message: chaining value, buffered bytes and count are those of the message.\<close>

definition holds :: "('h \<Rightarrow> 8 word list \<Rightarrow> 'h) \<Rightarrow> 'h \<Rightarrow> nat \<Rightarrow> 'h \<times> 8 word list \<times> nat \<Rightarrow> 8 word list \<Rightarrow> bool" where
  "holds f h0 m c msg \<longleftrightarrow> (case c of (h, buf, n) \<Rightarrow> length buf = 64 \<and> n = length msg mod m \<and>
     absorb f h0 msg = (h, take (length msg mod 64) buf))"

lemma holdsD:
  assumes "holds f h0 m (h, buf, n) msg"
  shows "length buf = 64" "n = length msg mod m" "absorb f h0 msg = (h, take (length msg mod 64) buf)"
  using assms by (simp_all add: holds_def)

lemma holds_count: "holds f h0 m (h, buf, n) msg \<Longrightarrow> 64 dvd m \<Longrightarrow> n mod 64 = length msg mod 64"
  by (simp add: holds_def mod_mod_cancel)

lemma holds_fill:
  assumes "holds f h0 m (h, buf, n) msg" "length msg mod 64 + length data < 64"
  shows "holds f h0 m (h, block_put buf (length msg mod 64) data, (n + length data) mod m) (msg @ data)"
proof -
  let ?k = "length msg mod 64"
  note b = holdsD [OF assms(1)]
  have "(length msg + length data) mod 64 = ?k + length data" using assms(2) by (metis mod_add_left_eq mod_less)
  moreover have "absorb f h0 (msg @ data) = (h, take ?k buf @ data)"
    using assms(2) b(1,3) absorb_append [of f h0 msg data] absorb_short [of "take ?k buf @ data" f h] by simp
  moreover have "(n + length data) mod m = (length msg + length data) mod m" using b(2) by (simp add: mod_simps)
  moreover have "take (?k + length data) (block_put buf ?k data) = take ?k buf @ data" "length (block_put buf ?k data) = 64"
    using b(1) assms(2) block_put_take [of ?k data buf] block_put_len [of ?k data buf] by simp_all
  ultimately show ?thesis by (simp only: holds_def prod.case length_append)
qed

lemma holds_block:
  assumes "holds f h0 m (h, buf, n) msg" "length d = 64 - length msg mod 64"
  shows "absorb f h0 (msg @ d) = (f h (take (length msg mod 64) buf @ d), [])"
    "block_put buf (length msg mod 64) d = take (length msg mod 64) buf @ d"
proof -
  let ?k = "length msg mod 64"
  note b = holdsD [OF assms(1)]
  have k: "?k < 64" by simp
  have "length (take ?k buf @ d) = 64" using b(1) assms(2) k by simp
  then show "absorb f h0 (msg @ d) = (f h (take ?k buf @ d), [])"
    using absorb_block [of "take ?k buf @ d" f h "[]"] b(3) absorb_short [of "[]" f]
      absorb_append [of f h0 msg d] by simp
  show "block_put buf ?k d = take ?k buf @ d" using b(1) assms(2) k by (simp add: block_put_def)
qed

text \<open>Once a block boundary is reached, what is left is absorbed block by block.\<close>

lemma holds_rest:
  assumes "absorb f h0 (msg @ d) = (h, [])" "absorb f h r = (h', take (length r mod 64) buf)" "length buf = 64"
    "(length msg + length d) mod 64 = 0" "n = length (msg @ d @ r) mod m"
  shows "holds f h0 m (h', buf, n) (msg @ d @ r)"
proof -
  have "(length msg + (length d + length r)) mod 64 = length r mod 64"
    using assms(4) by (metis add.assoc add_0 mod_add_left_eq)
  moreover have "absorb f h0 (msg @ d @ r) = absorb f h r"
    using absorb_append [of f h0 "msg @ d" r] assms(1) by simp
  ultimately show ?thesis using assms by (simp add: holds_def)
qed

lemma absorb_cong:
  assumes "\<And>h b. P h \<Longrightarrow> length b = 64 \<Longrightarrow> f h b = g h b \<and> P (g h b)"
  shows "P h \<Longrightarrow> absorb f h bs = absorb g h bs \<and> P (fst (absorb g h bs))"
proof (induction bs arbitrary: h rule: length_induct)
  case (1 bs)
  show ?case
  proof (cases "length bs < 64")
    case False
    then have "f h (take 64 bs) = g h (take 64 bs) \<and> P (g h (take 64 bs))" using assms 1(2) by simp
    moreover have "length (drop 64 bs) < length bs" using False by simp
    ultimately show ?thesis using 1(1) False absorb.simps [of f h bs] absorb.simps [of g h bs] by simp
  qed (use 1 in \<open>simp add: absorb_short\<close>)
qed

locale streaming =
  fixes compress :: "'h \<Rightarrow> 8 word list \<Rightarrow> 'h" and h0 :: 'h and modulus limit :: nat
    and parts :: "'c \<Rightarrow> 'h \<times> 8 word list \<times> nat" and update :: "'c \<Rightarrow> 8 word list \<Rightarrow> 'c"
    and pad :: "nat \<Rightarrow> 8 word list" and digest :: "'c \<Rightarrow> 'd" and out :: "'h \<Rightarrow> 'd"
  assumes updated: "holds compress h0 modulus (parts c) msg \<Longrightarrow> length data < limit \<Longrightarrow>
      holds compress h0 modulus (parts (update c data)) (msg @ data)"
    and finished: "holds compress h0 modulus (parts c) msg \<Longrightarrow>
      digest c = out (fst (absorb compress h0 (msg @ pad (length msg))))"
begin

lemma updates: "holds compress h0 modulus (parts c) msg \<Longrightarrow> \<forall>d \<in> set ds. length d < limit \<Longrightarrow>
    holds compress h0 modulus (parts (foldl update c ds)) (msg @ concat ds)"
proof (induction ds arbitrary: c msg)
  case (Cons d ds)
  then show ?case using Cons.IH [OF updated [of c msg d]] by simp
qed simp

lemma digests:
  assumes "holds compress h0 modulus (parts c) []" "\<forall>d \<in> set ds. length d < limit"
  shows "digest (foldl update c ds) = out (fst (absorb compress h0 (concat ds @ pad (length (concat ds)))))"
  using finished [OF updates [OF assms]] by simp

lemma chunking:
  assumes "holds compress h0 modulus (parts c) []" "\<forall>d \<in> set ds. length d < limit" "\<forall>d \<in> set es. length d < limit"
    "concat ds = concat es"
  shows "digest (foldl update c ds) = digest (foldl update c es)"
  using digests [OF assms(1,2)] digests [OF assms(1,3)] assms(4) by simp

end

subsection \<open>MD5\<close>

text \<open>\<open>md5_lines\<close> are the 64 lines of \<open>md5_transform\<close>: the registers, the function, the input word, the constant and the shift.\<close>

definition rotl32 :: "32 word \<Rightarrow> nat \<Rightarrow> 32 word" where
  "rotl32 x r = push_bit r x OR drop_bit (32 - r) x"

definition F1 :: "32 word \<Rightarrow> 32 word \<Rightarrow> 32 word \<Rightarrow> 32 word" where
  "F1 x y z = z XOR (x AND (y XOR z))"

definition F2 :: "32 word \<Rightarrow> 32 word \<Rightarrow> 32 word \<Rightarrow> 32 word" where
  "F2 x y z = F1 z x y"

definition F3 :: "32 word \<Rightarrow> 32 word \<Rightarrow> 32 word \<Rightarrow> 32 word" where
  "F3 x y z = x XOR y XOR z"

definition F4 :: "32 word \<Rightarrow> 32 word \<Rightarrow> 32 word \<Rightarrow> 32 word" where
  "F4 x y z = y XOR (x OR NOT z)"

type_synonym md5_fn = "32 word \<Rightarrow> 32 word \<Rightarrow> 32 word \<Rightarrow> 32 word"

definition MD5STEP :: "md5_fn \<Rightarrow> reg \<Rightarrow> reg \<Rightarrow> reg \<Rightarrow> reg \<Rightarrow> 32 word \<Rightarrow> nat \<Rightarrow> 32 word regfile \<Rightarrow> 32 word regfile" where
  "MD5STEP f w x y z inp s rf =
    (let v = rf w + (f (rf x) (rf y) (rf z) + inp) in rf(w := (push_bit s v OR drop_bit (32 - s) v) + rf x))"

definition md5_lines :: "(reg list \<times> md5_fn \<times> nat \<times> 32 word \<times> nat) list" where
  "md5_lines = [
    ([RA, RB, RC, RD], F1, 0, 0xd76aa478, 7), ([RD, RA, RB, RC], F1, 1, 0xe8c7b756, 12),
    ([RC, RD, RA, RB], F1, 2, 0x242070db, 17), ([RB, RC, RD, RA], F1, 3, 0xc1bdceee, 22),
    ([RA, RB, RC, RD], F1, 4, 0xf57c0faf, 7), ([RD, RA, RB, RC], F1, 5, 0x4787c62a, 12),
    ([RC, RD, RA, RB], F1, 6, 0xa8304613, 17), ([RB, RC, RD, RA], F1, 7, 0xfd469501, 22),
    ([RA, RB, RC, RD], F1, 8, 0x698098d8, 7), ([RD, RA, RB, RC], F1, 9, 0x8b44f7af, 12),
    ([RC, RD, RA, RB], F1, 10, 0xffff5bb1, 17), ([RB, RC, RD, RA], F1, 11, 0x895cd7be, 22),
    ([RA, RB, RC, RD], F1, 12, 0x6b901122, 7), ([RD, RA, RB, RC], F1, 13, 0xfd987193, 12),
    ([RC, RD, RA, RB], F1, 14, 0xa679438e, 17), ([RB, RC, RD, RA], F1, 15, 0x49b40821, 22),
    ([RA, RB, RC, RD], F2, 1, 0xf61e2562, 5), ([RD, RA, RB, RC], F2, 6, 0xc040b340, 9),
    ([RC, RD, RA, RB], F2, 11, 0x265e5a51, 14), ([RB, RC, RD, RA], F2, 0, 0xe9b6c7aa, 20),
    ([RA, RB, RC, RD], F2, 5, 0xd62f105d, 5), ([RD, RA, RB, RC], F2, 10, 0x02441453, 9),
    ([RC, RD, RA, RB], F2, 15, 0xd8a1e681, 14), ([RB, RC, RD, RA], F2, 4, 0xe7d3fbc8, 20),
    ([RA, RB, RC, RD], F2, 9, 0x21e1cde6, 5), ([RD, RA, RB, RC], F2, 14, 0xc33707d6, 9),
    ([RC, RD, RA, RB], F2, 3, 0xf4d50d87, 14), ([RB, RC, RD, RA], F2, 8, 0x455a14ed, 20),
    ([RA, RB, RC, RD], F2, 13, 0xa9e3e905, 5), ([RD, RA, RB, RC], F2, 2, 0xfcefa3f8, 9),
    ([RC, RD, RA, RB], F2, 7, 0x676f02d9, 14), ([RB, RC, RD, RA], F2, 12, 0x8d2a4c8a, 20),
    ([RA, RB, RC, RD], F3, 5, 0xfffa3942, 4), ([RD, RA, RB, RC], F3, 8, 0x8771f681, 11),
    ([RC, RD, RA, RB], F3, 11, 0x6d9d6122, 16), ([RB, RC, RD, RA], F3, 14, 0xfde5380c, 23),
    ([RA, RB, RC, RD], F3, 1, 0xa4beea44, 4), ([RD, RA, RB, RC], F3, 4, 0x4bdecfa9, 11),
    ([RC, RD, RA, RB], F3, 7, 0xf6bb4b60, 16), ([RB, RC, RD, RA], F3, 10, 0xbebfbc70, 23),
    ([RA, RB, RC, RD], F3, 13, 0x289b7ec6, 4), ([RD, RA, RB, RC], F3, 0, 0xeaa127fa, 11),
    ([RC, RD, RA, RB], F3, 3, 0xd4ef3085, 16), ([RB, RC, RD, RA], F3, 6, 0x04881d05, 23),
    ([RA, RB, RC, RD], F3, 9, 0xd9d4d039, 4), ([RD, RA, RB, RC], F3, 12, 0xe6db99e5, 11),
    ([RC, RD, RA, RB], F3, 15, 0x1fa27cf8, 16), ([RB, RC, RD, RA], F3, 2, 0xc4ac5665, 23),
    ([RA, RB, RC, RD], F4, 0, 0xf4292244, 6), ([RD, RA, RB, RC], F4, 7, 0x432aff97, 10),
    ([RC, RD, RA, RB], F4, 14, 0xab9423a7, 15), ([RB, RC, RD, RA], F4, 5, 0xfc93a039, 21),
    ([RA, RB, RC, RD], F4, 12, 0x655b59c3, 6), ([RD, RA, RB, RC], F4, 3, 0x8f0ccc92, 10),
    ([RC, RD, RA, RB], F4, 10, 0xffeff47d, 15), ([RB, RC, RD, RA], F4, 1, 0x85845dd1, 21),
    ([RA, RB, RC, RD], F4, 8, 0x6fa87e4f, 6), ([RD, RA, RB, RC], F4, 15, 0xfe2ce6e0, 10),
    ([RC, RD, RA, RB], F4, 6, 0xa3014314, 15), ([RB, RC, RD, RA], F4, 13, 0x4e0811a1, 21),
    ([RA, RB, RC, RD], F4, 4, 0xf7537e82, 6), ([RD, RA, RB, RC], F4, 11, 0xbd3af235, 10),
    ([RC, RD, RA, RB], F4, 2, 0x2ad7d2bb, 15), ([RB, RC, RD, RA], F4, 9, 0xeb86d391, 21)]"

definition md5_line :: "reg list \<Rightarrow> md5_fn \<times> nat \<times> 32 word \<times> nat \<Rightarrow> 32 word regfile \<times> 32 word list \<Rightarrow> 32 word regfile \<times> 32 word list" where
  "md5_line p x st = (case (p, x, st) of ([r0, r1, r2, r3], (f, i, k, s), rf, inp) \<Rightarrow>
      (MD5STEP f r0 r1 r2 r3 (inp ! i + k) s rf, inp) | _ \<Rightarrow> st)"

definition le_words :: "8 word list \<Rightarrow> 32 word list" where
  "le_words block = map (\<lambda>i. le_word (take 4 (drop (4 * i) block))) [0..<16]"

definition md5_transform :: "32 word list \<Rightarrow> 8 word list \<Rightarrow> 32 word list" where
  "md5_transform hash block =
    (let r = (\<lambda>_. 0)(RA := hash ! 0, RB := hash ! 1, RC := hash ! 2, RD := hash ! 3);
         r' = fst (fold (\<lambda>(p, x). md5_line p x) md5_lines (r, le_words block))
     in [hash ! 0 + r' RA, hash ! 1 + r' RB, hash ! 2 + r' RC, hash ! 3 + r' RD])"

record fio_md5_ctx =
  md5_hash :: "32 word list"
  md5_block :: "8 word list"
  md5_byte_count :: nat

definition fio_md5_init :: "fio_md5_ctx \<Rightarrow> fio_md5_ctx" where
  "fio_md5_init c = c\<lparr>md5_hash := [0x67452301, 0xefcdab89, 0x98badcfe, 0x10325476]\<rparr>"

function md5_blocks :: "32 word list \<Rightarrow> 8 word list \<Rightarrow> 8 word list \<Rightarrow> 32 word list \<times> 8 word list" where
  "md5_blocks hash block data =
    (if 64 \<le> length data
     then let block = block_put block 0 (take 64 data) in md5_blocks (md5_transform hash block) block (drop 64 data)
     else (hash, block_put block 0 data))"
  by auto
termination by (relation "measure (\<lambda>(h, b, d). length d)") auto

definition fio_md5_update :: "fio_md5_ctx \<Rightarrow> 8 word list \<Rightarrow> fio_md5_ctx" where
  "fio_md5_update c data =
    (let off = md5_byte_count c mod 64; avail = 64 - off;
         c1 = c\<lparr>md5_byte_count := (md5_byte_count c + length data) mod 2 ^ 64\<rparr>
     in if length data < avail then c1\<lparr>md5_block := block_put (md5_block c) off data\<rparr>
        else let block = block_put (md5_block c) off (take avail data);
                 (h, b) = md5_blocks (md5_transform (md5_hash c) block) block (drop avail data)
             in c1\<lparr>md5_hash := h, md5_block := b\<rparr>)"

definition fio_md5_final :: "fio_md5_ctx \<Rightarrow> fio_md5_ctx" where
  "fio_md5_final c =
    (let off = md5_byte_count c mod 64;
         blk = block_put (md5_block c) off [0x80];
         (h, blk, p, padding) =
           (if 56 < off + 1
            then let blk = block_put blk (off + 1) (replicate (64 - (off + 1)) 0)
                 in (md5_transform (md5_hash c) blk, blk, 0, 56)
            else (md5_hash c, blk, off + 1, 56 - (off + 1)));
         blk = block_put blk p (replicate padding 0);
         blk = block_put blk 56 (le_bytes 4 (of_nat (md5_byte_count c * 2 ^ 3) :: 32 word));
         blk = block_put blk 60 (le_bytes 4 (of_nat (md5_byte_count c div 2 ^ 29) :: 32 word))
     in c\<lparr>md5_hash := md5_transform h blk, md5_block := blk\<rparr>)"

subsection \<open>MD5 as RFC 1321 has it\<close>

text \<open>The four functions, the order of the words, the shifts and the constants as the RFC states them.\<close>

definition md5_F :: md5_fn where
  "md5_F x y z = (x AND y) OR (NOT x AND z)"

definition md5_G :: md5_fn where
  "md5_G x y z = (x AND z) OR (y AND NOT z)"

definition md5_H :: md5_fn where
  "md5_H x y z = x XOR y XOR z"

definition md5_I :: md5_fn where
  "md5_I x y z = y XOR (x OR NOT z)"

definition md5_params :: "nat \<Rightarrow> md5_fn \<times> nat \<times> 32 word \<times> nat" where
  "md5_params i =
    (if i < 16 then (md5_F, i, md5_T (i + 1), [7, 12, 17, 22] ! (i mod 4))
     else if i < 32 then (md5_G, (5 * i + 1) mod 16, md5_T (i + 1), [5, 9, 14, 20] ! (i mod 4))
     else if i < 48 then (md5_H, (3 * i + 5) mod 16, md5_T (i + 1), [4, 11, 16, 23] ! (i mod 4))
     else (md5_I, (7 * i) mod 16, md5_T (i + 1), [6, 10, 15, 21] ! (i mod 4)))"

fun md5_round :: "md5_fn \<times> nat \<times> 32 word \<times> nat \<Rightarrow> 32 word list \<times> 32 word list \<Rightarrow> 32 word list \<times> 32 word list" where
  "md5_round (f, i, k, s) ([a, b, c, d], m) = ([d, b + rotl32 (a + f b c d + k + m ! i) s, b, c], m)"
| "md5_round x st = st"

definition md5_compress :: "32 word list \<Rightarrow> 8 word list \<Rightarrow> 32 word list" where
  "md5_compress h block = map2 (+) h (fst (fold (\<lambda>i. md5_round (md5_params i)) [0..<64] (h, le_words block)))"

lemma upt_two: "2 \<le> n \<Longrightarrow> [0..<n] = 0 # 1 # [2..<n]"
  by (simp add: upt_conv_Cons numeral_2_eq_2)

lemma md5_functions: "md5_F = F1" "md5_G = F2" "md5_H = F3" "md5_I = F4"
  by (auto intro!: ext bit_word_eqI
    simp: md5_F_def md5_G_def md5_H_def md5_I_def F1_def F2_def F3_def F4_def bit_simps)

lemma md5_lines_params: "map snd md5_lines = map md5_params [0..<64]"
proof -
  define K where "K = (map of_int sines :: 32 word list)"
  have "map md5_params [0..<64] = map (\<lambda>i.
    (if i < 16 then (F1, i, K ! i, [7, 12, 17, 22] ! (i mod 4))
     else if i < 32 then (F2, (5 * i + 1) mod 16, K ! i, [5, 9, 14, 20] ! (i mod 4))
     else if i < 48 then (F3, (3 * i + 5) mod 16, K ! i, [4, 11, 16, 23] ! (i mod 4))
     else (F4, (7 * i) mod 16, K ! i, [6, 10, 15, 21] ! (i mod 4)))) [0..<64]"
    by (intro map_cong refl) (simp add: md5_params_def md5_functions md5_T_nth K_def length_sines del: One_nat_def add_Suc_right)
  also have "\<dots> = map snd md5_lines"
    by (simp add: md5_lines_def K_def sines_def upt_two upt_rec_numeral)
  finally show ?thesis by simp
qed

lemma md5_chained: "chained [RA, RB, RC, RD] md5_lines"
  by (simp add: md5_lines_def rot_def)

lemma length_4: "length p = 4 \<Longrightarrow> \<exists>a b c d. p = [a, b, c, d]"
  by (auto simp: length_Suc_conv numeral_eq_Suc)

interpretation md5u: unrolled md5_line md5_round 4
proof
  fix p :: "reg list" and x :: "md5_fn \<times> nat \<times> 32 word \<times> nat" and st :: "32 word regfile \<times> 32 word list"
  assume "distinct p" "length p = 4"
  moreover obtain a b c d where "p = [a, b, c, d]" using length_4 [OF calculation(2)] by blast
  moreover obtain f i k s where "x = (f, i, k, s)" by (cases x)
  ultimately show "view (rot p) (md5_line p x st) = md5_round x (view p st)"
    by (cases st) (auto simp: view_def rot_def md5_line_def MD5STEP_def rotl32_def Let_def ac_simps)
qed simp

lemma md5_transform_compress: "length h = 4 \<Longrightarrow> md5_transform h block = md5_compress h block"
proof -
  assume "length h = 4"
  then obtain a b c d where h: "h = [a, b, c, d]" using length_4 by blast
  let ?r = "(\<lambda>_. 0)(RA := a, RB := b, RC := c, RD := d) :: 32 word regfile"
  let ?st = "fold (\<lambda>(p, x). md5_line p x) md5_lines (?r, le_words block)"
  have e: "rotn (length md5_lines) [RA, RB, RC, RD] = [RA, RB, RC, RD]"
    by (simp add: md5_lines_def rotn_def rot_def eval_nat_numeral)
  have "view [RA, RB, RC, RD] ?st = fold md5_round (map snd md5_lines) (view [RA, RB, RC, RD] (?r, le_words block))"
    using md5u.lines [OF _ _ md5_chained, of "(?r, le_words block)"] by (simp only: e) simp
  also have "\<dots> = fold (\<lambda>i. md5_round (md5_params i)) [0..<64] (h, le_words block)"
    by (simp only: md5_lines_params fold_map h) (simp add: view_def comp_def)
  finally have "fst (fold (\<lambda>i. md5_round (md5_params i)) [0..<64] (h, le_words block)) = map (fst ?st) [RA, RB, RC, RD]"
    by (metis view_def fst_conv)
  then show ?thesis unfolding md5_compress_def md5_transform_def Let_def by (simp add: h)
qed

definition md5_h0 :: "32 word list" where
  "md5_h0 = [0x67452301, 0xefcdab89, 0x98badcfe, 0x10325476]"

definition md5_parts :: "fio_md5_ctx \<Rightarrow> 32 word list \<times> 8 word list \<times> nat" where
  "md5_parts c = (md5_hash c, md5_block c, md5_byte_count c)"

lemma md5_round_len: "length (fst (md5_round x st)) = length (fst st)"
  by (induction x st rule: md5_round.induct) simp_all

lemma md5_compress_len: "length h = 4 \<Longrightarrow> length (md5_compress h b) = 4"
proof -
  assume "length h = 4"
  moreover have "length (fst (fold (\<lambda>i. md5_round (md5_params i)) is st)) = length (fst st)" for "is" st
    by (induction "is" arbitrary: st) (simp_all add: md5_round_len)
  ultimately show ?thesis by (simp add: md5_compress_def)
qed

lemma md5_absorb: "length h = 4 \<Longrightarrow> absorb md5_transform h bs = absorb md5_compress h bs"
  using absorb_cong [of "\<lambda>h. length h = 4" md5_transform md5_compress h bs]
  by (simp add: md5_transform_compress md5_compress_len)

lemma md5_blocks_absorb:
  "length block = 64 \<Longrightarrow> \<exists>h' b'. md5_blocks hash block data = (h', b') \<and> length b' = 64 \<and>
     absorb md5_transform hash data = (h', take (length data mod 64) b')"
proof (induction hash block data rule: md5_blocks.induct)
  case (1 hash block data)
  show ?case
  proof (cases "64 \<le> length data")
    case True
    let ?b = "take 64 data"
    have b: "block_put block 0 ?b = ?b" using True 1(2) by (simp add: block_put_def)
    have "\<exists>h' b'. md5_blocks (md5_transform hash ?b) ?b (drop 64 data) = (h', b') \<and> length b' = 64 \<and>
        absorb md5_transform (md5_transform hash ?b) (drop 64 data) = (h', take (length (drop 64 data) mod 64) b')"
      using 1(1) [OF True refl] True by (simp add: b)
    moreover have "absorb md5_transform hash data = absorb md5_transform (md5_transform hash ?b) (drop 64 data)"
      using True by (simp add: absorb.simps [of _ hash data])
    moreover have "length (drop 64 data) mod 64 = length data mod 64" using True by (simp add: le_mod_geq)
    moreover have "md5_blocks hash block data = md5_blocks (md5_transform hash ?b) ?b (drop 64 data)"
      using True by (subst md5_blocks.simps) (simp only: b Let_def if_True)
    ultimately show ?thesis by simp
  next
    case False
    then show ?thesis using 1(2)
      by (simp add: md5_blocks.simps [of hash] absorb_short block_put_len block_put_def)
  qed
qed

lemma md5_update_holds:
  assumes "holds md5_transform h0 (2 ^ 64) (md5_parts c) msg"
  shows "holds md5_transform h0 (2 ^ 64) (md5_parts (fio_md5_update c data)) (msg @ data)"
proof -
  let ?k = "length msg mod 64"
  have h: "holds md5_transform h0 (2 ^ 64) (md5_hash c, md5_block c, md5_byte_count c) msg"
    using assms by (simp add: md5_parts_def)
  have k: "md5_byte_count c mod 64 = ?k" using holds_count [OF h] by simp
  show ?thesis
  proof (cases "length data < 64 - ?k")
    case True
    then show ?thesis using holds_fill [OF h, of data] by (simp add: fio_md5_update_def k Let_def md5_parts_def)
  next
    case False
    let ?d = "take (64 - ?k) data" and ?r = "drop (64 - ?k) data"
    have d: "length ?d = 64 - ?k" using False by simp
    note b = holds_block [OF h d]
    let ?b = "block_put (md5_block c) ?k ?d"
    have bl: "length ?b = 64" using holdsD(1) [OF h] d by (simp add: block_put_len)
    obtain h' b' where m: "md5_blocks (md5_transform (md5_hash c) ?b) ?b ?r = (h', b')" "length b' = 64"
      "absorb md5_transform (md5_transform (md5_hash c) ?b) ?r = (h', take (length ?r mod 64) b')"
      using md5_blocks_absorb [OF bl] by blast
    have "absorb md5_transform h0 (msg @ ?d) = (md5_transform (md5_hash c) ?b, [])" using b by simp
    moreover have "(length msg + length ?d) mod 64 = 0" using d by (metis le_add_diff_inverse mod_add_left_eq mod_self mod_less_divisor less_imp_le zero_less_numeral)
    moreover have "(md5_byte_count c + length data) mod 2 ^ 64 = length (msg @ ?d @ ?r) mod 2 ^ 64"
      using holdsD(2) [OF h] by (simp add: mod_simps)
    ultimately have "holds md5_transform h0 (2 ^ 64) (h', b', (md5_byte_count c + length data) mod 2 ^ 64) (msg @ ?d @ ?r)"
      by (rule holds_rest [OF _ m(3,2)])
    then show ?thesis using False m(1) by (simp add: fio_md5_update_def k Let_def md5_parts_def)
  qed
qed

subsection \<open>Padding\<close>

text \<open>One bit, zeros up to eight bytes before a block boundary, and the length in bits.\<close>

definition pad_zero :: "nat \<Rightarrow> 8 word list" where
  "pad_zero n = 0x80 # replicate ((119 - n mod 64) mod 64) 0"

definition md5_pad :: "nat \<Rightarrow> 8 word list" where
  "md5_pad n = pad_zero n @ le_bytes 8 (of_nat (8 * n) :: 64 word)"

lemma le_bytes_len [simp]: "length (le_bytes n w) = n"
  by (induction n arbitrary: w) simp_all

lemma le_bytes_add: "le_bytes (m + n) w = le_bytes m w @ le_bytes n (drop_bit (8 * m) w)"
  by (induction m arbitrary: w) (simp_all add: drop_bit_drop_bit add.commute)

lemma le_bytes_ucast: "8 * n \<le> LENGTH('b) \<Longrightarrow> le_bytes n (ucast w :: 'b :: len word) = le_bytes n w" for w :: "'a :: len word"
proof -
  have "8 * n + d \<le> LENGTH('b) \<Longrightarrow> le_bytes n (drop_bit d (ucast w :: 'b word)) = le_bytes n (drop_bit d w)" for d
  proof (induction n arbitrary: d)
    case (Suc n)
    have "(ucast (drop_bit d (ucast w :: 'b word)) :: 8 word) = ucast (drop_bit d w)"
      by (rule bit_word_eqI) (use Suc.prems in \<open>auto simp: bit_ucast_iff bit_drop_bit_eq\<close>)
    then show ?case using Suc.IH [of "8 + d"] Suc.prems by (simp add: drop_bit_drop_bit)
  qed simp
  from this [of 0] show "8 * n \<le> LENGTH('b) \<Longrightarrow> ?thesis" by simp
qed

lemma unat_of_nat64: "unat (of_nat x :: 64 word) = x mod 2 ^ 64"
  by (simp add: unat_of_nat take_bit_eq_mod)

lemma of_nat32_eq: "(of_nat x :: 32 word) = of_nat y \<longleftrightarrow> x mod 2 ^ 32 = y mod 2 ^ 32"
  by (simp add: word_of_nat_eq_iff take_bit_eq_mod)

lemma ucast_of_nat_unat: "ucast w = (of_nat (unat w) :: 32 word)" for w :: "64 word"
  by simp

lemma count_high: "((8 * n) mod 2 ^ 64 div 2 ^ 32) mod 2 ^ 32 = (n div 2 ^ 29) mod (2 ^ 32 :: nat)"
proof -
  have "drop_bit 32 (take_bit 64 (8 * n)) = take_bit 32 (drop_bit 32 (8 * n))" by (simp only: drop_bit_take_bit) simp
  then have "(8 * n) mod 2 ^ 64 div 2 ^ 32 = (8 * n) div 2 ^ 32 mod 2 ^ 32" by (simp only: drop_bit_eq_div take_bit_eq_mod)
  moreover have "(8 * n) div 2 ^ 32 = n div (2 ^ 29 :: nat)" using div_mult_mult1 [of 8 n "2 ^ 29"] by simp
  ultimately show ?thesis by simp
qed

lemma md5_length_word:
  assumes "n = len mod 2 ^ 64"
  shows "le_bytes 4 (of_nat (n * 2 ^ 3) :: 32 word) @ le_bytes 4 (of_nat (n div 2 ^ 29) :: 32 word) =
    le_bytes 8 (of_nat (8 * len) :: 64 word)"
proof -
  define w :: "64 word" where "w = of_nat (8 * len)"
  have u: "unat w = (8 * n) mod 2 ^ 64" unfolding w_def unat_of_nat64 assms by (rule mod_mult_right_eq [symmetric])
  have "(8 * n) mod 2 ^ 64 mod 2 ^ 32 = (n * 2 ^ 3) mod (2 ^ 32 :: nat)"
    by (simp add: mod_mod_cancel mult.commute)
  then have lo: "ucast w = (of_nat (n * 2 ^ 3) :: 32 word)"
    unfolding ucast_of_nat_unat u of_nat32_eq .
  have "unat (drop_bit 32 w) = (8 * n) mod 2 ^ 64 div 2 ^ 32" 
    unfolding unat_drop_bit_eq u by (rule drop_bit_eq_div)
  then have hi: "ucast (drop_bit 32 w) = (of_nat (n div 2 ^ 29) :: 32 word)"
    unfolding ucast_of_nat_unat of_nat32_eq by (simp only: count_high)
  have "le_bytes 8 w = le_bytes 4 w @ le_bytes 4 (drop_bit 32 w)" using le_bytes_add [of 4 4 w] by simp
  also have "\<dots> = le_bytes 4 (ucast w :: 32 word) @ le_bytes 4 (ucast (drop_bit 32 w) :: 32 word)"
    using le_bytes_ucast [of 4 w, where 'b = 32] le_bytes_ucast [of 4 "drop_bit 32 w", where 'b = 32] by simp
  finally show ?thesis unfolding w_def [symmetric] lo hi by simp
qed

lemma block_put_at: "length pre = off \<Longrightarrow> block_put (pre @ r) off bs = pre @ bs @ drop (length bs) r"
  by (simp add: block_put_def)

text \<open>The last blocks of the message: one when the length still fits behind the bit, two otherwise.\<close>

lemma pad_blocks:
  assumes "holds f h0 m (h, buf, n) msg" "length ls = 8"
  defines "k \<equiv> length msg mod 64"
  shows "k + 1 \<le> 56 \<Longrightarrow> fst (absorb f h0 (msg @ pad_zero (length msg) @ ls)) =
      f h (take k buf @ [0x80] @ replicate (56 - (k + 1)) 0 @ ls)"
    "56 < k + 1 \<Longrightarrow> fst (absorb f h0 (msg @ pad_zero (length msg) @ ls)) =
      f (f h (take k buf @ [0x80] @ replicate (64 - (k + 1)) 0)) (replicate 56 0 @ ls)"
proof -
  note b = holdsD [OF assms(1)]
  have k: "k < 64" by (simp add: k_def)
  have a: "absorb f h0 (msg @ ys) = absorb f h (take k buf @ ys)" for ys
    using absorb_append [of f h0 msg ys] b(3) by (simp add: k_def)
  have e: "absorb f g x = (f g x, [])" if "length x = 64" for g x
    using absorb_block [OF that, of f g "[]"] absorb_short [of "[]" f] by simp
  show "fst (absorb f h0 (msg @ pad_zero (length msg) @ ls)) = f h (take k buf @ [0x80] @ replicate (56 - (k + 1)) 0 @ ls)"
    if "k + 1 \<le> 56"
  proof -
    have "(119 - k) mod 64 = 56 - (k + 1)" using that by (subst le_mod_geq) simp_all
    then have z: "pad_zero (length msg) = [0x80] @ replicate (56 - (k + 1)) 0" by (simp add: pad_zero_def k_def)
    have "length (take k buf @ [0x80] @ replicate (56 - (k + 1)) 0 @ ls) = 64" using b(1) assms(2) that by simp
    from e [OF this] show ?thesis by (simp add: a z)
  qed
  show "fst (absorb f h0 (msg @ pad_zero (length msg) @ ls)) =
      f (f h (take k buf @ [0x80] @ replicate (64 - (k + 1)) 0)) (replicate 56 0 @ ls)" if "56 < k + 1"
  proof -
    have "(119 - k) mod 64 = (64 - (k + 1)) + 56" using that k by simp
    then have z: "pad_zero (length msg) = [0x80] @ replicate (64 - (k + 1)) 0 @ replicate 56 0"
      by (simp only: pad_zero_def k_def replicate_add) simp
    let ?x = "take k buf @ [0x80] @ replicate (64 - (k + 1)) 0"
    have "length ?x = 64" using b(1) k by simp
    from absorb_block [OF this, of f h "replicate 56 0 @ ls"] e [of "replicate 56 0 @ ls"] assms(2)
    show ?thesis unfolding z a by simp
  qed
qed

lemma md5_final_holds:
  assumes "holds md5_transform h0 (2 ^ 64) (md5_parts c) msg"
  shows "md5_hash (fio_md5_final c) = fst (absorb md5_transform h0 (msg @ md5_pad (length msg)))"
proof -
  have h: "holds md5_transform h0 (2 ^ 64) (md5_hash c, md5_block c, md5_byte_count c) msg"
    using assms by (simp add: md5_parts_def)
  define k where "k = length msg mod 64"
  define pre where "pre = take k (md5_block c)"
  define r where "r = drop k (md5_block c)"
  define lo where "lo = le_bytes 4 (of_nat (md5_byte_count c * 2 ^ 3) :: 32 word)"
  define hi where "hi = le_bytes 4 (of_nat (md5_byte_count c div 2 ^ 29) :: 32 word)"
  have k: "md5_byte_count c mod 64 = k" "k < 64" using holds_count [OF h] by (simp_all add: k_def)
  have blk: "md5_block c = pre @ r" "length pre = k" "length r = 64 - k"
    using holdsD(1) [OF h] k(2) by (simp_all add: pre_def r_def)
  have ls: "lo @ hi = le_bytes 8 (of_nat (8 * length msg) :: 64 word)" "length lo = 4" "length hi = 4"
    using md5_length_word [OF holdsD(2) [OF h]] by (simp_all add: lo_def hi_def)
  have put: "block_put (block_put (x @ y) 56 lo) 60 hi = x @ lo @ hi" if "length x = 56" "length y = 8" for x y
    using that ls by (simp add: block_put_def)
  show ?thesis
  proof (cases "k + 1 \<le> 56")
    case True
    let ?z = "replicate (56 - (k + 1)) (0 :: 8 word)"
    have "block_put (block_put (md5_block c) k [0x80]) (k + 1) ?z = (pre @ [0x80] @ ?z) @ drop (57 - k - 1) r"
    proof -
      obtain a rs where "r = a # rs" using blk(3) k(2) by (cases r) auto
      moreover have "56 - k = Suc (55 - k)" using True by simp
      ultimately show ?thesis using blk by (simp add: block_put_def)
    qed
    moreover have "length (pre @ [0x80] @ ?z) = 56" "length (drop (57 - k - 1) r) = 8" using blk True by simp_all
    ultimately have "block_put (block_put (block_put (block_put (md5_block c) k [0x80]) (k + 1) ?z) 56 lo) 60 hi =
        pre @ [0x80] @ ?z @ lo @ hi" using put [of "pre @ [0x80] @ ?z" "drop (57 - k - 1) r"] by (simp only: append_assoc)
    then show ?thesis
      using pad_blocks(1) [OF h, of "lo @ hi"] True ls
      unfolding fio_md5_final_def Let_def k(1) lo_def [symmetric] hi_def [symmetric] md5_pad_def ls(1) [symmetric] k_def [symmetric] pre_def [symmetric]
      by simp
  next
    case False
    let ?z = "replicate (64 - (k + 1)) (0 :: 8 word)"
    have f: "block_put (block_put (md5_block c) k [0x80]) (k + 1) ?z = pre @ [0x80] @ ?z"
      using blk k(2) by (simp add: block_put_def)
    then have "block_put (pre @ [0x80] @ ?z) 0 (replicate 56 0) = replicate 56 0 @ drop 56 (pre @ [0x80] @ ?z)"
      using blk k(2) by (simp add: block_put_def)
    moreover have "length (drop 56 (pre @ [0x80] @ ?z)) = 8" using blk k(2) by simp
    ultimately have "block_put (block_put (block_put (pre @ [0x80] @ ?z) 0 (replicate 56 0)) 56 lo) 60 hi = replicate 56 0 @ lo @ hi"
      using put [of "replicate 56 0" "drop 56 (pre @ [0x80] @ ?z)"] by (simp only: length_replicate)
    then show ?thesis
      using pad_blocks(2) [OF h, of "lo @ hi"] False ls f
      unfolding fio_md5_final_def Let_def k(1) lo_def [symmetric] hi_def [symmetric] md5_pad_def ls(1) [symmetric] k_def [symmetric] pre_def [symmetric]
      by simp
  qed
qed

lemma md5_holds_compress: "holds md5_transform md5_h0 m c msg \<longleftrightarrow> holds md5_compress md5_h0 m c msg"
  using md5_absorb [of md5_h0 msg] by (simp add: holds_def md5_h0_def)

interpretation md5s: streaming md5_compress md5_h0 "2 ^ 64" "2 ^ 32" md5_parts fio_md5_update md5_pad
    "\<lambda>c. md5_hash (fio_md5_final c)" "\<lambda>h. h"
proof
  show "holds md5_compress md5_h0 (2 ^ 64) (md5_parts (fio_md5_update c data)) (msg @ data)"
    if "holds md5_compress md5_h0 (2 ^ 64) (md5_parts c) msg" for c msg data
    using md5_update_holds that md5_holds_compress by blast
  show "md5_hash (fio_md5_final c) = fst (absorb md5_compress md5_h0 (msg @ md5_pad (length msg)))"
    if "holds md5_compress md5_h0 (2 ^ 64) (md5_parts c) msg" for c msg
    using md5_final_holds [of md5_h0 c msg] that md5_absorb [of md5_h0] by (simp add: md5_holds_compress) (simp add: md5_h0_def)
qed

text \<open>
  C26. MD5 is computed as RFC 1321 has it, whatever the calls: for a context with byte count 0, after
  \<open>fio_md5_init\<close> and updates with any pieces of a message, \<open>fio_md5_final\<close> leaves in the hash the
  digest of the whole message, that is the 64-step loop of the RFC over the blocks of the padded message.
  The functions of the loop are those of the RFC, and its constants are the integer parts of
  \<open>2\<^sup>3\<^sup>2 |sin i|\<close>.
\<close>
theorem fio_md5_correct:
  assumes "md5_byte_count c = 0" "length (md5_block c) = 64" "\<forall>d \<in> set ds. length d < 2 ^ 32"
  shows "md5_hash (fio_md5_final (foldl fio_md5_update (fio_md5_init c) ds)) =
    fst (absorb md5_compress md5_h0 (concat ds @ md5_pad (length (concat ds))))"
proof -
  have "holds md5_compress md5_h0 (2 ^ 64) (md5_parts (fio_md5_init c)) []"
    using assms(1,2) by (simp add: holds_def md5_parts_def fio_md5_init_def md5_h0_def absorb_short)
  then show ?thesis using md5s.digests assms(3) by blast
qed

theorem fio_md5_correct_witness:
  "md5_hash (fio_md5_final (foldl fio_md5_update (fio_md5_init \<lparr>md5_hash = [0, 0, 0, 0], md5_block = replicate 64 0, md5_byte_count = 0\<rparr>)
      [[97], [98, 99]])) = fst (absorb md5_compress md5_h0 ([97, 98, 99] @ md5_pad 3))"
  using fio_md5_correct [of "\<lparr>md5_hash = [0, 0, 0, 0], md5_block = replicate 64 0, md5_byte_count = 0\<rparr>" "[[97], [98, 99]]"]
  by (simp add: numeral_3_eq_3)

end
