(* ===== verification/Fio_Sha1.thy ===== *)
theory Fio_Sha1
  imports Fio_Md5
begin

text \<open>
  SHA-1 of fio, \<open>fio/crc/sha1.c\<close>. \<open>sha1_lines\<close> are the 80 macro calls of \<open>blk_SHA1Block\<close>: the registers, the macro and the round number. The words
  of the schedule roll through an array of 16.
\<close>

definition be_word :: "8 word list \<Rightarrow> 'w :: len word" where
  "be_word bs = le_word (rev bs)"

definition be_bytes :: "nat \<Rightarrow> 'w :: len word \<Rightarrow> 8 word list" where
  "be_bytes n w = rev (le_bytes n w)"

datatype sha1_macro = T_0_15 | T_16_19 | T_20_39 | T_40_59 | T_60_79

fun sha1_fn :: "sha1_macro \<Rightarrow> 32 word \<Rightarrow> 32 word \<Rightarrow> 32 word \<Rightarrow> 32 word" where
  "sha1_fn T_0_15 b c d = ((c XOR d) AND b) XOR d"
| "sha1_fn T_16_19 b c d = ((c XOR d) AND b) XOR d"
| "sha1_fn T_20_39 b c d = b XOR c XOR d"
| "sha1_fn T_40_59 b c d = (b AND c) + (d AND (b XOR c))"
| "sha1_fn T_60_79 b c d = b XOR c XOR d"

fun sha1_constant :: "sha1_macro \<Rightarrow> 32 word" where
  "sha1_constant T_0_15 = 0x5a827999"
| "sha1_constant T_16_19 = 0x5a827999"
| "sha1_constant T_20_39 = 0x6ed9eba1"
| "sha1_constant T_40_59 = 0x8f1bbcdc"
| "sha1_constant T_60_79 = 0xca62c1d6"

definition SHA_ROL :: "32 word \<Rightarrow> nat \<Rightarrow> 32 word" where
  "SHA_ROL x n = push_bit n x OR drop_bit (32 - n) x"

definition SHA_ROR :: "32 word \<Rightarrow> nat \<Rightarrow> 32 word" where
  "SHA_ROR x n = push_bit (32 - n) x OR drop_bit n x"

definition SHA_SRC :: "8 word list \<Rightarrow> nat \<Rightarrow> 32 word" where
  "SHA_SRC data t = be_word (take 4 (drop (4 * t) data))"

definition SHA_MIX :: "32 word list \<Rightarrow> nat \<Rightarrow> 32 word" where
  "SHA_MIX array t = SHA_ROL (array ! ((t + 13) mod 16) XOR array ! ((t + 8) mod 16) XOR array ! ((t + 2) mod 16) XOR array ! (t mod 16)) 1"

definition SHA_ROUND :: "sha1_macro \<Rightarrow> nat \<Rightarrow> reg \<Rightarrow> reg \<Rightarrow> reg \<Rightarrow> reg \<Rightarrow> reg \<Rightarrow> 32 word regfile \<times> 32 word list \<times> 8 word list \<Rightarrow>
    32 word regfile \<times> 32 word list \<times> 8 word list" where
  "SHA_ROUND mac t A B C D E st = (case st of (rf, array, data) \<Rightarrow>
     let TEMP = (if mac = T_0_15 then SHA_SRC data t else SHA_MIX array t);
         rf = rf(E := rf E + (TEMP + SHA_ROL (rf A) 5 + sha1_fn mac (rf B) (rf C) (rf D) + sha1_constant mac))
     in (rf(B := SHA_ROR (rf B) 2), array[t mod 16 := TEMP], data))"

definition sha1_line :: "reg list \<Rightarrow> sha1_macro \<times> nat \<Rightarrow> 32 word regfile \<times> 32 word list \<times> 8 word list \<Rightarrow>
    32 word regfile \<times> 32 word list \<times> 8 word list" where
  "sha1_line p x st = (case (p, x) of ([A, B, C, D, E], mac, t) \<Rightarrow> SHA_ROUND mac t A B C D E st | _ \<Rightarrow> st)"

definition sha1_lines :: "(reg list \<times> sha1_macro \<times> nat) list" where
  "sha1_lines = [
    ([RA, RB, RC, RD, RE], T_0_15, 0), ([RE, RA, RB, RC, RD], T_0_15, 1), ([RD, RE, RA, RB, RC], T_0_15, 2),
    ([RC, RD, RE, RA, RB], T_0_15, 3), ([RB, RC, RD, RE, RA], T_0_15, 4), ([RA, RB, RC, RD, RE], T_0_15, 5),
    ([RE, RA, RB, RC, RD], T_0_15, 6), ([RD, RE, RA, RB, RC], T_0_15, 7), ([RC, RD, RE, RA, RB], T_0_15, 8),
    ([RB, RC, RD, RE, RA], T_0_15, 9), ([RA, RB, RC, RD, RE], T_0_15, 10), ([RE, RA, RB, RC, RD], T_0_15, 11),
    ([RD, RE, RA, RB, RC], T_0_15, 12), ([RC, RD, RE, RA, RB], T_0_15, 13), ([RB, RC, RD, RE, RA], T_0_15, 14),
    ([RA, RB, RC, RD, RE], T_0_15, 15), ([RE, RA, RB, RC, RD], T_16_19, 16), ([RD, RE, RA, RB, RC], T_16_19, 17),
    ([RC, RD, RE, RA, RB], T_16_19, 18), ([RB, RC, RD, RE, RA], T_16_19, 19), ([RA, RB, RC, RD, RE], T_20_39, 20),
    ([RE, RA, RB, RC, RD], T_20_39, 21), ([RD, RE, RA, RB, RC], T_20_39, 22), ([RC, RD, RE, RA, RB], T_20_39, 23),
    ([RB, RC, RD, RE, RA], T_20_39, 24), ([RA, RB, RC, RD, RE], T_20_39, 25), ([RE, RA, RB, RC, RD], T_20_39, 26),
    ([RD, RE, RA, RB, RC], T_20_39, 27), ([RC, RD, RE, RA, RB], T_20_39, 28), ([RB, RC, RD, RE, RA], T_20_39, 29),
    ([RA, RB, RC, RD, RE], T_20_39, 30), ([RE, RA, RB, RC, RD], T_20_39, 31), ([RD, RE, RA, RB, RC], T_20_39, 32),
    ([RC, RD, RE, RA, RB], T_20_39, 33), ([RB, RC, RD, RE, RA], T_20_39, 34), ([RA, RB, RC, RD, RE], T_20_39, 35),
    ([RE, RA, RB, RC, RD], T_20_39, 36), ([RD, RE, RA, RB, RC], T_20_39, 37), ([RC, RD, RE, RA, RB], T_20_39, 38),
    ([RB, RC, RD, RE, RA], T_20_39, 39), ([RA, RB, RC, RD, RE], T_40_59, 40), ([RE, RA, RB, RC, RD], T_40_59, 41),
    ([RD, RE, RA, RB, RC], T_40_59, 42), ([RC, RD, RE, RA, RB], T_40_59, 43), ([RB, RC, RD, RE, RA], T_40_59, 44),
    ([RA, RB, RC, RD, RE], T_40_59, 45), ([RE, RA, RB, RC, RD], T_40_59, 46), ([RD, RE, RA, RB, RC], T_40_59, 47),
    ([RC, RD, RE, RA, RB], T_40_59, 48), ([RB, RC, RD, RE, RA], T_40_59, 49), ([RA, RB, RC, RD, RE], T_40_59, 50),
    ([RE, RA, RB, RC, RD], T_40_59, 51), ([RD, RE, RA, RB, RC], T_40_59, 52), ([RC, RD, RE, RA, RB], T_40_59, 53),
    ([RB, RC, RD, RE, RA], T_40_59, 54), ([RA, RB, RC, RD, RE], T_40_59, 55), ([RE, RA, RB, RC, RD], T_40_59, 56),
    ([RD, RE, RA, RB, RC], T_40_59, 57), ([RC, RD, RE, RA, RB], T_40_59, 58), ([RB, RC, RD, RE, RA], T_40_59, 59),
    ([RA, RB, RC, RD, RE], T_60_79, 60), ([RE, RA, RB, RC, RD], T_60_79, 61), ([RD, RE, RA, RB, RC], T_60_79, 62),
    ([RC, RD, RE, RA, RB], T_60_79, 63), ([RB, RC, RD, RE, RA], T_60_79, 64), ([RA, RB, RC, RD, RE], T_60_79, 65),
    ([RE, RA, RB, RC, RD], T_60_79, 66), ([RD, RE, RA, RB, RC], T_60_79, 67), ([RC, RD, RE, RA, RB], T_60_79, 68),
    ([RB, RC, RD, RE, RA], T_60_79, 69), ([RA, RB, RC, RD, RE], T_60_79, 70), ([RE, RA, RB, RC, RD], T_60_79, 71),
    ([RD, RE, RA, RB, RC], T_60_79, 72), ([RC, RD, RE, RA, RB], T_60_79, 73), ([RB, RC, RD, RE, RA], T_60_79, 74),
    ([RA, RB, RC, RD, RE], T_60_79, 75), ([RE, RA, RB, RC, RD], T_60_79, 76), ([RD, RE, RA, RB, RC], T_60_79, 77),
    ([RC, RD, RE, RA, RB], T_60_79, 78), ([RB, RC, RD, RE, RA], T_60_79, 79)]"

definition blk_SHA1Block :: "32 word list \<Rightarrow> 8 word list \<Rightarrow> 32 word list" where
  "blk_SHA1Block H data =
    (let r = (\<lambda>_. 0)(RA := H ! 0, RB := H ! 1, RC := H ! 2, RD := H ! 3, RE := H ! 4);
         r' = fst (fold (\<lambda>(p, x). sha1_line p x) sha1_lines (r, replicate 16 0, data))
     in [H ! 0 + r' RA, H ! 1 + r' RB, H ! 2 + r' RC, H ! 3 + r' RD, H ! 4 + r' RE])"

record fio_sha1_ctx =
  sha1_H :: "32 word list"
  sha1_Wbuf :: "8 word list"
  sha1_size :: nat

definition fio_sha1_init :: "fio_sha1_ctx \<Rightarrow> fio_sha1_ctx" where
  "fio_sha1_init c = c\<lparr>sha1_size := 0, sha1_H := [0x67452301, 0xefcdab89, 0x98badcfe, 0x10325476, 0xc3d2e1f0]\<rparr>"

function sha1_blocks :: "32 word list \<Rightarrow> 8 word list \<Rightarrow> 32 word list \<times> 8 word list" where
  "sha1_blocks H data = (if 64 \<le> length data then sha1_blocks (blk_SHA1Block H (take 64 data)) (drop 64 data) else (H, data))"
  by auto
termination by (relation "measure (\<lambda>(h, d). length d)") auto

declare sha1_blocks.simps [simp del]

definition fio_sha1_update :: "fio_sha1_ctx \<Rightarrow> 8 word list \<Rightarrow> fio_sha1_ctx" where
  "fio_sha1_update c data =
    (let lenW = sha1_size c mod 64;
         c = c\<lparr>sha1_size := (sha1_size c + length data) mod 2 ^ 64\<rparr>;
         rest = (\<lambda>c data. let (H, d) = sha1_blocks (sha1_H c) data
                          in c\<lparr>sha1_H := H, sha1_Wbuf := (if d \<noteq> [] then block_put (sha1_Wbuf c) 0 d else sha1_Wbuf c)\<rparr>)
     in if lenW \<noteq> 0
        then let left = (if length data < 64 - lenW then length data else 64 - lenW);
                 c = c\<lparr>sha1_Wbuf := block_put (sha1_Wbuf c) lenW (take left data)\<rparr>
             in if (lenW + left) mod 64 \<noteq> 0 then c
                else rest (c\<lparr>sha1_H := blk_SHA1Block (sha1_H c) (sha1_Wbuf c)\<rparr>) (drop left data)
        else rest c data)"

definition fio_sha1_final :: "fio_sha1_ctx \<Rightarrow> fio_sha1_ctx" where
  "fio_sha1_final c =
    (let pad = 0x80 # replicate 63 0;
         padlen = be_bytes 4 (of_nat (sha1_size c div 2 ^ 29) :: 32 word) @ be_bytes 4 (of_nat (sha1_size c * 2 ^ 3) :: 32 word);
         i = sha1_size c mod 64
     in fio_sha1_update (fio_sha1_update c (take (1 + nat ((55 - int i) mod 64)) pad)) padlen)"

subsection \<open>SHA-1 as FIPS 180 has it\<close>

definition sha_Ch :: "32 word \<Rightarrow> 32 word \<Rightarrow> 32 word \<Rightarrow> 32 word" where
  "sha_Ch x y z = (x AND y) XOR (NOT x AND z)"

definition sha_Maj :: "32 word \<Rightarrow> 32 word \<Rightarrow> 32 word \<Rightarrow> 32 word" where
  "sha_Maj x y z = (x AND y) XOR (x AND z) XOR (y AND z)"

function sha1_W :: "8 word list \<Rightarrow> nat \<Rightarrow> 32 word" where
  "sha1_W block t = (if t < 16 then be_word (take 4 (drop (4 * t) block))
     else rotl32 (sha1_W block (t - 3) XOR sha1_W block (t - 8) XOR sha1_W block (t - 14) XOR sha1_W block (t - 16)) 1)"
  by auto
termination by (relation "measure snd") auto

declare sha1_W.simps [simp del]

definition sha1_fK :: "nat \<Rightarrow> (32 word \<Rightarrow> 32 word \<Rightarrow> 32 word \<Rightarrow> 32 word) \<times> 32 word" where
  "sha1_fK t = (if t < 20 then (sha_Ch, 0x5a827999)
     else if t < 40 then (\<lambda>x y z. x XOR y XOR z, 0x6ed9eba1)
     else if t < 60 then (sha_Maj, 0x8f1bbcdc)
     else (\<lambda>x y z. x XOR y XOR z, 0xca62c1d6))"

fun sha1_step :: "8 word list \<Rightarrow> nat \<Rightarrow> 32 word list \<Rightarrow> 32 word list" where
  "sha1_step block t [a, b, c, d, e] =
    (let (f, K) = sha1_fK t in [rotl32 a 5 + f b c d + e + K + sha1_W block t, a, rotl32 b 30, c, d])"
| "sha1_step block t r = r"

definition sha1_compress :: "32 word list \<Rightarrow> 8 word list \<Rightarrow> 32 word list" where
  "sha1_compress h block = map2 (+) h (fold (sha1_step block) [0..<80] h)"

fun sha1_round :: "sha1_macro \<times> nat \<Rightarrow> 32 word list \<times> 32 word list \<times> 8 word list \<Rightarrow> 32 word list \<times> 32 word list \<times> 8 word list" where
  "sha1_round (mac, t) ([a, b, c, d, e], array, data) =
    (let TEMP = (if mac = T_0_15 then SHA_SRC data t else SHA_MIX array t)
     in ([e + (TEMP + SHA_ROL a 5 + sha1_fn mac b c d + sha1_constant mac), a, SHA_ROR b 2, c, d], array[t mod 16 := TEMP], data))"
| "sha1_round x st = st"

lemma length_5: "length p = 5 \<Longrightarrow> \<exists>a b c d e. p = [a, b, c, d, e]"
  by (auto simp: length_Suc_conv numeral_eq_Suc)

interpretation sha1u: unrolled sha1_line sha1_round 5
proof
  fix p :: "reg list" and x :: "sha1_macro \<times> nat" and st :: "32 word regfile \<times> 32 word list \<times> 8 word list"
  assume "distinct p" "length p = 5"
  moreover obtain a b c d e where "p = [a, b, c, d, e]" using length_5 [OF calculation(2)] by blast
  moreover obtain mac t where "x = (mac, t)" by (cases x)
  moreover obtain rf array data where "st = (rf, array, data)" by (cases st)
  ultimately show "view (rot p) (sha1_line p x st) = sha1_round x (view p st)"
    by (auto simp: view_def rot_def sha1_line_def SHA_ROUND_def Let_def)
qed simp

definition sha1_macro_of :: "nat \<Rightarrow> sha1_macro" where
  "sha1_macro_of t = (if t < 16 then T_0_15 else if t < 20 then T_16_19 else if t < 40 then T_20_39 else if t < 60 then T_40_59 else T_60_79)"

lemma sha1_lines_params: "map snd sha1_lines = map (\<lambda>t. (sha1_macro_of t, t)) [0..<80]"
  by (simp add: sha1_lines_def sha1_macro_of_def upt_two upt_rec_numeral)

lemma sha1_chained: "chained [RA, RB, RC, RD, RE] sha1_lines"
  by (simp add: sha1_lines_def rot_def)

lemma Ch_xor: "((y XOR z) AND x) XOR z = sha_Ch x y z"
  by (rule bit_word_eqI) (auto simp: sha_Ch_def bit_simps)

lemma Maj_add: "(x AND y) + (z AND (x XOR y)) = sha_Maj x y z"
proof -
  have "(x AND y) AND (z AND (x XOR y)) = 0" by (rule bit_word_eqI) (auto simp: bit_simps)
  then have "(x AND y) + (z AND (x XOR y)) = (x AND y) OR (z AND (x XOR y))" by (rule disjunctive_add_eq_or)
  also have "\<dots> = sha_Maj x y z" by (rule bit_word_eqI) (auto simp: sha_Maj_def bit_simps)
  finally show ?thesis .
qed

lemma sha1_fn_K: "t < 80 \<Longrightarrow> sha1_fK t = (sha1_fn (sha1_macro_of t), sha1_constant (sha1_macro_of t))"
  by (auto simp: sha1_fK_def sha1_macro_of_def fun_eq_iff Ch_xor Maj_add)

text \<open>The array holds the last 16 words of the schedule.\<close>

definition rolling :: "8 word list \<Rightarrow> nat \<Rightarrow> 32 word list \<Rightarrow> bool" where
  "rolling block t array \<longleftrightarrow> length array = 16 \<and> (\<forall>j < t. t \<le> j + 16 \<longrightarrow> array ! (j mod 16) = sha1_W block j)"

lemma rolling_word:
  assumes "rolling block t array" "t < 80"
  shows "(if sha1_macro_of t = T_0_15 then SHA_SRC block t else SHA_MIX array t) = sha1_W block t"
proof (cases "t < 16")
  case True
  then show ?thesis by (simp add: sha1_macro_of_def SHA_SRC_def sha1_W.simps)
next
  case False
  have r: "array ! (j mod 16) = sha1_W block j" if "j < t" "t \<le> j + 16" for j
    using assms(1) that by (simp add: rolling_def)
  have w: "array ! ((t - k) mod 16) = sha1_W block (t - k)" if "0 < k" "k \<le> 16" for k using r [of "t - k"] False that by simp
  have m: "(t + 13) mod 16 = (t - 3) mod 16" "(t + 8) mod 16 = (t - 8) mod 16" "(t + 2) mod 16 = (t - 14) mod 16"
    "t mod 16 = (t - 16) mod 16"
    using False mod_add_self2 [of "t - 3" 16] mod_add_self2 [of "t - 8" 16] mod_add_self2 [of "t - 14" 16] mod_add_self2 [of "t - 16" 16]
    by (simp_all add: add.commute)
  have "SHA_MIX array t = rotl32 (sha1_W block (t - 3) XOR sha1_W block (t - 8) XOR sha1_W block (t - 14) XOR sha1_W block (t - 16)) 1"
    using w [of 3] w [of 8] w [of 14] w [of 16] by (simp only: SHA_MIX_def SHA_ROL_def rotl32_def m)
  then show ?thesis using False by (simp add: sha1_macro_of_def sha1_W.simps [of block t])
qed

lemma rolling_next:
  assumes "rolling block t array"
  shows "rolling block (Suc t) (array[t mod 16 := sha1_W block t])"
proof -
  have "array[t mod 16 := sha1_W block t] ! (j mod 16) = sha1_W block j" if "j < Suc t" "Suc t \<le> j + 16" for j
  proof (cases "j = t")
    case False
    have "j mod 16 \<noteq> t mod 16"
    proof
      assume "j mod 16 = t mod 16"
      then have "16 dvd t - j" using that by (metis mod_eq_dvd_iff_nat less_Suc_eq_le)
      then show False using that False dvd_imp_le [of 16 "t - j"] by simp
    qed
    then show ?thesis using assms that False by (simp add: rolling_def)
  qed (use assms in \<open>simp add: rolling_def\<close>)
  then show ?thesis using assms by (simp add: rolling_def)
qed

lemma sha1_rounds:
  "n \<le> 80 \<Longrightarrow> length regs = 5 \<Longrightarrow> rolling block 0 array \<Longrightarrow>
    \<exists>array'. fold (\<lambda>t. sha1_round (sha1_macro_of t, t)) [0..<n] (regs, array, block) =
      (fold (sha1_step block) [0..<n] regs, array', block) \<and> rolling block n array' \<and> length (fold (sha1_step block) [0..<n] regs) = 5"
proof (induction n)
  case (Suc n)
  then obtain array' where i: "fold (\<lambda>t. sha1_round (sha1_macro_of t, t)) [0..<n] (regs, array, block) =
      (fold (sha1_step block) [0..<n] regs, array', block)" "rolling block n array'" "length (fold (sha1_step block) [0..<n] regs) = 5"
    by auto
  obtain a b c d e where r: "fold (sha1_step block) [0..<n] regs = [a, b, c, d, e]" using length_5 [OF i(3)] by blast
  have "sha1_round (sha1_macro_of n, n) ([a, b, c, d, e], array', block) =
      (sha1_step block n [a, b, c, d, e], array'[n mod 16 := sha1_W block n], block)"
    using rolling_word [OF i(2)] sha1_fn_K [of n] Suc.prems(1)
    by (simp add: Let_def SHA_ROL_def SHA_ROR_def rotl32_def add.assoc add.commute add.left_commute)
  moreover have "length (sha1_step block n [a, b, c, d, e]) = 5" by (simp add: case_prod_beta)
  ultimately show ?case using rolling_next [OF i(2)] i(1) r by simp
qed simp

lemma blk_SHA1Block_compress: "length h = 5 \<Longrightarrow> blk_SHA1Block h block = sha1_compress h block"
proof -
  assume "length h = 5"
  then obtain a b c d e where h: "h = [a, b, c, d, e]" using length_5 by blast
  let ?p = "[RA, RB, RC, RD, RE]"
  let ?r = "(\<lambda>_. 0)(RA := a, RB := b, RC := c, RD := d, RE := e) :: 32 word regfile"
  let ?s = "(?r, replicate 16 0, block)"
  let ?st = "fold (\<lambda>(p, x). sha1_line p x) sha1_lines ?s"
  have e: "rotn (length sha1_lines) ?p = ?p"
    by (simp add: sha1_lines_def rotn_def rot_def eval_nat_numeral)
  have "view ?p ?st = fold sha1_round (map snd sha1_lines) (view ?p ?s)"
    using sha1u.lines [OF _ _ sha1_chained, of ?s] by (simp only: e) simp
  also have "\<dots> = fold (\<lambda>t. sha1_round (sha1_macro_of t, t)) [0..<80] (h, replicate 16 0, block)"
    by (simp only: sha1_lines_params fold_map h) (simp add: view_def comp_def)
  finally have "fold (sha1_step block) [0..<80] h = map (fst ?st) ?p"
    using sha1_rounds [of 80 h block "replicate 16 0"] \<open>length h = 5\<close> by (auto simp: view_def rolling_def)
  then show ?thesis unfolding sha1_compress_def blk_SHA1Block_def Let_def by (simp add: h)
qed

definition sha1_h0 :: "32 word list" where
  "sha1_h0 = [0x67452301, 0xefcdab89, 0x98badcfe, 0x10325476, 0xc3d2e1f0]"

definition sha1_parts :: "fio_sha1_ctx \<Rightarrow> 32 word list \<times> 8 word list \<times> nat" where
  "sha1_parts c = (sha1_H c, sha1_Wbuf c, sha1_size c)"

definition sha1_pad :: "nat \<Rightarrow> 8 word list" where
  "sha1_pad n = pad_zero n @ be_bytes 8 (of_nat (8 * n) :: 64 word)"

lemma sha1_compress_len: "length h = 5 \<Longrightarrow> length (sha1_compress h b) = 5"
proof -
  assume "length h = 5"
  moreover have "length (sha1_step b t r) = length r" for t r
    by (induction b t r rule: sha1_step.induct) (simp_all add: case_prod_beta)
  then have "length (fold (sha1_step b) ts r) = length r" for ts r
    by (induction ts arbitrary: r) simp_all
  ultimately show ?thesis by (simp add: sha1_compress_def)
qed

lemma sha1_absorb: "length h = 5 \<Longrightarrow> absorb blk_SHA1Block h bs = absorb sha1_compress h bs"
  using absorb_cong [of "\<lambda>h. length h = 5" blk_SHA1Block sha1_compress h bs]
  by (simp add: blk_SHA1Block_compress sha1_compress_len)

lemma sha1_blocks_absorb: "sha1_blocks h data = absorb blk_SHA1Block h data"
proof (induction h data rule: sha1_blocks.induct)
  case (1 h data)
  then show ?case by (simp add: sha1_blocks.simps [of h data] absorb.simps [of _ h data])
qed

lemma sha1_update_holds:
  assumes "holds blk_SHA1Block h0 (2 ^ 64) (sha1_parts c) msg"
  shows "holds blk_SHA1Block h0 (2 ^ 64) (sha1_parts (fio_sha1_update c data)) (msg @ data)"
proof -
  let ?k = "length msg mod 64" and ?n = "(sha1_size c + length data) mod 2 ^ 64"
  have h: "holds blk_SHA1Block h0 (2 ^ 64) (sha1_H c, sha1_Wbuf c, sha1_size c) msg"
    using assms by (simp add: sha1_parts_def)
  have k: "sha1_size c mod 64 = ?k" "length (sha1_Wbuf c) = 64" using holds_count [OF h] holdsD(1) [OF h] by simp_all
  have n: "?n = length (msg @ data) mod 2 ^ 64" using holdsD(2) [OF h] by (simp add: mod_simps)
  define r where "r H d W = (let (H', d') = sha1_blocks H d in (H', if d' \<noteq> [] then block_put W 0 d' else W))" for H d W
  have rest: "absorb blk_SHA1Block H d = (fst (r H d W), take (length d mod 64) (snd (r H d W))) \<and> length (snd (r H d W)) = 64"
    if "length W = 64" for H d W
  proof -
    obtain H' d' where e: "absorb blk_SHA1Block H d = (H', d')" by fastforce
    then have l: "length d mod 64 = length d'" using absorb_rest [of blk_SHA1Block H d] by simp
    then have "length d' \<le> 64" using mod_less_divisor [of 64 "length d"] by linarith
    moreover have "r H d W = (H', if d' \<noteq> [] then block_put W 0 d' else W)" by (simp add: r_def sha1_blocks_absorb e)
    ultimately show ?thesis unfolding l e using that by (simp add: block_put_def)
  qed
  show ?thesis
  proof (cases "?k = 0")
    case True
    have "absorb blk_SHA1Block h0 (msg @ []) = (sha1_H c, [])" using holdsD(3) [OF h] True by simp
    moreover have "(length msg + length []) mod 64 = 0" using True by simp
    moreover have "?n = length (msg @ [] @ data) mod 2 ^ 64" using n by simp
    ultimately have "holds blk_SHA1Block h0 (2 ^ 64)
        (fst (r (sha1_H c) data (sha1_Wbuf c)), snd (r (sha1_H c) data (sha1_Wbuf c)), ?n) (msg @ [] @ data)"
      using rest [OF k(2)] by (intro holds_rest) blast+
    then show ?thesis using True k by (simp add: fio_sha1_update_def Let_def sha1_parts_def r_def case_prod_beta split: if_splits)
  next
    case False
    show ?thesis
    proof (cases "length data < 64 - ?k")
      case True
      then have "(?k + length data) mod 64 \<noteq> 0" using False by simp
      then show ?thesis using holds_fill [OF h, of data] True False
        by (simp add: fio_sha1_update_def Let_def sha1_parts_def k)
    next
      case F: False
      let ?d = "take (64 - ?k) data" and ?r = "drop (64 - ?k) data"
      have d: "length ?d = 64 - ?k" using F by simp
      let ?b = "block_put (sha1_Wbuf c) ?k ?d"
      have b: "absorb blk_SHA1Block h0 (msg @ ?d) = (blk_SHA1Block (sha1_H c) ?b, [])" using holds_block [OF h d] by simp
      have bl: "length ?b = 64" using k(2) d by (simp add: block_put_len)
      have z: "(length msg + length ?d) mod 64 = 0" unfolding d
        by (metis le_add_diff_inverse mod_add_left_eq mod_self mod_less_divisor less_imp_le zero_less_numeral)
      have n': "?n = length (msg @ ?d @ ?r) mod 2 ^ 64" using n by simp
      note q = holds_rest [OF b conjunct1 [OF rest [OF bl]] conjunct2 [OF rest [OF bl]] z n']
      have "(?k + (64 - ?k)) mod 64 = 0" by simp
      then show ?thesis using q False F
        by (simp add: fio_sha1_update_def Let_def sha1_parts_def k r_def case_prod_beta split: if_splits)
    qed
  qed
qed

lemma sha1_length_word:
  assumes "n = len mod 2 ^ 64"
  shows "be_bytes 4 (of_nat (n div 2 ^ 29) :: 32 word) @ be_bytes 4 (of_nat (n * 2 ^ 3) :: 32 word) =
    be_bytes 8 (of_nat (8 * len) :: 64 word)"
  unfolding be_bytes_def rev_append [symmetric] md5_length_word [OF assms] ..

lemma pad_take: "take (1 + (119 - n mod 64) mod 64) (0x80 # replicate 63 0) = pad_zero n"
proof -
  have "(119 - n mod 64) mod 64 < 64" by simp
  then have "(119 - n mod 64) mod 64 \<le> 63" by linarith
  then show ?thesis by (simp add: pad_zero_def min_absorb1)
qed

lemma pad_index: "nat ((55 - int i) mod 64) = (119 - i) mod 64" if "i < 64"
proof -
  have "(55 - int i) mod 64 = int (119 - i) mod 64"
    using that mod_add_self2 [of "55 - int i" 64] by (simp add: of_nat_diff)
  then show ?thesis by (simp add: nat_mod_distrib)
qed

lemma holds_whole: "holds f h0 m (h, buf, n) msg \<Longrightarrow> h = fst (absorb f h0 msg)"
  by (simp add: holds_def)

lemma sha1_final_holds:
  assumes "holds blk_SHA1Block h0 (2 ^ 64) (sha1_parts c) msg"
  shows "sha1_H (fio_sha1_final c) = fst (absorb blk_SHA1Block h0 (msg @ sha1_pad (length msg)))"
proof -
  let ?i = "sha1_size c mod 64"
  have h: "holds blk_SHA1Block h0 (2 ^ 64) (sha1_H c, sha1_Wbuf c, sha1_size c) msg"
    using assms by (simp add: sha1_parts_def)
  have k: "?i = length msg mod 64" using holds_count [OF h] by simp
  let ?ls = "be_bytes 8 (of_nat (8 * length msg) :: 64 word)"
  have "fio_sha1_final c = fio_sha1_update (fio_sha1_update c (pad_zero (length msg))) ?ls"
    unfolding fio_sha1_final_def Let_def sha1_length_word [OF holdsD(2) [OF h]] k
    by (simp only: pad_index mod_less_divisor zero_less_numeral pad_take)
  then have "holds blk_SHA1Block h0 (2 ^ 64) (sha1_parts (fio_sha1_final c)) ((msg @ pad_zero (length msg)) @ ?ls)"
    using sha1_update_holds [OF sha1_update_holds [OF assms]] by simp
  from holds_whole [OF this [unfolded sha1_parts_def]] show ?thesis by (simp add: sha1_pad_def)
qed

lemma sha1_holds_compress: "holds blk_SHA1Block sha1_h0 m c msg \<longleftrightarrow> holds sha1_compress sha1_h0 m c msg"
  using sha1_absorb [of sha1_h0 msg] by (simp add: holds_def sha1_h0_def)

interpretation sha1s: streaming sha1_compress sha1_h0 "2 ^ 64" "2 ^ 64" sha1_parts fio_sha1_update sha1_pad
    "\<lambda>c. sha1_H (fio_sha1_final c)" "\<lambda>h. h"
proof
  show "holds sha1_compress sha1_h0 (2 ^ 64) (sha1_parts (fio_sha1_update c data)) (msg @ data)"
    if "holds sha1_compress sha1_h0 (2 ^ 64) (sha1_parts c) msg" for c msg data
    using sha1_update_holds that sha1_holds_compress by blast
  show "sha1_H (fio_sha1_final c) = fst (absorb sha1_compress sha1_h0 (msg @ sha1_pad (length msg)))"
    if "holds sha1_compress sha1_h0 (2 ^ 64) (sha1_parts c) msg" for c msg
    using sha1_final_holds [of sha1_h0 c msg] that sha1_absorb [of sha1_h0] by (simp add: sha1_holds_compress) (simp add: sha1_h0_def)
qed

text \<open>
  C27. SHA-1 is computed as FIPS 180 has it, whatever the calls: after \<open>fio_sha1_init\<close> and updates with any
  pieces of a message, \<open>fio_sha1_final\<close> leaves in \<open>H\<close> the digest of the whole message. The rolling array of 16
  words and the 80 unrolled macro calls are the schedule and the loop of the standard.
\<close>
theorem fio_sha1_correct:
  assumes "length (sha1_Wbuf c) = 64" "\<forall>d \<in> set ds. length d < 2 ^ 64"
  shows "sha1_H (fio_sha1_final (foldl fio_sha1_update (fio_sha1_init c) ds)) =
    fst (absorb sha1_compress sha1_h0 (concat ds @ sha1_pad (length (concat ds))))"
proof -
  have "holds sha1_compress sha1_h0 (2 ^ 64) (sha1_parts (fio_sha1_init c)) []"
    using assms(1) by (simp add: holds_def sha1_parts_def fio_sha1_init_def sha1_h0_def absorb_short)
  then show ?thesis using sha1s.digests assms(2) by blast
qed

theorem fio_sha1_correct_witness:
  "sha1_H (fio_sha1_final (foldl fio_sha1_update (fio_sha1_init \<lparr>sha1_H = [], sha1_Wbuf = replicate 64 0, sha1_size = 7\<rparr>)
      [[97], [98, 99]])) = fst (absorb sha1_compress sha1_h0 ([97, 98, 99] @ sha1_pad 3))"
  using fio_sha1_correct [of "\<lparr>sha1_H = [], sha1_Wbuf = replicate 64 0, sha1_size = 7\<rparr>" "[[97], [98, 99]]"]
  by (simp add: numeral_3_eq_3)

end
