(* ===== verification/Fio_Sha256.thy ===== *)
theory Fio_Sha256
  imports Fio_Sha1
begin

text \<open>
  SHA-256 of fio, \<open>fio/crc/sha256.c\<close>. \<open>sha256_lines\<close> are the 64 pairs of lines of \<open>sha256_transform\<close>: the registers in
  the places of a to h, the constant and the index of the schedule word.
\<close>

unbundle bit_operations_syntax

subsection \<open>The block function\<close>

definition Ch :: "32 word \<Rightarrow> 32 word \<Rightarrow> 32 word \<Rightarrow> 32 word" where
  "Ch x y z = z XOR (x AND (y XOR z))"

definition Maj :: "32 word \<Rightarrow> 32 word \<Rightarrow> 32 word \<Rightarrow> 32 word" where
  "Maj x y z = (x AND y) OR (z AND (x OR y))"

definition ror32 :: "32 word \<Rightarrow> nat \<Rightarrow> 32 word" where
  "ror32 w s = drop_bit s w OR push_bit (32 - s) w"

definition e0 :: "32 word \<Rightarrow> 32 word" where
  "e0 x = ror32 x 2 XOR ror32 x 13 XOR ror32 x 22"

definition e1 :: "32 word \<Rightarrow> 32 word" where
  "e1 x = ror32 x 6 XOR ror32 x 11 XOR ror32 x 25"

definition s0 :: "32 word \<Rightarrow> 32 word" where
  "s0 x = ror32 x 7 XOR ror32 x 18 XOR drop_bit 3 x"

definition s1 :: "32 word \<Rightarrow> 32 word" where
  "s1 x = ror32 x 17 XOR ror32 x 19 XOR drop_bit 10 x"

definition LOAD_OP :: "nat \<Rightarrow> 32 word list \<Rightarrow> 8 word list \<Rightarrow> 32 word list" where
  "LOAD_OP I W inp = W[I := be_word (take 4 (drop (4 * I) inp))]"

definition BLEND_OP :: "nat \<Rightarrow> 32 word list \<Rightarrow> 32 word list" where
  "BLEND_OP I W = W[I := s1 (W ! (I - 2)) + W ! (I - 7) + s0 (W ! (I - 15)) + W ! (I - 16)]"

definition sha256_iter :: "reg \<Rightarrow> reg \<Rightarrow> reg \<Rightarrow> reg \<Rightarrow> reg \<Rightarrow> reg \<Rightarrow> reg \<Rightarrow> reg \<Rightarrow> 32 word \<Rightarrow> 32 word \<Rightarrow> 32 word regfile \<Rightarrow> 32 word regfile" where
  "sha256_iter a b c d e f g h k w rf =
    (let t1 = rf h + e1 (rf e) + Ch (rf e) (rf f) (rf g) + k + w;
         t2 = e0 (rf a) + Maj (rf a) (rf b) (rf c);
         rf = rf(d := rf d + t1)
     in rf(h := t1 + t2))"

definition sha256_line :: "reg list \<Rightarrow> 32 word \<times> nat \<Rightarrow> 32 word regfile \<times> 32 word list \<Rightarrow> 32 word regfile \<times> 32 word list" where
  "sha256_line p x st = (case (p, x, st) of ([a, b, c, d, e, f, g, h], (k, i), rf, W) \<Rightarrow>
      (sha256_iter a b c d e f g h k (W ! i) rf, W) | _ \<Rightarrow> st)"

definition sha256_lines :: "(reg list \<times> 32 word \<times> nat) list" where
  "sha256_lines = [
    ([RA, RB, RC, RD, RE, RF, RG, RH], 0x428a2f98, 0), ([RH, RA, RB, RC, RD, RE, RF, RG], 0x71374491, 1),
    ([RG, RH, RA, RB, RC, RD, RE, RF], 0xb5c0fbcf, 2), ([RF, RG, RH, RA, RB, RC, RD, RE], 0xe9b5dba5, 3),
    ([RE, RF, RG, RH, RA, RB, RC, RD], 0x3956c25b, 4), ([RD, RE, RF, RG, RH, RA, RB, RC], 0x59f111f1, 5),
    ([RC, RD, RE, RF, RG, RH, RA, RB], 0x923f82a4, 6), ([RB, RC, RD, RE, RF, RG, RH, RA], 0xab1c5ed5, 7),
    ([RA, RB, RC, RD, RE, RF, RG, RH], 0xd807aa98, 8), ([RH, RA, RB, RC, RD, RE, RF, RG], 0x12835b01, 9),
    ([RG, RH, RA, RB, RC, RD, RE, RF], 0x243185be, 10), ([RF, RG, RH, RA, RB, RC, RD, RE], 0x550c7dc3, 11),
    ([RE, RF, RG, RH, RA, RB, RC, RD], 0x72be5d74, 12), ([RD, RE, RF, RG, RH, RA, RB, RC], 0x80deb1fe, 13),
    ([RC, RD, RE, RF, RG, RH, RA, RB], 0x9bdc06a7, 14), ([RB, RC, RD, RE, RF, RG, RH, RA], 0xc19bf174, 15),
    ([RA, RB, RC, RD, RE, RF, RG, RH], 0xe49b69c1, 16), ([RH, RA, RB, RC, RD, RE, RF, RG], 0xefbe4786, 17),
    ([RG, RH, RA, RB, RC, RD, RE, RF], 0x0fc19dc6, 18), ([RF, RG, RH, RA, RB, RC, RD, RE], 0x240ca1cc, 19),
    ([RE, RF, RG, RH, RA, RB, RC, RD], 0x2de92c6f, 20), ([RD, RE, RF, RG, RH, RA, RB, RC], 0x4a7484aa, 21),
    ([RC, RD, RE, RF, RG, RH, RA, RB], 0x5cb0a9dc, 22), ([RB, RC, RD, RE, RF, RG, RH, RA], 0x76f988da, 23),
    ([RA, RB, RC, RD, RE, RF, RG, RH], 0x983e5152, 24), ([RH, RA, RB, RC, RD, RE, RF, RG], 0xa831c66d, 25),
    ([RG, RH, RA, RB, RC, RD, RE, RF], 0xb00327c8, 26), ([RF, RG, RH, RA, RB, RC, RD, RE], 0xbf597fc7, 27),
    ([RE, RF, RG, RH, RA, RB, RC, RD], 0xc6e00bf3, 28), ([RD, RE, RF, RG, RH, RA, RB, RC], 0xd5a79147, 29),
    ([RC, RD, RE, RF, RG, RH, RA, RB], 0x06ca6351, 30), ([RB, RC, RD, RE, RF, RG, RH, RA], 0x14292967, 31),
    ([RA, RB, RC, RD, RE, RF, RG, RH], 0x27b70a85, 32), ([RH, RA, RB, RC, RD, RE, RF, RG], 0x2e1b2138, 33),
    ([RG, RH, RA, RB, RC, RD, RE, RF], 0x4d2c6dfc, 34), ([RF, RG, RH, RA, RB, RC, RD, RE], 0x53380d13, 35),
    ([RE, RF, RG, RH, RA, RB, RC, RD], 0x650a7354, 36), ([RD, RE, RF, RG, RH, RA, RB, RC], 0x766a0abb, 37),
    ([RC, RD, RE, RF, RG, RH, RA, RB], 0x81c2c92e, 38), ([RB, RC, RD, RE, RF, RG, RH, RA], 0x92722c85, 39),
    ([RA, RB, RC, RD, RE, RF, RG, RH], 0xa2bfe8a1, 40), ([RH, RA, RB, RC, RD, RE, RF, RG], 0xa81a664b, 41),
    ([RG, RH, RA, RB, RC, RD, RE, RF], 0xc24b8b70, 42), ([RF, RG, RH, RA, RB, RC, RD, RE], 0xc76c51a3, 43),
    ([RE, RF, RG, RH, RA, RB, RC, RD], 0xd192e819, 44), ([RD, RE, RF, RG, RH, RA, RB, RC], 0xd6990624, 45),
    ([RC, RD, RE, RF, RG, RH, RA, RB], 0xf40e3585, 46), ([RB, RC, RD, RE, RF, RG, RH, RA], 0x106aa070, 47),
    ([RA, RB, RC, RD, RE, RF, RG, RH], 0x19a4c116, 48), ([RH, RA, RB, RC, RD, RE, RF, RG], 0x1e376c08, 49),
    ([RG, RH, RA, RB, RC, RD, RE, RF], 0x2748774c, 50), ([RF, RG, RH, RA, RB, RC, RD, RE], 0x34b0bcb5, 51),
    ([RE, RF, RG, RH, RA, RB, RC, RD], 0x391c0cb3, 52), ([RD, RE, RF, RG, RH, RA, RB, RC], 0x4ed8aa4a, 53),
    ([RC, RD, RE, RF, RG, RH, RA, RB], 0x5b9cca4f, 54), ([RB, RC, RD, RE, RF, RG, RH, RA], 0x682e6ff3, 55),
    ([RA, RB, RC, RD, RE, RF, RG, RH], 0x748f82ee, 56), ([RH, RA, RB, RC, RD, RE, RF, RG], 0x78a5636f, 57),
    ([RG, RH, RA, RB, RC, RD, RE, RF], 0x84c87814, 58), ([RF, RG, RH, RA, RB, RC, RD, RE], 0x8cc70208, 59),
    ([RE, RF, RG, RH, RA, RB, RC, RD], 0x90befffa, 60), ([RD, RE, RF, RG, RH, RA, RB, RC], 0xa4506ceb, 61),
    ([RC, RD, RE, RF, RG, RH, RA, RB], 0xbef9a3f7, 62), ([RB, RC, RD, RE, RF, RG, RH, RA], 0xc67178f2, 63)]"

definition sha256_schedule :: "8 word list \<Rightarrow> 32 word list" where
  "sha256_schedule inp = fold BLEND_OP [16..<64] (fold (\<lambda>i W. LOAD_OP i W inp) [0..<16] (replicate 64 0))"

definition sha256_transform :: "32 word list \<Rightarrow> 8 word list \<Rightarrow> 32 word list" where
  "sha256_transform st inp =
    (let r = (\<lambda>_. 0)(RA := st ! 0, RB := st ! 1, RC := st ! 2, RD := st ! 3, RE := st ! 4, RF := st ! 5, RG := st ! 6, RH := st ! 7);
         r' = fst (fold (\<lambda>(p, x). sha256_line p x) sha256_lines (r, sha256_schedule inp))
     in [st ! 0 + r' RA, st ! 1 + r' RB, st ! 2 + r' RC, st ! 3 + r' RD,
         st ! 4 + r' RE, st ! 5 + r' RF, st ! 6 + r' RG, st ! 7 + r' RH])"

subsection \<open>The streaming interface\<close>

record fio_sha256_ctx =
  sha256_count :: nat
  sha256_state :: "32 word list"
  sha256_buf :: "8 word list"

definition fio_sha256_init :: "fio_sha256_ctx \<Rightarrow> fio_sha256_ctx" where
  "fio_sha256_init c = c\<lparr>sha256_state := [0x6a09e667, 0xbb67ae85, 0x3c6ef372, 0xa54ff53a, 0x510e527f, 0x9b05688c, 0x1f83d9ab, 0x5be0cd19],
     sha256_count := 0\<rparr>"

text \<open>
  The \<open>do\<close> loop of \<open>fio_sha256_update\<close>, with \<open>done\<close> an \<open>unsigned int\<close> that starts at minus the number of buffered
  bytes. The first block comes from \<open>src\<close>, the others from the data. Every turn takes 64 bytes, so
  the length of the data is fuel enough.
\<close>

fun sha256_loop :: "nat \<Rightarrow> 32 word list \<Rightarrow> 8 word list \<Rightarrow> 8 word list \<Rightarrow> nat \<Rightarrow> 32 word list \<times> nat" where
  "sha256_loop 0 st src data dn = (st, dn)"
| "sha256_loop (Suc n) st src data dn =
    (let st = sha256_transform st (take 64 src); dn = (dn + 64) mod 2 ^ 32
     in if (dn + 63) mod 2 ^ 32 < length data then sha256_loop n st (drop dn data) data dn else (st, dn))"

definition fio_sha256_update :: "fio_sha256_ctx \<Rightarrow> 8 word list \<Rightarrow> fio_sha256_ctx" where
  "fio_sha256_update c data =
    (let len = length data; partial = sha256_count c mod 64;
         c = c\<lparr>sha256_count := (sha256_count c + len) mod 2 ^ 32\<rparr>
     in if 63 < (partial + len) mod 2 ^ 32
        then let (dn, buf, src) =
               (if partial \<noteq> 0
                then let dn = 2 ^ 32 - partial; buf = block_put (sha256_buf c) partial (take ((dn + 64) mod 2 ^ 32) data)
                     in (dn, buf, buf)
                else (0, sha256_buf c, data));
               (st, dn) = sha256_loop len (sha256_state c) src data dn
             in c\<lparr>sha256_state := st, sha256_buf := block_put buf 0 (take (len - dn) (drop dn data))\<rparr>
        else c\<lparr>sha256_buf := block_put (sha256_buf c) partial data\<rparr>)"

definition fio_sha256_final :: "fio_sha256_ctx \<Rightarrow> fio_sha256_ctx" where
  "fio_sha256_final c =
    (let bits = of_nat (sha256_count c * 2 ^ 3) :: 64 word;
         index = sha256_count c mod 64;
         pad_len = (if index < 56 then 56 - index else (64 + 56) - index);
         padding = 0x80 # replicate 63 0;
         c = fio_sha256_update c (take pad_len padding);
         c = fio_sha256_update c (le_bytes 8 bits)
     in c\<lparr>sha256_buf := block_put (sha256_buf c) 0 (map ucast (take 8 (sha256_state c)))\<rparr>)"

subsection \<open>The block function as FIPS 180 has it\<close>

text \<open>
  The constants of FIPS 180 are bits of roots of primes: \<open>frac_root k p\<close> is the first 32 bits of the
  fractional part of the \<open>k\<close>-th root of \<open>p\<close>.
\<close>

fun root_bits :: "nat \<Rightarrow> nat \<Rightarrow> nat \<Rightarrow> nat \<Rightarrow> nat" where
  "root_bits k x 0 r = r"
| "root_bits k x (Suc b) r = root_bits k x b (if (r + 2 ^ b) ^ k \<le> x then r + 2 ^ b else r)"

definition frac_root :: "nat \<Rightarrow> nat \<Rightarrow> 32 word" where
  "frac_root k p = of_nat (root_bits k (p * 2 ^ (32 * k)) 35 0)"

definition first_primes :: "nat list" where
  "first_primes = [2, 3, 5, 7, 11, 13, 17, 19, 23, 29, 31, 37, 41, 43, 47, 53, 59, 61, 67, 71, 73, 79, 83, 89, 97,
    101, 103, 107, 109, 113, 127, 131, 137, 139, 149, 151, 157, 163, 167, 173, 179, 181, 191, 193, 197, 199, 211, 223, 227, 229, 233, 239,
    241, 251, 257, 263, 269, 271, 277, 281, 283, 293, 307, 311]"

definition sha256_K :: "32 word list" where
  "sha256_K = map (frac_root 3) first_primes"

definition ROTR :: "nat \<Rightarrow> 32 word \<Rightarrow> 32 word" where
  "ROTR n x = word_rotr n x"

function sha256_W :: "8 word list \<Rightarrow> nat \<Rightarrow> 32 word" where
  "sha256_W block t = (if t < 16 then be_word (take 4 (drop (4 * t) block))
     else (ROTR 17 (sha256_W block (t - 2)) XOR ROTR 19 (sha256_W block (t - 2)) XOR drop_bit 10 (sha256_W block (t - 2))) + sha256_W block (t - 7) +
       (ROTR 7 (sha256_W block (t - 15)) XOR ROTR 18 (sha256_W block (t - 15)) XOR drop_bit 3 (sha256_W block (t - 15))) + sha256_W block (t - 16))"
  by auto
termination by (relation "measure snd") auto

declare sha256_W.simps [simp del]

fun sha256_step :: "8 word list \<Rightarrow> nat \<Rightarrow> 32 word list \<Rightarrow> 32 word list" where
  "sha256_step block t [a, b, c, d, e, f, g, h] =
    (let T1 = h + (ROTR 6 e XOR ROTR 11 e XOR ROTR 25 e) + sha_Ch e f g + sha256_K ! t + sha256_W block t;
         T2 = (ROTR 2 a XOR ROTR 13 a XOR ROTR 22 a) + sha_Maj a b c
     in [T1 + T2, a, b, c, d + T1, e, f, g])"
| "sha256_step block t r = r"

definition sha256_compress :: "32 word list \<Rightarrow> 8 word list \<Rightarrow> 32 word list" where
  "sha256_compress h block = map2 (+) h (fold (sha256_step block) [0..<64] h)"

lemma ror32_ROTR: "s < 32 \<Longrightarrow> ror32 w s = ROTR s w"
proof (rule bit_word_eqI)
  fix n assume s: "s < 32" and n: "n < LENGTH(32)"
  show "bit (ror32 w s) n = bit (ROTR s w) n"
  proof (cases "n + s < 32")
    case True
    then have "\<not> 32 - s \<le> n" using s by simp
    then show ?thesis using True n by (simp add: ror32_def ROTR_def bit_word_rotr_iff bit_or_iff bit_drop_bit_eq bit_push_bit_iff add.commute)
  next
    case False
    then have "(n + s) mod 32 = n - (32 - s)" using n s by (simp add: mod_if)
    moreover have "32 - s \<le> n" "\<not> bit w (s + n)" using False s bit_imp_le_length [of w "s + n"] by auto
    ultimately show ?thesis using n by (simp add: ror32_def ROTR_def bit_word_rotr_iff bit_or_iff bit_drop_bit_eq bit_push_bit_iff)
  qed
qed

lemma Ch_eq: "Ch x y z = sha_Ch x y z"
  by (rule bit_word_eqI) (auto simp: Ch_def sha_Ch_def bit_simps)

lemma Maj_eq: "Maj x y z = sha_Maj x y z"
  by (rule bit_word_eqI) (auto simp: Maj_def sha_Maj_def bit_simps)

lemma loads: "n \<le> 16 \<Longrightarrow> length W = 64 \<Longrightarrow> length (fold (\<lambda>i W. LOAD_OP i W inp) [0..<n] W) = 64 \<and>
    (\<forall>i < n. fold (\<lambda>i W. LOAD_OP i W inp) [0..<n] W ! i = sha256_W inp i)"
proof (induction n)
  case (Suc n)
  then show ?case by (auto simp: LOAD_OP_def less_Suc_eq sha256_W.simps [of inp n])
qed simp

lemma blends:
  assumes "length W = 64" "\<forall>i < 16. W ! i = sha256_W inp i"
  shows "n \<le> 48 \<Longrightarrow> length (fold BLEND_OP [16..<16 + n] W) = 64 \<and>
    (\<forall>i < 16 + n. fold BLEND_OP [16..<16 + n] W ! i = sha256_W inp i)"
proof (induction n)
  case (Suc n)
  let ?V = "fold BLEND_OP [16..<16 + n] W"
  have V: "length ?V = 64" "\<forall>i < 16 + n. ?V ! i = sha256_W inp i" using Suc by simp_all
  have "s1 (?V ! (14 + n)) + ?V ! (9 + n) + s0 (?V ! (1 + n)) + ?V ! n = sha256_W inp (16 + n)"
    using V(2) by (simp add: sha256_W.simps [of inp "16 + n"] s0_def s1_def ror32_ROTR)
  then have "BLEND_OP (16 + n) ?V = ?V[16 + n := sha256_W inp (16 + n)]"
    by (simp add: BLEND_OP_def add.commute)
  moreover have "fold BLEND_OP [16..<16 + Suc n] W = BLEND_OP (16 + n) ?V" by (simp only: add_Suc_right upt_Suc) simp
  ultimately show ?case using V Suc.prems by (auto simp: less_Suc_eq nth_list_update)
qed (use assms in simp)

lemma schedule: "length (sha256_schedule inp) = 64 \<and> (\<forall>i < 64. sha256_schedule inp ! i = sha256_W inp i)"
  using blends [OF conjunct1 [OF loads [of 16 "replicate 64 0" inp]] conjunct2 [OF loads [of 16 "replicate 64 0" inp]], of 48]
  by (simp add: sha256_schedule_def)

fun sha256_round :: "32 word \<times> nat \<Rightarrow> 32 word list \<times> 32 word list \<Rightarrow> 32 word list \<times> 32 word list" where
  "sha256_round (k, i) ([a, b, c, d, e, f, g, h], W) =
    (let t1 = h + e1 e + Ch e f g + k + W ! i; t2 = e0 a + Maj a b c in ([t1 + t2, a, b, c, d + t1, e, f, g], W))"
| "sha256_round x st = st"

lemma length_8: "length p = 8 \<Longrightarrow> \<exists>a b c d e f g h. p = [a, b, c, d, e, f, g, h]"
  by (auto simp: length_Suc_conv numeral_eq_Suc)

interpretation sha256u: unrolled sha256_line sha256_round 8
proof
  fix p :: "reg list" and x :: "32 word \<times> nat" and st :: "32 word regfile \<times> 32 word list"
  assume "distinct p" "length p = 8"
  moreover obtain a b c d e f g h where "p = [a, b, c, d, e, f, g, h]" using length_8 [OF calculation(2)] by blast
  moreover obtain k i where "x = (k, i)" by (cases x)
  moreover obtain rf W where "st = (rf, W)" by (cases st)
  ultimately show "view (rot p) (sha256_line p x st) = sha256_round x (view p st)"
    by (auto simp: view_def rot_def sha256_line_def sha256_iter_def Let_def)
qed simp

lemma root_bits_root: "r ^ k \<le> x \<Longrightarrow> x < (r + 2 ^ b) ^ k \<Longrightarrow> root_bits k x b r ^ k \<le> x \<and> x < Suc (root_bits k x b r) ^ k"
proof (induction b arbitrary: r)
  case (Suc b)
  then show ?case using Suc.IH [of r] Suc.IH [of "r + 2 ^ b"] by (simp add: mult_2 add.assoc not_le)
qed simp

lemma frac_root_eq:
  assumes "0 < k" "r ^ k \<le> p * 2 ^ (32 * k)" "p * 2 ^ (32 * k) < Suc r ^ k" "p * 2 ^ (32 * k) < (2 ^ 35) ^ k"
  shows "frac_root k p = of_nat r"
proof -
  let ?r = "root_bits k (p * 2 ^ (32 * k)) 35 0"
  have "?r ^ k \<le> p * 2 ^ (32 * k) \<and> p * 2 ^ (32 * k) < Suc ?r ^ k" 
  proof (rule root_bits_root)
    show "0 ^ k \<le> p * 2 ^ (32 * k)" using assms(1) by (simp only: zero_power zero_le)
    show "p * 2 ^ (32 * k) < (0 + 2 ^ 35) ^ k" using assms(4) by (simp only: add_0)
  qed
  then have "?r ^ k < Suc r ^ k" "r ^ k < Suc ?r ^ k" using assms(2,3) by linarith+
  then have "?r < Suc r" "r < Suc ?r" using power_less_imp_less_base by blast+
  then have "?r = r" by linarith
  then show ?thesis unfolding frac_root_def by (simp only:)
qed

definition root_of :: "nat \<Rightarrow> nat \<Rightarrow> 32 word \<Rightarrow> bool" where
  "root_of k p w \<longleftrightarrow> p < 8 ^ k \<and>
    (let r = length (filter (\<lambda>c. c ^ k \<le> p) [1, 2, 3, 4, 5, 6, 7]) * 2 ^ 32 + unat w; x = p * 2 ^ (32 * k) in r ^ k \<le> x \<and> x < Suc r ^ k)"

lemma root_of_frac_root: "0 < k \<Longrightarrow> root_of k p w \<Longrightarrow> frac_root k p = w"
proof -
  assume k: "0 < k" and "root_of k p w"
  then obtain c :: nat where c: "p < 8 ^ k" "(c * 2 ^ 32 + unat w) ^ k \<le> p * 2 ^ (32 * k)" "p * 2 ^ (32 * k) < Suc (c * 2 ^ 32 + unat w) ^ k"
    unfolding root_of_def Let_def by blast
  have "p * 2 ^ (32 * k) < 8 ^ k * 2 ^ (32 * k)" using c(1) by simp
  also have "\<dots> = (8 * 2 ^ 32) ^ k" by (simp only: power_mult_distrib power_mult)
  finally have "p * 2 ^ (32 * k) < (2 ^ 35) ^ k" by simp
  from frac_root_eq [OF k c(2,3) this] have "frac_root k p = of_nat (c * 2 ^ 32 + unat w)" .
  also have "\<dots> = of_nat c * of_nat (2 ^ 32) + w" by (simp only: of_nat_add of_nat_mult of_nat_unat ucast_id)
  also have "of_nat (2 ^ 32) = (0 :: 32 word)" by simp
  finally show ?thesis by simp
qed

lemma sha256_K_lines: "sha256_K = map (fst \<circ> snd) sha256_lines"
proof -
  have "list_all2 (root_of 3) first_primes (map (fst \<circ> snd) sha256_lines)"
    by (simp add: first_primes_def root_of_def sha256_lines_def)
  then show ?thesis unfolding sha256_K_def by (induction rule: list_all2_induct) (simp_all add: root_of_frac_root)
qed

lemma sha256_lines_params: "map snd sha256_lines = map (\<lambda>t. (sha256_K ! t, t)) [0..<64]"
proof -
  have i: "map (snd \<circ> snd) sha256_lines = [0..<64]" by (simp add: sha256_lines_def upt_two upt_rec_numeral)
  have l: "length sha256_lines = 64" using arg_cong [OF i, of length] by (simp only: length_map length_upt diff_zero)
  have "snd (sha256_lines ! t) = (sha256_K ! t, t)" if "t < 64" for t
    using arg_cong [OF i, of "\<lambda>xs. xs ! t"] that l unfolding sha256_K_lines by (simp add: prod_eq_iff)
  then show ?thesis using l by (intro nth_equalityI) simp_all
qed

lemma sha256_chained: "chained [RA, RB, RC, RD, RE, RF, RG, RH] sha256_lines"
  by (simp add: sha256_lines_def rot_def)

lemma sha256_step_len: "length (sha256_step b t r) = length r"
  by (induction b t r rule: sha256_step.induct) (simp_all add: Let_def)

lemma sha256_rounds:
  "n \<le> 64 \<Longrightarrow> length regs = 8 \<Longrightarrow>
    fold (\<lambda>t. sha256_round (sha256_K ! t, t)) [0..<n] (regs, sha256_schedule block) =
      (fold (sha256_step block) [0..<n] regs, sha256_schedule block) \<and> length (fold (sha256_step block) [0..<n] regs) = 8"
proof (induction n)
  case (Suc n)
  then have "length (fold (sha256_step block) [0..<n] regs) = 8" by simp
  from length_8 [OF this] obtain a b c d e f g h where r: "fold (sha256_step block) [0..<n] regs = [a, b, c, d, e, f, g, h]"
    by blast
  have "sha256_schedule block ! n = sha256_W block n" using schedule Suc.prems by simp
  then have "sha256_round (sha256_K ! n, n) ([a, b, c, d, e, f, g, h], sha256_schedule block) =
      (sha256_step block n [a, b, c, d, e, f, g, h], sha256_schedule block)"
    by (simp add: Let_def e0_def e1_def ror32_ROTR Ch_eq Maj_eq)
  then show ?case using Suc r by (simp add: sha256_step_len Let_def)
qed simp

lemma sha256_transform_compress: "length h = 8 \<Longrightarrow> sha256_transform h block = sha256_compress h block"
proof -
  assume l: "length h = 8"
  then obtain a b c d e f g i where h: "h = [a, b, c, d, e, f, g, i]" using length_8 by blast
  let ?p = "[RA, RB, RC, RD, RE, RF, RG, RH]"
  let ?r = "(\<lambda>_. 0)(RA := a, RB := b, RC := c, RD := d, RE := e, RF := f, RG := g, RH := i) :: 32 word regfile"
  let ?s = "(?r, sha256_schedule block)"
  let ?st = "fold (\<lambda>(p, x). sha256_line p x) sha256_lines ?s"
  have e: "rotn (length sha256_lines) ?p = ?p"
    by (simp add: sha256_lines_def rotn_def rot_def eval_nat_numeral)
  have "view ?p ?st = fold sha256_round (map snd sha256_lines) (view ?p ?s)"
    using sha256u.lines [OF _ _ sha256_chained, of ?s] by (simp only: e) simp
  also have "\<dots> = fold (\<lambda>t. sha256_round (sha256_K ! t, t)) [0..<64] (h, sha256_schedule block)"
    by (simp only: sha256_lines_params fold_map h) (simp add: view_def comp_def)
  finally have "fold (sha256_step block) [0..<64] h = map (fst ?st) ?p"
    using sha256_rounds [of 64 h block] l by (simp add: view_def)
  then show ?thesis unfolding sha256_compress_def sha256_transform_def Let_def by (simp add: h)
qed

subsection \<open>Streaming\<close>

definition sha256_h0 :: "32 word list" where
  "sha256_h0 = map (frac_root 2) (take 8 first_primes)"

lemma sha256_h0_eq: "sha256_h0 = [0x6a09e667, 0xbb67ae85, 0x3c6ef372, 0xa54ff53a, 0x510e527f, 0x9b05688c, 0x1f83d9ab, 0x5be0cd19]"
  by (simp add: sha256_h0_def first_primes_def root_of_frac_root root_of_def)

definition sha256_parts :: "fio_sha256_ctx \<Rightarrow> 32 word list \<times> 8 word list \<times> nat" where
  "sha256_parts c = (sha256_state c, sha256_buf c, sha256_count c)"

definition sha256_pad :: "nat \<Rightarrow> 8 word list" where
  "sha256_pad n = pad_zero n @ le_bytes 8 (of_nat (8 * (n mod 2 ^ 32)) :: 64 word)"

lemma sha256_compress_len: "length h = 8 \<Longrightarrow> length (sha256_compress h b) = 8"
proof -
  have "length (fold (sha256_step b) ts r) = length r" for ts r
    by (induction ts arbitrary: r) (simp_all add: sha256_step_len)
  then show "length h = 8 \<Longrightarrow> ?thesis" by (simp add: sha256_compress_def)
qed

lemma sha256_absorb: "length h = 8 \<Longrightarrow> absorb sha256_transform h bs = absorb sha256_compress h bs \<and>
    length (fst (absorb sha256_compress h bs)) = 8"
  using absorb_cong [of "\<lambda>h. length h = 8" sha256_transform sha256_compress h bs]
  by (simp add: sha256_transform_compress sha256_compress_len)

lemma absorb_drop: "snd (absorb f h bs) = drop (64 * (length bs div 64)) bs"
proof (induction f h bs rule: absorb.induct)
  case (1 f h bs)
  show ?case
  proof (cases "length bs < 64")
    case False
    then have "length bs div 64 = Suc ((length bs - 64) div 64)" by (simp add: le_div_geq)
    then show ?thesis using 1 [OF False] False by (simp add: absorb.simps [of f h bs] add.commute)
  qed (simp add: absorb_short)
qed

lemma sha256_loop_absorb:
  assumes "length data + 63 < 2 ^ 32"
  shows "(dn + 64) mod 2 ^ 32 = d \<Longrightarrow> d \<le> length data \<Longrightarrow> (length data - d) div 64 < n \<Longrightarrow>
    sha256_loop n st src data dn =
      (fst (absorb sha256_transform (sha256_transform st (take 64 src)) (drop d data)), d + 64 * ((length data - d) div 64))"
proof (induction n arbitrary: st src dn d)
  case (Suc n)
  let ?s = "sha256_transform st (take 64 src)"
  have m: "(d + 63) mod 2 ^ 32 = d + 63" using assms Suc.prems(2) by simp
  show ?case
  proof (cases "d + 64 \<le> length data")
    case True
    have q: "(length data - d) div 64 = Suc ((length data - (d + 64)) div 64)" using True by (simp add: le_div_geq)
    have "sha256_loop n ?s (drop d data) data d =
        (fst (absorb sha256_transform (sha256_transform ?s (take 64 (drop d data))) (drop (d + 64) data)), d + 64 + 64 * ((length data - (d + 64)) div 64))"
      using True assms Suc.prems(3) q by (intro Suc.IH) simp_all
    moreover have "absorb sha256_transform ?s (drop d data) =
        absorb sha256_transform (sha256_transform ?s (take 64 (drop d data))) (drop (d + 64) data)"
    proof -
      have "\<not> length (drop d data) < 64" using True by simp
      then show ?thesis by (subst absorb.simps) (simp only: if_False drop_drop add.commute)
    qed
    ultimately show ?thesis using True m q by (simp only: sha256_loop.simps Let_def Suc.prems(1)) simp
  next
    case False
    then show ?thesis using m by (simp only: sha256_loop.simps Let_def Suc.prems(1)) (simp add: absorb_short)
  qed
qed simp

lemma sha256_update_holds:
  assumes "holds sha256_transform h0 (2 ^ 32) (sha256_parts c) msg" "length data < 2 ^ 32 - 127"
  shows "holds sha256_transform h0 (2 ^ 32) (sha256_parts (fio_sha256_update c data)) (msg @ data)"
proof -
  let ?k = "length msg mod 64" and ?n = "(sha256_count c + length data) mod 2 ^ 32"
  have h: "holds sha256_transform h0 (2 ^ 32) (sha256_state c, sha256_buf c, sha256_count c) msg"
    using assms by (simp add: sha256_parts_def)
  have k: "sha256_count c mod 64 = ?k" "length (sha256_buf c) = 64" "?k < 64" using holds_count [OF h] holdsD(1) [OF h] by simp_all
  have n: "?n = length (msg @ data) mod 2 ^ 32" using holdsD(2) [OF h] by (simp add: mod_simps)
  have pl: "(?k + length data) mod 2 ^ 32 = ?k + length data" using assms(2) k(3) by simp
  show ?thesis
  proof (cases "?k + length data < 64")
    case True
    then have "\<not> 63 < (?k + length data) mod 2 ^ 32" unfolding pl by simp
    then show ?thesis using holds_fill [OF h True] unfolding fio_sha256_update_def Let_def k(1) by (simp add: sha256_parts_def)
  next
    case False
    let ?D = "64 - ?k"
    define buf where "buf = (if ?k \<noteq> 0 then block_put (sha256_buf c) ?k (take ?D data) else sha256_buf c)"
    define src where "src = (if ?k \<noteq> 0 then buf else data)"
    define dn where "dn = (if ?k \<noteq> 0 then 2 ^ 32 - ?k else (0 :: nat))"
    have D: "length (take ?D data) = ?D" "?D \<le> length data" using False by simp_all
    note b = holds_block [OF h D(1)]
    have bl: "length buf = 64" using k D by (simp add: buf_def block_put_len)
    have s: "take 64 src = take ?k (sha256_buf c) @ take ?D data"
    proof (cases "?k = 0")
      case False
      moreover have "take 64 buf = buf" using bl by simp
      ultimately show ?thesis using b(2) by (simp add: src_def buf_def)
    qed (simp add: src_def)
    have w: "(dn + 64) mod 2 ^ 32 = ?D"
    proof (cases "?k = 0")
      case False
      then have "dn + 64 = ?D + 2 ^ 32" using k(3) by (simp add: dn_def)
      then show ?thesis by (simp only: mod_add_self2) simp
    qed (simp add: dn_def)
    define h' where "h' = fst (absorb sha256_transform (sha256_transform (sha256_state c) (take 64 src)) (drop ?D data))"
    define e where "e = ?D + 64 * ((length data - ?D) div 64)"
    have l: "sha256_loop (length data) (sha256_state c) src data dn = (h', e)"
      unfolding h'_def e_def by (rule sha256_loop_absorb [OF _ w]) (use assms(2) D False k(3) in \<open>auto simp: div_less_dividend\<close>)
    have r: "absorb sha256_transform (sha256_transform (sha256_state c) (take 64 src)) (drop ?D data) = (h', drop e data)"
      using absorb_drop [of sha256_transform "sha256_transform (sha256_state c) (take 64 src)" "drop ?D data"]
      by (simp add: h'_def e_def prod_eq_iff add.commute)
    have e: "length data - e = length (drop ?D data) mod 64" "e \<le> length data"
      using D(2) by (simp_all add: e_def minus_mult_div_eq_mod [symmetric])
    have eb: "length (drop e data) \<le> 64" using e(1) mod_less_divisor [of 64 "length (drop ?D data)"] by simp
    have "holds sha256_transform h0 (2 ^ 32) (h', block_put buf 0 (drop e data), ?n) (msg @ take ?D data @ drop ?D data)"
    proof (rule holds_rest)
      show "absorb sha256_transform h0 (msg @ take ?D data) = (sha256_transform (sha256_state c) (take 64 src), [])"
        using b(1) s by simp
      show "absorb sha256_transform (sha256_transform (sha256_state c) (take 64 src)) (drop ?D data) =
          (h', take (length (drop ?D data) mod 64) (block_put buf 0 (drop e data)))"
        unfolding r e(1) [symmetric] by (simp add: block_put_def)
      show "length (block_put buf 0 (drop e data)) = 64" using eb bl by (simp add: block_put_def)
      show "(length msg + length (take ?D data)) mod 64 = 0" unfolding D(1)
        by (metis le_add_diff_inverse mod_add_left_eq mod_self mod_less_divisor less_imp_le zero_less_numeral)
      show "?n = length (msg @ take ?D data @ drop ?D data) mod 2 ^ 32" using n by simp
    qed
    moreover have "fio_sha256_update c data = c\<lparr>sha256_count := ?n, sha256_state := h', sha256_buf := block_put buf 0 (drop e data)\<rparr>"
    proof -
      have "63 < (?k + length data) mod 2 ^ 32" unfolding pl using False by simp
      then show ?thesis using l w unfolding fio_sha256_update_def Let_def k(1) dn_def src_def buf_def
        by (auto split: if_splits)
    qed
    ultimately show ?thesis by (simp add: sha256_parts_def)
  qed
qed

lemma pad_len_eq: "(if k < 56 then 56 - k else (64 + 56) - k) = 1 + (119 - k) mod 64" if "k < 64" for k :: nat
proof (cases "k < 56")
  case True
  then have "119 - k = (55 - k) + 64" by simp
  then have "(119 - k) mod 64 = 55 - k" using True by (simp only: mod_add_self2) simp
  then show ?thesis using True by simp
qed (use that in simp)

lemma sha256_final_holds:
  assumes "holds sha256_transform h0 (2 ^ 32) (sha256_parts c) msg" "length h0 = 8"
  shows "take 8 (sha256_buf (fio_sha256_final c)) =
      map ucast (fst (absorb sha256_transform h0 (msg @ sha256_pad (length msg))))"
    "length (sha256_buf (fio_sha256_final c)) = 64"
proof -
  have h: "holds sha256_transform h0 (2 ^ 32) (sha256_state c, sha256_buf c, sha256_count c) msg"
    using assms by (simp add: sha256_parts_def)
  let ?k = "length msg mod 64"
  have k: "sha256_count c mod 64 = ?k" "?k < 64" using holds_count [OF h] by simp_all
  let ?ls = "le_bytes 8 (of_nat (8 * (length msg mod 2 ^ 32)) :: 64 word)"
  define c2 where "c2 = fio_sha256_update (fio_sha256_update c (pad_zero (length msg))) ?ls"
  have f: "fio_sha256_final c = c2\<lparr>sha256_buf := block_put (sha256_buf c2) 0 (map ucast (take 8 (sha256_state c2)))\<rparr>"
    unfolding fio_sha256_final_def Let_def k(1) pad_len_eq [OF k(2)] pad_take c2_def
    using holdsD(2) [OF h] by (simp add: mult.commute)
  have pz: "length (pad_zero (length msg)) < 2 ^ 32 - 127"
    using mod_less_divisor [of 64 "119 - length msg mod 64"] by (simp add: pad_zero_def)
  have "holds sha256_transform h0 (2 ^ 32) (sha256_parts c2) ((msg @ pad_zero (length msg)) @ ?ls)"
    unfolding c2_def by (intro sha256_update_holds assms(1) pz) simp
  then have h2: "holds sha256_transform h0 (2 ^ 32) (sha256_state c2, sha256_buf c2, sha256_count c2) (msg @ sha256_pad (length msg))"
    by (simp add: sha256_parts_def sha256_pad_def)
  have s: "sha256_state c2 = fst (absorb sha256_transform h0 (msg @ sha256_pad (length msg)))" using holds_whole [OF h2] .
  then have "length (sha256_state c2) = 8" using sha256_absorb [OF assms(2)] by simp
  then show "take 8 (sha256_buf (fio_sha256_final c)) = map ucast (fst (absorb sha256_transform h0 (msg @ sha256_pad (length msg))))"
    "length (sha256_buf (fio_sha256_final c)) = 64"
    using s holdsD(1) [OF h2] by (simp_all add: f block_put_def)
qed

lemma sha256_holds_compress: "holds sha256_transform sha256_h0 m c msg \<longleftrightarrow> holds sha256_compress sha256_h0 m c msg"
  using sha256_absorb [of sha256_h0 msg] by (simp add: holds_def sha256_h0_eq)

interpretation sha256s: streaming sha256_compress sha256_h0 "2 ^ 32" "2 ^ 32 - 127" sha256_parts fio_sha256_update sha256_pad
    "\<lambda>c. take 8 (sha256_buf (fio_sha256_final c))" "map ucast"
proof
  show "holds sha256_compress sha256_h0 (2 ^ 32) (sha256_parts (fio_sha256_update c data)) (msg @ data)"
    if "holds sha256_compress sha256_h0 (2 ^ 32) (sha256_parts c) msg" "length data < 2 ^ 32 - 127" for c msg data
    using sha256_update_holds [OF _ that(2)] that(1) sha256_holds_compress by blast
  show "take 8 (sha256_buf (fio_sha256_final c)) = map ucast (fst (absorb sha256_compress sha256_h0 (msg @ sha256_pad (length msg))))"
    if "holds sha256_compress sha256_h0 (2 ^ 32) (sha256_parts c) msg" for c msg
    using sha256_final_holds(1) [of sha256_h0 c msg] that sha256_absorb [of sha256_h0]
    by (simp add: sha256_holds_compress) (simp add: sha256_h0_eq)
qed

text \<open>
  C30. What the SHA-256 of fio leaves, whatever the calls: after \<open>fio_sha256_init\<close> and updates with any pieces
  of a message, each of less than \<open>2 ^ 32 - 127\<close> bytes, the 64 unrolled rounds over the blocks are those of
  FIPS 180, the buffer is never left, and \<open>fio_sha256_final\<close> stores the low byte of each of the eight
  state words. The padding holds the number of bits in the byte order of the machine, modulo 2 to the
  35, not in network order as the standard has it, and the other 24 bytes of the digest are dropped.
\<close>
theorem fio_sha256_digest:
  assumes "length (sha256_buf c) = 64" "\<forall>d \<in> set ds. length d < 2 ^ 32 - 127"
  defines "c' \<equiv> fio_sha256_final (foldl fio_sha256_update (fio_sha256_init c) ds)"
  shows "take 8 (sha256_buf c') = map ucast (fst (absorb sha256_compress sha256_h0
      (concat ds @ pad_zero (length (concat ds)) @ le_bytes 8 (of_nat (8 * (length (concat ds) mod 2 ^ 32)) :: 64 word)))) \<and>
    length (sha256_buf c') = 64"
proof -
  have i: "holds sha256_compress sha256_h0 (2 ^ 32) (sha256_parts (fio_sha256_init c)) []"
    using assms(1) by (simp add: holds_def sha256_parts_def fio_sha256_init_def sha256_h0_eq absorb_short)
  have "holds sha256_transform sha256_h0 (2 ^ 32) (sha256_parts (foldl fio_sha256_update (fio_sha256_init c) ds)) (concat ds)"
    using sha256s.updates [OF i assms(2)] by (simp add: sha256_holds_compress)
  from sha256_final_holds(2) [OF this] sha256s.digests [OF i assms(2)]
  show ?thesis by (simp add: c'_def sha256_pad_def sha256_h0_eq)
qed

theorem fio_sha256_digest_witness:
  "take 8 (sha256_buf (fio_sha256_final (foldl fio_sha256_update
      (fio_sha256_init \<lparr>sha256_count = 0, sha256_state = [], sha256_buf = replicate 64 0\<rparr>) [[97], [98, 99]]))) =
    map ucast (fst (absorb sha256_compress sha256_h0 ([97, 98, 99] @ pad_zero 3 @ le_bytes 8 (24 :: 64 word))))"
proof -
  have l: "concat [[97], [98, 99]] = [97, 98, 99 :: 8 word]" "length [97, 98, 99 :: 8 word] = 3"
    and w: "of_nat (8 * (3 mod 2 ^ 32)) = (24 :: 64 word)" by simp_all
  show ?thesis
    using fio_sha256_digest [of "\<lparr>sha256_count = 0, sha256_state = [], sha256_buf = replicate 64 0\<rparr>" "[[97], [98, 99]]"]
    unfolding l w by simp
qed

end
