(* ===== verification/Fio_Hash.thy ===== *)
theory Fio_Hash
  imports Fio_Md5
begin

text \<open>
  The two multiplicative hashes of fio, \<open>fio/crc/fnv.c\<close> and \<open>fio/crc/murmur3.c\<close>. Both fold the buffer into a
  register one machine word at a time, by steps that can be undone because the multipliers are odd; so
  a change confined to one aligned word of the buffer always changes the hash.
\<close>

unbundle bit_operations_syntax

subsection \<open>FNV\<close>

definition FNV_PRIME :: "64 word" where
  "FNV_PRIME = 0x100000001b3"

definition fnv_tail :: "8 word list \<Rightarrow> 64 word" where
  "fnv_tail bs = foldl (\<lambda>val b. push_bit 8 val OR ucast b) 0 bs"

function fnv :: "8 word list \<Rightarrow> 64 word \<Rightarrow> 64 word" where
  "fnv buf hval =
    (if buf = [] then hval
     else let hval = hval * FNV_PRIME
          in if 8 \<le> length buf then fnv (drop 8 buf) (hval XOR le_word (take 8 buf)) else hval XOR fnv_tail buf)"
  by auto
termination by (relation "measure (\<lambda>(b, h). length b)") auto

declare fnv.simps [simp del]

subsection \<open>MurmurHash3\<close>

definition fmix32 :: "32 word \<Rightarrow> 32 word" where
  "fmix32 h =
    (let h = h XOR drop_bit 16 h; h = h * 0x85ebca6b; h = h XOR drop_bit 13 h; h = h * 0xc2b2ae35
     in h XOR drop_bit 16 h)"

definition murmur3_tail :: "8 word list \<Rightarrow> nat \<Rightarrow> nat \<Rightarrow> 32 word \<Rightarrow> 32 word \<Rightarrow> 32 word \<Rightarrow> 32 word" where
  "murmur3_tail data nblocks len c1 c2 h1 =
    (let tail = drop (nblocks * 4) data;
         k1 = 0;
         k1 = (if 3 \<le> len mod 4 then k1 XOR push_bit 16 (ucast (tail ! 2)) else k1);
         k1 = (if 2 \<le> len mod 4 then k1 XOR push_bit 8 (ucast (tail ! 1)) else k1);
         h1 = (if 1 \<le> len mod 4
               then let k1 = k1 XOR ucast (tail ! 0); k1 = k1 * c1; k1 = rotl32 k1 15; k1 = k1 * c2 in h1 XOR k1
               else h1)
     in fmix32 (h1 XOR of_nat len))"

definition murmur3_block :: "32 word \<Rightarrow> 32 word \<Rightarrow> 32 word \<Rightarrow> 32 word \<Rightarrow> 32 word" where
  "murmur3_block c1 c2 h1 k1 =
    (let k1 = k1 * c1; k1 = rotl32 k1 15; k1 = k1 * c2; h1 = h1 XOR k1; h1 = rotl32 h1 13 in h1 * 5 + 0xe6546b64)"

definition murmurhash3 :: "8 word list \<Rightarrow> 32 word \<Rightarrow> 32 word" where
  "murmurhash3 key seed =
    (let nblocks = length key div 4; c1 = 0xcc9e2d51; c2 = 0x1b873593;
         h1 = foldl (\<lambda>h1 i. murmur3_block c1 c2 h1 (le_word (take 4 (drop (4 * i) key)))) seed [0..<nblocks]
     in murmur3_tail key nblocks (length key) c1 c2 h1)"

subsection \<open>Steps that can be undone\<close>

lemma mult_inj: "a * u = b * u \<Longrightarrow> u * v = 1 \<Longrightarrow> a = b" for a b u v :: "'w :: len word"
  by (metis mult.assoc mult.right_neutral)

lemma rotl32_inj: "rotl32 a s = rotl32 b s \<Longrightarrow> s < 32 \<Longrightarrow> a = b"
proof (rule bit_word_eqI)
  fix n assume e: "rotl32 a s = rotl32 b s" and s: "s < 32" and n: "n < LENGTH(32)"
  have r: "bit (rotl32 w s) ((n + s) mod 32) = bit w n" for w
  proof (cases "n + s < 32")
    case True
    then show ?thesis using s bit_imp_le_length [of w "32 + n"]
      by (auto simp: rotl32_def bit_or_iff bit_push_bit_iff bit_drop_bit_eq)
  next
    case False
    then have m: "(n + s) mod 32 = n + s - 32" using n s by (simp add: mod_if)
    have "32 - s + (n + s - 32) = n" "\<not> s \<le> n + s - 32" using False n s by simp_all
    then show ?thesis unfolding m by (simp add: rotl32_def bit_or_iff bit_push_bit_iff bit_drop_bit_eq)
  qed
  show "bit a n = bit b n" using r [of a] r [of b] e by simp
qed

lemma xor_shift_inj: "a XOR drop_bit s a = b XOR drop_bit s b \<Longrightarrow> 0 < s \<Longrightarrow> a = b" for a b :: "'w :: len word"
proof -
  assume e: "a XOR drop_bit s a = b XOR drop_bit s b" and s: "0 < s"
  have "bit a n = bit b n" for n
  proof (induction "LENGTH('w) - n" arbitrary: n rule: less_induct)
    case less
    show ?case
    proof (cases "n < LENGTH('w)")
      case True
      then have "bit a (s + n) = bit b (s + n)" using s by (intro less) simp
      moreover have "bit (a XOR drop_bit s a) n = bit (b XOR drop_bit s b) n" using e by simp
      ultimately show ?thesis by (auto simp: bit_xor_word bit_drop_bit_eq)
    qed (auto dest: bit_imp_le_length)
  qed
  then show "a = b" by (intro bit_word_eqI) simp
qed

lemma fmix32_inj: "fmix32 a = fmix32 b \<Longrightarrow> a = b"
proof -
  assume "fmix32 a = fmix32 b"
  then have "(let h = a XOR drop_bit 16 a; h = h * 0x85ebca6b; h = h XOR drop_bit 13 h in h * 0xc2b2ae35) =
      (let h = b XOR drop_bit 16 b; h = h * 0x85ebca6b; h = h XOR drop_bit 13 h in h * 0xc2b2ae35)"
    unfolding fmix32_def Let_def by (rule xor_shift_inj) simp
  then have "(let h = a XOR drop_bit 16 a; h = h * 0x85ebca6b in h XOR drop_bit 13 h) =
      (let h = b XOR drop_bit 16 b; h = h * 0x85ebca6b in h XOR drop_bit 13 h)"
    unfolding Let_def by (rule mult_inj [where v = "0x7ed1b41d"]) simp
  then have "(a XOR drop_bit 16 a) * 0x85ebca6b = (b XOR drop_bit 16 b) * 0x85ebca6b"
    unfolding Let_def by (rule xor_shift_inj) simp
  then have "a XOR drop_bit 16 a = b XOR drop_bit 16 b" by (rule mult_inj [where v = "0xa5cb9243"]) simp
  then show "a = b" by (rule xor_shift_inj) simp
qed

subsection \<open>Changes inside one aligned word\<close>

text \<open>Two buffers differ, and only inside the aligned group of \<open>n\<close> bytes that holds position \<open>i\<close>.\<close>

definition chunk_at :: "nat \<Rightarrow> nat \<Rightarrow> 'a list \<Rightarrow> 'a list" where
  "chunk_at n k bs = take n (drop (n * k) bs)"

definition differ_in :: "nat \<Rightarrow> nat \<Rightarrow> 8 word list \<Rightarrow> 8 word list \<Rightarrow> bool" where
  "differ_in n i xs ys \<longleftrightarrow> length xs = length ys \<and> i < length xs \<and> xs ! i \<noteq> ys ! i \<and>
     (\<forall>j < length xs. xs ! j \<noteq> ys ! j \<longrightarrow> j div n = i div n)"

lemma differ_inD:
  assumes "differ_in n i xs ys"
  shows "length xs = length ys" "i < length xs" "xs ! i \<noteq> ys ! i" "m < length xs \<Longrightarrow> xs ! m \<noteq> ys ! m \<Longrightarrow> m div n = i div n"
  using assms unfolding differ_in_def by blast+

lemma group_same:
  assumes "differ_in n i xs ys" "k \<noteq> i div n" "0 < n"
  shows "chunk_at n k xs = chunk_at n k ys"
proof (rule nth_equalityI)
  show "length (chunk_at n k xs) = length (chunk_at n k ys)" using differ_inD(1) [OF assms(1)] by (simp add: chunk_at_def)
  fix j assume "j < length (chunk_at n k xs)"
  then have j: "j < n" "n * k + j < length xs" by (auto simp: chunk_at_def)
  then have "(n * k + j) div n = k" by simp
  then have "xs ! (n * k + j) = ys ! (n * k + j)" using assms(2) differ_inD(4) [OF assms(1) j(2)] by metis
  then show "chunk_at n k xs ! j = chunk_at n k ys ! j" using j differ_inD(1) [OF assms(1)] by (simp add: chunk_at_def)
qed

lemma group_differ:
  assumes "differ_in n i xs ys" "0 < n"
  shows "chunk_at n (i div n) xs \<noteq> chunk_at n (i div n) ys" "length (chunk_at n k xs) = length (chunk_at n k ys)"
proof -
  have i: "i mod n < n" "n * (i div n) + i mod n = i" "i < length xs" "i < length ys"
    using assms(2) differ_inD(1,2) [OF assms(1)] by simp_all
  have "chunk_at n (i div n) zs ! (i mod n) = zs ! i" if "i < length zs" for zs :: "8 word list"
  proof -
    have "n * (i div n) \<le> length zs" using i(2) that by linarith
    then show ?thesis using i(1) by (simp add: chunk_at_def)
  qed
  then show "chunk_at n (i div n) xs \<noteq> chunk_at n (i div n) ys" using i differ_inD(3) [OF assms(1)] by metis
  show "length (chunk_at n k xs) = length (chunk_at n k ys)" using differ_inD(1) [OF assms(1)] by (simp add: chunk_at_def)
qed

lemma le_word_inj: "le_word xs = (le_word ys :: 'w :: len word) \<Longrightarrow> length xs = length ys \<Longrightarrow> 8 * length xs \<le> LENGTH('w) \<Longrightarrow> xs = ys"
  by (metis le_bytes_word)

subsection \<open>FNV folds words\<close>

definition fnv_unit :: "8 word list \<Rightarrow> 64 word" where
  "fnv_unit g = (if length g = 8 then le_word g else fnv_tail g)"

lemma fnv_tail_word: "fnv_tail bs = le_word (rev bs)"
  by (induction bs rule: rev_induct) (simp_all add: fnv_tail_def or.commute)

lemma fnv_unit_inj: "fnv_unit g = fnv_unit g' \<Longrightarrow> length g = length g' \<Longrightarrow> length g \<le> 8 \<Longrightarrow> g = g'"
  using le_word_inj [of g g', where 'w = 64] le_word_inj [of "rev g" "rev g'", where 'w = 64]
  by (auto simp: fnv_unit_def fnv_tail_word split: if_splits)

definition fnv_step :: "64 word \<Rightarrow> 64 word \<Rightarrow> 64 word" where
  "fnv_step h u = h * FNV_PRIME XOR u"

interpretation fnvc: byte_check fnv_step
proof
  show "c = d" if "fnv_step c b = fnv_step d b" for b c d
  proof -
    have "c * FNV_PRIME = d * FNV_PRIME" using that xor_cancel by (metis fnv_step_def xor.commute)
    then show ?thesis by (rule mult_inj [where v = "0xce965057aff6957b"]) (simp add: FNV_PRIME_def)
  qed
  show "a = b" if "fnv_step c a = fnv_step c b" for c a b
    using that xor_cancel by (auto simp: fnv_step_def)
qed

definition fnv_units :: "8 word list \<Rightarrow> 64 word list" where
  "fnv_units buf = map (\<lambda>k. fnv_unit (chunk_at 8 k buf)) [0..<(length buf + 7) div 8]"

lemma fnv_units_Nil: "fnv_units [] = []"
  by (simp add: fnv_units_def)

lemma fnv_units_short: "buf \<noteq> [] \<Longrightarrow> length buf < 8 \<Longrightarrow> fnv_units buf = [fnv_tail buf]"
proof -
  assume "buf \<noteq> []" "length buf < 8"
  then have "(length buf + 7) div 8 = 1" by (cases buf) auto
  then show ?thesis using \<open>length buf < 8\<close> by (simp add: fnv_units_def fnv_unit_def chunk_at_def)
qed

lemma fnv_units_long: "8 \<le> length buf \<Longrightarrow> fnv_units buf = le_word (take 8 buf) # fnv_units (drop 8 buf)"
proof -
  assume l: "8 \<le> length buf"
  then have n: "(length buf + 7) div 8 = Suc ((length (drop 8 buf) + 7) div 8)" by (simp add: le_div_geq)
  have "map f [0..<Suc m] = f 0 # map (\<lambda>k. f (Suc k)) [0..<m]" for f :: "nat \<Rightarrow> 64 word" and m
    by (simp only: upt_conv_Cons zero_less_Suc list.map map_Suc_upt [symmetric] map_map comp_def)
  moreover have "chunk_at 8 (Suc k) buf = chunk_at 8 k (drop 8 buf)" for k by (simp add: chunk_at_def add.commute)
  moreover have "fnv_unit (chunk_at 8 0 buf) = le_word (take 8 buf)" using l by (simp add: chunk_at_def fnv_unit_def)
  ultimately show ?thesis unfolding fnv_units_def n by (simp only:)
qed

lemma fnv_fold: "fnv buf h = foldl fnv_step h (fnv_units buf)"
proof (induction buf h rule: fnv.induct)
  case (1 buf h)
  consider "buf = []" | "buf \<noteq> []" "length buf < 8" | "8 \<le> length buf" by fastforce
  then show ?case
  proof cases
    case 3
    then have "buf \<noteq> []" by auto
    then show ?thesis using 1 [OF _ refl 3] 3 by (simp add: fnv.simps [of buf] fnv_units_long fnv_step_def Let_def)
  qed (simp_all add: fnv.simps [of buf] fnv.simps [of "[]"] fnv_units_Nil fnv_units_short fnv_step_def)
qed

text \<open>
  C31. Corruption that stays inside one aligned group of eight bytes never goes unnoticed by \<open>fnv\<close>, also
  in a last group that is not full.
\<close>
theorem fnv_detects:
  assumes "differ_in 8 i xs ys"
  shows "fnv xs h \<noteq> fnv ys h"
proof -
  let ?g = "i div 8"
  have l: "length xs = length ys" "i < length xs" using differ_inD [OF assms] by blast+
  have n: "?g < (length xs + 7) div 8" using l(2) by simp
  have u: "fnv_units zs ! k = fnv_unit (chunk_at 8 k zs)" if "k < (length zs + 7) div 8" for k zs
    using that by (simp add: fnv_units_def)
  have "length (chunk_at 8 ?g xs) \<le> 8" by (simp add: chunk_at_def)
  then have "fnv_units xs ! ?g \<noteq> fnv_units ys ! ?g"
    using group_differ(1) [OF assms] group_differ(2) [OF assms, of ?g] fnv_unit_inj n l(1) u by auto
  moreover have "fnv_units xs ! k = fnv_units ys ! k" if "k < length (fnv_units xs)" "k \<noteq> ?g" for k
    using group_same [OF assms that(2)] that(1) u l(1) by (simp add: fnv_units_def)
  ultimately show ?thesis unfolding fnv_fold
    using n l(1) by (intro fnvc.one_difference [of _ _ ?g]) (auto simp: fnv_units_def)
qed

theorem fnv_detects_witness: "fnv [1, 2, 3] 0 \<noteq> fnv [1, 0, 5] 0"
proof -
  have "differ_in 8 1 [1, 2, 3] [1, 0, 5]" by (simp add: differ_in_def)
  then show ?thesis by (rule fnv_detects)
qed

subsection \<open>MurmurHash3 folds words\<close>

definition murmur3_mix :: "32 word \<Rightarrow> 32 word" where
  "murmur3_mix k = rotl32 (k * 0xcc9e2d51) 15 * 0x1b873593"

lemma murmur3_mix_inj: "murmur3_mix a = murmur3_mix b \<Longrightarrow> a = b"
proof -
  assume "murmur3_mix a = murmur3_mix b"
  then have "rotl32 (a * 0xcc9e2d51) 15 = rotl32 (b * 0xcc9e2d51) 15"
    unfolding murmur3_mix_def by (rule mult_inj [where v = "0x56ed309b"]) simp
  then have "a * 0xcc9e2d51 = b * 0xcc9e2d51" by (rule rotl32_inj) simp
  then show "a = b" by (rule mult_inj [where v = "0xdee13bb1"]) simp
qed

lemma murmur3_block_mix: "murmur3_block 0xcc9e2d51 0x1b873593 h k = rotl32 (h XOR murmur3_mix k) 13 * 5 + 0xe6546b64"
  by (simp add: murmur3_block_def murmur3_mix_def Let_def)

interpretation mmc: byte_check "murmur3_block 0xcc9e2d51 0x1b873593"
proof
  have inj: "x = y" if "rotl32 x 13 * 5 + 0xe6546b64 = rotl32 y 13 * 5 + 0xe6546b64" for x y
  proof -
    have "rotl32 x 13 * 5 = rotl32 y 13 * 5" using that by simp
    then have "rotl32 x 13 = rotl32 y 13" by (rule mult_inj [where v = "0xcccccccd"]) simp
    then show ?thesis by (rule rotl32_inj) simp
  qed
  show "c = d" if "murmur3_block 0xcc9e2d51 0x1b873593 c b = murmur3_block 0xcc9e2d51 0x1b873593 d b" for b c d
    using inj [OF that [unfolded murmur3_block_mix]] xor_cancel [of "murmur3_mix b" c d] by (simp add: xor.commute)
  show "a = b" if "murmur3_block 0xcc9e2d51 0x1b873593 c a = murmur3_block 0xcc9e2d51 0x1b873593 c b" for c a b
    using inj [OF that [unfolded murmur3_block_mix]] by (auto simp: xor_cancel dest: murmur3_mix_inj)
qed

lemma xor_or: "a XOR b = a OR b" if "a AND b = 0" for a b :: "'w :: len word"
proof (rule bit_word_eqI)
  fix n
  have "\<not> (bit a n \<and> bit b n)" using that bit_and_iff [of a b n] by simp
  then show "bit (a XOR b) n = bit (a OR b) n" by (auto simp: bit_xor_word bit_or_iff)
qed

lemma byte_and: "(ucast a :: 32 word) AND push_bit 8 x = 0" "(push_bit 8 (ucast a :: 32 word)) AND push_bit 16 x = 0" for a :: "8 word"
  by (rule bit_word_eqI; auto simp: bit_simps dest: bit_imp_le_length)+

lemma tail_word:
  assumes "length t = n" "n < 4"
  shows "(let k1 = 0; k1 = (if 3 \<le> n then k1 XOR push_bit 16 (ucast (t ! 2)) else k1);
         k1 = (if 2 \<le> n then k1 XOR push_bit 8 (ucast (t ! 1)) else k1)
       in if 1 \<le> n then k1 XOR ucast (t ! 0) else (0 :: 32 word)) = le_word t"
proof -
  consider "t = []" | a where "t = [a]" | a b where "t = [a, b]" | a b c where "t = [a, b, c]"
    using assms by (auto simp: numeral_eq_Suc less_Suc_eq length_Suc_conv)
  then show ?thesis
  proof cases
    case (3 a b)
    have "(push_bit 8 (ucast b) XOR ucast a :: 32 word) = ucast a OR push_bit 8 (ucast b)"
      by (subst xor.commute, rule xor_or) (rule byte_and)
    then show ?thesis using 3 assms by (simp add: Let_def)
  next
    case (4 a b c)
    have e: "push_bit 8 (ucast b OR push_bit 8 (ucast c) :: 32 word) = push_bit 8 (ucast b) XOR push_bit 16 (ucast c)"
      using xor_or [OF byte_and(2) [of b "ucast c"]] by simp
    have "push_bit 16 (ucast c) XOR push_bit 8 (ucast b) XOR ucast a = ucast a XOR push_bit 8 (ucast b OR push_bit 8 (ucast c) :: 32 word)"
      by (simp only: e xor.assoc xor.commute xor.left_commute)
    also have "\<dots> = ucast a OR push_bit 8 (ucast b OR push_bit 8 (ucast c))" by (rule xor_or) (rule byte_and)
    finally show ?thesis using 4 assms by (simp add: Let_def xor.assoc)
  qed (use assms in \<open>simp_all add: Let_def\<close>)
qed

lemma murmur3_tail_word:
  assumes "nb = length key div 4"
  shows "murmur3_tail key nb (length key) 0xcc9e2d51 0x1b873593 h =
    fmix32 ((h XOR murmur3_mix (le_word (chunk_at 4 nb key))) XOR of_nat (length key))"
proof -
  let ?t = "drop (nb * 4) key" and ?n = "length key mod 4"
  have l: "length ?t = ?n" using assms by (simp add: minus_mult_div_eq_mod [symmetric] mult.commute)
  have n: "?n < 4" by simp
  have t: "chunk_at 4 nb key = ?t" using l n by (simp add: chunk_at_def mult.commute)
  have z: "murmur3_mix 0 = 0" by (simp add: murmur3_mix_def rotl32_def)
  show ?thesis
  proof (cases "1 \<le> ?n")
    case True
    then show ?thesis unfolding t tail_word [OF l n, symmetric]
      by (simp add: murmur3_tail_def Let_def murmur3_mix_def)
  next
    case False
    then have "?t = []" using l by simp
    then show ?thesis unfolding t using False z by (simp add: murmur3_tail_def Let_def)
  qed
qed

definition murmur3_words :: "8 word list \<Rightarrow> 32 word list" where
  "murmur3_words key = map (\<lambda>i. le_word (chunk_at 4 i key)) [0..<length key div 4]"

lemma murmurhash3_fold: "murmurhash3 key seed =
    fmix32 ((foldl (murmur3_block 0xcc9e2d51 0x1b873593) seed (murmur3_words key) XOR
      murmur3_mix (le_word (chunk_at 4 (length key div 4) key))) XOR of_nat (length key))"
  by (simp add: murmurhash3_def Let_def murmur3_tail_word [OF refl] murmur3_words_def foldl_map chunk_at_def)

text \<open>
  Corruption that stays inside one aligned group of four bytes never goes unnoticed by
  \<open>murmurhash3\<close>, whether the group is a block of the body or the tail.
\<close>
theorem murmurhash3_detects:
  assumes "differ_in 4 i xs ys"
  shows "murmurhash3 xs seed \<noteq> murmurhash3 ys seed"
proof -
  let ?g = "i div 4" and ?n = "length xs div 4"
  have l: "length ys = length xs" "i < length xs" using differ_inD [OF assms] by simp_all
  have "length (chunk_at 4 ?g xs) \<le> 4" by (simp add: chunk_at_def)
  then have d: "(le_word (chunk_at 4 ?g xs) :: 32 word) \<noteq> le_word (chunk_at 4 ?g ys)"
    using group_differ(1) [OF assms] group_differ(2) [OF assms, of ?g] le_word_inj [of "chunk_at 4 ?g xs" "chunk_at 4 ?g ys", where 'w = 32] by auto
  have s: "chunk_at 4 k xs = chunk_at 4 k ys" if "k \<noteq> ?g" for k using group_same [OF assms that] by simp
  let ?f = "foldl (murmur3_block 0xcc9e2d51 0x1b873593) seed"
  have "?f (murmur3_words xs) XOR murmur3_mix (le_word (chunk_at 4 ?n xs)) \<noteq>
      ?f (murmur3_words ys) XOR murmur3_mix (le_word (chunk_at 4 ?n ys))"
  proof (cases "?g < ?n")
    case True
    then have "?f (murmur3_words xs) \<noteq> ?f (murmur3_words ys)"
      using d s l by (intro mmc.one_difference [of _ _ ?g]) (auto simp: murmur3_words_def)
    then show ?thesis using s [of ?n] True xor_cancel by (metis less_irrefl xor.commute)
  next
    case False
    then have g: "?g = ?n" using l div_le_mono [of i "length xs" 4] by simp
    then have "murmur3_words xs = murmur3_words ys" using s l by (simp add: murmur3_words_def)
    then show ?thesis using d g xor_cancel murmur3_mix_inj by metis
  qed
  then show ?thesis unfolding murmurhash3_fold l(1) using fmix32_inj xor_cancel by (metis xor.commute)
qed

theorem murmurhash3_detects_witness: "murmurhash3 [1, 2, 3] 9 \<noteq> murmurhash3 [1, 0, 5] 9"
proof -
  have "differ_in 4 1 [1, 2, 3] [1, 0, 5]" by (simp add: differ_in_def)
  then show ?thesis by (rule murmurhash3_detects)
qed

end
