(* ===== verification/Fio_Rand.thy ===== *)
theory Fio_Rand
  imports NVS_Prelude "HOL-Library.Log_Nat"
begin

text \<open>
  The random numbers of fio, \<open>fio/lib/rand.h\<close> and \<open>fio/lib/rand.c\<close>: the two Tausworthe generators, their seeding, and the
  scaling of their numbers with doubles. A locale holds what one component of a generator does on its high bits; the
  eight components interpret it, and the sequence of every state is shown to be periodic from its first number.
\<close>

unbundle bit_operations_syntax

subsection \<open>The Tausworthe generators\<close>

record taus88_state =
  t32_s1 :: "32 word"
  t32_s2 :: "32 word"
  t32_s3 :: "32 word"

record taus258_state =
  t64_s1 :: "64 word"
  t64_s2 :: "64 word"
  t64_s3 :: "64 word"
  t64_s4 :: "64 word"
  t64_s5 :: "64 word"

text \<open>The union of \<open>struct frand_state\<close> is read and written by the member that \<open>use64\<close> says.\<close>

datatype frand_state = State32 taus88_state | State64 taus258_state

fun use64 :: "frand_state \<Rightarrow> bool" where
  "use64 (State32 _) = False"
| "use64 (State64 _) = True"

definition FRAND32_MAX :: nat where "FRAND32_MAX = 2 ^ 32 - 1"
definition FRAND64_MAX :: nat where "FRAND64_MAX = 2 ^ 64 - 1"

definition rand_max :: "frand_state \<Rightarrow> nat" where
  "rand_max state = (if use64 state then FRAND64_MAX else FRAND32_MAX)"

definition frand32_copy :: "taus88_state \<Rightarrow> taus88_state \<Rightarrow> taus88_state" where
  "frand32_copy dst src = dst\<lparr>t32_s1 := t32_s1 src, t32_s2 := t32_s2 src, t32_s3 := t32_s3 src\<rparr>"

definition frand64_copy :: "taus258_state \<Rightarrow> taus258_state \<Rightarrow> taus258_state" where
  "frand64_copy dst src = dst\<lparr>t64_s1 := t64_s1 src, t64_s2 := t64_s2 src, t64_s3 := t64_s3 src, t64_s4 := t64_s4 src, t64_s5 := t64_s5 src\<rparr>"

text \<open>The first two arguments of \<open>frand_copy\<close> are the two members of the union it overwrites.\<close>

definition frand_copy :: "taus88_state \<Rightarrow> taus258_state \<Rightarrow> frand_state \<Rightarrow> frand_state" where
  "frand_copy dst32 dst64 src =
    (case src of State64 s \<Rightarrow> State64 (frand64_copy dst64 s) | State32 s \<Rightarrow> State32 (frand32_copy dst32 s))"

lemma frand_copy_eq: "frand_copy dst32 dst64 src = src"
  by (cases src) (simp_all add: frand_copy_def frand32_copy_def frand64_copy_def)

text \<open>
  The constants of \<open>TAUSWORTHE\<close> are of type \<open>unsigned long\<close>, so that the masked part is shifted with 64 bits
  and the result is cut to 32 bits by the assignment.
\<close>

definition TAUSWORTHE :: "32 word \<Rightarrow> nat \<Rightarrow> nat \<Rightarrow> 64 word \<Rightarrow> nat \<Rightarrow> 32 word" where
  "TAUSWORTHE s a b c d = ucast (push_bit d (ucast s AND c) XOR ucast (drop_bit b (push_bit a s XOR s)) :: 64 word)"

definition rand32 :: "taus88_state \<Rightarrow> taus88_state \<times> 32 word" where
  "rand32 state =
    (let state = state\<lparr>t32_s1 := TAUSWORTHE (t32_s1 state) 13 19 4294967294 12\<rparr>;
         state = state\<lparr>t32_s2 := TAUSWORTHE (t32_s2 state) 2 25 4294967288 4\<rparr>;
         state = state\<lparr>t32_s3 := TAUSWORTHE (t32_s3 state) 3 11 4294967280 17\<rparr>
     in (state, t32_s1 state XOR t32_s2 state XOR t32_s3 state))"

definition rand64 :: "taus258_state \<Rightarrow> taus258_state \<times> 64 word" where
  "rand64 state =
    (let xval = drop_bit 53 (push_bit 1 (t64_s1 state) XOR t64_s1 state);
         state = state\<lparr>t64_s1 := push_bit 10 (t64_s1 state AND 18446744073709551614) XOR xval\<rparr>;
         xval = drop_bit 50 (push_bit 24 (t64_s2 state) XOR t64_s2 state);
         state = state\<lparr>t64_s2 := push_bit 5 (t64_s2 state AND 18446744073709551104) XOR xval\<rparr>;
         xval = drop_bit 23 (push_bit 3 (t64_s3 state) XOR t64_s3 state);
         state = state\<lparr>t64_s3 := push_bit 29 (t64_s3 state AND 18446744073709547520) XOR xval\<rparr>;
         xval = drop_bit 24 (push_bit 5 (t64_s4 state) XOR t64_s4 state);
         state = state\<lparr>t64_s4 := push_bit 23 (t64_s4 state AND 18446744073709420544) XOR xval\<rparr>;
         xval = drop_bit 33 (push_bit 3 (t64_s5 state) XOR t64_s5 state);
         state = state\<lparr>t64_s5 := push_bit 8 (t64_s5 state AND 18446744073701163008) XOR xval\<rparr>
     in (state, t64_s1 state XOR t64_s2 state XOR t64_s3 state XOR t64_s4 state XOR t64_s5 state))"

fun rand :: "frand_state \<Rightarrow> frand_state \<times> 64 word" where
  "rand (State64 s) = (let (s, v) = rand64 s in (State64 s, v))"
| "rand (State32 s) = (let (s, v) = rand32 s in (State32 s, ucast v))"

subsection \<open>Seeding\<close>

definition seed_min :: "64 word \<Rightarrow> 64 word \<Rightarrow> 64 word" where
  "seed_min x m = (if x < m then x + m else x)"

definition LCG :: "32 word \<Rightarrow> 32 word \<Rightarrow> 32 word" where
  "LCG x seed = (x * 69069) XOR seed"

definition LCG64 :: "64 word \<Rightarrow> 64 word \<Rightarrow> 64 word" where
  "LCG64 x seed = (x * 6906969069) XOR seed"

text \<open>In C the operator in \<open>(2^31) + (2^17) + (2^7)\<close> is the exclusive or.\<close>

definition seed_start :: nat where
  "seed_start = (2 XOR 31) + (2 XOR 17) + (2 XOR 7)"

definition seed32 :: "32 word \<Rightarrow> taus88_state" where
  "seed32 seed =
    (let s1 = ucast (seed_min (ucast (LCG (of_nat seed_start) seed)) 1);
         s2 = ucast (seed_min (ucast (LCG s1 seed)) 7);
         s3 = ucast (seed_min (ucast (LCG s2 seed)) 15)
     in \<lparr>t32_s1 = s1, t32_s2 = s2, t32_s3 = s3\<rparr>)"

definition init_rand32 :: "32 word \<Rightarrow> taus88_state" where
  "init_rand32 seed = ((fst \<circ> rand32) ^^ 6) (seed32 seed)"

definition seed64 :: "64 word \<Rightarrow> taus258_state" where
  "seed64 seed =
    (let s1 = seed_min (LCG64 (of_nat seed_start) seed) 1;
         s2 = seed_min (LCG64 s1 seed) 7;
         s3 = seed_min (LCG64 s2 seed) 15;
         s4 = seed_min (LCG64 s3 seed) 33;
         s5 = seed_min (LCG64 s4 seed) 49
     in \<lparr>t64_s1 = s1, t64_s2 = s2, t64_s3 = s3, t64_s4 = s4, t64_s5 = s5\<rparr>)"

definition init_rand64 :: "64 word \<Rightarrow> taus258_state" where
  "init_rand64 seed = ((fst \<circ> rand64) ^^ 6) (seed64 seed)"

definition init_rand_seed :: "32 word \<Rightarrow> bool \<Rightarrow> frand_state" where
  "init_rand_seed seed wide = (if \<not> wide then State32 (init_rand32 seed) else State64 (init_rand64 (ucast seed)))"

definition init_rand :: "bool \<Rightarrow> frand_state" where
  "init_rand wide = (if \<not> wide then State32 (init_rand32 1) else State64 (init_rand64 1))"

subsection \<open>The components stay alive\<close>

text \<open>One component of either generator, \<open>m\<close> low bits of which are masked out.\<close>

definition taus_step :: "nat \<Rightarrow> nat \<Rightarrow> nat \<Rightarrow> nat \<Rightarrow> 'a :: len word \<Rightarrow> 'a word" where
  "taus_step m a b d s = push_bit d (s AND NOT (mask m)) XOR drop_bit b (push_bit a s XOR s)"

definition alive :: "nat \<Rightarrow> 'a :: len word \<Rightarrow> bool" where
  "alive m s \<longleftrightarrow> drop_bit m s \<noteq> 0"

lemma alive_bit: "alive m s \<longleftrightarrow> (\<exists>j \<ge> m. bit s j)" for s :: "'a :: len word"
proof -
  have "drop_bit m s = 0 \<longleftrightarrow> (\<forall>i. \<not> bit s (m + i))"
    by (auto simp: bit_eq_iff bit_drop_bit_eq) (meson bit_imp_le_length le_add2 order.strict_trans1)
  then show ?thesis unfolding alive_def by (metis le_iff_add)
qed

lemma taus_bit:
  "bit (taus_step m a b d s) i \<longleftrightarrow> i < LENGTH('a) \<and>
    ((d + m \<le> i \<and> bit s (i - d)) \<noteq> (bit s (b + i) \<noteq> (a \<le> b + i \<and> b + i < LENGTH('a) \<and> bit s (b + i - a))))" for s :: "'a :: len word"
  by (auto simp: taus_step_def bit_simps dest: bit_imp_le_length)

locale taus_params =
  fixes m a b d w :: nat
  assumes shift: "0 < a" and width: "d + m + b = w" and room: "m + a + d \<le> w" and low: "m + a \<le> b"

context taus_params
begin

lemma taus_alive:
  fixes s :: "'a :: len word"
  assumes w: "LENGTH('a) = w" and s: "alive m s"
  shows "alive m (taus_step m a b d s)"
proof -
  define j where "j = (LEAST j. m \<le> j \<and> bit s j)"
  have j: "m \<le> j" "bit s j" using s LeastI_ex [of "\<lambda>j. m \<le> j \<and> bit s j"] by (auto simp: alive_bit j_def)
  have least: "\<not> bit s i" if "m \<le> i" "i < j" for i using that not_less_Least [of i "\<lambda>j. m \<le> j \<and> bit s j"] by (auto simp: j_def)
  have jw: "j < w" using j(2) w bit_imp_le_length by metis
  show ?thesis
  proof (cases "j + d < w")
    case True
    have "\<not> bit s (b + (j + d))" using width j(1) w bit_imp_le_length [of s "b + (j + d)"] by auto
    then have "bit (taus_step m a b d s) (j + d)" using True j width w by (auto simp: taus_bit)
    then show ?thesis using j(1) unfolding alive_bit by (metis le_add1 order_trans)
  next
    case False
    define i where "i = j - b"
    have i: "b + i = j" "m \<le> i" "i < d + m" using False width jw by (auto simp: i_def)
    have "\<not> (a \<le> j \<and> bit s (j - a))"
      using least [of "j - a"] False room shift j(1) by auto
    then have "bit (taus_step m a b d s) i" using i j(2) jw w by (auto simp: taus_bit)
    then show ?thesis using i(2) unfolding alive_bit by blast
  qed
qed

lemma taus_linear: "taus_step m a b d (s XOR t) = taus_step m a b d s XOR taus_step m a b d t" for s t :: "'a :: len word"
  by (rule bit_eqI) (auto simp: taus_bit bit_xor_iff dest: bit_imp_le_length)

lemma taus_zero: "alive m s \<longleftrightarrow> taus_step m a b d s \<noteq> 0" if "LENGTH('a) = w" for s :: "'a :: len word"
proof
  show "taus_step m a b d s \<noteq> 0" if "alive m s" using taus_alive [OF \<open>LENGTH('a) = w\<close> that] by (auto simp: alive_bit)
  show "alive m s" if n: "taus_step m a b d s \<noteq> 0"
  proof (rule ccontr)
    assume "\<not> alive m s"
    then have z: "\<not> bit s j" if "m \<le> j" for j using that by (auto simp: alive_bit)
    have "\<not> bit (taus_step m a b d s) i" for i
      using z [of "i - d"] z [of "b + i"] z [of "b + i - a"] low by (auto simp: taus_bit)
    then show False using n by (auto simp: bit_eq_iff)
  qed
qed

text \<open>On the bits that count the step is injective.\<close>

lemma taus_inj: "taus_step m a b d s = taus_step m a b d t \<Longrightarrow> drop_bit m s = drop_bit m t" if "LENGTH('a) = w" for s t :: "'a :: len word"
proof -
  assume "taus_step m a b d s = taus_step m a b d t"
  then have "\<not> alive m (s XOR t)" using taus_zero [OF that, of "s XOR t"] by (simp add: taus_linear)
  then show ?thesis by (auto simp: alive_bit bit_eq_iff bit_drop_bit_eq bit_xor_iff)
qed

end

interpretation tw1: taus_params 1 13 19 12 32 by unfold_locales simp_all
interpretation tw2: taus_params 3 2 25 4 32 by unfold_locales simp_all
interpretation tw3: taus_params 4 3 11 17 32 by unfold_locales simp_all
interpretation tx1: taus_params 1 1 53 10 64 by unfold_locales simp_all
interpretation tx2: taus_params 9 24 50 5 64 by unfold_locales simp_all
interpretation tx3: taus_params 12 3 23 29 64 by unfold_locales simp_all
interpretation tx4: taus_params 17 5 24 23 64 by unfold_locales simp_all
interpretation tx5: taus_params 23 3 33 8 64 by unfold_locales simp_all

lemma mask32: "(4294967294 :: 64 word) = NOT (mask 1) AND mask 32" "(4294967288 :: 64 word) = NOT (mask 3) AND mask 32"
    "(4294967280 :: 64 word) = NOT (mask 4) AND mask 32"
  by (simp_all add: mask_eq_exp_minus_1)

lemma mask64: "(18446744073709551614 :: 64 word) = NOT (mask 1)" "(18446744073709551104 :: 64 word) = NOT (mask 9)"
    "(18446744073709547520 :: 64 word) = NOT (mask 12)" "(18446744073709420544 :: 64 word) = NOT (mask 17)"
    "(18446744073701163008 :: 64 word) = NOT (mask 23)"
  by (simp_all add: mask_eq_exp_minus_1)

lemma TAUSWORTHE_step: "TAUSWORTHE s a b (NOT (mask m) AND mask 32) d = taus_step m a b d s"
  by (rule bit_eqI) (auto simp: TAUSWORTHE_def taus_step_def bit_simps dest: bit_imp_le_length)

lemma rand32_steps: "rand32 s =
    (let s' = \<lparr>t32_s1 = taus_step 1 13 19 12 (t32_s1 s), t32_s2 = taus_step 3 2 25 4 (t32_s2 s), t32_s3 = taus_step 4 3 11 17 (t32_s3 s)\<rparr>
     in (s', t32_s1 s' XOR t32_s2 s' XOR t32_s3 s'))"
  unfolding rand32_def mask32 TAUSWORTHE_step Let_def by (cases s) simp

lemma rand64_steps: "rand64 s =
    (let s' = \<lparr>t64_s1 = taus_step 1 1 53 10 (t64_s1 s), t64_s2 = taus_step 9 24 50 5 (t64_s2 s), t64_s3 = taus_step 12 3 23 29 (t64_s3 s),
          t64_s4 = taus_step 17 5 24 23 (t64_s4 s), t64_s5 = taus_step 23 3 33 8 (t64_s5 s)\<rparr>
     in (s', t64_s1 s' XOR t64_s2 s' XOR t64_s3 s' XOR t64_s4 s' XOR t64_s5 s'))"
  unfolding rand64_def mask64 Let_def by (cases s) (simp add: taus_step_def)

fun frand_alive :: "frand_state \<Rightarrow> bool" where
  "frand_alive (State32 s) \<longleftrightarrow> alive 1 (t32_s1 s) \<and> alive 3 (t32_s2 s) \<and> alive 4 (t32_s3 s)"
| "frand_alive (State64 s) \<longleftrightarrow> alive 1 (t64_s1 s) \<and> alive 9 (t64_s2 s) \<and> alive 12 (t64_s3 s) \<and> alive 17 (t64_s4 s) \<and> alive 23 (t64_s5 s)"

lemma rand_alive: "frand_alive s \<Longrightarrow> frand_alive (fst (rand s))"
  by (cases s) (simp_all del: One_nat_def add: rand32_steps rand64_steps Let_def tw1.taus_alive tw2.taus_alive tw3.taus_alive tx1.taus_alive tx2.taus_alive
    tx3.taus_alive tx4.taus_alive tx5.taus_alive)

subsection \<open>The sequence is periodic from its start\<close>

lemma orbit_returns:
  fixes g :: "'s \<Rightarrow> 's"
  assumes fin: "finite (range g)" and inj: "inj_on g (range g)" and x: "x \<in> range g"
  shows "\<exists>p > 0. \<forall>n. (g ^^ (n + p)) x = (g ^^ n) x"
proof -
  have in_r: "(g ^^ n) x \<in> range g" for n using x by (cases n) auto
  have "range (\<lambda>n. (g ^^ n) x) \<subseteq> range g" using in_r by auto
  then have "finite (range (\<lambda>n. (g ^^ n) x))" using fin by (rule finite_subset)
  then have "\<not> inj (\<lambda>n. (g ^^ n) x)" using finite_imageD infinite_UNIV_nat by blast
  then obtain i0 k0 where "i0 \<noteq> k0" "(g ^^ i0) x = (g ^^ k0) x" by (auto simp: inj_def)
  then obtain i k where ik: "i < k" "(g ^^ i) x = (g ^^ k) x" by (cases "i0 < k0") (auto simp: not_less_iff_gr_or_eq)
  have "(g ^^ (k - i + j)) x = (g ^^ j) x" if "j \<le> i" for j
    using that
  proof (induction rule: inc_induct)
    case base
    then show ?case using ik by simp
  next
    case (step j)
    then have "g ((g ^^ (k - i + j)) x) = g ((g ^^ j) x)" by simp
    then show ?case using inj in_r by (metis inj_onD)
  qed
  from this [of 0] have "(g ^^ (k - i)) x = x" by simp
  then have "(g ^^ (n + (k - i))) x = (g ^^ n) x" for n by (simp add: funpow_add)
  then show ?thesis using ik(1) by (intro exI [of _ "k - i"]) simp
qed

lemma xor_zero: "u XOR v = 0 \<Longrightarrow> u = v" for u v :: "'a :: len word"
  by (auto simp: bit_eq_iff bit_xor_iff)

context taus_params
begin

lemma taus_top: "drop_bit m (taus_step m a b d s) = drop_bit m (taus_step m a b d t) \<Longrightarrow> taus_step m a b d s = taus_step m a b d t"
  if "LENGTH('a) = w" for s t :: "'a :: len word"
proof -
  assume e: "drop_bit m (taus_step m a b d s) = drop_bit m (taus_step m a b d t)"
  have "\<not> alive m (taus_step m a b d (s XOR t))" using e by (auto simp: alive_def taus_linear)
  then have "taus_step m a b d (s XOR t) = 0" using taus_alive [OF that, of "s XOR t"] taus_zero [OF that, of "s XOR t"] by blast
  then show ?thesis unfolding taus_linear by (rule xor_zero)
qed

lemma taus_inj_range: "inj_on (taus_step m a b d) (range (taus_step m a b d :: 'a :: len word \<Rightarrow> _))" if "LENGTH('a) = w"
proof (rule inj_onI)
  fix x y :: "'a word"
  assume x: "x \<in> range (taus_step m a b d)" and y: "y \<in> range (taus_step m a b d)" and e: "taus_step m a b d x = taus_step m a b d y"
  obtain u v where uv: "x = taus_step m a b d u" "y = taus_step m a b d v" using x y by blast
  have "drop_bit m x = drop_bit m y" by (rule taus_inj [OF that e])
  then show "x = y" unfolding uv by (rule taus_top [OF that])
qed

end

lemma len32: "LENGTH(32) = 32"
  by simp

lemma len64: "LENGTH(64) = 64"
  by simp

lemma rand32_sel: "t32_s1 (fst (rand32 s)) = taus_step 1 13 19 12 (t32_s1 s)" "t32_s2 (fst (rand32 s)) = taus_step 3 2 25 4 (t32_s2 s)"
    "t32_s3 (fst (rand32 s)) = taus_step 4 3 11 17 (t32_s3 s)"
  by (simp_all only: rand32_steps Let_def fst_conv taus88_state.simps)

lemma rand64_sel: "t64_s1 (fst (rand64 s)) = taus_step 1 1 53 10 (t64_s1 s)" "t64_s2 (fst (rand64 s)) = taus_step 9 24 50 5 (t64_s2 s)"
    "t64_s3 (fst (rand64 s)) = taus_step 12 3 23 29 (t64_s3 s)" "t64_s4 (fst (rand64 s)) = taus_step 17 5 24 23 (t64_s4 s)"
    "t64_s5 (fst (rand64 s)) = taus_step 23 3 33 8 (t64_s5 s)"
  by (simp_all only: rand64_steps Let_def fst_conv taus258_state.simps)

lemma rand32_inj: "inj_on (fst \<circ> rand32) (range (fst \<circ> rand32))"
proof (rule inj_onI)
  fix x y assume x: "x \<in> range (fst \<circ> rand32)" and y: "y \<in> range (fst \<circ> rand32)" and e: "(fst \<circ> rand32) x = (fst \<circ> rand32) y"
  obtain u v where uv: "x = fst (rand32 u)" "y = fst (rand32 v)" using x y by auto
  have e': "fst (rand32 x) = fst (rand32 y)" using e by simp
  have s: "taus_step 1 13 19 12 (t32_s1 x) = taus_step 1 13 19 12 (t32_s1 y)" "taus_step 3 2 25 4 (t32_s2 x) = taus_step 3 2 25 4 (t32_s2 y)" "taus_step 4 3 11 17 (t32_s3 x) = taus_step 4 3 11 17 (t32_s3 y)"
    by (simp_all only: rand32_sel [symmetric] e')
  note d = inj_onD [OF tw1.taus_inj_range [where 'a = 32, OF len32]] inj_onD [OF tw2.taus_inj_range [where 'a = 32, OF len32]] inj_onD [OF tw3.taus_inj_range [where 'a = 32, OF len32]]
  have "t32_s1 x = t32_s1 y" by (rule d(1) [OF s(1)]) (simp_all only: uv rand32_sel rangeI)
  moreover have "t32_s2 x = t32_s2 y" by (rule d(2) [OF s(2)]) (simp_all only: uv rand32_sel rangeI)
  moreover have "t32_s3 x = t32_s3 y" by (rule d(3) [OF s(3)]) (simp_all only: uv rand32_sel rangeI)
  ultimately show "x = y" by simp
qed

lemma rand64_inj: "inj_on (fst \<circ> rand64) (range (fst \<circ> rand64))"
proof (rule inj_onI)
  fix x y assume x: "x \<in> range (fst \<circ> rand64)" and y: "y \<in> range (fst \<circ> rand64)" and e: "(fst \<circ> rand64) x = (fst \<circ> rand64) y"
  obtain u v where uv: "x = fst (rand64 u)" "y = fst (rand64 v)" using x y by auto
  have e': "fst (rand64 x) = fst (rand64 y)" using e by simp
  have s: "taus_step 1 1 53 10 (t64_s1 x) = taus_step 1 1 53 10 (t64_s1 y)" "taus_step 9 24 50 5 (t64_s2 x) = taus_step 9 24 50 5 (t64_s2 y)" "taus_step 12 3 23 29 (t64_s3 x) = taus_step 12 3 23 29 (t64_s3 y)" "taus_step 17 5 24 23 (t64_s4 x) = taus_step 17 5 24 23 (t64_s4 y)" "taus_step 23 3 33 8 (t64_s5 x) = taus_step 23 3 33 8 (t64_s5 y)"
    by (simp_all only: rand64_sel [symmetric] e')
  note d = inj_onD [OF tx1.taus_inj_range [where 'a = 64, OF len64]] inj_onD [OF tx2.taus_inj_range [where 'a = 64, OF len64]] inj_onD [OF tx3.taus_inj_range [where 'a = 64, OF len64]] inj_onD [OF tx4.taus_inj_range [where 'a = 64, OF len64]] inj_onD [OF tx5.taus_inj_range [where 'a = 64, OF len64]]
  have "t64_s1 x = t64_s1 y" by (rule d(1) [OF s(1)]) (simp_all only: uv rand64_sel rangeI)
  moreover have "t64_s2 x = t64_s2 y" by (rule d(2) [OF s(2)]) (simp_all only: uv rand64_sel rangeI)
  moreover have "t64_s3 x = t64_s3 y" by (rule d(3) [OF s(3)]) (simp_all only: uv rand64_sel rangeI)
  moreover have "t64_s4 x = t64_s4 y" by (rule d(4) [OF s(4)]) (simp_all only: uv rand64_sel rangeI)
  moreover have "t64_s5 x = t64_s5 y" by (rule d(5) [OF s(5)]) (simp_all only: uv rand64_sel rangeI)
  ultimately show "x = y" by simp
qed

lemma finite_states: "finite (UNIV :: taus88_state set)" "finite (UNIV :: taus258_state set)"
proof -
  have "inj (\<lambda>s :: taus88_state. (t32_s1 s, t32_s2 s, t32_s3 s))" by (rule injI) simp
  then show "finite (UNIV :: taus88_state set)" using finite_imageD [of "\<lambda>s :: taus88_state. (t32_s1 s, t32_s2 s, t32_s3 s)" UNIV] by simp
  have "inj (\<lambda>s :: taus258_state. (t64_s1 s, t64_s2 s, t64_s3 s, t64_s4 s, t64_s5 s))" by (rule injI) simp
  then show "finite (UNIV :: taus258_state set)" using finite_imageD [of "\<lambda>s :: taus258_state. (t64_s1 s, t64_s2 s, t64_s3 s, t64_s4 s, t64_s5 s)" UNIV] by simp
qed

text \<open>The state after \<open>n\<close> numbers, and the number that comes next.\<close>

definition rand_state :: "frand_state \<Rightarrow> nat \<Rightarrow> frand_state" where
  "rand_state s n = ((fst \<circ> rand) ^^ n) s"

definition rand_nth :: "frand_state \<Rightarrow> nat \<Rightarrow> 64 word" where
  "rand_nth s n = snd (rand (rand_state s n))"

lemma rand_inj: "inj_on (fst \<circ> rand) (range (fst \<circ> rand))"
proof (rule inj_onI)
  fix x y assume x: "x \<in> range (fst \<circ> rand)" and y: "y \<in> range (fst \<circ> rand)" and e: "(fst \<circ> rand) x = (fst \<circ> rand) y"
  obtain u v where uv: "x = fst (rand u)" "y = fst (rand v)" using x y by auto
  show "x = y" using e uv inj_onD [OF rand32_inj] inj_onD [OF rand64_inj]
    by (cases u; cases v) (auto split: prod.splits, (metis comp_apply fst_conv rangeI)+)
qed

lemma finite_frand: "finite (UNIV :: frand_state set)"
proof -
  have "(UNIV :: frand_state set) = State32 ` UNIV \<union> State64 ` UNIV"
  proof (intro equalityI subsetI)
    fix x :: frand_state show "x \<in> State32 ` UNIV \<union> State64 ` UNIV" by (cases x) auto
  qed simp
  then show ?thesis using finite_states by (metis finite_Un finite_imageI)
qed

lemma rand_out: "snd (rand s) = (case fst (rand s) of State32 t \<Rightarrow> ucast (t32_s1 t XOR t32_s2 t XOR t32_s3 t)
    | State64 t \<Rightarrow> t64_s1 t XOR t64_s2 t XOR t64_s3 t XOR t64_s4 t XOR t64_s5 t)"
  by (cases s) (simp_all add: rand32_steps rand64_steps Let_def)

text \<open>
  The numbers of either generator, from any state, are a purely periodic sequence: the step is injective on the states it
  reaches, so the first number of the sequence comes again.
\<close>

theorem rand_periodic: "\<exists>p > 0. \<forall>n. rand_nth s (n + p) = rand_nth s n"
proof -
  have "fst (rand s) \<in> range (fst \<circ> rand)" by auto
  then obtain p where p: "p > 0" "\<And>n. ((fst \<circ> rand) ^^ (n + p)) (fst (rand s)) = ((fst \<circ> rand) ^^ n) (fst (rand s))"
    using orbit_returns [OF _ rand_inj] finite_subset [OF _ finite_frand] by (metis subset_UNIV)
  have "fst (rand (rand_state s n)) = ((fst \<circ> rand) ^^ n) (fst (rand s))" for n
    unfolding rand_state_def using funpow_swap1 [of "fst \<circ> rand" n s] by simp
  then have "rand_nth s (n + p) = rand_nth s n" for n unfolding rand_nth_def rand_out using p(2) by simp
  then show ?thesis using p(1) by blast
qed

theorem rand_stays_alive: "frand_alive s \<Longrightarrow> frand_alive (rand_state s n)"
  unfolding rand_state_def by (induction n) (simp_all add: rand_alive)

lemma seed32_default: "frand_alive (State32 (seed32 1))"
  by (simp add: seed32_def seed_start_def LCG_def seed_min_def alive_def Let_def)

lemma seed64_default: "frand_alive (State64 (seed64 1))"
  by (simp add: seed64_def seed_start_def LCG64_def seed_min_def alive_def Let_def)

lemma init_state: "rand_state (State32 s) n = State32 (((fst \<circ> rand32) ^^ n) s)" "rand_state (State64 t) n = State64 (((fst \<circ> rand64) ^^ n) t)"
  unfolding rand_state_def by (induction n) (simp_all add: split_beta)

lemma init_rand_alive: "frand_alive (init_rand wide)"
  unfolding init_rand_def init_rand32_def init_rand64_def init_state [symmetric]
  using rand_stays_alive [OF seed32_default] rand_stays_alive [OF seed64_default] by simp

text \<open>
  The seed that the constant of \<open>LCG\<close> cancels, and its neighbour, give a first component of 1, which is not
  above 1 as the generator requires.
\<close>

lemma seed32_bad: "t32_s1 (seed32 3660657) = 1" "t32_s1 (seed32 3660656) = 1"
  by (simp_all add: seed32_def seed_start_def LCG_def seed_min_def Let_def)

lemma taus_dead: "\<not> alive 1 s \<Longrightarrow> taus_step 1 13 19 12 s = 0" for s :: "32 word"
  using tw1.taus_zero [OF len32, of s] by blast

lemma rand_state_dead: "t32_s1 s = 0 \<Longrightarrow> \<exists>t. rand_state (State32 s) n = State32 t \<and> t32_s1 t = 0"
proof (induction n)
  case (Suc n)
  then obtain t where t: "rand_state (State32 s) n = State32 t" "t32_s1 t = 0" by blast
  have "t32_s1 (fst (rand32 t)) = 0" using t(2) by (simp only: rand32_sel) (rule taus_dead, simp add: alive_def)
  then show ?case using t(1) by (auto simp: rand_state_def split_beta)
qed (simp add: rand_state_def)

text \<open>
  \<open>init_rand_seed\<close> with the seed 3660657 gives a 32 bit generator whose first component is 0 for ever, so that its numbers come
  from two of its three components only.
\<close>

theorem rand_seed_degenerate:
  "\<exists>t. rand_state (init_rand_seed 3660657 False) n = State32 t \<and> t32_s1 t = 0"
proof -
  have "t32_s1 (fst (rand32 (seed32 3660657))) = 0" by (simp only: rand32_sel seed32_bad) (rule taus_dead, simp add: alive_def)
  then obtain t where "rand_state (State32 (fst (rand32 (seed32 3660657)))) (5 + n) = State32 t" "t32_s1 t = 0"
    using rand_state_dead by blast
  moreover have "rand_state (State32 (fst (rand32 (seed32 3660657)))) (5 + n) = rand_state (init_rand_seed 3660657 False) n"
    unfolding init_rand_seed_def init_rand32_def
    by (simp add: init_state funpow_add [symmetric, THEN fun_cong, unfolded comp_apply] eval_nat_numeral funpow_swap1)
  ultimately show ?thesis by auto
qed

subsection \<open>Scaling with doubles\<close>

text \<open>
  A natural number as a \<open>double\<close>: 53 significant bits, to nearest, ties to even. The quotient of such a number by a
  power of two is exact, and rounding commutes with it, so that the products below are computed on their numerators.
\<close>

definition round53 :: "nat \<Rightarrow> nat" where
  "round53 n =
    (let e = floorlog 2 n - 53; q = n div 2 ^ e; r = n mod 2 ^ e
     in (if 2 ^ e < 2 * r \<or> 2 ^ e = 2 * r \<and> odd q then q + 1 else q) * 2 ^ e)"

text \<open>\<open>n * (r / 2 ^ k)\<close> in doubles, truncated to an integer.\<close>

definition double_scale :: "nat \<Rightarrow> nat \<Rightarrow> nat \<Rightarrow> nat" where
  "double_scale n r k = round53 (round53 n * round53 r) div 2 ^ k"

lemma floorlog_range: "0 < n \<Longrightarrow> 2 ^ (floorlog 2 n - 1) \<le> n \<and> n < 2 ^ floorlog 2 n"
  using floorlog_bounds [of n 2] by simp

lemma round53_id: "n < 2 ^ 53 \<Longrightarrow> round53 n = n"
proof -
  assume "n < 2 ^ 53"
  then have "floorlog 2 n \<le> 53" by (cases "n = 0") (simp_all add: floorlog_leI)
  then show ?thesis by (simp add: round53_def)
qed

lemma round53_error: "round53 n * 2 ^ 53 \<le> n * (2 ^ 53 + 1)"
proof -
  define e q r where "e = floorlog 2 n - 53" and "q = n div 2 ^ e" and "r = n mod 2 ^ e"
  have n: "n = q * 2 ^ e + r" unfolding q_def r_def by (simp only: div_mult_mod_eq)
  have e: "2 ^ e * 2 ^ 52 \<le> n" if "0 < e"
  proof -
    have "0 < n" using that by (cases "n = 0") (simp_all add: e_def floorlog_def)
    moreover have "floorlog 2 n - 1 = e + 52" using that by (simp add: e_def)
    ultimately show ?thesis using floorlog_range [of n] by (simp add: power_add)
  qed
  show ?thesis
  proof (cases "2 ^ e < 2 * r \<or> 2 ^ e = 2 * r \<and> odd q")
    case True
    then have "round53 n = (q + 1) * 2 ^ e" by (simp add: round53_def e_def q_def r_def Let_def)
    moreover have "2 ^ e \<le> 2 * r" using True by auto
    moreover have "0 < e" using True by (cases e) (auto simp: r_def)
    ultimately show ?thesis using e n by (simp add: algebra_simps)
  next
    case False
    then have "round53 n = q * 2 ^ e" by (simp only: round53_def e_def [symmetric] q_def [symmetric] r_def [symmetric] Let_def if_False)
    then show ?thesis using n by (simp add: algebra_simps)
  qed
qed

lemma double_scale_32:
  assumes "0 < n" "r < 2 ^ 32"
  shows "double_scale n r 32 < n"
proof -
  have "round53 (round53 n * r) * 2 ^ 53 * 2 ^ 53 \<le> round53 n * 2 ^ 53 * (r * (2 ^ 53 + 1))"
    using mult_right_mono [OF round53_error [of "round53 n * r"], of "2 ^ 53"] by (simp add: ac_simps)
  also have "\<dots> \<le> n * (2 ^ 53 + 1) * (r * (2 ^ 53 + 1))" by (rule mult_right_mono [OF round53_error]) simp
  also have "\<dots> \<le> n * (2 ^ 53 + 1) * ((2 ^ 32 - 1) * (2 ^ 53 + 1))" using assms(2) by (intro mult_left_mono mult_right_mono) auto
  also have "\<dots> = n * ((2 ^ 53 + 1) * ((2 ^ 32 - 1) * (2 ^ 53 + 1)))" by (simp only: ac_simps)
  also have "\<dots> < n * (2 ^ 32 * 2 ^ 53 * 2 ^ 53)" using assms(1) by (intro mult_strict_left_mono) auto
  finally have "round53 (round53 n * r) < n * 2 ^ 32" by simp
  moreover have "round53 r = r" using assms(2) by (intro round53_id) simp
  ultimately show ?thesis by (simp add: double_scale_def less_mult_imp_div_less)
qed

definition rand32_between :: "frand_state \<Rightarrow> int \<Rightarrow> int \<Rightarrow> (frand_state \<times> int) outcome" where
  "rand32_between state start end =
    (case state of
       State64 _ \<Rightarrow> Inl Assert_Failed
     | State32 s \<Rightarrow>
        let (s, r) = rand32 s; v = start + sgn end * int (double_scale (nat \<bar>end\<bar>) (unat r) 32)
        in if v \<in> {- (2 ^ 31)..<2 ^ 31} then Inr (State32 s, v) else Inl Undefined)"

text \<open>
  \<open>__rand_0_1\<close>: the quotient of two doubles, as a rational number.
\<close>

definition rand_0_1 :: "frand_state \<Rightarrow> frand_state \<times> rat" where
  "rand_0_1 state = (let (state', val) = rand state; k = (if use64 state then 64 else 32)
     in (state', of_nat (round53 (round53 (unat val) + 1)) / 2 ^ k))"

lemma unat_32: "unat (v :: 32 word) < 2 ^ 32"
  using unsigned_less [of v] by simp

text \<open>
  \<open>rand32_between\<close> from 1 to a positive \<open>end\<close> gives a number between them, both included, whatever the state of the
  generator. All calls of it in fio, those of a test program apart, start at 1.
\<close>

theorem rand32_between_range:
  assumes "0 < end" "end < 2 ^ 31"
  shows "\<exists>s' v. rand32_between (State32 s) 1 end = Inr (State32 s', v) \<and> 1 \<le> v \<and> v \<le> end"
proof -
  obtain s' r where r: "rand32 s = (s', r)" by (cases "rand32 s")
  have "double_scale (nat end) (unat r) 32 < nat end" using assms(1) unat_32 by (intro double_scale_32) simp_all
  then have "int (double_scale (nat end) (unat r) 32) < end" by linarith
  then show ?thesis using assms r by (simp add: rand32_between_def Let_def)
qed

theorem rand32_between_range_witness:
  "\<exists>s' v. rand32_between (init_rand False) 1 100 = Inr (State32 s', v) \<and> 1 \<le> v \<and> v \<le> 100"
  using rand32_between_range [of 100 "init_rand32 1"] by (simp add: init_rand_def)

text \<open>With a first argument above 1 the result exceeds the upper end.\<close>

lemma rand32_top: "rand32 \<lparr>t32_s1 = 0xfffff, t32_s2 = 0, t32_s3 = 0\<rparr> = (\<lparr>t32_s1 = 0xfffffffe, t32_s2 = 0, t32_s3 = 0\<rparr>, 0xfffffffe)"
  by (simp add: rand32_def TAUSWORTHE_def)

lemma rand32_between_exceeds:
  "rand32_between (State32 \<lparr>t32_s1 = 0xfffff, t32_s2 = 0, t32_s3 = 0\<rparr>) 5 10 = Inr (State32 \<lparr>t32_s1 = 0xfffffffe, t32_s2 = 0, t32_s3 = 0\<rparr>, 14)"
  by (simp add: rand32_between_def rand32_top double_scale_def round53_id)

lemma rand64_top: "snd (rand64 \<lparr>t64_s1 = 12303834181974097918, t64_s2 = 67108864, t64_s3 = 0, t64_s4 = 0, t64_s5 = 0\<rparr>) = - 1"
  by (simp add: rand64_def)

lemma round53_top: "round53 (2 ^ 64 - 1) = 2 ^ 64"
proof -
  have "floorlog 2 (2 ^ 64 - 1 :: nat) = 64" by (intro antisym floorlog_leI floorlog_geI) simp_all
  then show ?thesis by (simp add: round53_def)
qed

lemma round53_shift: "n < 2 ^ 53 \<Longrightarrow> round53 (n * 2 ^ k) = n * 2 ^ k"
proof (cases "n = 0")
  case False
  assume n: "n < 2 ^ 53"
  have "n * 2 ^ k < 2 ^ 53 * 2 ^ k" using n by simp
  then have "floorlog 2 (n * 2 ^ k) \<le> 53 + k" by (intro floorlog_leI) (simp_all add: power_add)
  then have "(2 :: nat) ^ (floorlog 2 (n * 2 ^ k) - 53) dvd 2 ^ k" by (intro le_imp_power_dvd) simp
  then have "n * 2 ^ k mod 2 ^ (floorlog 2 (n * 2 ^ k) - 53) = 0" by (metis dvd_imp_mod_0 dvd_mult)
  then show ?thesis by (auto simp: round53_def Let_def)
qed (simp add: round53_def)

text \<open>A number of the 64 bit generator near \<open>2 ^ 64\<close> becomes \<open>2 ^ 64\<close> as a double: the scaled value is the excluded upper end.\<close>

lemma double_scale_top: "n < 2 ^ 53 \<Longrightarrow> double_scale n (2 ^ 64 - 1) 64 = n"
  unfolding double_scale_def round53_top by (simp only: round53_id round53_shift) simp

end
