(* ===== verification/Fio_Pattern.thy ===== *)
theory Fio_Pattern
  imports Fio_Rand Fio_Md5
begin

text \<open>
  Contents of buffers: the random bytes of \<open>fio/lib/rand.c\<close> and the patterns of \<open>fio/lib/pattern.c\<close>. Copying a pattern
  and comparing with it are inverse to each other, and the loop that mixes random bytes with a pattern is shown to end
  when each segment has a random byte.
\<close>

unbundle bit_operations_syntax

subsection \<open>Filling a buffer\<close>

definition GOLDEN_RATIO_PRIME :: "64 word" where
  "GOLDEN_RATIO_PRIME = 0x9e37fffffffc0001"

text \<open>The bytes that \<open>__fill_random_buf\<close> stores: the low bytes of the seed, as many as still fit, and a new seed.\<close>

function fill_random_bytes :: "nat \<Rightarrow> 64 word \<Rightarrow> 8 word list" where
  "fill_random_bytes len seed =
    (if len = 0 then []
     else let this_len = (if 8 \<le> len then 8 else if 4 \<le> len then 4 else if 2 \<le> len then 2 else 1)
          in Fio_Crc.le_bytes this_len seed @ fill_random_bytes (len - this_len) (drop_bit 3 (seed * GOLDEN_RATIO_PRIME)))"
  by auto
termination by (relation "measure fst") (auto split: if_splits)

declare fill_random_bytes.simps [simp del]

lemma fill_random_len [simp]: "length (fill_random_bytes len seed) = len"
proof (induction len seed rule: fill_random_bytes.induct)
  case (1 len seed)
  then show ?case by (subst fill_random_bytes.simps) (auto simp: Let_def)
qed

text \<open>The product of two numbers is the seed of a buffer, which is returned.\<close>

definition buf_seed :: "frand_state \<Rightarrow> frand_state \<times> 64 word" where
  "buf_seed fs = (let (fs, r) = rand fs; (fs, r') = rand fs in (fs, r * r'))"

definition fill_random_buf :: "frand_state \<Rightarrow> nat \<Rightarrow> frand_state \<times> 8 word list \<times> 64 word" where
  "fill_random_buf fs len = (let (fs, r) = buf_seed fs in (fs, fill_random_bytes len r, r))"

subsection \<open>Patterns\<close>

text \<open>Buffers are lists of bytes, and a store is \<open>block_put\<close>. A result other than 0 is a negative error number.\<close>

definition EINVAL :: int where "EINVAL = 22"
definition EILSEQ :: int where "EILSEQ = 84"

text \<open>The loop of \<open>dup_pattern\<close>; the distance doubles in an \<open>unsigned int\<close>.\<close>

fun dup_loop :: "nat \<Rightarrow> 8 word list \<Rightarrow> nat \<Rightarrow> nat \<Rightarrow> nat \<Rightarrow> 8 word list option" where
  "dup_loop 0 out left len off = (if left = 0 then Some out else None)"
| "dup_loop (Suc fuel) out left len off =
    (if left = 0 then Some out
     else let out = block_put out off (take len out); left = left - len; off = (off * 2) mod 2 ^ 32
          in dup_loop fuel out left (min left off) off)"

text \<open>Every turn but the last takes at least one byte when the pattern is not empty, so the length of the buffer is fuel enough.\<close>

definition dup_pattern :: "8 word list \<Rightarrow> nat \<Rightarrow> 8 word list option" where
  "dup_pattern out pattern_len =
    (if length out \<le> pattern_len then Some out
     else let off = pattern_len; left = length out - off in dup_loop (length out) out left (min left off) off)"

definition cpy_pattern :: "8 word list \<Rightarrow> 8 word list \<Rightarrow> (8 word list \<times> int) option" where
  "cpy_pattern pattern out =
    (if pattern = [] \<or> out = [] then Some (out, - EINVAL)
     else let len = min (length pattern) (length out)
          in map_option (\<lambda>out. (out, 0)) (dup_pattern (block_put out 0 (take len pattern)) (length pattern)))"

definition cmp_pattern :: "8 word list \<Rightarrow> nat \<Rightarrow> 8 word list \<Rightarrow> int" where
  "cmp_pattern pattern off buf =
    (let pattern_size = length pattern; len = length buf in
     if len > pattern_size \<and> take (len - pattern_size) buf \<noteq> drop pattern_size buf then - EILSEQ
     else let size = (if off \<noteq> 0 then min len (pattern_size - off) else 0) in
       if off \<noteq> 0 \<and> take size buf \<noteq> take size (drop off pattern) then - EILSEQ
       else let buf = drop size buf; size = min (length buf) (if off \<noteq> 0 then off else pattern_size) in
         if buf \<noteq> [] \<and> take size buf \<noteq> take size pattern then - EILSEQ else 0)"

text \<open>A buffer filled with the pattern, from position \<open>off\<close> of the pattern on.\<close>

definition repeats :: "8 word list \<Rightarrow> nat \<Rightarrow> 8 word list \<Rightarrow> bool" where
  "repeats pattern off buf \<longleftrightarrow> (\<forall>i < length buf. buf ! i = pattern ! ((off + i) mod length pattern))"

lemma dup_loop_repeats:
  "0 < p \<Longrightarrow> p dvd off \<Longrightarrow> off + left = length out \<Longrightarrow> length out < 2 ^ 31 \<Longrightarrow> p \<le> off \<Longrightarrow>
   \<forall>i < off. out ! i = pat ! (i mod p) \<Longrightarrow> left \<le> fuel \<Longrightarrow>
   \<exists>out'. dup_loop fuel out left (min left off) off = Some out' \<and> length out' = length out \<and> (\<forall>i < length out. out' ! i = pat ! (i mod p))"
proof (induction fuel arbitrary: out left off)
  case (Suc fuel)
  show ?case
  proof (cases "left = 0")
    case True
    then show ?thesis using Suc.prems by simp
  next
    case False
    define len out1 where "len = min left off" and "out1 = block_put out off (take len out)"
    have len: "len \<le> off" "len \<le> left" "0 < len" using False Suc.prems by (auto simp: len_def)
    have l1: "length out1 = length out" using len Suc.prems(3) by (simp add: out1_def block_put_def)
    have nth: "out1 ! i = pat ! (i mod p)" if "i < off + len" for i
    proof (cases "i < off")
      case True
      then show ?thesis using Suc.prems(3,6) by (simp add: out1_def block_put_def nth_append)
    next
      case False
      have "i - off < len" using False that by linarith
      then have "out1 ! i = out ! (i - off)" using False len Suc.prems(3) by (simp add: out1_def block_put_def nth_append)
      also have "\<dots> = pat ! ((i - off) mod p)" using Suc.prems(6) that False len by simp
      also have "(i - off) mod p = i mod p" using Suc.prems(2) False by (metis add_diff_inverse_nat dvd_imp_mod_0 mod_add_left_eq add_0)
      finally show ?thesis .
    qed
    have step: "dup_loop (Suc fuel) out left (min left off) off =
        dup_loop fuel out1 (left - len) (min (left - len) (off * 2 mod 2 ^ 32)) (off * 2 mod 2 ^ 32)"
      using False by (simp add: out1_def len_def Let_def)
    have off2: "off * 2 mod 2 ^ 32 = off * 2" using Suc.prems(3,4) by simp
    show ?thesis
    proof (cases "left \<le> off")
      case True
      then have "left - len = 0" by (simp add: len_def)
      moreover have "off + len = length out" using True Suc.prems(3) by (simp add: len_def)
      ultimately show ?thesis using step nth l1 by (cases fuel) auto
    next
      case False
      then have "len = off" by (simp add: len_def)
      then have "\<exists>out'. dup_loop fuel out1 (left - len) (min (left - len) (off * 2)) (off * 2) = Some out' \<and> length out' = length out1 \<and>
          (\<forall>i < length out1. out' ! i = pat ! (i mod p))"
        using Suc.prems l1 nth False len by (intro Suc.IH) auto
      then show ?thesis using step off2 l1 by simp
    qed
  qed
qed simp

lemma cpy_pattern_repeats:
  assumes "pattern \<noteq> []" "out \<noteq> []" "length out < 2 ^ 31"
  shows "\<exists>out'. cpy_pattern pattern out = Some (out', 0) \<and> length out' = length out \<and> repeats pattern 0 out'"
proof -
  define len out1 where "len = min (length pattern) (length out)" and "out1 = block_put out 0 (take len pattern)"
  have l1: "length out1 = length out" by (simp add: out1_def block_put_def len_def)
  have n1: "out1 ! i = pattern ! i" if "i < len" for i using that by (simp add: out1_def block_put_def nth_append len_def)
  have c: "cpy_pattern pattern out = map_option (\<lambda>out. (out, 0)) (dup_pattern out1 (length pattern))"
    using assms by (simp add: cpy_pattern_def out1_def len_def Let_def)
  show ?thesis
  proof (cases "length out \<le> length pattern")
    case True
    then show ?thesis using c l1 n1 by (auto simp: dup_pattern_def repeats_def len_def)
  next
    case False
    have "\<exists>out'. dup_loop (length out1) out1 (length out1 - length pattern) (min (length out1 - length pattern) (length pattern)) (length pattern) = Some out' \<and>
        length out' = length out1 \<and> (\<forall>i < length out1. out' ! i = pattern ! (i mod length pattern))"
      using False assms l1 n1 by (intro dup_loop_repeats) (auto simp: len_def)
    then show ?thesis using False c l1 by (auto simp: dup_pattern_def repeats_def)
  qed
qed

lemma repeats_period:
  assumes p: "0 < length pattern"
  shows "repeats pattern off buf \<longleftrightarrow> (\<forall>i. i + length pattern < length buf \<longrightarrow> buf ! i = buf ! (i + length pattern)) \<and>
    (\<forall>i < min (length buf) (length pattern). buf ! i = pattern ! ((off + i) mod length pattern))" (is "_ \<longleftrightarrow> ?per \<and> ?fst")
proof
  assume r: "repeats pattern off buf"
  have "buf ! i = buf ! (i + length pattern)" if "i + length pattern < length buf" for i
    using r that by (simp add: repeats_def flip: add.assoc)
  then show "?per \<and> ?fst" using r by (simp add: repeats_def)
next
  assume a: "?per \<and> ?fst"
  have "buf ! i = pattern ! ((off + i) mod length pattern)" if "i < length buf" for i
    using that
  proof (induction i rule: less_induct)
    case (less i)
    show ?case
    proof (cases "i < length pattern")
      case False
      then have j: "i - length pattern < i" "i - length pattern < length buf" "i - length pattern + length pattern = i" using p less.prems False by linarith+
      have "buf ! i = buf ! (i - length pattern)" using a less.prems j(3) by metis
      also have "\<dots> = pattern ! ((off + (i - length pattern)) mod length pattern)" by (rule less.IH [OF j(1,2)])
      also have "(off + (i - length pattern)) mod length pattern = (off + i) mod length pattern"
        using j(3) by (metis add.assoc mod_add_self2)
      finally show ?thesis .
    qed (use a less.prems in auto)
  qed
  then show "repeats pattern off buf" by (simp add: repeats_def)
qed

lemma take_drop_eq: "take (length xs - p) xs = drop p xs \<longleftrightarrow> (\<forall>i. i + p < length xs \<longrightarrow> xs ! i = xs ! (i + p))"
  by (auto simp: list_eq_iff_nth_eq add.commute)

lemma take_nth_eq: "m \<le> length xs \<Longrightarrow> k + m \<le> length ys \<Longrightarrow> take m xs = take m (drop k ys) \<longleftrightarrow> (\<forall>i < m. xs ! i = ys ! (k + i))"
  by (auto simp: list_eq_iff_nth_eq)

lemma cmp_pattern_exact:
  assumes "off < length pattern"
  shows "cmp_pattern pattern off buf = (if repeats pattern off buf then 0 else - EILSEQ)"
proof -
  define p len where "p = length pattern" and "len = length buf"
  define size where "size = (if off \<noteq> 0 then min len (p - off) else 0)"
  define size2 where "size2 = min (len - size) (if off \<noteq> 0 then off else p)"
  have p: "0 < p" "off < p" using assms by (auto simp: p_def)
  have A: "(p < len \<and> take (len - p) buf \<noteq> drop p buf) \<longleftrightarrow> \<not> (\<forall>i. i + p < len \<longrightarrow> buf ! i = buf ! (i + p))"
    using take_drop_eq [of buf p] unfolding len_def by auto
  have B: "(off \<noteq> 0 \<and> take size buf \<noteq> take size (drop off pattern)) \<longleftrightarrow> \<not> (\<forall>i < size. buf ! i = pattern ! (off + i))"
    using take_nth_eq [of size buf off pattern] p by (auto simp: size_def len_def p_def)
  have C: "(drop size buf \<noteq> [] \<and> take size2 (drop size buf) \<noteq> take size2 pattern) \<longleftrightarrow> \<not> (\<forall>i < size2. buf ! (size + i) = pattern ! i)"
    using take_nth_eq [of size2 "drop size buf" 0 pattern] p
    by (cases "drop size buf = []") (auto simp: size2_def len_def p_def)
  have cov: "(\<forall>i < min len p. buf ! i = pattern ! ((off + i) mod p)) \<longleftrightarrow>
      (\<forall>i < size. buf ! i = pattern ! (off + i)) \<and> (\<forall>i < size2. buf ! (size + i) = pattern ! i)" (is "?l \<longleftrightarrow> ?r1 \<and> ?r2")
  proof
    assume l: ?l
    have ?r1
    proof (intro allI impI)
      fix i assume "i < size"
      then have "i < min len p" "off + i < p" using p by (auto simp: size_def split: if_splits)
      then show "buf ! i = pattern ! (off + i)" using l by simp
    qed
    moreover have ?r2
    proof (intro allI impI)
      fix i assume "i < size2"
      then have "size + i < min len p" "(off + (size + i)) mod p = i" using p by (auto simp: size_def size2_def min_def le_mod_geq split: if_splits)
      then show "buf ! (size + i) = pattern ! i" using l by metis
    qed
    ultimately show "?r1 \<and> ?r2" ..
  next
    assume r: "?r1 \<and> ?r2"
    show ?l
    proof (intro allI impI)
      fix i assume i: "i < min len p"
      show "buf ! i = pattern ! ((off + i) mod p)"
      proof (cases "i < size")
        case True
        then have "off + i < p" by (auto simp: size_def split: if_splits)
        then show ?thesis using r True by simp
      next
        case False
        then have "i - size < size2" "(off + i) mod p = i - size" "size + (i - size) = i"
          using i p by (auto simp: size_def size2_def min_def le_mod_geq split: if_splits)
        then show ?thesis using r by metis
      qed
    qed
  qed
  have "cmp_pattern pattern off buf = (if p < len \<and> take (len - p) buf \<noteq> drop p buf then - EILSEQ
      else if off \<noteq> 0 \<and> take size buf \<noteq> take size (drop off pattern) then - EILSEQ
      else if drop size buf \<noteq> [] \<and> take size2 (drop size buf) \<noteq> take size2 pattern then - EILSEQ else 0)"
    unfolding cmp_pattern_def Let_def size2_def size_def p_def len_def by simp
  then show ?thesis unfolding A B C using repeats_period [of pattern off buf] p cov by (auto simp: p_def len_def)
qed

text \<open>
  C32. A buffer that was filled with a pattern is accepted by the comparison, and it is the only one of its length that is.
\<close>

theorem pattern_roundtrip:
  assumes "pattern \<noteq> []" "out \<noteq> []" "length out < 2 ^ 31"
  shows "\<exists>out'. cpy_pattern pattern out = Some (out', 0) \<and> length out' = length out \<and>
    (\<forall>buf. length buf = length out \<longrightarrow> cmp_pattern pattern 0 buf = (if buf = out' then 0 else - EILSEQ))"
proof -
  obtain out' where o: "cpy_pattern pattern out = Some (out', 0)" "length out' = length out" "repeats pattern 0 out'"
    using cpy_pattern_repeats [OF assms] by blast
  have "repeats pattern 0 buf \<longleftrightarrow> buf = out'" if "length buf = length out" for buf
  proof
    show "repeats pattern 0 buf" if "buf = out'" using that o(3) by simp
    show "buf = out'" if r: "repeats pattern 0 buf" using r o(2,3) \<open>length buf = length out\<close> by (intro nth_equalityI) (simp_all add: repeats_def)
  qed
  moreover have "0 < length pattern" using assms(1) by simp
  ultimately show ?thesis using o(1,2) cmp_pattern_exact [of 0 pattern] by auto
qed

theorem pattern_roundtrip_witness:
  "\<exists>out'. cpy_pattern [1, 2, 3] (replicate 8 0) = Some (out', 0) \<and> cmp_pattern [1, 2, 3] 0 out' = 0"
  using pattern_roundtrip [of "[1, 2, 3]" "replicate 8 0"] by auto

subsection \<open>Buffers that compress\<close>

text \<open>What fills the rest of a segment: the pattern, or zeros.\<close>

definition fill_plain :: "8 word list \<Rightarrow> nat \<Rightarrow> 8 word list option" where
  "fill_plain pattern len = (if pattern \<noteq> [] then map_option fst (cpy_pattern pattern (replicate len 0)) else Some (replicate len 0))"

text \<open>
  The loop of \<open>__fill_random_buf_percentage\<close> gives the bytes it stores; all products and differences are of type
  \<open>unsigned int\<close>. It may run for ever.
\<close>

partial_function (option) fill_segments :: "64 word \<Rightarrow> nat \<Rightarrow> nat \<Rightarrow> 8 word list \<Rightarrow> nat \<Rightarrow> 8 word list option" where
  "fill_segments seed percentage segment pattern len =
    (if len = 0 then Some []
     else let this_len = min ((segment * ((2 ^ 32 + 100 - percentage) mod 2 ^ 32)) mod 2 ^ 32 div 100) len;
              noise = fill_random_bytes this_len seed; len = len - this_len in
       if len = 0 then Some noise
       else let this_len = (if this_len > len then len else if len - this_len \<le> 8 then len else this_len) in
         Option.bind (fill_plain pattern this_len) (\<lambda>plain.
           Option.bind (fill_segments seed percentage segment pattern (len - this_len)) (\<lambda>rest. Some (noise @ plain @ rest))))"

definition fill_percentage_bytes :: "64 word \<Rightarrow> nat \<Rightarrow> nat \<Rightarrow> nat \<Rightarrow> 8 word list \<Rightarrow> 8 word list option" where
  "fill_percentage_bytes seed percentage segment len pattern =
    (if percentage = 100 then fill_plain pattern len
     else fill_segments seed percentage (min segment len) pattern len)"

definition fill_random_buf_percentage :: "frand_state \<Rightarrow> nat \<Rightarrow> nat \<Rightarrow> nat \<Rightarrow> 8 word list \<Rightarrow> (frand_state \<times> 8 word list \<times> 64 word) option" where
  "fill_random_buf_percentage fs percentage segment len pattern =
    (let (fs, r) = buf_seed fs in map_option (\<lambda>bs. (fs, bs, r)) (fill_percentage_bytes r percentage segment len pattern))"

lemma fill_plain_some:
  assumes "len < 2 ^ 31"
  shows "\<exists>bs. fill_plain pattern len = Some bs \<and> length bs = len"
proof (cases "pattern = [] \<or> len = 0")
  case True
  then show ?thesis by (auto simp: fill_plain_def cpy_pattern_def)
next
  case False
  then show ?thesis using cpy_pattern_repeats [of pattern "replicate len 0"] assms by (auto simp: fill_plain_def)
qed

text \<open>The loop ends when the random part of a segment is not empty.\<close>

lemma fill_segments_returns:
  assumes "percentage < 100" "100 \<le> segment * (100 - percentage)" "segment * (100 - percentage) < 2 ^ 32"
  shows "len < 2 ^ 31 \<Longrightarrow> \<exists>bs. fill_segments seed percentage segment pattern len = Some bs \<and> length bs = len"
proof (induction len rule: less_induct)
  case (less len)
  define k where "k = segment * (100 - percentage) div 100"
  have "(2 :: nat) ^ 32 + 100 - percentage = (100 - percentage) + 2 ^ 32" using assms(1) by simp
  then have "(2 ^ 32 + 100 - percentage) mod 2 ^ 32 = 100 - percentage" by (simp only: mod_add_self2) simp
  then have k: "(segment * ((2 ^ 32 + 100 - percentage) mod 2 ^ 32)) mod 2 ^ 32 div 100 = k" using assms(3) by (simp add: k_def)
  have k0: "0 < k" using assms(2) by (simp add: k_def div_greater_zero_iff)
  note unfold = fill_segments.simps [of seed percentage segment pattern len, unfolded k Let_def]
  show ?case
  proof (cases "len = 0 \<or> len - min k len = 0")
    case True
    then show ?thesis by (subst unfold) auto
  next
    case False
    define this_len where "this_len = (if min k len > len - min k len then len - min k len
        else if len - min k len - min k len \<le> 8 then len - min k len else min k len)"
    have t: "this_len \<le> len - min k len" by (auto simp: this_len_def)
    have "this_len < 2 ^ 31" using t less.prems by linarith
    then obtain plain where p: "fill_plain pattern this_len = Some plain" "length plain = this_len" using fill_plain_some by blast
    have l: "len - min k len - this_len < len" "len - min k len - this_len < 2 ^ 31" using False k0 less.prems by linarith+
    obtain rest where r: "fill_segments seed percentage segment pattern (len - min k len - this_len) = Some rest"
        "length rest = len - min k len - this_len"
      using less.IH [OF l] by blast
    have "fill_segments seed percentage segment pattern len = Some (fill_random_bytes (min k len) seed @ plain @ rest)"
      unfolding unfold this_len_def [symmetric] p(1) r(1) using False by simp
    moreover have "min k len + (this_len + (len - min k len - this_len)) = len" using t by linarith
    ultimately show ?thesis using p(2) r(2) by simp
  qed
qed

text \<open>
  A buffer of 16 bytes of which 95 percent are to be compressible has an empty random part: the loop does not
  advance.
\<close>

lemma fill_segments_hangs: "fill_segments seed 95 16 [] 16 = None"
proof -
  have "fill_segments seed 95 16 [] 16 = Some bs \<Longrightarrow> False" for bs
  proof -
    have "\<And>s p g pat n bs. fill_segments s p g pat n = Some bs \<Longrightarrow> \<not> (p = 95 \<and> g = 16 \<and> pat = [] \<and> n = 16)"
    proof (rule fill_segments.raw_induct [where P = "\<lambda>s p g pat n bs. \<not> (p = 95 \<and> g = 16 \<and> pat = [] \<and> n = 16)"])
      fix f :: "64 word \<Rightarrow> nat \<Rightarrow> nat \<Rightarrow> 8 word list \<Rightarrow> nat \<Rightarrow> 8 word list option" and s p g pat n bs
      assume IH: "\<And>s p g pat n bs. f s p g pat n = Some bs \<Longrightarrow> \<not> (p = 95 \<and> g = 16 \<and> pat = [] \<and> n = 16)"
      have "f s 95 16 [] 16 = None" using IH [of s 95 16 "[]" 16] by (cases "f s 95 16 [] 16") auto
      moreover assume "(if n = 0 then Some []
        else let this_len = min ((g * ((2 ^ 32 + 100 - p) mod 2 ^ 32)) mod 2 ^ 32 div 100) n;
                 noise = fill_random_bytes this_len s; len = n - this_len in
          if len = 0 then Some noise
          else let this_len = (if this_len > len then len else if len - this_len \<le> 8 then len else this_len) in
            Option.bind (fill_plain pat this_len) (\<lambda>plain. Option.bind (f s p g pat (len - this_len)) (\<lambda>rest. Some (noise @ plain @ rest)))) = Some bs"
      ultimately show "\<not> (p = 95 \<and> g = 16 \<and> pat = [] \<and> n = 16)" by (auto simp: fill_plain_def)
    qed
    then show "fill_segments seed 95 16 [] 16 = Some bs \<Longrightarrow> False" by blast
  qed
  then show ?thesis by (cases "fill_segments seed 95 16 [] 16") auto
qed

end
