(* ===== verification/Fio_Sha3.thy ===== *)
theory Fio_Sha3
  imports Fio_Md5
begin

text \<open>
  The SHA-3 of fio, \<open>fio/crc/sha3.c\<close>: the permutation on 25 lanes of 64 bits, and the sponge with its update and
  finalisation.
\<close>

unbundle bit_operations_syntax

definition ROTL64 :: "64 word \<Rightarrow> nat \<Rightarrow> 64 word" where
  "ROTL64 x y = push_bit y x OR drop_bit (64 - y) x"

definition keccakf_rndc :: "64 word list" where
  "keccakf_rndc = [
    0x0000000000000001, 0x0000000000008082, 0x800000000000808a,
    0x8000000080008000, 0x000000000000808b, 0x0000000080000001,
    0x8000000080008081, 0x8000000000008009, 0x000000000000008a,
    0x0000000000000088, 0x0000000080008009, 0x000000008000000a,
    0x000000008000808b, 0x800000000000008b, 0x8000000000008089,
    0x8000000000008003, 0x8000000000008002, 0x8000000000000080,
    0x000000000000800a, 0x800000008000000a, 0x8000000080008081,
    0x8000000000008080, 0x0000000080000001, 0x8000000080008008]"

definition keccakf_rotc :: "nat list" where
  "keccakf_rotc = [1, 3, 6, 10, 15, 21, 28, 36, 45, 55, 2, 14, 27, 41, 56, 8, 25, 43, 62, 18, 39, 61, 20, 44]"

definition keccakf_piln :: "nat list" where
  "keccakf_piln = [10, 7, 11, 17, 18, 3, 5, 16, 8, 21, 24, 4, 15, 23, 19, 13, 12, 2, 20, 14, 22, 9, 6, 1]"

text \<open>One round, in the four parts that the source marks.\<close>

definition keccak_theta :: "64 word list \<Rightarrow> 64 word list" where
  "keccak_theta st =
    (let bc = map (\<lambda>i. st ! i XOR st ! (i + 5) XOR st ! (i + 10) XOR st ! (i + 15) XOR st ! (i + 20)) [0..<5]
     in fold (\<lambda>i st. let t = bc ! ((i + 4) mod 5) XOR ROTL64 (bc ! ((i + 1) mod 5)) 1
                      in fold (\<lambda>j st. st[j + i := st ! (j + i) XOR t]) [0, 5, 10, 15, 20] st) [0..<5] st)"

definition keccak_rho_pi :: "64 word list \<Rightarrow> 64 word list" where
  "keccak_rho_pi st =
    fst (fold (\<lambda>i (st, t). let j = keccakf_piln ! i in (st[j := ROTL64 t (keccakf_rotc ! i)], st ! j)) [0..<24] (st, st ! 1))"

definition keccak_chi :: "64 word list \<Rightarrow> 64 word list" where
  "keccak_chi st =
    fold (\<lambda>j st. let bc = map (\<lambda>i. st ! (j + i)) [0..<5]
                  in fold (\<lambda>i st. st[j + i := st ! (j + i) XOR (NOT (bc ! ((i + 1) mod 5)) AND bc ! ((i + 2) mod 5))]) [0..<5] st)
      [0, 5, 10, 15, 20] st"

definition keccakf :: "64 word list \<Rightarrow> 64 word list" where
  "keccakf st =
    fold (\<lambda>round st. let st = keccak_chi (keccak_rho_pi (keccak_theta st)) in st[0 := st ! 0 XOR keccakf_rndc ! round]) [0..<24] st"

subsection \<open>The permutation as FIPS 202 has it\<close>

text \<open>Lane \<open>(x, y)\<close> is at position \<open>x + 5 * y\<close>.\<close>

definition lane :: "64 word list \<Rightarrow> nat \<Rightarrow> nat \<Rightarrow> 64 word" where
  "lane st x y = st ! (x mod 5 + 5 * (y mod 5))"

definition from_lanes :: "(nat \<Rightarrow> nat \<Rightarrow> 64 word) \<Rightarrow> 64 word list" where
  "from_lanes A = map (\<lambda>i. A (i mod 5) (i div 5)) [0..<25]"

definition fips_theta :: "64 word list \<Rightarrow> 64 word list" where
  "fips_theta st =
    (let C = (\<lambda>x. lane st x 0 XOR lane st x 1 XOR lane st x 2 XOR lane st x 3 XOR lane st x 4)
     in from_lanes (\<lambda>x y. lane st x y XOR (C (x + 4) XOR ROTL64 (C (x + 1)) 1)))"

text \<open>
  The offsets of the rotation: starting from \<open>(1, 0)\<close>, step \<open>t\<close> rotates by \<open>(t + 1) (t + 2) / 2\<close> and goes on to
  \<open>(y, 2 x + 3 y)\<close>.
\<close>

fun rho_path :: "nat \<Rightarrow> nat \<times> nat" where
  "rho_path 0 = (1, 0)"
| "rho_path (Suc t) = (case rho_path t of (x, y) \<Rightarrow> (y, (2 * x + 3 * y) mod 5))"

definition rho_offset :: "nat \<Rightarrow> nat \<Rightarrow> nat" where
  "rho_offset x y = sum_list (map (\<lambda>t. if rho_path t = (x, y) then ((t + 1) * (t + 2) div 2) mod 64 else 0) [0..<24])"

definition fips_rho :: "64 word list \<Rightarrow> 64 word list" where
  "fips_rho st = from_lanes (\<lambda>x y. ROTL64 (lane st x y) (rho_offset x y))"

definition fips_pi :: "64 word list \<Rightarrow> 64 word list" where
  "fips_pi st = from_lanes (\<lambda>x y. lane st (x + 3 * y) x)"

definition fips_chi :: "64 word list \<Rightarrow> 64 word list" where
  "fips_chi st = from_lanes (\<lambda>x y. lane st x y XOR (NOT (lane st (x + 1) y) AND lane st (x + 2) y))"

text \<open>The round constants come from a shift register: bit \<open>2 ^ j - 1\<close> of constant \<open>i\<close> is output \<open>j + 7 i\<close> of it.\<close>

definition rc_step :: "8 word \<Rightarrow> 8 word" where
  "rc_step r = (if bit r 7 then push_bit 1 r XOR 0x71 else push_bit 1 r)"

definition rc_bit :: "nat \<Rightarrow> bool" where
  "rc_bit t = bit ((rc_step ^^ t) 1) 0"

definition fips_rc :: "nat \<Rightarrow> 64 word" where
  "fips_rc i = fold (\<lambda>j w. if rc_bit (j + 7 * i) then w OR push_bit (2 ^ j - 1) 1 else w) [0..<7] 0"

definition fips_round :: "nat \<Rightarrow> 64 word list \<Rightarrow> 64 word list" where
  "fips_round i st = (let st = fips_chi (fips_pi (fips_rho (fips_theta st))) in st[0 := st ! 0 XOR fips_rc i])"

lemma upt_5: "[0..<5] = [0, 1, 2, 3, 4 :: nat]"
  by (simp add: upt_rec)

lemma upt_24: "[0..<24] = [0, 1, 2, 3, 4, 5, 6, 7, 8, 9, 10, 11, 12, 13, 14, 15, 16, 17, 18, 19, 20, 21, 22, 23 :: nat]"
  by (simp add: upt_rec)

lemma upt_25: "[0..<25] = [0, 1, 2, 3, 4, 5, 6, 7, 8, 9, 10, 11, 12, 13, 14, 15, 16, 17, 18, 19, 20, 21, 22, 23, 24 :: nat]"
  by (simp add: upt_rec)

lemma fold_upd:
  "distinct ks \<Longrightarrow> \<forall>k \<in> set ks. k < length st \<Longrightarrow> fold (\<lambda>k st. st[k := f k (st ! k)]) ks st =
    map (\<lambda>m. if m \<in> set ks then f m (st ! m) else st ! m) [0..<length st]"
proof (induction ks arbitrary: st)
  case Nil
  then show ?case by (simp add: map_nth)
next
  case (Cons k ks)
  then show ?case by (auto simp: nth_list_update)
qed

lemma all_25: "(\<forall>m < 25. P m) \<longleftrightarrow> (\<forall>m \<in> set [0..<25]. P m)"
  by auto

lemma eq_25: "length st = 25 \<Longrightarrow> length st' = 25 \<Longrightarrow> \<forall>m \<in> set [0..<25]. st ! m = st' ! m \<Longrightarrow> st = st'"
  by (auto intro: nth_equalityI)

lemma from_lanes_len [simp]: "length (from_lanes A) = 25"
  by (simp add: from_lanes_def)

lemma from_lanes_nth: "m < 25 \<Longrightarrow> from_lanes A ! m = A (m mod 5) (m div 5)"
  by (simp add: from_lanes_def)

lemma theta_fips:
  assumes "length st = 25"
  shows "keccak_theta st = fips_theta st"
proof -
  define bc where "bc = map (\<lambda>i. st ! i XOR st ! (i + 5) XOR st ! (i + 10) XOR st ! (i + 15) XOR st ! (i + 20)) [0..<5]"
  define T where "T i = bc ! ((i + 4) mod 5) XOR ROTL64 (bc ! ((i + 1) mod 5)) 1" for i
  have "keccak_theta st = fold (\<lambda>i st. fold (\<lambda>j st. st[j + i := st ! (j + i) XOR T i]) [0, 5, 10, 15, 20] st) [0..<5] st"
    unfolding keccak_theta_def Let_def T_def bc_def ..
  also have "\<dots> = fold (\<lambda>k st. st[k := st ! k XOR T (k mod 5)]) [0, 5, 10, 15, 20, 1, 6, 11, 16, 21, 2, 7, 12, 17, 22, 3, 8, 13, 18, 23, 4, 9, 14, 19, 24] st"
    by (simp add: upt_5)
  also have "\<dots> = map (\<lambda>m. st ! m XOR T (m mod 5)) [0..<25]"
    using assms by (subst fold_upd) (auto simp: upt_25)
  also have "\<dots> = fips_theta st"
    unfolding fips_theta_def Let_def from_lanes_def T_def lane_def bc_def upt_5 upt_25 by (simp add: numeral_2_eq_2)
  finally show ?thesis .
qed

fun rho_walk :: "nat list \<Rightarrow> nat \<times> nat \<Rightarrow> (nat \<times> nat) list" where
  "rho_walk [] p = []"
| "rho_walk (t # ts) (x, y) = (x, y) # rho_walk ts (y, (2 * x + 3 * y) mod 5)"

lemma rho_walk_path: "map rho_path [k..<k + n] = rho_walk [k..<k + n] (rho_path k)"
proof (induction n arbitrary: k)
  case (Suc n)
  obtain x y where p: "rho_path k = (x, y)" by fastforce
  have "[k..<k + Suc n] = k # [Suc k..<Suc k + n]" by (simp add: upt_conv_Cons)
  then show ?case using Suc.IH [of "Suc k"] p by simp
qed simp

lemma rho_path_all: "map rho_path [0..<24] = [(1, 0), (0, 2), (2, 1), (1, 2), (2, 3), (3, 3), (3, 0), (0, 1), (1, 3), (3, 1), (1, 4), (4, 4),
    (4, 0), (0, 3), (3, 4), (4, 3), (3, 2), (2, 2), (2, 0), (0, 4), (4, 2), (2, 4), (4, 1), (1, 1)]"
  using rho_walk_path [of 0 24] by (simp add: upt_24)

lemma rotc_all: "map (\<lambda>t. ((t + 1) * (t + 2) div 2) mod 64) [0..<24] = keccakf_rotc"
  by (simp add: upt_24 keccakf_rotc_def)

lemma rho_offset_zip: "rho_offset x y = sum_list (map (\<lambda>(q, r). if q = (x, y) then r else 0) (zip (map rho_path [0..<24]) keccakf_rotc))"
  unfolding rotc_all [symmetric] rho_offset_def by (simp only: zip_map_map zip_same_conv_map map_map comp_def prod.case)

lemma rho_offsets: "map (\<lambda>i. rho_offset (i mod 5) (i div 5)) [0..<25] =
    [0, 1, 62, 28, 27, 36, 44, 6, 55, 20, 3, 10, 43, 25, 39, 41, 45, 15, 21, 8, 18, 2, 61, 56, 14]"
  unfolding rho_offset_zip rho_path_all keccakf_rotc_def upt_25 by simp

lemma rho_nth: "m < 25 \<Longrightarrow> fips_rho st ! m = ROTL64 (st ! m) ([0, 1, 62, 28, 27, 36, 44, 6, 55, 20, 3, 10, 43, 25, 39, 41, 45, 15, 21, 8, 18, 2, 61, 56, 14] ! m)"
proof -
  assume m: "m < 25"
  have "rho_offset (m mod 5) (m div 5) = map (\<lambda>i. rho_offset (i mod 5) (i div 5)) [0..<25] ! m" using m by simp
  moreover have "m div 5 mod 5 = m div 5" using m by simp
  ultimately show ?thesis using m unfolding rho_offsets by (simp add: fips_rho_def from_lanes_nth lane_def)
qed

lemma ROTL64_0: "ROTL64 x 0 = x"
  by (rule bit_eqI) (auto simp: ROTL64_def bit_or_iff bit_drop_bit_eq dest: bit_imp_le_length)

lemma rho_pi_chain: "keccak_rho_pi st = st[10 := ROTL64 (st ! 1) 1, 7 := ROTL64 (st ! 10) 3, 11 := ROTL64 (st ! 7) 6, 17 := ROTL64 (st ! 11) 10,
      18 := ROTL64 (st ! 17) 15, 3 := ROTL64 (st ! 18) 21, 5 := ROTL64 (st ! 3) 28, 16 := ROTL64 (st ! 5) 36,
      8 := ROTL64 (st ! 16) 45, 21 := ROTL64 (st ! 8) 55, 24 := ROTL64 (st ! 21) 2, 4 := ROTL64 (st ! 24) 14,
      15 := ROTL64 (st ! 4) 27, 23 := ROTL64 (st ! 15) 41, 19 := ROTL64 (st ! 23) 56, 13 := ROTL64 (st ! 19) 8,
      12 := ROTL64 (st ! 13) 25, 2 := ROTL64 (st ! 12) 43, 20 := ROTL64 (st ! 2) 62, 14 := ROTL64 (st ! 20) 18,
      22 := ROTL64 (st ! 14) 39, 9 := ROTL64 (st ! 22) 61, 6 := ROTL64 (st ! 9) 20, 1 := ROTL64 (st ! 6) 44]"
  unfolding keccak_rho_pi_def upt_24 keccakf_piln_def keccakf_rotc_def by (simp add: numeral_2_eq_2)

lemma rho_pi_fips:
  assumes "length st = 25"
  shows "keccak_rho_pi st = fips_pi (fips_rho st)"
proof (rule eq_25)
  show "length (keccak_rho_pi st) = 25" "length (fips_pi (fips_rho st)) = 25" using assms by (simp_all add: rho_pi_chain fips_pi_def)
  have f: "fips_pi (fips_rho st) ! m = fips_rho st ! ((m mod 5 + 3 * (m div 5)) mod 5 + 5 * (m mod 5))" if "m < 25" for m
    using that by (simp add: fips_pi_def from_lanes_nth lane_def)
  show "\<forall>m \<in> set [0..<25]. keccak_rho_pi st ! m = fips_pi (fips_rho st) ! m"
    using assms unfolding rho_pi_chain upt_25 by (simp add: f rho_nth ROTL64_0 numeral_2_eq_2)
qed

lemma chi_row:
  assumes "length st = 25" "j + 4 < 25"
  shows "fold (\<lambda>i st. st[j + i := st ! (j + i) XOR g i]) [0..<5] st =
    map (\<lambda>m. if j \<le> m \<and> m \<le> j + 4 then st ! m XOR g (m - j) else st ! m) [0..<25]"
proof -
  have "fold (\<lambda>i st. st[j + i := st ! (j + i) XOR g i]) [0..<5] st = fold (\<lambda>k st. st[k := st ! k XOR g (k - j)]) [j, j + 1, j + 2, j + 3, j + 4] st"
    by (simp add: upt_5)
  also have "\<dots> = map (\<lambda>m. if m \<in> set [j, j + 1, j + 2, j + 3, j + 4] then st ! m XOR g (m - j) else st ! m) [0..<length st]"
    by (rule fold_upd) (use assms in auto)
  also have "\<dots> = map (\<lambda>m. if j \<le> m \<and> m \<le> j + 4 then st ! m XOR g (m - j) else st ! m) [0..<25]"
    using assms by (intro map_cong) auto
  finally show ?thesis .
qed

lemma chi_fips:
  assumes "length st = 25"
  shows "keccak_chi st = fips_chi st"
proof -
  define R where "R j st = (let bc = map (\<lambda>i. st ! (j + i)) [0..<5] in
      fold (\<lambda>i st. st[j + i := st ! (j + i) XOR (NOT (bc ! ((i + 1) mod 5)) AND bc ! ((i + 2) mod 5))]) [0..<5] st)" for j and st :: "64 word list"
  have bc: "map (\<lambda>i. st ! (j + i)) [0..<5] ! k = st ! (j + k)" if "k < 5" for j k and st :: "64 word list"
    using that by simp
  have R: "R j st = map (\<lambda>m. if j \<le> m \<and> m \<le> j + 4 then st ! m XOR (NOT (st ! (j + (m - j + 1) mod 5)) AND st ! (j + (m - j + 2) mod 5)) else st ! m) [0..<25]"
    if "length st = 25" "j + 4 < 25" for j and st :: "64 word list"
    unfolding R_def Let_def chi_row [OF that] by (simp add: bc)
  have "keccak_chi st = R 20 (R 15 (R 10 (R 5 (R 0 st))))" by (simp add: keccak_chi_def R_def Let_def)
  moreover have "R 20 (R 15 (R 10 (R 5 (R 0 st)))) = fips_chi st"
  proof (rule eq_25)
    show "\<forall>m \<in> set [0..<25]. R 20 (R 15 (R 10 (R 5 (R 0 st)))) ! m = fips_chi st ! m"
      using assms unfolding upt_25 by (simp add: R fips_chi_def from_lanes_nth lane_def numeral_2_eq_2)
  qed (use assms in \<open>simp_all add: R fips_chi_def\<close>)
  ultimately show ?thesis by simp
qed

text \<open>The constants from one run of the register.\<close>

definition rc_word :: "8 word \<Rightarrow> 64 word" where
  "rc_word r = fold (\<lambda>j w. if bit ((rc_step ^^ j) r) 0 then w OR push_bit (2 ^ j - 1) 1 else w) [0..<7] 0"

fun rc_list :: "nat \<Rightarrow> 8 word \<Rightarrow> 64 word list" where
  "rc_list 0 r = []"
| "rc_list (Suc n) r = rc_word r # rc_list n ((rc_step ^^ 7) r)"

lemma fips_rc_word: "fips_rc i = rc_word ((rc_step ^^ (7 * i)) 1)"
  by (simp add: fips_rc_def rc_word_def rc_bit_def funpow_add)

lemma fips_rc_list: "map fips_rc [k..<k + n] = rc_list n ((rc_step ^^ (7 * k)) 1)"
proof (induction n arbitrary: k)
  case (Suc n)
  have "[k..<k + Suc n] = k # [Suc k..<Suc k + n]" by (simp add: upt_conv_Cons)
  moreover have "(rc_step ^^ (7 * Suc k)) 1 = (rc_step ^^ 7) ((rc_step ^^ (7 * k)) 1)" by (simp add: funpow_add)
  ultimately show ?case using Suc.IH [of "Suc k"] by (simp only: list.map rc_list.simps fips_rc_word)
qed simp

lemma upt_7: "[0..<7] = [0, 1, 2, 3, 4, 5, 6 :: nat]"
  by (simp add: upt_rec)

lemma rc_fips: "map fips_rc [0..<24] = keccakf_rndc"
proof -
  have p: "(rc_step ^^ 7) r = rc_step (rc_step (rc_step (rc_step (rc_step (rc_step (rc_step r))))))" for r by (simp add: eval_nat_numeral)
  have q: "rc_word r = (let r1 = rc_step r; r2 = rc_step r1; r3 = rc_step r2; r4 = rc_step r3; r5 = rc_step r4; r6 = rc_step r5 in
     (if bit r 0 then 1 else 0) OR (if bit r1 0 then 2 else 0) OR (if bit r2 0 then 8 else 0) OR (if bit r3 0 then 0x80 else 0) OR
     (if bit r4 0 then 0x8000 else 0) OR (if bit r5 0 then 0x80000000 else 0) OR (if bit r6 0 then 0x8000000000000000 else 0))" for r
    unfolding rc_word_def upt_7 by (simp add: eval_nat_numeral Let_def)
  have "rc_list 24 1 = keccakf_rndc" unfolding keccakf_rndc_def
    by (simp add: eval_nat_numeral p q rc_step_def)
  then show ?thesis using fips_rc_list [of 0 24] by simp
qed

lemma keccak_rounds:
  "length st = 25 \<Longrightarrow> set is \<subseteq> {..<24} \<Longrightarrow>
    fold (\<lambda>round st. let st = keccak_chi (keccak_rho_pi (keccak_theta st)) in st[0 := st ! 0 XOR keccakf_rndc ! round]) is st = fold fips_round is st \<and>
    length (fold fips_round is st) = 25"
proof (induction "is" arbitrary: st)
  case (Cons i "is")
  have "keccakf_rndc ! i = fips_rc i" unfolding rc_fips [symmetric] using Cons.prems(2) by simp
  then have "(let st = keccak_chi (keccak_rho_pi (keccak_theta st)) in st[0 := st ! 0 XOR keccakf_rndc ! i]) = fips_round i st" "length (fips_round i st) = 25"
    using Cons.prems(1) by (simp_all add: fips_round_def theta_fips rho_pi_fips chi_fips fips_theta_def fips_pi_def fips_chi_def Let_def)
  then show ?case using Cons by simp
qed simp

lemma keccakf_fips:
  assumes "length st = 25"
  shows "keccakf st = fold fips_round [0..<24] st" "length (keccakf st) = 25"
proof -
  have "set [0..<24] \<subseteq> {..<24 :: nat}" by auto
  note keccak_rounds [OF assms this]
  then show "keccakf st = fold fips_round [0..<24] st" "length (keccakf st) = 25" by (simp_all add: keccakf_def)
qed

subsection \<open>The sponge\<close>

record fio_sha3_ctx =
  sha3_st :: "64 word list"
  sha3_md_len :: nat
  sha3_rsiz :: nat
  sha3_rsizw :: nat
  sha3_partial :: nat
  sha3_buf :: "8 word list"
  sha3_sha :: "8 word list"

definition fio_sha3_init :: "fio_sha3_ctx \<Rightarrow> nat \<Rightarrow> fio_sha3_ctx" where
  "fio_sha3_init sctx digest_sz = sctx\<lparr>sha3_st := replicate 25 0, sha3_md_len := digest_sz, sha3_rsiz := 200 - 2 * digest_sz,
     sha3_rsizw := (200 - 2 * digest_sz) div 8, sha3_partial := 0, sha3_buf := replicate 144 0\<rparr>"

definition fio_sha3_224_init :: "fio_sha3_ctx \<Rightarrow> fio_sha3_ctx" where "fio_sha3_224_init sctx = fio_sha3_init sctx 28"
definition fio_sha3_256_init :: "fio_sha3_ctx \<Rightarrow> fio_sha3_ctx" where "fio_sha3_256_init sctx = fio_sha3_init sctx 32"
definition fio_sha3_384_init :: "fio_sha3_ctx \<Rightarrow> fio_sha3_ctx" where "fio_sha3_384_init sctx = fio_sha3_init sctx 48"
definition fio_sha3_512_init :: "fio_sha3_ctx \<Rightarrow> fio_sha3_ctx" where "fio_sha3_512_init sctx = fio_sha3_init sctx 64"

definition sha3_xor :: "nat \<Rightarrow> 64 word list \<Rightarrow> 8 word list \<Rightarrow> 64 word list" where
  "sha3_xor rsizw st src = fold (\<lambda>i st. st[i := st ! i XOR le_word (take 8 (drop (8 * i) src))]) [0..<rsizw] st"

text \<open>
  The \<open>do\<close> loop of \<open>fio_sha3_update\<close>, with \<open>done\<close> an \<open>unsigned int\<close> that starts at minus the number of buffered
  bytes. Every turn takes a block, so the length of the data is fuel enough.
\<close>

fun sha3_loop :: "nat \<Rightarrow> nat \<Rightarrow> nat \<Rightarrow> 64 word list \<Rightarrow> 8 word list \<Rightarrow> 8 word list \<Rightarrow> nat \<Rightarrow> 64 word list \<times> nat \<times> 8 word list" where
  "sha3_loop 0 rsiz rsizw st src data dn = (st, dn, src)"
| "sha3_loop (Suc n) rsiz rsizw st src data dn =
    (let st = keccakf (sha3_xor rsizw st src); dn = (dn + rsiz) mod 2 ^ 32; src = drop dn data
     in if (dn + (rsiz - 1)) mod 2 ^ 32 < length data then sha3_loop n rsiz rsizw st src data dn else (st, dn, src))"

definition fio_sha3_update :: "fio_sha3_ctx \<Rightarrow> 8 word list \<Rightarrow> fio_sha3_ctx" where
  "fio_sha3_update sctx data =
    (let len = length data in
     if (sha3_partial sctx + len) mod 2 ^ 32 > sha3_rsiz sctx - 1
     then let (dn, buf, src) =
            (if sha3_partial sctx \<noteq> 0
             then let dn = 2 ^ 32 - sha3_partial sctx;
                      buf = block_put (sha3_buf sctx) (sha3_partial sctx) (take ((dn + sha3_rsiz sctx) mod 2 ^ 32) data)
                  in (dn, buf, buf)
             else (0, sha3_buf sctx, data));
            (st, dn, src) = sha3_loop len (sha3_rsiz sctx) (sha3_rsizw sctx) (sha3_st sctx) src data dn
          in sctx\<lparr>sha3_st := st, sha3_buf := block_put buf 0 (take (len - dn) src), sha3_partial := len - dn\<rparr>
     else sctx\<lparr>sha3_buf := block_put (sha3_buf sctx) (sha3_partial sctx) data, sha3_partial := sha3_partial sctx + len\<rparr>)"

definition fio_sha3_final :: "fio_sha3_ctx \<Rightarrow> fio_sha3_ctx" where
  "fio_sha3_final sctx =
    (let inlen = sha3_partial sctx; rsiz = sha3_rsiz sctx;
         buf = (sha3_buf sctx)[inlen := 0x06];
         buf = block_put buf (inlen + 1) (replicate (rsiz - (inlen + 1)) 0);
         buf = buf[rsiz - 1 := buf ! (rsiz - 1) OR 0x80];
         st = keccakf (sha3_xor (sha3_rsizw sctx) (sha3_st sctx) buf)
     in sctx\<lparr>sha3_buf := buf, sha3_st := st, sha3_sha := take (sha3_md_len sctx) (concat (map (le_bytes 8) st))\<rparr>)"

subsection \<open>SHA-3 as FIPS 202 has it\<close>

text \<open>Absorbing the full blocks of a message.\<close>

function sponge :: "nat \<Rightarrow> 64 word list \<Rightarrow> 8 word list \<Rightarrow> 64 word list" where
  "sponge r st msg = (if r = 0 \<or> length msg < r then st else sponge r (keccakf (sha3_xor (r div 8) st msg)) (drop r msg))"
  by auto
termination by (relation "measure (\<lambda>(r, st, msg). length msg)") auto

declare sponge.simps [simp del]

definition sha3_pad :: "nat \<Rightarrow> nat \<Rightarrow> 8 word list" where
  "sha3_pad r n = (let k = r - n mod r in if k = 1 then [0x86] else 0x06 # replicate (k - 2) 0 @ [0x80])"

definition sha3 :: "nat \<Rightarrow> 8 word list \<Rightarrow> 8 word list" where
  "sha3 d msg = take d (concat (map (le_bytes 8) (sponge (200 - 2 * d) (replicate 25 0) (msg @ sha3_pad (200 - 2 * d) (length msg)))))"

lemma sha3_xor_take:
  assumes "8 * w \<le> r" "take r a = take r b"
  shows "sha3_xor w st a = sha3_xor w st b"
proof -
  have e: "take 8 (drop (8 * i) a) = take 8 (drop (8 * i) b)" if "i < w" for i
  proof -
    have "take 8 (drop (8 * i) (take r a)) = take 8 (drop (8 * i) (take r b))" using assms(2) by simp
    moreover have "8 \<le> r - 8 * i" using that assms(1) by linarith
    ultimately show ?thesis by (simp add: drop_take min_def)
  qed
  show ?thesis unfolding sha3_xor_def by (rule fold_cong) (use e in auto)
qed

lemma sponge_append:
  "0 < r \<Longrightarrow> sponge r st (a @ b) = sponge r (sponge r st a) (drop (r * (length a div r)) a @ b)"
proof (induction r st a rule: sponge.induct)
  case (1 r st a)
  show ?case
  proof (cases "length a < r")
    case True
    then show ?thesis using 1(2) by (simp add: sponge.simps [of r st a])
  next
    case False
    have x: "sha3_xor (r div 8) st (a @ b) = sha3_xor (r div 8) st a" using False by (intro sha3_xor_take [of _ r]) auto
    have "sponge r st (a @ b) = sponge r (keccakf (sha3_xor (r div 8) st a)) (drop r a @ b)"
      using False 1(2) x by (subst sponge.simps) simp
    also have "\<dots> = sponge r (sponge r st a) (drop (r * (length (drop r a) div r)) (drop r a) @ b)"
      using 1(1) False 1(2) by (simp add: sponge.simps [of r st a])
    also have "drop (r * (length (drop r a) div r)) (drop r a) = drop (r * (length a div r)) a"
      using False 1(2) by (simp add: le_div_geq algebra_simps)
    finally show ?thesis .
  qed
qed

lemma sha3_loop_sponge:
  assumes r: "0 < r" "8 * w \<le> r" "w = r div 8" and v: "v = pre @ data" "length pre = p" "length v < 2 ^ 31" and p: "p < r" "r < 2 ^ 31"
  shows "take r src = take r (drop (k * r) v) \<Longrightarrow> k * r + r \<le> length v \<Longrightarrow> dn = (k * r + 2 ^ 32 - p) mod 2 ^ 32 \<Longrightarrow> length v - k * r \<le> n + p \<Longrightarrow>
    sha3_loop n r w st src data dn = (sponge r st (drop (k * r) v), length v div r * r - p, drop (length v div r * r - p) data)"
proof (induction n arbitrary: k st src dn)
  case 0
  then show ?case using p by simp
next
  case (Suc n)
  have x: "sha3_xor w st src = sha3_xor w st (drop (k * r) v)" by (rule sha3_xor_take [OF r(2) Suc.prems(1)])
  have k1: "Suc k * r = k * r + r" by simp
  have m: "(Suc k * r + 2 ^ 32 - p) mod 2 ^ 32 = Suc k * r - p"
  proof -
    have "Suc k * r + 2 ^ 32 - p = (Suc k * r - p) + 2 ^ 32" using p k1 by linarith
    then show ?thesis using Suc.prems(2) v(3) k1 by (simp only: mod_add_self2) simp
  qed
  have "(dn + r) mod 2 ^ 32 = (k * r + 2 ^ 32 - p + r) mod 2 ^ 32" unfolding Suc.prems(3) by (rule mod_add_left_eq)
  also have "k * r + 2 ^ 32 - p + r = Suc k * r + 2 ^ 32 - p"
  proof -
    have "p \<le> 2 ^ 32" using p by simp
    then show ?thesis using k1 by linarith
  qed
  finally have d: "(dn + r) mod 2 ^ 32 = Suc k * r - p" unfolding m .
  have "\<not> length (drop (k * r) v) < r" using Suc.prems(2) by simp
  then have sp: "sponge r st (drop (k * r) v) = sponge r (keccakf (sha3_xor w st (drop (k * r) v))) (drop (Suc k * r) v)"
    using r by (subst sponge.simps) (simp add: add.commute)
  have dr: "drop (Suc k * r - p) data = drop (Suc k * r) v" using v p k1 by simp
  have "Suc k * r - p + (r - 1) < 2 ^ 32" using Suc.prems(2) v(3) p k1 by simp
  then have c: "(Suc k * r - p + (r - 1)) mod 2 ^ 32 < length data \<longleftrightarrow> Suc k * r + r \<le> length v"
    using v(1,2) p r(1) k1 by (simp only: mod_less) (simp, linarith)
  have step: "sha3_loop (Suc n) r w st src data dn =
      (if Suc k * r + r \<le> length v then sha3_loop n r w (keccakf (sha3_xor w st (drop (k * r) v))) (drop (Suc k * r) v) data (Suc k * r - p)
       else (keccakf (sha3_xor w st (drop (k * r) v)), Suc k * r - p, drop (Suc k * r - p) data))"
    unfolding sha3_loop.simps Let_def d c x dr by (rule refl)
  show ?case
  proof (cases "Suc k * r + r \<le> length v")
    case True
    have "length v - Suc k * r \<le> n + p" using Suc.prems(4) r(1) k1 by linarith
    then show ?thesis using step True sp Suc.IH [of "drop (Suc k * r) v" "Suc k" "Suc k * r - p"] m by simp
  next
    case False
    have "length v div r = Suc k" using False Suc.prems(2) r(1) by (intro div_nat_eqI) (simp_all add: algebra_simps)
    moreover have "length (drop (Suc k * r) v) < r" using False Suc.prems(2) by simp
    then have "sponge r st' (drop (Suc k * r) v) = st'" for st' by (subst sponge.simps) simp
    ultimately show ?thesis using step False sp by simp
  qed
qed

definition sha3_holds :: "nat \<Rightarrow> fio_sha3_ctx \<Rightarrow> 8 word list \<Rightarrow> bool" where
  "sha3_holds d c msg \<longleftrightarrow> sha3_md_len c = d \<and> sha3_rsiz c = 200 - 2 * d \<and> sha3_rsizw c = (200 - 2 * d) div 8 \<and> length (sha3_buf c) = 144 \<and>
     sha3_partial c = length msg mod (200 - 2 * d) \<and> sha3_st c = sponge (200 - 2 * d) (replicate 25 0) msg \<and>
     take (sha3_partial c) (sha3_buf c) = drop (length msg div (200 - 2 * d) * (200 - 2 * d)) msg"

lemma sponge_short: "length msg < r \<Longrightarrow> sponge r st msg = st"
  by (subst sponge.simps) simp

lemma sha3_init_holds: "d < 100 \<Longrightarrow> sha3_holds d (fio_sha3_init c d) []"
  by (simp add: sha3_holds_def fio_sha3_init_def sponge_short)

lemma sha3_rate: "d \<in> {28, 32, 48, 64} \<Longrightarrow> 0 < 200 - 2 * d \<and> 200 - 2 * d \<le> 144 \<and> 8 * ((200 - 2 * d) div 8) = 200 - 2 * (d :: nat)"
  by auto

lemma sha3_update_holds:
  assumes d: "d \<in> {28, 32, 48, 64}" and h: "sha3_holds d c msg" and len: "length data < 2 ^ 30"
  shows "sha3_holds d (fio_sha3_update c data) (msg @ data)"
proof -
  define r p pre v where "r = 200 - 2 * d" and "p = sha3_partial c" and "pre = take p (sha3_buf c)" and "v = pre @ data"
  have r: "0 < r" "r \<le> 144" "8 * (r div 8) = r" using sha3_rate [OF d] by (simp_all add: r_def)
  note h' = h [unfolded sha3_holds_def, folded r_def p_def]
  have p3: "p = length msg mod r" "length (sha3_buf c) = 144" using h' by blast+
  have p1: "p < r" using p3 r(1) by simp
  then have p: "p < r" "length pre = p" "p = length msg mod r" using p3 r(2) by (simp_all add: pre_def)
  have pre: "pre = drop (length msg div r * r) msg" unfolding pre_def using h' by blast
  have hc: "sha3_md_len c = d" "sha3_rsiz c = r" "sha3_rsizw c = r div 8" "sha3_st c = sponge r (replicate 25 0) msg" using h' by blast+
  have lv: "length v = p + length data" by (simp add: v_def p(2))
  have lm: "length (msg @ data) = length msg div r * r + length v" using p(3) by (simp add: lv)
  have q: "length (msg @ data) mod r = length v mod r" "length (msg @ data) div r = length msg div r + length v div r"
    unfolding lm using r(1) by simp_all
  have sp: "sponge r (replicate 25 0) (msg @ data) = sponge r (sha3_st c) v"
    using sponge_append [OF r(1), of _ msg data] hc pre by (simp add: v_def mult.commute)
  have dr: "drop (length (msg @ data) div r * r) (msg @ data) = drop (length v div r * r) v"
  proof -
    have "drop (length (msg @ data) div r * r) (msg @ data) = drop (length v div r * r) (drop (length msg div r * r) (msg @ data))"
      unfolding q(2) by (simp add: algebra_simps)
    also have "drop (length msg div r * r) (msg @ data) = v" using pre div_times_less_eq_dividend [of "length msg" r] by (simp add: v_def)
    finally show ?thesis .
  qed
  have m32: "(p + length data) mod 2 ^ 32 = p + length data" using p(1) r(2) len by simp
  show ?thesis
  proof (cases "p + length data > r - 1")
    case False
    then have "length v < r" using lv r(1) by simp
    then have s: "sponge r (sha3_st c) v = sha3_st c" "length v div r = 0" "length v mod r = p + length data" by (simp_all add: sponge_short lv)
    have u: "fio_sha3_update c data = c\<lparr>sha3_buf := block_put (sha3_buf c) p data, sha3_partial := p + length data\<rparr>"
      using False hc m32 by (simp add: fio_sha3_update_def p_def [symmetric])
    have b: "p + length data \<le> length (sha3_buf c)" using False p3(2) r by simp
    show ?thesis unfolding sha3_holds_def r_def [symmetric] u sp s(1) dr q(1) s(3) s(2)
      using hc p3(2) block_put_len [OF b] block_put_take [OF b] by (simp add: v_def pre_def)
  next
    case True
    define dn buf src where "dn = (if p \<noteq> 0 then 2 ^ 32 - p else 0)" and
      "buf = (if p \<noteq> 0 then block_put (sha3_buf c) p (take (r - p) data) else sha3_buf c)" and "src = (if p \<noteq> 0 then buf else data)"
    have rp: "(2 ^ 32 - p + r) mod 2 ^ 32 = r - p"
    proof -
      have "2 ^ 32 - p + r = (r - p) + 2 ^ 32" using p(1) r(2) by simp
      then show ?thesis using r(2) by (simp only: mod_add_self2) simp
    qed
    have lb: "length buf = 144" using p3(2) p(1) r(2) True by (simp add: buf_def block_put_def)
    have src: "take r src = take r (drop (0 * r) v)"
    proof (cases "p = 0")
      case True
      then show ?thesis using p(2) by (simp add: src_def v_def)
    next
      case False
      have l: "length (take (r - p) data) = r - p" using True p(1) by simp
      have "take (p + length (take (r - p) data)) buf = pre @ take (r - p) data"
        using False block_put_take [of p "take (r - p) data" "sha3_buf c"] p3(2) p(1) r(2) l by (simp add: buf_def pre_def)
      then show ?thesis using False l p(1,2) by (simp add: src_def v_def)
    qed
    have dn: "dn = (0 * r + 2 ^ 32 - p) mod 2 ^ 32" using p(1) r(2) by (simp add: dn_def)
    have lv': "length v < 2 ^ 31" using lv len p(1) r(2) by simp
    define e where "e = length v div r * r - p"
    have loop: "sha3_loop (length data) r (r div 8) (sha3_st c) src data dn = (sponge r (sha3_st c) v, e, drop e data)"
      using sha3_loop_sponge [OF r(1) _ refl v_def p(2) lv' p(1) _ src _ dn] r True lv by (simp add: e_def)
    have "r \<le> length v" using True lv r(1) by linarith
    then have "1 \<le> length v div r" using r(1) by (simp add: Suc_le_eq div_greater_zero_iff)
    then have "r \<le> length v div r * r" by simp
    then have "p \<le> length v div r * r" using p(1) by linarith
    then have e: "length data - e = length v mod r" "drop e data = drop (length v div r * r) v"
      using lv p(2) minus_div_mult_eq_mod [of "length v" r] by (simp_all add: e_def v_def)
    have u: "fio_sha3_update c data = c\<lparr>sha3_st := sponge r (sha3_st c) v, sha3_buf := block_put buf 0 (take (length data - e) (drop e data)), sha3_partial := length data - e\<rparr>"
      using True hc m32 rp loop unfolding fio_sha3_update_def
      by (simp add: p_def [symmetric] Let_def dn_def buf_def src_def split: if_splits)
    have l: "length (drop (length v div r * r) v) = length v mod r" by (simp add: minus_div_mult_eq_mod)
    have b: "0 + length (drop (length v div r * r) v) \<le> length buf" using l lb r(1,2) mod_less_divisor [OF r(1), of "length v"] by linarith
    show ?thesis unfolding sha3_holds_def r_def [symmetric] u sp dr q(1) e
      using hc lb l block_put_len [OF b] block_put_take [OF b] by simp
  qed
qed

lemma sha3_final_block:
  assumes p: "p < r" and b: "length buf = 144" "r \<le> 144" "take p buf = rest" "length rest = p" and n: "n mod r = p"
  defines "b1 \<equiv> block_put (buf[p := 0x06]) (p + 1) (replicate (r - (p + 1)) 0)"
  shows "take r (b1[r - 1 := b1 ! (r - 1) OR 0x80]) = rest @ sha3_pad r n"
proof -
  have b1: "take r b1 = rest @ 0x06 # replicate (r - (p + 1)) 0"
  proof -
    have "take (p + 1) (buf[p := 0x06]) = rest @ [0x06]" using p b by (simp add: take_Suc_conv_app_nth)
    moreover have "p + 1 + length (replicate (r - (p + 1)) (0 :: 8 word)) = r" using p by simp
    ultimately show ?thesis using block_put_take [of "p + 1" "replicate (r - (p + 1)) 0" "buf[p := 0x06]"] p b by (simp add: b1_def)
  qed
  have l: "length b1 = 144" using p b by (simp add: b1_def block_put_def)
  have "take r (b1[r - 1 := b1 ! (r - 1) OR 0x80]) = (take r b1)[r - 1 := take r b1 ! (r - 1) OR 0x80]"
    using l p b by (simp add: take_update_swap)
  also have "\<dots> = rest @ sha3_pad r n"
  proof (cases "r - p = 1")
    case True
    then have "r = Suc p" by simp
    then show ?thesis using b1 b(4) n by (simp add: sha3_pad_def list_update_append nth_append)
  next
    case False
    then obtain k where k: "r = p + 2 + k" using p by (metis Suc_leI add_2_eq_Suc' add_Suc_right diff_add_inverse le_Suc_ex le_antisym not_less_eq_eq plus_1_eq_Suc)
    have "replicate (Suc k) (0 :: 8 word) = replicate k 0 @ [0]" by (simp add: replicate_append_same)
    then show ?thesis using b1 b(4) n k by (simp add: sha3_pad_def list_update_append nth_append)
  qed
  finally show ?thesis .
qed

lemma sha3_final_digest:
  assumes d: "d \<in> {28, 32, 48, 64}" and h: "sha3_holds d c msg"
  shows "sha3_sha (fio_sha3_final c) = sha3 d msg"
proof -
  define r p where "r = 200 - 2 * d" and "p = sha3_partial c"
  define rest where "rest = drop (length msg div r * r) msg"
  define b1 where "b1 = block_put ((sha3_buf c)[p := 0x06]) (p + 1) (replicate (r - (p + 1)) 0)"
  define b2 where "b2 = b1[r - 1 := b1 ! (r - 1) OR 0x80]"
  have r: "0 < r" "r \<le> 144" "8 * (r div 8) = r" using sha3_rate [OF d] by (simp_all add: r_def)
  note h' = h [unfolded sha3_holds_def, folded r_def p_def]
  have hc: "sha3_md_len c = d" "sha3_rsiz c = r" "sha3_rsizw c = r div 8" "sha3_st c = sponge r (replicate 25 0) msg"
    "length (sha3_buf c) = 144" "p = length msg mod r" "take p (sha3_buf c) = rest" using h' unfolding rest_def by blast+
  have lr: "length rest = p" using hc(6) by (simp add: rest_def minus_div_mult_eq_mod)
  have p: "p < r" using hc(6) r(1) by simp
  have pad: "take r b2 = rest @ sha3_pad r (length msg)"
    unfolding b2_def b1_def using sha3_final_block [OF p hc(5) r(2) hc(7) lr] hc(6) by simp
  then have lp: "length (rest @ sha3_pad r (length msg)) = r" using hc(5) p r(2) lr
    by (metis b1_def b2_def block_put_len length_list_update length_replicate length_take min.absorb2 Suc_eq_plus1 Suc_leI add_diff_inverse_nat less_Suc_eq_le not_less)
  have "sponge r (replicate 25 0) (msg @ sha3_pad r (length msg)) = sponge r (sha3_st c) (rest @ sha3_pad r (length msg))"
    using sponge_append [OF r(1), of _ msg "sha3_pad r (length msg)"] hc(4) by (simp add: rest_def mult.commute)
  also have "\<dots> = keccakf (sha3_xor (r div 8) (sha3_st c) (rest @ sha3_pad r (length msg)))"
    using lp r(1) by (subst sponge.simps) (simp add: sponge_short)
  also have "sha3_xor (r div 8) (sha3_st c) (rest @ sha3_pad r (length msg)) = sha3_xor (r div 8) (sha3_st c) b2"
    using pad lp r(3) by (intro sha3_xor_take [of _ r]) simp_all
  finally have "sponge r (replicate 25 0) (msg @ sha3_pad r (length msg)) = keccakf (sha3_xor (r div 8) (sha3_st c) b2)" .
  moreover have "sha3_sha (fio_sha3_final c) = take d (concat (map (le_bytes 8) (keccakf (sha3_xor (r div 8) (sha3_st c) b2))))"
    unfolding fio_sha3_final_def Let_def b2_def b1_def p_def hc(1-3) by simp
  ultimately show ?thesis by (simp only: sha3_def r_def)
qed

text \<open>The sponge with the permutation of FIPS 202 in place of the code's.\<close>

function fips_sponge :: "nat \<Rightarrow> 64 word list \<Rightarrow> 8 word list \<Rightarrow> 64 word list" where
  "fips_sponge r st msg = (if r = 0 \<or> length msg < r then st
     else fips_sponge r (fold fips_round [0..<24] (map (\<lambda>i. if i < r div 8 then st ! i XOR le_word (take 8 (drop (8 * i) msg)) else st ! i) [0..<25])) (drop r msg))"
  by auto
termination by (relation "measure (\<lambda>(r, st, msg). length msg)") auto

declare fips_sponge.simps [simp del]

definition fips_sha3 :: "nat \<Rightarrow> 8 word list \<Rightarrow> 8 word list" where
  "fips_sha3 d msg = take d (concat (map (le_bytes 8) (fips_sponge (200 - 2 * d) (replicate 25 0) (msg @ sha3_pad (200 - 2 * d) (length msg)))))"

lemma sha3_xor_map:
  assumes "length st = 25" "w \<le> 25"
  shows "sha3_xor w st src = map (\<lambda>i. if i < w then st ! i XOR le_word (take 8 (drop (8 * i) src)) else st ! i) [0..<25]"
  unfolding sha3_xor_def using fold_upd [of "[0..<w]" st "\<lambda>i x. x XOR le_word (take 8 (drop (8 * i) src))"] assms by simp

lemma sponge_fips: "length st = 25 \<Longrightarrow> r \<le> 200 \<Longrightarrow> sponge r st msg = fips_sponge r st msg"
proof (induction r st msg rule: sponge.induct)
  case (1 r st msg)
  show ?case
  proof (cases "r = 0 \<or> length msg < r")
    case True
    then show ?thesis by (subst sponge.simps, subst fips_sponge.simps) simp
  next
    case False
    have x: "sha3_xor (r div 8) st msg = map (\<lambda>i. if i < r div 8 then st ! i XOR le_word (take 8 (drop (8 * i) msg)) else st ! i) [0..<25]"
      using 1(2,3) by (intro sha3_xor_map) simp_all
    then have l: "length (sha3_xor (r div 8) st msg) = 25" by simp
    have "sponge r (keccakf (sha3_xor (r div 8) st msg)) (drop r msg) = fips_sponge r (keccakf (sha3_xor (r div 8) st msg)) (drop r msg)"
      by (rule 1(1) [OF False keccakf_fips(2) [OF l] 1(3)])
    then show ?thesis using False unfolding keccakf_fips(1) [OF l] x by (subst sponge.simps, subst fips_sponge.simps) (simp add: keccakf_fips(1) [OF l] flip: x)
  qed
qed

lemma sha3_fips: "sha3 d msg = fips_sha3 d msg"
  unfolding sha3_def fips_sha3_def by (simp add: sponge_fips)

text \<open>
  C28. The digest of data that comes in pieces, for each of the four sizes, is the SHA-3 of FIPS 202 of the whole.
\<close>

theorem fio_sha3_correct:
  assumes "d \<in> {28, 32, 48, 64}" "\<forall>data \<in> set pieces. length data < 2 ^ 30"
  shows "sha3_sha (fio_sha3_final (foldl fio_sha3_update (fio_sha3_init c d) pieces)) = fips_sha3 d (concat pieces)"
proof -
  have "sha3_holds d c' msg \<Longrightarrow> \<forall>data \<in> set ps. length data < 2 ^ 30 \<Longrightarrow> sha3_holds d (foldl fio_sha3_update c' ps) (msg @ concat ps)" for c' msg ps
  proof (induction ps arbitrary: c' msg)
    case (Cons q ps)
    then show ?case using sha3_update_holds [OF assms(1) Cons.prems(1), of q] Cons.IH [of "fio_sha3_update c' q" "msg @ q"] by simp
  qed simp
  moreover have "sha3_holds d (fio_sha3_init c d) []" by (rule sha3_init_holds) (use assms(1) in auto)
  ultimately have "sha3_holds d (foldl fio_sha3_update (fio_sha3_init c d) pieces) (concat pieces)" using assms(2) by fastforce
  then show ?thesis unfolding sha3_fips [symmetric] by (rule sha3_final_digest [OF assms(1)])
qed

theorem fio_sha3_correct_witness:
  "sha3_sha (fio_sha3_final (foldl fio_sha3_update (fio_sha3_init
      \<lparr>sha3_st = [], sha3_md_len = 0, sha3_rsiz = 0, sha3_rsizw = 0, sha3_partial = 0, sha3_buf = [], sha3_sha = []\<rparr> 32) [[1, 2], [3]])) =
    fips_sha3 32 [1, 2, 3]"
  using fio_sha3_correct [of 32 "[[1, 2], [3]]"] by simp

end
