(* ===== verification/Fio_Sha512.thy ===== *)
theory Fio_Sha512
  imports Fio_Md5
begin

text \<open>
  The SHA-512 of fio, \<open>fio/crc/sha512.c\<close>, which has an initialisation and an update but no finalisation: what its users
  compare is the buffer of the last block.
\<close>

unbundle bit_operations_syntax

definition sha512_Ch :: "64 word \<Rightarrow> 64 word \<Rightarrow> 64 word \<Rightarrow> 64 word" where
  "sha512_Ch x y z = z XOR (x AND (y XOR z))"

definition sha512_Maj :: "64 word \<Rightarrow> 64 word \<Rightarrow> 64 word \<Rightarrow> 64 word" where
  "sha512_Maj x y z = (x AND y) OR (z AND (x OR y))"

definition ROR64 :: "64 word \<Rightarrow> nat \<Rightarrow> 64 word" where
  "ROR64 x y = drop_bit y x OR push_bit (64 - y) x"

definition sha512_K :: "64 word list" where
  "sha512_K = concat [
    [0x428a2f98d728ae22, 0x7137449123ef65cd, 0xb5c0fbcfec4d3b2f],
    [0xe9b5dba58189dbbc, 0x3956c25bf348b538, 0x59f111f1b605d019],
    [0x923f82a4af194f9b, 0xab1c5ed5da6d8118, 0xd807aa98a3030242],
    [0x12835b0145706fbe, 0x243185be4ee4b28c, 0x550c7dc3d5ffb4e2],
    [0x72be5d74f27b896f, 0x80deb1fe3b1696b1, 0x9bdc06a725c71235],
    [0xc19bf174cf692694, 0xe49b69c19ef14ad2, 0xefbe4786384f25e3],
    [0x0fc19dc68b8cd5b5, 0x240ca1cc77ac9c65, 0x2de92c6f592b0275],
    [0x4a7484aa6ea6e483, 0x5cb0a9dcbd41fbd4, 0x76f988da831153b5],
    [0x983e5152ee66dfab, 0xa831c66d2db43210, 0xb00327c898fb213f],
    [0xbf597fc7beef0ee4, 0xc6e00bf33da88fc2, 0xd5a79147930aa725],
    [0x06ca6351e003826f, 0x142929670a0e6e70, 0x27b70a8546d22ffc],
    [0x2e1b21385c26c926, 0x4d2c6dfc5ac42aed, 0x53380d139d95b3df],
    [0x650a73548baf63de, 0x766a0abb3c77b2a8, 0x81c2c92e47edaee6],
    [0x92722c851482353b, 0xa2bfe8a14cf10364, 0xa81a664bbc423001],
    [0xc24b8b70d0f89791, 0xc76c51a30654be30, 0xd192e819d6ef5218],
    [0xd69906245565a910, 0xf40e35855771202a, 0x106aa07032bbd1b8],
    [0x19a4c116b8d2d0c8, 0x1e376c085141ab53, 0x2748774cdf8eeb99],
    [0x34b0bcb5e19b48a8, 0x391c0cb3c5c95a63, 0x4ed8aa4ae3418acb],
    [0x5b9cca4f7763e373, 0x682e6ff3d6b2b8a3, 0x748f82ee5defb2fc],
    [0x78a5636f43172f60, 0x84c87814a1f0ab72, 0x8cc702081a6439ec],
    [0x90befffa23631e28, 0xa4506cebde82bde9, 0xbef9a3f7b2c67915],
    [0xc67178f2e372532b, 0xca273eceea26619c, 0xd186b8c721c0c207],
    [0xeada7dd6cde0eb1e, 0xf57d4f7fee6ed178, 0x06f067aa72176fba],
    [0x0a637dc5a2c898a6, 0x113f9804bef90dae, 0x1b710b35131c471b],
    [0x28db77f523047d84, 0x32caab7b40c72493, 0x3c9ebe0a15c9bebc],
    [0x431d67c49c100d4c, 0x4cc5d4becb3e42b6, 0x597f299cfc657e2a],
    [0x5fcb6fab3ad6faec, 0x6c44198c4a475817]]"

definition sha512_e0 :: "64 word \<Rightarrow> 64 word" where
  "sha512_e0 x = ROR64 x 28 XOR ROR64 x 34 XOR ROR64 x 39"

definition sha512_e1 :: "64 word \<Rightarrow> 64 word" where
  "sha512_e1 x = ROR64 x 14 XOR ROR64 x 18 XOR ROR64 x 41"

definition sha512_s0 :: "64 word \<Rightarrow> 64 word" where
  "sha512_s0 x = ROR64 x 1 XOR ROR64 x 8 XOR drop_bit 7 x"

definition sha512_s1 :: "64 word \<Rightarrow> 64 word" where
  "sha512_s1 x = ROR64 x 19 XOR ROR64 x 61 XOR drop_bit 6 x"

definition sha512_load :: "nat \<Rightarrow> 64 word list \<Rightarrow> 8 word list \<Rightarrow> 64 word list" where
  "sha512_load i W input = W[i := le_word (rev (take 8 (drop (8 * i) input)))]"

definition sha512_blend :: "nat \<Rightarrow> 64 word list \<Rightarrow> 64 word list" where
  "sha512_blend i W = W[i := sha512_s1 (W ! (i - 2)) + W ! (i - 7) + sha512_s0 (W ! (i - 15)) + W ! (i - 16)]"

text \<open>One line of the loop: it changes the registers \<open>d\<close> and \<open>h\<close>.\<close>

definition sha512_iter :: "64 word \<Rightarrow> 64 word \<Rightarrow> 64 word \<Rightarrow> 64 word \<Rightarrow> 64 word \<Rightarrow> 64 word \<Rightarrow> 64 word \<Rightarrow> 64 word \<Rightarrow>
    64 word \<Rightarrow> 64 word \<Rightarrow> 64 word \<times> 64 word" where
  "sha512_iter a b c d e f g h k w =
    (let t1 = h + sha512_e1 e + sha512_Ch e f g + k + w; t2 = sha512_e0 a + sha512_Maj a b c in (d + t1, t1 + t2))"

type_synonym regs8 = "64 word \<times> 64 word \<times> 64 word \<times> 64 word \<times> 64 word \<times> 64 word \<times> 64 word \<times> 64 word"

fun sha512_eight :: "64 word list \<Rightarrow> nat \<Rightarrow> regs8 \<Rightarrow> regs8" where
  "sha512_eight W i (a, b, c, d, e, f, g, h) =
    (let (d, h) = sha512_iter a b c d e f g h (sha512_K ! i) (W ! i);
         (c, g) = sha512_iter h a b c d e f g (sha512_K ! (i + 1)) (W ! (i + 1));
         (b, f) = sha512_iter g h a b c d e f (sha512_K ! (i + 2)) (W ! (i + 2));
         (a, e) = sha512_iter f g h a b c d e (sha512_K ! (i + 3)) (W ! (i + 3));
         (h, d) = sha512_iter e f g h a b c d (sha512_K ! (i + 4)) (W ! (i + 4));
         (g, c) = sha512_iter d e f g h a b c (sha512_K ! (i + 5)) (W ! (i + 5));
         (f, b) = sha512_iter c d e f g h a b (sha512_K ! (i + 6)) (W ! (i + 6));
         (e, a) = sha512_iter b c d e f g h a (sha512_K ! (i + 7)) (W ! (i + 7))
     in (a, b, c, d, e, f, g, h))"

definition sha512_transform :: "64 word list \<Rightarrow> 8 word list \<Rightarrow> 64 word list" where
  "sha512_transform st input =
    (let W = fold (\<lambda>i W. sha512_load i W input) [0..<16] (replicate 80 0);
         W = fold sha512_blend [16..<80] W;
         (a, b, c, d, e, f, g, h) = fold (\<lambda>j. sha512_eight W (8 * j)) [0..<10]
           (st ! 0, st ! 1, st ! 2, st ! 3, st ! 4, st ! 5, st ! 6, st ! 7)
     in [st ! 0 + a, st ! 1 + b, st ! 2 + c, st ! 3 + d, st ! 4 + e, st ! 5 + f, st ! 6 + g, st ! 7 + h])"

record fio_sha512_ctx =
  sha512_state :: "64 word list"
  sha512_count :: "32 word list"
  sha512_buf :: "8 word list"

definition fio_sha512_init :: "fio_sha512_ctx \<Rightarrow> fio_sha512_ctx" where
  "fio_sha512_init sctx = sctx\<lparr>
     sha512_state := [0x6a09e667f3bcc908, 0xbb67ae8584caa73b, 0x3c6ef372fe94f82b, 0xa54ff53a5f1d36f1,
       0x510e527fade682d1, 0x9b05688c2b3e6c1f, 0x1f83d9abfb41bd6b, 0x5be0cd19137e2179],
     sha512_count := [0, 0, 0, 0]\<rparr>"

text \<open>The four words of the bit count; a carry out of the lowest one is the only case in which the others change.\<close>

definition sha512_add_bits :: "32 word list \<Rightarrow> 32 word \<Rightarrow> 32 word list" where
  "sha512_add_bits count len =
    (let count = count[0 := count ! 0 + push_bit 3 len] in
     if count ! 0 < push_bit 3 len
     then let count = count[1 := count ! 1 + 1];
              count = (if count ! 1 < 1
                       then let count = count[2 := count ! 2 + 1]
                            in if count ! 2 < 1 then count[3 := count ! 3 + 1] else count
                       else count)
          in count[1 := count ! 1 + drop_bit 29 len]
     else count)"

text \<open>The \<open>for\<close> loop over the blocks of the data; every turn takes 128 bytes, so the length is fuel enough.\<close>

fun sha512_blocks :: "nat \<Rightarrow> 64 word list \<Rightarrow> 8 word list \<Rightarrow> nat \<Rightarrow> 64 word list \<times> nat" where
  "sha512_blocks 0 st data i = (st, i)"
| "sha512_blocks (Suc n) st data i =
    (if (i + 127) mod 2 ^ 32 < length data
     then sha512_blocks n (sha512_transform st (take 128 (drop i data))) data ((i + 128) mod 2 ^ 32)
     else (st, i))"

definition fio_sha512_update :: "fio_sha512_ctx \<Rightarrow> 8 word list \<Rightarrow> fio_sha512_ctx" where
  "fio_sha512_update sctx data =
    (let len = length data;
         idx = unat (drop_bit 3 (sha512_count sctx ! 0) AND 0x7F);
         sctx = sctx\<lparr>sha512_count := sha512_add_bits (sha512_count sctx) (of_nat len)\<rparr>;
         part_len = 128 - idx;
         (sctx, i, idx) =
           (if part_len \<le> len
            then let buf = block_put (sha512_buf sctx) idx (take part_len data);
                     (st, i) = sha512_blocks len (sha512_transform (sha512_state sctx) buf) data part_len
                 in (sctx\<lparr>sha512_buf := buf, sha512_state := st\<rparr>, i, 0)
            else (sctx, 0, idx))
     in sctx\<lparr>sha512_buf := block_put (sha512_buf sctx) idx (drop i data)\<rparr>)"

lemma sha512_blocks_end:
  "i \<le> length data \<Longrightarrow> length data < 2 ^ 32 - 128 \<Longrightarrow> length data - i \<le> n \<Longrightarrow>
    snd (sha512_blocks n st data i) = i + 128 * ((length data - i) div 128)"
proof (induction n arbitrary: st i)
  case (Suc n)
  have m: "(i + 127) mod 2 ^ 32 = i + 127" "(i + 128) mod 2 ^ 32 = i + 128" using Suc.prems by simp_all
  show ?case
  proof (cases "i + 127 < length data")
    case True
    have "snd (sha512_blocks n (sha512_transform st (take 128 (drop i data))) data (i + 128)) =
        i + 128 + 128 * ((length data - (i + 128)) div 128)"
      using True Suc.prems by (intro Suc.IH) auto
    moreover have "(length data - i) div 128 = Suc ((length data - (i + 128)) div 128)" using True by (simp add: le_div_geq)
    ultimately show ?thesis using True m by simp
  next
    case False
    then show ?thesis using m by simp
  qed
qed simp

text \<open>
  The buffer after one update of a fresh context: the first 128 bytes of the data, with the bytes after the last
  full block written over their beginning.
\<close>

lemma sha512_buffer:
  assumes "length (sha512_buf sctx) = 128" "128 \<le> length data" "length data < 2 ^ 32 - 128"
  shows "sha512_buf (fio_sha512_update (fio_sha512_init sctx) data) =
    drop (128 * (length data div 128)) data @ drop (length data mod 128) (take 128 data)"
proof -
  let ?b = "take 128 data"
  obtain st i where si: "sha512_blocks (length data) (sha512_transform (sha512_state (fio_sha512_init sctx)) ?b) data 128 = (st, i)"
    by fastforce
  then have "i = 128 + 128 * ((length data - 128) div 128)" using sha512_blocks_end [of 128 data "length data"] assms by (metis diff_le_self snd_conv)
  also have "\<dots> = 128 * (length data div 128)" using assms(2) by (simp add: le_div_geq)
  finally have i: "i = 128 * (length data div 128)" .
  have l: "length (drop i data) = length data mod 128" using i by (simp add: minus_mult_div_eq_mod)
  have "block_put (sha512_buf sctx) 0 ?b = ?b" using assms by (simp add: block_put_def)
  then have "sha512_buf (fio_sha512_update (fio_sha512_init sctx) data) = block_put ?b 0 (drop i data)"
    using si assms(2) by (simp add: fio_sha512_update_def fio_sha512_init_def Let_def)
  also have "\<dots> = drop i data @ drop (length data mod 128) ?b" using l by (simp add: block_put_def)
  finally show ?thesis using i by simp
qed

text \<open>
  C33. What is compared says nothing of the bytes between the first block and the last, incomplete one: two
  buffers that agree on the tail and on the rest of the first block give the same value.
\<close>

theorem sha512_ignores_middle:
  assumes "length (sha512_buf c) = 128" "length (sha512_buf c') = 128" "length data = n" "length data' = n" "128 \<le> n" "n < 2 ^ 32 - 128"
    "drop (128 * (n div 128)) data = drop (128 * (n div 128)) data'" "drop (n mod 128) (take 128 data) = drop (n mod 128) (take 128 data')"
  shows "sha512_buf (fio_sha512_update (fio_sha512_init c) data) = sha512_buf (fio_sha512_update (fio_sha512_init c') data')"
proof -
  have "sha512_buf (fio_sha512_update (fio_sha512_init c) data) = drop (128 * (n div 128)) data @ drop (n mod 128) (take 128 data)"
    using sha512_buffer [of c data] assms(1,3,5,6) by simp
  moreover have "sha512_buf (fio_sha512_update (fio_sha512_init c') data') = drop (128 * (n div 128)) data' @ drop (n mod 128) (take 128 data')"
    using sha512_buffer [of c' data'] assms(2,4,5,6) by simp
  ultimately show ?thesis using assms(7,8) by simp
qed

theorem sha512_ignores_middle_witness:
  "(replicate 384 0)[200 := 1] \<noteq> (replicate 384 0 :: 8 word list) \<and>
   sha512_buf (fio_sha512_update (fio_sha512_init \<lparr>sha512_state = [], sha512_count = [], sha512_buf = replicate 128 0\<rparr>) ((replicate 384 0)[200 := 1])) =
   sha512_buf (fio_sha512_update (fio_sha512_init \<lparr>sha512_state = [], sha512_count = [], sha512_buf = replicate 128 7\<rparr>) (replicate 384 0))"
proof -
  let ?d = "(replicate 384 0)[200 := 1] :: 8 word list"
  have "?d ! 200 \<noteq> replicate 384 0 ! 200" by simp
  then have "?d \<noteq> replicate 384 0" by metis
  moreover have "take 128 ?d = take 128 (replicate 384 0)" by (rule take_update_cancel) simp
  ultimately show ?thesis
    using sha512_ignores_middle [of "\<lparr>sha512_state = [], sha512_count = [], sha512_buf = replicate 128 0\<rparr>"
        "\<lparr>sha512_state = [], sha512_count = [], sha512_buf = replicate 128 7\<rparr>" ?d 384 "replicate 384 0"] by simp
qed

end
