(* ===== verification/Fio_Xxhash.thy ===== *)
theory Fio_Xxhash
  imports Fio_Md5
begin

text \<open>
  The xxHash of fio, \<open>fio/crc/xxhash.c\<close>, on a little-endian machine: the function on a whole buffer and the one that
  takes the data in pieces, which are shown to agree.
\<close>

unbundle bit_operations_syntax

definition XXH_rotl32 :: "32 word \<Rightarrow> nat \<Rightarrow> 32 word" where
  "XXH_rotl32 x r = push_bit r x OR drop_bit (32 - r) x"

definition PRIME32_1 :: "32 word" where "PRIME32_1 = 2654435761"
definition PRIME32_2 :: "32 word" where "PRIME32_2 = 2246822519"
definition PRIME32_3 :: "32 word" where "PRIME32_3 = 3266489917"
definition PRIME32_4 :: "32 word" where "PRIME32_4 = 668265263"
definition PRIME32_5 :: "32 word" where "PRIME32_5 = 374761393"

definition XXH_readLE32 :: "8 word list \<Rightarrow> 32 word" where
  "XXH_readLE32 p = le_word (take 4 p)"

definition xxh_lane :: "32 word \<Rightarrow> 8 word list \<Rightarrow> 32 word" where
  "xxh_lane v p = XXH_rotl32 (v + XXH_readLE32 p * PRIME32_2) 13 * PRIME32_1"

type_synonym lanes = "32 word \<times> 32 word \<times> 32 word \<times> 32 word"

fun xxh_stripe :: "lanes \<Rightarrow> 8 word list \<Rightarrow> lanes" where
  "xxh_stripe (v1, v2, v3, v4) p = (xxh_lane v1 p, xxh_lane v2 (drop 4 p), xxh_lane v3 (drop 8 p), xxh_lane v4 (drop 12 p))"

text \<open>The loop over the stripes of 16 bytes, with what is left of the data.\<close>

function xxh_stripes :: "lanes \<Rightarrow> 8 word list \<Rightarrow> lanes \<times> 8 word list" where
  "xxh_stripes v p = (if 16 \<le> length p then xxh_stripes (xxh_stripe v p) (drop 16 p) else (v, p))"
  by auto
termination by (relation "measure (\<lambda>(v, p). length p)") auto

declare xxh_stripes.simps [simp del]

definition xxh_start :: "32 word \<Rightarrow> lanes" where
  "xxh_start seed = (seed + PRIME32_1 + PRIME32_2, seed + PRIME32_2, seed + 0, seed - PRIME32_1)"

fun xxh_merge :: "lanes \<Rightarrow> 32 word" where
  "xxh_merge (v1, v2, v3, v4) = XXH_rotl32 v1 1 + XXH_rotl32 v2 7 + XXH_rotl32 v3 12 + XXH_rotl32 v4 18"

fun xxh_bytes :: "32 word \<Rightarrow> 8 word list \<Rightarrow> 32 word" where
  "xxh_bytes h32 [] = h32"
| "xxh_bytes h32 (b # p) = xxh_bytes (XXH_rotl32 (h32 + ucast b * PRIME32_5) 11 * PRIME32_1) p"

function xxh_words :: "32 word \<Rightarrow> 8 word list \<Rightarrow> 32 word" where
  "xxh_words h32 p =
    (if 4 \<le> length p then xxh_words (XXH_rotl32 (h32 + XXH_readLE32 p * PRIME32_3) 17 * PRIME32_4) (drop 4 p) else xxh_bytes h32 p)"
  by auto
termination by (relation "measure (\<lambda>(h, p). length p)") auto

declare xxh_words.simps [simp del]

definition xxh_avalanche :: "32 word \<Rightarrow> 32 word" where
  "xxh_avalanche h32 =
    (let h32 = h32 XOR drop_bit 15 h32; h32 = h32 * PRIME32_2; h32 = h32 XOR drop_bit 13 h32; h32 = h32 * PRIME32_3
     in h32 XOR drop_bit 16 h32)"

definition XXH32 :: "8 word list \<Rightarrow> 32 word \<Rightarrow> 32 word" where
  "XXH32 input seed =
    (let (h32, p) = (if 16 \<le> length input
                     then let (v, p) = xxh_stripes (xxh_start seed) input in (xxh_merge v, p)
                     else (seed + PRIME32_5, input))
     in xxh_avalanche (xxh_words (h32 + of_nat (length input)) p))"

record XXH_state32 =
  xxh_total_len :: nat
  xxh_seed :: "32 word"
  xxh_v :: lanes
  xxh_memsize :: nat
  xxh_memory :: "8 word list"

text \<open>\<open>XXH32_init\<close> allocates the state, whose memory starts with any contents.\<close>

definition XXH32_resetState :: "XXH_state32 \<Rightarrow> 32 word \<Rightarrow> XXH_state32" where
  "XXH32_resetState state seed = state\<lparr>xxh_seed := seed, xxh_v := xxh_start seed, xxh_total_len := 0, xxh_memsize := 0\<rparr>"

definition XXH32_init :: "8 word list \<Rightarrow> 32 word \<Rightarrow> XXH_state32" where
  "XXH32_init garbage seed = XXH32_resetState \<lparr>xxh_total_len = 0, xxh_seed = 0, xxh_v = (0, 0, 0, 0), xxh_memsize = 0, xxh_memory = garbage\<rparr> seed"

definition XXH32_update :: "XXH_state32 \<Rightarrow> 8 word list \<Rightarrow> XXH_state32" where
  "XXH32_update state input =
    (let state = state\<lparr>xxh_total_len := (xxh_total_len state + length input) mod 2 ^ 64\<rparr> in
     if xxh_memsize state + length input < 16
     then state\<lparr>xxh_memory := block_put (xxh_memory state) (xxh_memsize state) input, xxh_memsize := xxh_memsize state + length input\<rparr>
     else let (state, p) =
            (if xxh_memsize state \<noteq> 0
             then let memory = block_put (xxh_memory state) (xxh_memsize state) (take (16 - xxh_memsize state) input)
                  in (state\<lparr>xxh_memory := memory, xxh_v := xxh_stripe (xxh_v state) memory, xxh_memsize := 0\<rparr>,
                      drop (16 - xxh_memsize state) input)
             else (state, input));
            (v, p) = xxh_stripes (xxh_v state) p;
            state = state\<lparr>xxh_v := v\<rparr>
          in if p \<noteq> [] then state\<lparr>xxh_memory := block_put (xxh_memory state) 0 p, xxh_memsize := length p\<rparr> else state)"

definition XXH32_digest :: "XXH_state32 \<Rightarrow> 32 word" where
  "XXH32_digest state =
    (let h32 = (if 16 \<le> xxh_total_len state then xxh_merge (xxh_v state) else xxh_seed state + PRIME32_5)
     in xxh_avalanche (xxh_words (h32 + of_nat (xxh_total_len state)) (take (xxh_memsize state) (xxh_memory state))))"

lemma xxh_stripe_take: "take 16 p = take 16 q \<Longrightarrow> xxh_stripe v p = xxh_stripe v q"
proof -
  assume t: "take 16 p = take 16 q"
  have "take 4 (drop k p) = take 4 (drop k q)" if "k \<le> 12" for k
  proof -
    have "take 4 (drop k (take 16 p)) = take 4 (drop k (take 16 q))" using t by simp
    moreover have "4 \<le> 16 - k" using that by linarith
    ultimately show ?thesis by (simp add: drop_take min_def)
  qed
  from this [of 0] this [of 4] this [of 8] this [of 12] show ?thesis by (cases v) (simp add: xxh_lane_def XXH_readLE32_def)
qed

lemma xxh_short: "length p < 16 \<Longrightarrow> xxh_stripes v p = (v, p)"
  by (subst xxh_stripes.simps) simp

lemma xxh_stripes_append: "xxh_stripes v (a @ b) = xxh_stripes (fst (xxh_stripes v a)) (snd (xxh_stripes v a) @ b)"
proof (induction v a rule: xxh_stripes.induct)
  case (1 v a)
  show ?case
  proof (cases "16 \<le> length a")
    case True
    have "xxh_stripe v (a @ b) = xxh_stripe v a" using True by (intro xxh_stripe_take) simp
    then show ?thesis using 1 True by (simp add: xxh_stripes.simps [of v a] xxh_stripes.simps [of v "a @ b"])
  next
    case False
    then show ?thesis by (simp add: xxh_stripes.simps [of v a])
  qed
qed

lemma xxh_rest: "length (snd (xxh_stripes v p)) = length p mod 16"
proof (induction v p rule: xxh_stripes.induct)
  case (1 v p)
  then show ?case by (cases "16 \<le> length p") (simp_all add: xxh_stripes.simps [of v p] le_mod_geq)
qed

definition xxh_holds :: "32 word \<Rightarrow> XXH_state32 \<Rightarrow> 8 word list \<Rightarrow> bool" where
  "xxh_holds seed s msg \<longleftrightarrow> xxh_total_len s = length msg \<and> xxh_seed s = seed \<and> length (xxh_memory s) = 16 \<and> xxh_memsize s = length msg mod 16 \<and>
     xxh_stripes (xxh_start seed) msg = (xxh_v s, take (xxh_memsize s) (xxh_memory s))"

lemma xxh_update_holds:
  assumes h: "xxh_holds seed s msg" and l: "length msg + length input < 2 ^ 31"
  shows "xxh_holds seed (XXH32_update s input) (msg @ input)"
proof -
  define m pre where "m = xxh_memsize s" and "pre = take m (xxh_memory s)"
  have hc: "xxh_total_len s = length msg" "xxh_seed s = seed" "length (xxh_memory s) = 16" "m = length msg mod 16"
    "xxh_stripes (xxh_start seed) msg = (xxh_v s, pre)" using h by (simp_all add: xxh_holds_def m_def pre_def)
  have m: "m < 16" "length pre = m" using hc(3,4) by (simp_all add: pre_def)
  have st: "xxh_stripes (xxh_start seed) (msg @ input) = xxh_stripes (xxh_v s) (pre @ input)" using xxh_stripes_append [of "xxh_start seed" msg input] hc(5) by simp
  have len: "(length msg + length input) mod 2 ^ 64 = length msg + length input" using l by simp
  have md: "length (msg @ input) mod 16 = (m + length input) mod 16" using hc(4) by (simp add: mod_add_left_eq)
  show ?thesis
  proof (cases "m + length input < 16")
    case True
    then have u: "XXH32_update s input = s\<lparr>xxh_total_len := length msg + length input, xxh_memory := block_put (xxh_memory s) m input, xxh_memsize := m + length input\<rparr>"
      using hc(1) len by (simp add: XXH32_update_def m_def)
    have "xxh_stripes (xxh_v s) (pre @ input) = (xxh_v s, pre @ input)" using True m by (simp add: xxh_short)
    then show ?thesis unfolding xxh_holds_def u st md using hc True m block_put_len [of m input "xxh_memory s"] block_put_take [of m input "xxh_memory s"]
      by (simp add: pre_def)
  next
    case False
    define mem v1 p1 where "mem = (if m \<noteq> 0 then block_put (xxh_memory s) m (take (16 - m) input) else xxh_memory s)" and
      "v1 = (if m \<noteq> 0 then xxh_stripe (xxh_v s) mem else xxh_v s)" and "p1 = (if m \<noteq> 0 then drop (16 - m) input else input)"
    have lm: "length mem = 16" using False hc(3) m by (simp add: mem_def block_put_def)
    have s1: "xxh_stripes (xxh_v s) (pre @ input) = xxh_stripes v1 p1"
    proof (cases "m = 0")
      case True
      then show ?thesis using m(2) by (simp add: v1_def p1_def)
    next
      case m0: False
      have lt: "length (take (16 - m) input) = 16 - m" using False by simp
      have "take 16 mem = pre @ take (16 - m) input"
        using block_put_take [of m "take (16 - m) input" "xxh_memory s"] m0 m hc(3) lt by (simp add: mem_def pre_def)
      then have "xxh_stripe (xxh_v s) (pre @ input) = xxh_stripe (xxh_v s) mem" using m by (intro xxh_stripe_take) simp
      then show ?thesis using m0 m False by (subst xxh_stripes.simps) (simp add: v1_def p1_def)
    qed
    obtain v p where vp: "xxh_stripes v1 p1 = (v, p)" by fastforce
    have lp: "length p = length (msg @ input) mod 16" using xxh_rest [of "xxh_v s" "pre @ input"] s1 vp m(2) md by simp
    have u: "XXH32_update s input = (let s = s\<lparr>xxh_total_len := length msg + length input, xxh_memory := mem, xxh_v := v, xxh_memsize := 0\<rparr>
        in if p \<noteq> [] then s\<lparr>xxh_memory := block_put mem 0 p, xxh_memsize := length p\<rparr> else s)"
    proof (cases "m = 0")
      case True
      then show ?thesis using False vp hc(1) len by (cases s) (simp add: XXH32_update_def m_def v1_def p1_def mem_def Let_def)
    next
      case m0: False
      then show ?thesis using False vp hc(1) len by (cases s) (simp add: XXH32_update_def m_def v1_def p1_def mem_def Let_def)
    qed
    have b: "0 + length p \<le> length mem" using lp lm mod_less_divisor [of 16 "length (msg @ input)"] by simp
    show ?thesis
    proof (cases "p = []")
      case True
      then show ?thesis unfolding xxh_holds_def u using hc lm lp st s1 vp by simp
    next
      case False
      then show ?thesis unfolding xxh_holds_def u using hc lm lp st s1 vp block_put_len [OF b] block_put_take [OF b] by simp
    qed
  qed
qed

text \<open>
  C29. Data that comes in pieces, as the verification of a block feeds it, gets the same hash as the whole.
\<close>

theorem XXH32_streaming:
  assumes "length garbage = 16" "length (concat pieces) < 2 ^ 31"
  shows "XXH32_digest (foldl XXH32_update (XXH32_init garbage seed) pieces) = XXH32 (concat pieces) seed"
proof -
  have "xxh_holds seed s msg \<Longrightarrow> length (msg @ concat ps) < 2 ^ 31 \<Longrightarrow> xxh_holds seed (foldl XXH32_update s ps) (msg @ concat ps)" for s msg ps
  proof (induction ps arbitrary: s msg)
    case (Cons q ps)
    then show ?case using xxh_update_holds [OF Cons.prems(1), of q] Cons.IH [of "XXH32_update s q" "msg @ q"] by simp
  qed simp
  moreover have "xxh_holds seed (XXH32_init garbage seed) []"
    using assms(1) by (simp add: xxh_holds_def XXH32_init_def XXH32_resetState_def xxh_short)
  ultimately have h: "xxh_holds seed (foldl XXH32_update (XXH32_init garbage seed) pieces) (concat pieces)" using assms(2) by fastforce
  have "xxh_stripes (xxh_start seed) (concat pieces) = (xxh_start seed, concat pieces)" if "length (concat pieces) < 16"
    using that by (simp add: xxh_short)
  then show ?thesis using h by (auto simp: xxh_holds_def XXH32_digest_def XXH32_def Let_def split: prod.split)
qed

theorem XXH32_streaming_witness:
  "XXH32_digest (foldl XXH32_update (XXH32_init (replicate 16 7) 1) [[1, 2, 3], [4, 5]]) = XXH32 [1, 2, 3, 4, 5] 1"
  using XXH32_streaming [of "replicate 16 7" "[[1, 2, 3], [4, 5]]" 1] by simp

end
