(* ===== verification/Fio_Axmap.thy ===== *)
theory Fio_Axmap
  imports NVS_Prelude
begin

text \<open>
  The map of used blocks of fio, \<open>fio/lib/axmap.c\<close>: a bitmap of bitmaps, where a set bit of one level says that
  a word of the level below is full. Positions are natural numbers below \<open>2 ^ 64\<close>, words are 64 bits wide. An access
  outside of the array of a level is \<open>Undefined\<close>, and so is a pointer that \<open>malloc\<close> did not give.
\<close>

unbundle bit_operations_syntax

subsection \<open>Finding the first zero bit\<close>

definition ffs64 :: "64 word \<Rightarrow> nat" where
  "ffs64 word =
    (let (r, word) = (if word AND 0xffffffff = 0 then (32, drop_bit 32 word) else (0, word));
         (r, word) = (if word AND 0xffff = 0 then (r + 16, drop_bit 16 word) else (r, word));
         (r, word) = (if word AND 0xff = 0 then (r + 8, drop_bit 8 word) else (r, word));
         (r, word) = (if word AND 0xf = 0 then (r + 4, drop_bit 4 word) else (r, word));
         (r, word) = (if word AND 3 = 0 then (r + 2, drop_bit 2 word) else (r, word))
     in if word AND 1 = 0 then r + 1 else r)"

definition ffz :: "64 word \<Rightarrow> nat" where
  "ffz bitmask = ffs64 (NOT bitmask)"

subsection \<open>The map\<close>

definition UNIT_SHIFT :: nat where "UNIT_SHIFT = 6"

definition BLOCKS_PER_UNIT :: nat where "BLOCKS_PER_UNIT = push_bit UNIT_SHIFT 1"

definition BLOCKS_PER_UNIT_MASK :: nat where "BLOCKS_PER_UNIT_MASK = BLOCKS_PER_UNIT - 1"

text \<open>The value \<open>-1ULL\<close>, which stands for no position.\<close>

definition no_bit :: nat where "no_bit = 2 ^ 64 - 1"

record axmap_level =
  al_level :: nat
  al_map_size :: nat
  al_map :: "64 word list"

record axmap =
  ax_nr_levels :: nat
  ax_levels :: "axmap_level list"
  ax_first_free :: nat
  ax_nr_bits :: nat

definition firstfree_valid :: "axmap \<Rightarrow> bool" where
  "firstfree_valid b \<longleftrightarrow> ax_first_free b \<noteq> no_bit"

fun ulog64 :: "nat \<Rightarrow> nat \<Rightarrow> nat" where
  "ulog64 val 0 = val"
| "ulog64 val (Suc log) = (if val = 0 then val else ulog64 (drop_bit UNIT_SHIFT val) log)"

definition axmap_reset :: "axmap \<Rightarrow> axmap" where
  "axmap_reset axmap = axmap\<lparr>ax_levels := map (\<lambda>al. al\<lparr>al_map := replicate (al_map_size al) 0\<rparr>) (take (ax_nr_levels axmap) (ax_levels axmap)) @
     drop (ax_nr_levels axmap) (ax_levels axmap), ax_first_free := 0\<rparr>"

text \<open>Rounding up to words; the sum wraps at the width of the counter, 32 or 64 bits.\<close>

definition next_units :: "nat \<Rightarrow> nat \<Rightarrow> nat" where
  "next_units w n = drop_bit UNIT_SHIFT ((n + BLOCKS_PER_UNIT - 1) mod 2 ^ w)"

lemma next_units_div: "next_units w n = ((n + 63) mod 2 ^ w) div 64"
  by (simp add: next_units_def UNIT_SHIFT_def BLOCKS_PER_UNIT_def drop_bit_eq_div add.commute)

function count_levels :: "nat \<Rightarrow> nat \<Rightarrow> nat" where
  "count_levels i levels = (if i > 1 then count_levels (next_units 32 i) (levels + 1) else levels)"
  by auto
termination
proof (relation "measure fst")
  fix i levels :: nat assume i: "1 < i"
  have "(i + 63) mod 2 ^ 32 div 64 \<le> (i + 63) div 64" by (intro div_le_mono mod_less_eq_dividend)
  also have "\<dots> < i" using i by linarith
  finally show "((next_units 32 i, levels + 1), i, levels) \<in> measure fst" by (simp add: next_units_div)
qed simp

declare count_levels.simps [simp del]

text \<open>
  \<open>axmap_new\<close>. Which calls of \<open>malloc\<close> succeed is an argument: call 0 is for the structure, call 1 for the levels, and
  call \<open>i + 2\<close> for the map of level \<open>i\<close>. The contents of a map are not defined before the reset. When the map of a
  level that is not the last cannot be allocated, the clean-up reads the pointers of the levels after it.
\<close>

fun new_levels :: "(nat \<Rightarrow> bool) \<Rightarrow> nat \<Rightarrow> nat list \<Rightarrow> axmap_level list option" where
  "new_levels malloc nr_bits [] = Some []"
| "new_levels malloc nr_bits (i # is) =
    (if malloc (i + 2)
     then (case new_levels malloc (next_units 64 nr_bits) is of None \<Rightarrow> None
       | Some als \<Rightarrow> Some (\<lparr>al_level = i, al_map_size = next_units 64 nr_bits, al_map = replicate (next_units 64 nr_bits) 0\<rparr> # als))
     else None)"

definition axmap_new :: "(nat \<Rightarrow> bool) \<Rightarrow> nat \<Rightarrow> axmap option outcome" where
  "axmap_new malloc nr_bits =
    (let levels = count_levels (next_units 64 nr_bits mod 2 ^ 32) 1 in
     if \<not> malloc 0 then Inr None
     else if \<not> malloc 1 then Inl Undefined
     else case new_levels malloc nr_bits [0..<levels] of
       None \<Rightarrow> if (\<forall>i < levels - 1. malloc (i + 2)) then Inr None else Inl Undefined
     | Some als \<Rightarrow> Inr (Some (axmap_reset \<lparr>ax_nr_levels = levels, ax_levels = als, ax_first_free = 0, ax_nr_bits = nr_bits\<rparr>)))"

subsection \<open>Visiting the levels of a bit\<close>

type_synonym 'd level_fn = "axmap_level \<Rightarrow> nat \<Rightarrow> nat \<Rightarrow> 'd \<Rightarrow> (axmap_level \<times> 'd \<times> bool) outcome"

fun visit_levels :: "'d level_fn \<Rightarrow> nat \<Rightarrow> nat list \<Rightarrow> axmap_level list \<Rightarrow> 'd \<Rightarrow> (axmap_level list \<times> 'd \<times> bool) outcome" where
  "visit_levels func bit_nr [] ls data = Inr (ls, data, False)"
| "visit_levels func bit_nr (i # is) ls data =
    (let index = ulog64 bit_nr i; offset = drop_bit UNIT_SHIFT index; b = index AND BLOCKS_PER_UNIT_MASK in
     bindO (func (ls ! i) offset b data) (\<lambda>(al, data, stop).
       if stop then Inr (ls[i := al], data, True) else visit_levels func bit_nr is (ls[i := al]) data))"

definition axmap_handler :: "axmap \<Rightarrow> nat \<Rightarrow> 'd level_fn \<Rightarrow> 'd \<Rightarrow> (axmap \<times> 'd \<times> bool) outcome" where
  "axmap_handler axmap bit_nr func data =
    bindO (visit_levels func bit_nr [0..<ax_nr_levels axmap] (ax_levels axmap) data)
      (\<lambda>(ls, data, r). Inr (axmap\<lparr>ax_levels := ls\<rparr>, data, r))"

definition axmap_handler_topdown :: "axmap \<Rightarrow> nat \<Rightarrow> 'd level_fn \<Rightarrow> 'd \<Rightarrow> (axmap \<times> 'd \<times> bool) outcome" where
  "axmap_handler_topdown axmap bit_nr func data =
    bindO (visit_levels func bit_nr (rev [0..<ax_nr_levels axmap]) (ax_levels axmap) data)
      (\<lambda>(ls, data, r). Inr (axmap\<lparr>ax_levels := ls\<rparr>, data, r))"

definition al_word :: "axmap_level \<Rightarrow> nat \<Rightarrow> 64 word outcome" where
  "al_word al offset = (if offset < length (al_map al) then Inr (al_map al ! offset) else Inl Undefined)"

definition axmap_clear_fn :: "unit level_fn" where
  "axmap_clear_fn al offset b unused =
    bindO (al_word al offset) (\<lambda>w.
      if w AND push_bit b 1 = 0 then Inr (al, unused, True)
      else Inr (al\<lparr>al_map := (al_map al)[offset := w AND NOT (push_bit b 1)]\<rparr>, unused, False))"

definition axmap_clear :: "axmap \<Rightarrow> nat \<Rightarrow> axmap outcome" where
  "axmap_clear axmap bit_nr = bindO (axmap_handler axmap bit_nr axmap_clear_fn ()) (\<lambda>(axmap, _, _). Inr axmap)"

subsection \<open>Setting\<close>

record axmap_set_data =
  sd_nr_bits :: nat
  sd_set_bits :: nat

definition bit_masks :: "64 word list" where
  "bit_masks = [
    0x0000000000000000, 0x0000000000000001, 0x0000000000000003, 0x0000000000000007,
    0x000000000000000f, 0x000000000000001f, 0x000000000000003f, 0x000000000000007f,
    0x00000000000000ff, 0x00000000000001ff, 0x00000000000003ff, 0x00000000000007ff,
    0x0000000000000fff, 0x0000000000001fff, 0x0000000000003fff, 0x0000000000007fff,
    0x000000000000ffff, 0x000000000001ffff, 0x000000000003ffff, 0x000000000007ffff,
    0x00000000000fffff, 0x00000000001fffff, 0x00000000003fffff, 0x00000000007fffff,
    0x0000000000ffffff, 0x0000000001ffffff, 0x0000000003ffffff, 0x0000000007ffffff,
    0x000000000fffffff, 0x000000001fffffff, 0x000000003fffffff, 0x000000007fffffff,
    0x00000000ffffffff,
    0x00000001ffffffff, 0x00000003ffffffff, 0x00000007ffffffff, 0x0000000fffffffff,
    0x0000001fffffffff, 0x0000003fffffffff, 0x0000007fffffffff, 0x000000ffffffffff,
    0x000001ffffffffff, 0x000003ffffffffff, 0x000007ffffffffff, 0x00000fffffffffff,
    0x00001fffffffffff, 0x00003fffffffffff, 0x00007fffffffffff, 0x0000ffffffffffff,
    0x0001ffffffffffff, 0x0003ffffffffffff, 0x0007ffffffffffff, 0x000fffffffffffff,
    0x001fffffffffffff, 0x003fffffffffffff, 0x007fffffffffffff, 0x00ffffffffffffff,
    0x01ffffffffffffff, 0x03ffffffffffffff, 0x07ffffffffffffff, 0x0fffffffffffffff,
    0x1fffffffffffffff, 0x3fffffffffffffff, 0x7fffffffffffffff, 0xffffffffffffffff]"

text \<open>The lowest set bit.\<close>

definition ffs_ok :: "nat \<Rightarrow> 64 word \<Rightarrow> nat \<times> 64 word \<Rightarrow> bool" where
  "ffs_ok k w0 rw \<longleftrightarrow> drop_bit (fst rw) w0 = snd rw \<and> (\<forall>j < fst rw. \<not> bit w0 j) \<and> (\<exists>j < k. bit (snd rw) j)"

lemma and_mask_0: "word AND mask s = 0 \<longleftrightarrow> (\<forall>j < s. \<not> bit word j)" for word :: "64 word"
proof
  assume "word AND mask s = 0"
  then have "\<not> bit (word AND mask s) j" for j by simp
  then show "\<forall>j < s. \<not> bit word j" using bit_imp_le_length [of word] by (auto simp: bit_and_iff bit_mask_iff)
qed (auto intro!: bit_word_eqI simp: bit_and_iff bit_mask_iff)

definition ffs_half :: "nat \<Rightarrow> 64 word \<Rightarrow> nat \<times> 64 word \<Rightarrow> nat \<times> 64 word" where
  "ffs_half s msk rw = (if snd rw AND msk = 0 then (fst rw + s, drop_bit s (snd rw)) else rw)"

lemma ffs_half_ok:
  assumes "ffs_ok (2 * s) w0 rw" "mask s = msk"
  shows "ffs_ok s w0 (ffs_half s msk rw)"
proof -
  obtain r word k where w: "rw = (r, word)" "word = drop_bit r w0" "\<forall>j < r. \<not> bit w0 j" "k < 2 * s" "bit word k"
    using assms(1) by (cases rw) (auto simp: ffs_ok_def)
  show ?thesis
  proof (cases "\<forall>j < s. \<not> bit word j")
    case True
    then have "s \<le> k" using w(5) not_le by blast
    moreover have "\<not> bit w0 j" if "j < r + s" for j
      using that w(3) True [rule_format, of "j - r"] w(2) by (cases "j < r") (auto simp: bit_drop_bit_eq)
    ultimately show ?thesis using True w(1,2,4,5) assms(2)
      by (auto simp: ffs_ok_def ffs_half_def and_mask_0 bit_drop_bit_eq add.commute intro!: exI [of _ "k - s"])
  qed (use w assms(2) in \<open>auto simp: ffs_ok_def ffs_half_def and_mask_0\<close>)
qed

lemma ffs_ok_1: "ffs_ok 1 w rw \<Longrightarrow> bit w (fst rw) \<and> (\<forall>j < fst rw. \<not> bit w j)"
  by (cases rw) (auto simp: ffs_ok_def bit_drop_bit_eq)

lemma ffs64_halves: "ffs64 word =
    fst (ffs_half 1 1 (ffs_half 2 3 (ffs_half 4 0xf (ffs_half 8 0xff (ffs_half 16 0xffff (ffs_half 32 0xffffffff (0, word)))))))"
  unfolding ffs64_def ffs_half_def Let_def by (simp split: prod.split)

lemma ffs64_first: "word \<noteq> 0 \<Longrightarrow> bit word (ffs64 word) \<and> (\<forall>j < ffs64 word. \<not> bit word j)"
proof -
  assume "word \<noteq> 0"
  then have "ffs_ok (2 * 32) word (0, word)" by (auto simp: ffs_ok_def bit_eq_iff dest: bit_imp_le_length)
  then have "ffs_ok (2 * 16) word (ffs_half 32 0xffffffff (0, word))" (is "ffs_ok _ _ ?s")
    using ffs_half_ok [of 32] by (simp add: mask_eq_exp_minus_1)
  then have "ffs_ok (2 * 8) word (ffs_half 16 0xffff ?s)" (is "ffs_ok _ _ ?s") using ffs_half_ok [of 16] by (simp add: mask_eq_exp_minus_1)
  then have "ffs_ok (2 * 4) word (ffs_half 8 0xff ?s)" (is "ffs_ok _ _ ?s") using ffs_half_ok [of 8] by (simp add: mask_eq_exp_minus_1)
  then have "ffs_ok (2 * 2) word (ffs_half 4 0xf ?s)" (is "ffs_ok _ _ ?s") using ffs_half_ok [of 4] by (simp add: mask_eq_exp_minus_1)
  then have "ffs_ok (2 * 1) word (ffs_half 2 3 ?s)" (is "ffs_ok _ _ ?s") using ffs_half_ok [of 2] by (simp add: mask_eq_exp_minus_1)
  then have "ffs_ok 1 word (ffs_half 1 1 ?s)" using ffs_half_ok [of 1] by (simp add: mask_eq_exp_minus_1)
  then show ?thesis unfolding ffs64_halves by (rule ffs_ok_1)
qed

lemma ffz_first: "w \<noteq> - 1 \<Longrightarrow> ffz w < 64 \<and> \<not> bit w (ffz w) \<and> (\<forall>j < ffz w. bit w j)"
proof -
  assume "w \<noteq> - 1"
  then have "NOT w \<noteq> 0" by (metis bit.compl_zero bit.double_compl)
  from ffs64_first [OF this] show ?thesis unfolding ffz_def
    using bit_imp_le_length [of "NOT w" "ffs64 (NOT w)"] by (auto simp: bit_not_iff)
qed

text \<open>The loop that takes the bits that are already set out of the mask, one at a time.\<close>

lemma bit_unit: "bit (push_bit b 1 :: 64 word) j \<longleftrightarrow> j = b \<and> b < 64"
  by (auto simp: bit_exp_iff)

lemma clear_lowest: "overlap \<noteq> 0 \<Longrightarrow>
    card {j. j < 64 \<and> bit (overlap AND NOT (push_bit (ffz (NOT overlap)) 1)) j} < card {j. j < 64 \<and> bit overlap j}" for overlap :: "64 word"
proof (rule psubset_card_mono)
  assume "overlap \<noteq> 0"
  then have "bit overlap (ffz (NOT overlap))" "ffz (NOT overlap) < 64"
    using ffs64_first [of overlap] bit_imp_le_length by (fastforce simp: ffz_def)+
  then show "{j. j < 64 \<and> bit (overlap AND NOT (push_bit (ffz (NOT overlap)) 1)) j} \<subset> {j. j < 64 \<and> bit overlap j}"
    by (auto simp: bit_and_iff bit_not_iff bit_exp_iff)
qed simp

function overlap_loop :: "64 word \<Rightarrow> 64 word \<Rightarrow> nat \<Rightarrow> 64 word \<times> nat" where
  "overlap_loop msk overlap nr_bits =
    (if overlap = 0 then (msk, nr_bits)
     else let clear_mask = NOT (push_bit (ffz (NOT overlap)) 1)
          in overlap_loop (msk AND clear_mask) (overlap AND clear_mask) ((nr_bits + (2 ^ 32 - 1)) mod 2 ^ 32))"
  by auto
termination
  by (relation "measure (\<lambda>(_, overlap, _). card {j. j < 64 \<and> bit overlap j})") (simp, simp only: in_measure prod.case, erule clear_lowest)

declare overlap_loop.simps [simp del]

definition axmap_set_fn :: "axmap_set_data level_fn" where
  "axmap_set_fn al offset b data =
    (let nr_bits = min (sd_nr_bits data) (BLOCKS_PER_UNIT - b); msk = push_bit b (bit_masks ! nr_bits) in
     bindO (al_word al offset) (\<lambda>w.
       let overlap = w AND msk in
       if overlap = msk then Inr (al, data, True)
       else let (msk, nr_bits) = overlap_loop msk overlap nr_bits in
         if msk = 0 then Inl Assert_Failed
         else if w AND msk \<noteq> 0 then Inl Assert_Failed
         else let w = w OR msk;
                  al = al\<lparr>al_map := (al_map al)[offset := w]\<rparr>;
                  data = (if al_level al = 0 then data\<lparr>sd_set_bits := nr_bits\<rparr> else data)
              in Inr (al, data\<lparr>sd_nr_bits := 1\<rparr>, w \<noteq> - 1)))"

partial_function (option) axmap_set_loop ::
    "axmap \<Rightarrow> nat \<Rightarrow> nat \<Rightarrow> nat \<Rightarrow> axmap_set_data \<Rightarrow> (axmap \<times> axmap_set_data) outcome option" where
  "axmap_set_loop axmap bit_nr nr_bits set_bits data =
    (if nr_bits = 0 then Some (Inr (axmap, data\<lparr>sd_set_bits := set_bits\<rparr>))
     else case axmap_handler axmap bit_nr axmap_set_fn data of
       Inl e \<Rightarrow> Some (Inl e)
     | Inr (axmap, data, _) \<Rightarrow>
        let set_bits = (set_bits + sd_set_bits data) mod 2 ^ 32 in
        if sd_set_bits data = 0 \<or> sd_set_bits data \<noteq> (BLOCKS_PER_UNIT + 2 ^ 32 - nr_bits) mod 2 ^ 32
        then Some (Inr (axmap, data\<lparr>sd_set_bits := set_bits\<rparr>))
        else let nr_bits = (nr_bits + 2 ^ 32 - sd_set_bits data) mod 2 ^ 32; bit_nr = (bit_nr + sd_set_bits data) mod 2 ^ 64
             in axmap_set_loop axmap bit_nr nr_bits set_bits (data\<lparr>sd_nr_bits := nr_bits\<rparr>))"

definition axmap_set_span :: "axmap \<Rightarrow> nat \<Rightarrow> axmap_set_data \<Rightarrow> (axmap \<times> axmap_set_data) outcome option" where
  "axmap_set_span axmap bit_nr data =
    (let nr_bits = sd_nr_bits data;
         axmap = (if bit_nr \<le> ax_first_free axmap \<and> ax_first_free axmap < (bit_nr + sd_nr_bits data) mod 2 ^ 64
                  then axmap\<lparr>ax_first_free := no_bit\<rparr> else axmap) in
     if bit_nr > ax_nr_bits axmap then Some (Inr (axmap, data))
     else let nr_bits = (if (bit_nr + nr_bits) mod 2 ^ 64 > ax_nr_bits axmap then (ax_nr_bits axmap - bit_nr) mod 2 ^ 32 else nr_bits)
          in axmap_set_loop axmap bit_nr nr_bits 0 data)"

definition axmap_set :: "axmap \<Rightarrow> nat \<Rightarrow> axmap outcome option" where
  "axmap_set axmap bit_nr =
    (case axmap_set_span axmap bit_nr \<lparr>sd_nr_bits = 1, sd_set_bits = 0\<rparr> of
       None \<Rightarrow> None | Some r \<Rightarrow> Some (bindO r (\<lambda>(axmap, _). Inr axmap)))"

partial_function (option) set_nr_loop :: "axmap \<Rightarrow> nat \<Rightarrow> nat \<Rightarrow> nat \<Rightarrow> (axmap \<times> nat) outcome option" where
  "set_nr_loop axmap bit_nr nr_bits set_bits =
    (let max_bits = BLOCKS_PER_UNIT - (bit_nr AND BLOCKS_PER_UNIT_MASK);
         this_set = (if max_bits < nr_bits then max_bits else nr_bits) in
     case axmap_set_span axmap bit_nr \<lparr>sd_nr_bits = this_set, sd_set_bits = 0\<rparr> of
       None \<Rightarrow> None
     | Some (Inl e) \<Rightarrow> Some (Inl e)
     | Some (Inr (axmap, data)) \<Rightarrow>
        let set_bits = (set_bits + sd_set_bits data) mod 2 ^ 32 in
        if sd_set_bits data \<noteq> this_set then Some (Inr (axmap, set_bits))
        else let nr_bits = (nr_bits + 2 ^ 32 - sd_set_bits data) mod 2 ^ 32; bit_nr = (bit_nr + sd_set_bits data) mod 2 ^ 64
             in if nr_bits = 0 then Some (Inr (axmap, set_bits)) else set_nr_loop axmap bit_nr nr_bits set_bits)"

definition axmap_set_nr :: "axmap \<Rightarrow> nat \<Rightarrow> nat \<Rightarrow> (axmap \<times> nat) outcome option" where
  "axmap_set_nr axmap bit_nr nr_bits = set_nr_loop axmap bit_nr nr_bits 0"

subsection \<open>Looking up\<close>

definition axmap_isset_fn :: "unit level_fn" where
  "axmap_isset_fn al offset b unused = bindO (al_word al offset) (\<lambda>w. Inr (al, unused, w AND push_bit b 1 \<noteq> 0))"

definition axmap_isset :: "axmap \<Rightarrow> nat \<Rightarrow> bool outcome" where
  "axmap_isset axmap bit_nr =
    (if bit_nr \<le> ax_nr_bits axmap
     then bindO (axmap_handler_topdown axmap bit_nr axmap_isset_fn ()) (\<lambda>(_, _, r). Inr r)
     else Inr False)"

text \<open>The inner loop of \<open>axmap_find_first_free\<close> over \<open>j\<close>: the first word that is not full.\<close>

fun not_full :: "64 word list \<Rightarrow> nat list \<Rightarrow> nat option" where
  "not_full ws [] = None"
| "not_full ws (j # js) = (if ws ! j = - 1 then not_full ws js else Some j)"

fun find_free_loop :: "axmap_level list \<Rightarrow> nat list \<Rightarrow> nat \<Rightarrow> nat \<Rightarrow> nat" where
  "find_free_loop ls [] ret index = ret"
| "find_free_loop ls (i # is) ret index =
    (let al = ls ! i in
     if index \<ge> al_map_size al then no_bit
     else case not_full (al_map al) [index..<al_map_size al] of
       None \<Rightarrow> find_free_loop ls is ret index
     | Some j \<Rightarrow> let index = (push_bit UNIT_SHIFT j + ffz (al_map al ! j)) mod 2 ^ 64 in find_free_loop ls is index index)"

definition axmap_find_first_free :: "axmap \<Rightarrow> nat \<Rightarrow> nat \<Rightarrow> nat" where
  "axmap_find_first_free axmap lvl index =
    (let ret = find_free_loop (ax_levels axmap) (rev [0..<Suc lvl]) no_bit index
     in if ret < ax_nr_bits axmap then ret else no_bit)"

definition axmap_first_free :: "axmap \<Rightarrow> axmap \<times> nat" where
  "axmap_first_free axmap =
    (if firstfree_valid axmap then (axmap, ax_first_free axmap)
     else let axmap = axmap\<lparr>ax_first_free := axmap_find_first_free axmap (ax_nr_levels axmap - 1) 0\<rparr>
          in (axmap, ax_first_free axmap))"

record axmap_next_free_data =
  nf_level :: nat
  nf_offset :: nat
  nf_bit :: nat

definition axmap_next_free_fn :: "axmap_next_free_data level_fn" where
  "axmap_next_free_fn al offset b data =
    (let msk = NOT (bit_masks ! ((nf_bit data + 1) AND BLOCKS_PER_UNIT_MASK)) in
     bindO (al_word al offset) (\<lambda>w.
       if msk AND NOT w = 0 then Inr (al, data, False)
       else if w \<noteq> - 1 then Inr (al, data\<lparr>nf_level := al_level al, nf_offset := offset\<rparr>, True)
       else Inr (al, data\<lparr>nf_bit := ((nf_bit data + BLOCKS_PER_UNIT - 1) mod 2 ^ 64) div BLOCKS_PER_UNIT\<rparr>, False)))"

definition axmap_next_free :: "axmap \<Rightarrow> nat \<Rightarrow> (axmap \<times> nat) outcome" where
  "axmap_next_free axmap bit_nr =
    (if firstfree_valid axmap \<and> bit_nr < ax_first_free axmap then Inr (axmap, ax_first_free axmap)
     else bindO (axmap_handler axmap bit_nr axmap_next_free_fn \<lparr>nf_level = 2 ^ 32 - 1, nf_offset = 0, nf_bit = bit_nr\<rparr>)
       (\<lambda>(axmap, data, found).
         if \<not> found then Inr (axmap_first_free axmap)
         else if nf_level data = 2 ^ 32 - 1 then Inl Assert_Failed
         else let ret = axmap_find_first_free axmap (nf_level data) (nf_offset data)
              in if ret \<noteq> no_bit then Inr (axmap, ret) else Inr (axmap_first_free axmap)))"

subsection \<open>Arithmetic of the levels\<close>

lemma ulog64_div: "ulog64 val log = val div 64 ^ log"
  by (induction log arbitrary: val) (simp_all add: UNIT_SHIFT_def drop_bit_eq_div div_mult2_eq)

lemma unit_mask: "k AND BLOCKS_PER_UNIT_MASK = k mod 64"
proof -
  have "BLOCKS_PER_UNIT_MASK = mask 6" by (simp add: BLOCKS_PER_UNIT_MASK_def BLOCKS_PER_UNIT_def UNIT_SHIFT_def mask_eq_exp_minus_1)
  then have "k AND BLOCKS_PER_UNIT_MASK = take_bit 6 k" by (simp only: take_bit_eq_mask)
  then show ?thesis by (simp add: take_bit_eq_mod)
qed

lemma unit_shift: "drop_bit UNIT_SHIFT k = k div 64" "push_bit UNIT_SHIFT k = 64 * k" for k :: nat
  by (simp_all add: UNIT_SHIFT_def drop_bit_eq_div push_bit_eq_mult mult.commute)

lemmas unit_simps = ulog64_div unit_mask unit_shift

lemma bit_masks_mask: "n \<le> 64 \<Longrightarrow> bit_masks ! n = mask n"
proof -
  have u: "[0..<65] = 0 # 1 # [2..<65]" using upt_conv_Cons [of 0 65] upt_conv_Cons [of 1 65] by (simp add: numeral_2_eq_2)
  have "bit_masks = map mask [0..<65]"
    unfolding u by (simp add: bit_masks_def upt_rec_numeral mask_eq_exp_minus_1)
  moreover assume "n \<le> 64"
  then have "n < 65 - 0" by simp
  from nth_map_upt [OF this, of mask] have "map mask [0..<65] ! n = (mask n :: 64 word)" by (simp only: add_0)
  ultimately show ?thesis by (simp only:)
qed

fun units :: "nat \<Rightarrow> nat \<Rightarrow> nat" where
  "units n 0 = (n + 63) div 64"
| "units n (Suc i) = (units n i + 63) div 64"

lemma div_level: "x div 64 ^ Suc i = x div 64 ^ i div 64" for x :: nat
  by (simp only: power_Suc2 div_mult2_eq)

lemma units_word: "b div 64 < units n 0 \<Longrightarrow> b div 64 ^ i div 64 < units n i"
proof (induction i)
  case (Suc i)
  then show ?case unfolding div_level by simp
qed simp

lemma units_index: "b < n \<Longrightarrow> b div 64 ^ i div 64 < units n i"
  by (rule units_word) simp

text \<open>The blocks that bit \<open>k\<close> of level \<open>i\<close> stands for.\<close>

definition span :: "nat \<Rightarrow> nat \<Rightarrow> nat set" where
  "span i k = {k * 64 ^ i ..< Suc k * 64 ^ i}"

lemma span_iff: "x \<in> span i k \<longleftrightarrow> x div 64 ^ i = k"
proof -
  have p: "0 < (64 :: nat) ^ i" by simp
  have "x \<in> span i k \<longleftrightarrow> k * 64 ^ i \<le> x \<and> x < (k + 1) * 64 ^ i" by (simp add: span_def)
  also have "\<dots> \<longleftrightarrow> k \<le> x div 64 ^ i \<and> x div 64 ^ i < k + 1" by (simp only: less_eq_div_iff_mult_less_eq [OF p] div_less_iff_less_mult [OF p])
  finally show ?thesis by auto
qed

lemma span_0: "span 0 k = {k}"
  by (auto simp: span_iff)

lemma span_Suc: "span (Suc i) k \<subseteq> B \<longleftrightarrow> (\<forall>j < 64. span i (64 * k + j) \<subseteq> B)"
proof -
  have e: "x \<in> span (Suc i) k \<longleftrightarrow> (\<exists>j < 64. x \<in> span i (64 * k + j))" for x
  proof -
    have "y div 64 = k \<longleftrightarrow> (\<exists>j < 64. y = 64 * k + j)" for y
    proof
      assume "y div 64 = k"
      then have "y mod 64 < 64 \<and> y = 64 * k + y mod 64" using mult_div_mod_eq [of 64 y] by simp
      then show "\<exists>j < 64. y = 64 * k + j" by blast
    qed auto
    then show ?thesis unfolding span_iff div_level by blast
  qed
  show ?thesis
    unfolding subset_iff e by blast
qed

lemma span_nonempty: "span i k \<noteq> {}"
  by (simp add: span_def)

lemma full_word: "w = - 1 \<longleftrightarrow> (\<forall>j < 64. bit w j)" for w :: "64 word"
  by (auto simp: bit_eq_iff)

subsection \<open>The invariant\<close>

definition lbit :: "axmap_level \<Rightarrow> nat \<Rightarrow> bool" where
  "lbit al k \<longleftrightarrow> k div 64 < length (al_map al) \<and> bit (al_map al ! (k div 64)) (k mod 64)"

text \<open>Level \<open>i\<close> says which spans lie inside the set.\<close>

definition level_rep :: "nat \<Rightarrow> axmap_level \<Rightarrow> nat set \<Rightarrow> bool" where
  "level_rep i al B \<longleftrightarrow> (\<forall>k. lbit al k \<longleftrightarrow> span i k \<subseteq> B)"

definition level_shape :: "nat \<Rightarrow> nat \<Rightarrow> axmap_level \<Rightarrow> bool" where
  "level_shape n i al \<longleftrightarrow> al_level al = i \<and> al_map_size al = length (al_map al) \<and> length (al_map al) = units n i"

definition levels_ok :: "nat \<Rightarrow> axmap_level list \<Rightarrow> nat set \<Rightarrow> bool" where
  "levels_ok n ls B \<longleftrightarrow> (\<forall>i < length ls. level_shape n i (ls ! i) \<and> level_rep i (ls ! i) B)"

definition ax_ok :: "axmap \<Rightarrow> nat set \<Rightarrow> bool" where
  "ax_ok axmap B \<longleftrightarrow> ax_nr_levels axmap = length (ax_levels axmap) \<and> 0 < length (ax_levels axmap) \<and> length (ax_levels axmap) < 2 ^ 32 - 1 \<and>
     units (ax_nr_bits axmap) (length (ax_levels axmap) - 1) \<le> 1 \<and> levels_ok (ax_nr_bits axmap) (ax_levels axmap) B \<and>
     ax_nr_bits axmap < 2 ^ 63 \<and> B \<subseteq> {..<ax_nr_bits axmap} \<and>
     (ax_first_free axmap = no_bit \<or> ax_first_free axmap < ax_nr_bits axmap \<and> ax_first_free axmap \<notin> B)"

lemma ax_okD:
  assumes "ax_ok axmap B"
  shows "ax_nr_levels axmap = length (ax_levels axmap)" "0 < length (ax_levels axmap)" "length (ax_levels axmap) < 2 ^ 32 - 1"
    "units (ax_nr_bits axmap) (length (ax_levels axmap) - 1) \<le> 1" "levels_ok (ax_nr_bits axmap) (ax_levels axmap) B"
    "ax_nr_bits axmap < 2 ^ 63" "B \<subseteq> {..<ax_nr_bits axmap}"
    "ax_first_free axmap = no_bit \<or> ax_first_free axmap < ax_nr_bits axmap \<and> ax_first_free axmap \<notin> B"
  using assms unfolding ax_ok_def by blast+

lemma levels_okD:
  assumes "levels_ok n ls B" "i < length ls"
  shows "al_level (ls ! i) = i" "al_map_size (ls ! i) = length (al_map (ls ! i))" "length (al_map (ls ! i)) = units n i"
    "lbit (ls ! i) k \<longleftrightarrow> span i k \<subseteq> B"
  using assms by (auto simp: levels_ok_def level_shape_def level_rep_def)

lemma rep_bit:
  assumes "level_rep i al B" "q < length (al_map al)" "j < 64"
  shows "bit (al_map al ! q) j \<longleftrightarrow> span i (64 * q + j) \<subseteq> B"
proof -
  have "lbit al (64 * q + j) \<longleftrightarrow> bit (al_map al ! q) j" using assms(2,3) by (simp add: lbit_def)
  then show ?thesis using assms(1) unfolding level_rep_def by blast
qed

lemma word_full:
  assumes "level_rep i al B" "q < length (al_map al)"
  shows "al_map al ! q = - 1 \<longleftrightarrow> span (Suc i) q \<subseteq> B"
  using rep_bit [OF assms] by (simp add: full_word span_Suc)

subsection \<open>Changing one word of a level\<close>

lemma lbit_update:
  assumes "q < length (al_map al)"
  shows "lbit (al\<lparr>al_map := (al_map al)[q := w]\<rparr>) k \<longleftrightarrow> (if k div 64 = q then bit w (k mod 64) else lbit al k)"
  using assms by (auto simp: lbit_def)

lemma set_fn_free:
  assumes "q < length (al_map al)" "b < 64" "0 < sd_nr_bits d" "b + sd_nr_bits d \<le> 64"
    "\<And>j. b \<le> j \<Longrightarrow> j < b + sd_nr_bits d \<Longrightarrow> \<not> bit (al_map al ! q) j"
  defines "w \<equiv> al_map al ! q OR push_bit b (mask (sd_nr_bits d))"
  shows "axmap_set_fn al q b d =
    Inr (al\<lparr>al_map := (al_map al)[q := w]\<rparr>, (if al_level al = 0 then d\<lparr>sd_set_bits := sd_nr_bits d\<rparr> else d)\<lparr>sd_nr_bits := 1\<rparr>, w \<noteq> - 1)"
proof -
  let ?m = "push_bit b (mask (sd_nr_bits d)) :: 64 word"
  have n: "min (sd_nr_bits d) (BLOCKS_PER_UNIT - b) = sd_nr_bits d" "bit_masks ! sd_nr_bits d = mask (sd_nr_bits d)"
    using assms(4) bit_masks_mask by (simp_all add: BLOCKS_PER_UNIT_def UNIT_SHIFT_def)
  have 0: "al_map al ! q AND ?m = 0"
    using assms(5) by (intro bit_word_eqI) (auto simp: bit_and_iff bit_push_bit_iff bit_mask_iff)
  have "bit ?m b" using assms(2,3) by (simp add: bit_push_bit_iff bit_mask_iff)
  then have "?m \<noteq> 0" by auto
  then show ?thesis
    unfolding axmap_set_fn_def Let_def n al_word_def w_def using assms(1) 0
    by (simp add: overlap_loop.simps [of _ 0])
qed

lemma set_fn_present:
  assumes "q < length (al_map al)" "b < 64" "bit (al_map al ! q) b" "sd_nr_bits d = 1"
  shows "axmap_set_fn al q b d = Inr (al, d, True)"
proof -
  have "al_map al ! q AND push_bit b (mask 1) = push_bit b (mask 1)"
    using assms(2,3) by (intro bit_word_eqI) (auto simp: bit_and_iff bit_exp_iff)
  moreover have "min 1 (BLOCKS_PER_UNIT - b) = 1" using assms(2) by (simp add: BLOCKS_PER_UNIT_def UNIT_SHIFT_def)
  ultimately show ?thesis
    unfolding axmap_set_fn_def Let_def assms(4) al_word_def using assms(1) bit_masks_mask [of 1] by simp
qed

text \<open>The set grows inside the span of \<open>b\<close> only.\<close>

definition grows :: "nat \<Rightarrow> nat \<Rightarrow> nat set \<Rightarrow> nat set \<Rightarrow> bool" where
  "grows i b B B' \<longleftrightarrow> B \<subseteq> B' \<and> b \<notin> B \<and> (\<forall>x \<in> B' - B. x div 64 ^ i = b div 64 ^ i)"

lemma grows_up: "grows i b B B' \<Longrightarrow> grows (Suc i) b B B'"
  unfolding grows_def div_level by metis

lemma grows_other: "grows i b B B' \<Longrightarrow> k \<noteq> b div 64 ^ i \<Longrightarrow> span i k \<subseteq> B' \<longleftrightarrow> span i k \<subseteq> B"
  unfolding grows_def subset_iff span_iff by (metis DiffI)

lemma grows_not: "grows i b B B' \<Longrightarrow> \<not> span j (b div 64 ^ j) \<subseteq> B"
  unfolding grows_def subset_iff span_iff by metis

lemma level_rep_grown:
  assumes "level_rep i al B" "q < length (al_map al)" "\<And>k. k div 64 \<noteq> q \<Longrightarrow> span i k \<subseteq> B' \<longleftrightarrow> span i k \<subseteq> B"
    "\<And>j. j < 64 \<Longrightarrow> bit w j \<longleftrightarrow> span i (64 * q + j) \<subseteq> B'"
  shows "level_rep i (al\<lparr>al_map := (al_map al)[q := w]\<rparr>) B'"
  unfolding level_rep_def lbit_update [OF assms(2)]
proof (intro allI)
  fix k
  show "(if k div 64 = q then bit w (k mod 64) else lbit al k) \<longleftrightarrow> span i k \<subseteq> B'"
  proof (cases "k div 64 = q")
    case True
    then have "k = 64 * q + k mod 64" using mult_div_mod_eq [of 64 k] by simp
    then show ?thesis using True assms(4) [of "k mod 64"] by simp
  next
    case False
    then show ?thesis using assms(1,3) by (simp add: level_rep_def)
  qed
qed

lemma set_level:
  assumes "level_rep i al B" "level_shape n i al" "b < n" "grows i b B B'" "span i (b div 64 ^ i) \<subseteq> B'" "sd_nr_bits d = 1"
  shows "\<exists>al'. axmap_set_fn al (b div 64 ^ i div 64) (b div 64 ^ i mod 64) d =
      Inr (al', if i = 0 then d\<lparr>sd_set_bits := 1\<rparr> else d, \<not> span (Suc i) (b div 64 ^ Suc i) \<subseteq> B') \<and>
    level_rep i al' B' \<and> level_shape n i al'"
proof -
  let ?k = "b div 64 ^ i" let ?q = "?k div 64" let ?w = "al_map al ! ?q OR push_bit (?k mod 64) (mask 1)"
  have q: "?q < length (al_map al)" using units_index [OF assms(3)] assms(2) by (simp add: level_shape_def)
  have "\<not> lbit al ?k" using assms(1) grows_not [OF assms(4)] by (simp add: level_rep_def)
  then have nb: "\<not> bit (al_map al ! ?q) (?k mod 64)" using q by (simp add: lbit_def)
  have f: "axmap_set_fn al ?q (?k mod 64) d = Inr (al\<lparr>al_map := (al_map al)[?q := ?w]\<rparr>,
      (if al_level al = 0 then d\<lparr>sd_set_bits := sd_nr_bits d\<rparr> else d)\<lparr>sd_nr_bits := 1\<rparr>, ?w \<noteq> - 1)"
    using set_fn_free [OF q, of "?k mod 64" d] assms(6) nb mod_less_divisor [of 64 ?k] by (simp add: less_Suc_eq)
  have rep: "level_rep i (al\<lparr>al_map := (al_map al)[?q := ?w]\<rparr>) B'"
  proof (rule level_rep_grown [OF assms(1) q])
    show "span i k \<subseteq> B' \<longleftrightarrow> span i k \<subseteq> B" if "k div 64 \<noteq> ?q" for k
      using grows_other [OF assms(4), of k] that by (cases "k = ?k") auto
    show "bit ?w j \<longleftrightarrow> span i (64 * ?q + j) \<subseteq> B'" if j: "j < 64" for j
    proof (cases "j = ?k mod 64")
      case True
      then have "64 * ?q + j = ?k" using mult_div_mod_eq [of 64 ?k] by simp
      then show ?thesis using assms(5) True j by (simp add: bit_or_iff bit_exp_iff)
    next
      case False
      have "bit ?w j \<longleftrightarrow> bit (al_map al ! ?q) j" using False by (auto simp: bit_or_iff bit_exp_iff)
      also have "\<dots> \<longleftrightarrow> span i (64 * ?q + j) \<subseteq> B" by (rule rep_bit [OF assms(1) q j])
      also have "\<dots> \<longleftrightarrow> span i (64 * ?q + j) \<subseteq> B'"
      proof (rule grows_other [OF assms(4), symmetric])
        show "64 * ?q + j \<noteq> ?k" using mult_div_mod_eq [of 64 ?k] False by linarith
      qed
      finally show ?thesis .
    qed
  qed
  have "?w = - 1 \<longleftrightarrow> span (Suc i) ?q \<subseteq> B'" using word_full [OF rep, of ?q] q by simp
  then have "(?w \<noteq> - 1) = (\<not> span (Suc i) (b div 64 ^ Suc i) \<subseteq> B')" unfolding div_level by blast
  moreover have "(if al_level al = 0 then d\<lparr>sd_set_bits := sd_nr_bits d\<rparr> else d)\<lparr>sd_nr_bits := 1\<rparr> = (if i = 0 then d\<lparr>sd_set_bits := 1\<rparr> else d)"
    using assms(2,6) by (cases d) (simp add: level_shape_def)
  moreover have "level_shape n i (al\<lparr>al_map := (al_map al)[?q := ?w]\<rparr>)" using assms(2) by (simp add: level_shape_def)
  ultimately show ?thesis using f rep by auto
qed

subsection \<open>Setting a run of free bits\<close>

lemma span_mono: "i \<le> j \<Longrightarrow> span i (b div 64 ^ i) \<subseteq> span j (b div 64 ^ j)"
proof
  fix x assume ij: "i \<le> j" and "x \<in> span i (b div 64 ^ i)"
  then have "x div 64 ^ i = b div 64 ^ i" by (simp only: span_iff)
  then have "x div 64 ^ i div 64 ^ (j - i) = b div 64 ^ i div 64 ^ (j - i)" by simp
  then show "x \<in> span j (b div 64 ^ j)" using ij by (simp add: span_iff div_mult2_eq [symmetric] power_add [symmetric])
qed

lemma grows_above: "i \<le> j \<Longrightarrow> grows i b B B' \<Longrightarrow> grows j b B B'"
  by (induction j rule: dec_induct) (auto intro: grows_up)

lemma rep_above:
  assumes "grows i b B B'" "\<not> span i (b div 64 ^ i) \<subseteq> B'" "i \<le> j" "level_rep j al B"
  shows "level_rep j al B'"
proof -
  have g: "grows j b B B'" by (rule grows_above [OF assms(3,1)])
  have "span j k \<subseteq> B' \<longleftrightarrow> span j k \<subseteq> B" for k
  proof (cases "k = b div 64 ^ j")
    case True
    then show ?thesis using span_mono [OF assms(3), of b] assms(2) grows_not [OF g, of j] by blast
  qed (rule grows_other [OF g])
  then show ?thesis using assms(4) by (simp add: level_rep_def)
qed

lemma visit_Cons: "visit_levels func b (i # is) ls d =
    bindO (func (ls ! i) (b div 64 ^ i div 64) (b div 64 ^ i mod 64) d)
      (\<lambda>(al, d, stop). if stop then Inr (ls[i := al], d, True) else visit_levels func b is (ls[i := al]) d)"
  by (simp only: visit_levels.simps Let_def unit_simps)

declare visit_levels.simps(2) [simp del]

lemma visit_set:
  assumes "\<forall>j < length ls. level_shape n j (ls ! j) \<and> level_rep j (ls ! j) (if j < i then B' else B)"
    "b < n" "grows i b B B'" "span i (b div 64 ^ i) \<subseteq> B'" "sd_nr_bits d = 1" "0 < i"
  shows "\<exists>ls' r. visit_levels axmap_set_fn b [i..<length ls] ls d = Inr (ls', d, r) \<and> levels_ok n ls' B' \<and> length ls' = length ls"
  using assms
proof (induction "length ls - i" arbitrary: i ls)
  case 0
  then show ?case by (auto simp: levels_ok_def)
next
  case (Suc x)
  then have i: "i < length ls" "[i..<length ls] = i # [Suc i..<length ls]" by (simp_all add: upt_conv_Cons)
  have sh: "level_rep i (ls ! i) B" "level_shape n i (ls ! i)" using Suc.prems(1) i(1) by auto
  obtain al where al: "axmap_set_fn (ls ! i) (b div 64 ^ i div 64) (b div 64 ^ i mod 64) d =
      Inr (al, d, \<not> span (Suc i) (b div 64 ^ Suc i) \<subseteq> B')" "level_rep i al B'" "level_shape n i al"
    using set_level [OF sh Suc.prems(2-5)] Suc.prems(6) by auto
  let ?ls = "ls[i := al]"
  have inv: "\<forall>j < length ?ls. level_shape n j (?ls ! j) \<and> level_rep j (?ls ! j) (if j < Suc i then B' else B)"
  proof (intro allI impI)
    fix j assume "j < length ?ls"
    then show "level_shape n j (?ls ! j) \<and> level_rep j (?ls ! j) (if j < Suc i then B' else B)"
      using Suc.prems(1) [rule_format, of j] al(2,3) by (cases "j = i") (simp_all add: less_Suc_eq)
  qed
  note g = grows_up [OF Suc.prems(3)]
  show ?case
  proof (cases "span (Suc i) (b div 64 ^ Suc i) \<subseteq> B'")
    case True
    have "\<exists>ls' r. visit_levels axmap_set_fn b [Suc i..<length ?ls] ?ls d = Inr (ls', d, r) \<and> levels_ok n ls' B' \<and> length ls' = length ?ls"
      by (rule Suc.hyps(1) [OF _ inv Suc.prems(2) g True Suc.prems(5)]) (use Suc.hyps(2) in simp_all)
    then show ?thesis unfolding i(2) visit_Cons al(1) using True by simp
  next
    case False
    have "level_rep j (?ls ! j) B'" if "j < length ?ls" for j
      using inv that rep_above [OF g False, of j] by (cases "j < Suc i") auto
    then have "levels_ok n ?ls B'" using inv by (simp add: levels_ok_def)
    then show ?thesis unfolding i(2) visit_Cons al(1) using False by auto
  qed
qed

lemma same_unit:
  assumes "b mod 64 + m \<le> 64" "x \<in> {b..<b + m}"
  shows "x div 64 = b div (64 :: nat)"
proof -
  have "b \<le> x" "x < b + m" using assms(2) by simp_all
  then have "64 * (b div 64) \<le> x" "x < 64 * (b div 64) + 64" using assms(1) mult_div_mod_eq [of 64 b] by linarith+
  then show ?thesis by (intro div_nat_eqI) simp_all
qed

lemma set_level_0:
  assumes "level_rep 0 al B" "level_shape n 0 al" "b < n" "0 < m" "b mod 64 + m \<le> 64" "{b..<b + m} \<inter> B = {}" "sd_nr_bits d = m"
  shows "\<exists>al'. axmap_set_fn al (b div 64) (b mod 64) d =
      Inr (al', d\<lparr>sd_set_bits := m, sd_nr_bits := 1\<rparr>, \<not> span 1 (b div 64) \<subseteq> B \<union> {b..<b + m}) \<and>
    level_rep 0 al' (B \<union> {b..<b + m}) \<and> level_shape n 0 al'"
proof -
  define q r where "q = b div 64" and "r = b mod 64"
  let ?B = "B \<union> {b..<b + m}"
  let ?w = "al_map al ! q OR push_bit r (mask m)"
  have q: "q < length (al_map al)" using units_index [OF assms(3), of 0] assms(2) by (simp add: level_shape_def q_def)
  have b: "bit (al_map al ! q) j \<longleftrightarrow> 64 * q + j \<in> B" if "j < 64" for j
    using rep_bit [OF assms(1) q that] by (simp add: span_0)
  have dm: "b = 64 * q + r" and r: "r + m \<le> 64" using assms(5) by (simp_all add: q_def r_def)
  have f: "axmap_set_fn al q r d = Inr (al\<lparr>al_map := (al_map al)[q := ?w]\<rparr>, d\<lparr>sd_set_bits := m, sd_nr_bits := 1\<rparr>, ?w \<noteq> - 1)"
  proof -
    have "\<not> bit (al_map al ! q) j" if "r \<le> j" "j < r + sd_nr_bits d" for j
    proof -
      have "64 * q + j \<in> {b..<b + m}" using that assms(7) dm by auto
      then show ?thesis using b [of j] that assms(6,7) r by auto
    qed
    then show ?thesis using set_fn_free [OF q, of r d] assms(2,4,7) r by (simp add: level_shape_def)
  qed
  have rep: "level_rep 0 (al\<lparr>al_map := (al_map al)[q := ?w]\<rparr>) ?B"
  proof (rule level_rep_grown [OF assms(1) q])
    show "span 0 k \<subseteq> ?B \<longleftrightarrow> span 0 k \<subseteq> B" if k: "k div 64 \<noteq> q" for k
    proof -
      have "k \<notin> {b..<b + m}" using same_unit [OF assms(5)] k by (auto simp: q_def)
      then show ?thesis by (auto simp: span_0)
    qed
    show "bit ?w j \<longleftrightarrow> span 0 (64 * q + j) \<subseteq> ?B" if "j < 64" for j
    proof -
      have "64 * q + j \<in> {b..<b + m} \<longleftrightarrow> r \<le> j \<and> j < r + m" using dm by auto
      then show ?thesis using b [OF that] that by (auto simp: span_0 bit_or_iff bit_push_bit_iff bit_mask_iff)
    qed
  qed
  have "?w = - 1 \<longleftrightarrow> span 1 q \<subseteq> ?B" using word_full [OF rep, of q] q by simp
  moreover have "level_shape n 0 (al\<lparr>al_map := (al_map al)[q := ?w]\<rparr>)" using assms(2) by (simp add: level_shape_def)
  ultimately show ?thesis using f rep unfolding q_def r_def by auto
qed

lemma handler_set:
  assumes "levels_ok n ls B" "0 < length ls" "b < n" "0 < m" "b mod 64 + m \<le> 64" "{b..<b + m} \<inter> B = {}" "sd_nr_bits d = m"
  shows "\<exists>ls' r. visit_levels axmap_set_fn b [0..<length ls] ls d = Inr (ls', d\<lparr>sd_set_bits := m, sd_nr_bits := 1\<rparr>, r) \<and>
    levels_ok n ls' (B \<union> {b..<b + m}) \<and> length ls' = length ls"
proof -
  let ?B = "B \<union> {b..<b + m}"
  have sh: "level_rep 0 (ls ! 0) B" "level_shape n 0 (ls ! 0)" using assms(1,2) by (auto simp: levels_ok_def)
  let ?d = "d\<lparr>sd_set_bits := m, sd_nr_bits := 1\<rparr>"
  obtain al where al: "axmap_set_fn (ls ! 0) (b div 64) (b mod 64) d = Inr (al, ?d, \<not> span 1 (b div 64) \<subseteq> ?B)"
      "level_rep 0 al ?B" "level_shape n 0 al"
    using set_level_0 [OF sh assms(3-7)] by blast
  let ?ls = "ls[0 := al]"
  have inv: "\<forall>j < length ?ls. level_shape n j (?ls ! j) \<and> level_rep j (?ls ! j) (if j < 1 then ?B else B)"
    using assms(1) al(2,3) by (auto simp: levels_ok_def nth_list_update)
  have "b \<in> {b..<b + m}" using assms(4) by simp
  then have "b \<notin> B" using assms(6) by blast
  then have g: "grows 1 b B ?B" using same_unit [OF assms(5)] unfolding grows_def power_one_right by blast
  have u: "[0..<length ls] = 0 # [1..<length ls]" using assms(2) by (simp add: upt_conv_Cons)
  have v: "visit_levels axmap_set_fn b [0..<length ls] ls d =
      (if \<not> span 1 (b div 64) \<subseteq> ?B then Inr (?ls, ?d, True) else visit_levels axmap_set_fn b [1..<length ls] ?ls ?d)"
    unfolding u visit_Cons using al(1) by simp
  show ?thesis
  proof (cases "span 1 (b div 64) \<subseteq> ?B")
    case True
    then show ?thesis using visit_set [OF inv assms(3) g] v by simp
  next
    case False
    have "level_rep j (?ls ! j) ?B" if "j < length ?ls" for j
      using inv that rep_above [OF g, of j] False by (cases "j < 1") auto
    then have "levels_ok n ?ls ?B" using inv by (simp add: levels_ok_def)
    then show ?thesis using v False by auto
  qed
qed

lemma handler_levels:
  assumes "ax_ok axmap B" "visit_levels func b [0..<length (ax_levels axmap)] (ax_levels axmap) d = Inr (ls, d', r)"
  shows "axmap_handler axmap b func d = Inr (axmap\<lparr>ax_levels := ls\<rparr>, d', r)"
  using assms ax_okD(1) [OF assms(1)] by (simp add: axmap_handler_def)

lemma ax_ok_levels:
  assumes "ax_ok axmap B" "levels_ok (ax_nr_bits axmap) ls B'" "length ls = length (ax_levels axmap)" "B' \<subseteq> {..<ax_nr_bits axmap}"
    "f = no_bit \<or> f < ax_nr_bits axmap \<and> f \<notin> B'"
  shows "ax_ok (axmap\<lparr>ax_levels := ls, ax_first_free := f\<rparr>) B'"
  using assms unfolding ax_ok_def by simp

text \<open>A run of free bits inside one word, as \<open>axmap_set\<close> and \<open>axmap_set_nr\<close> ask for it.\<close>

lemma set_span_free:
  assumes ok: "ax_ok axmap B" and m: "0 < m" "b + m \<le> ax_nr_bits axmap" "b mod 64 + m \<le> 64" "{b..<b + m} \<inter> B = {}"
  shows "\<exists>ls n. axmap_set_span axmap b \<lparr>sd_nr_bits = m, sd_set_bits = 0\<rparr> =
      Some (Inr (axmap\<lparr>ax_levels := ls, ax_first_free := if ax_first_free axmap \<in> {b..<b + m} then no_bit else ax_first_free axmap\<rparr>,
        \<lparr>sd_nr_bits = n, sd_set_bits = m\<rparr>)) \<and>
    ax_ok (axmap\<lparr>ax_levels := ls, ax_first_free := if ax_first_free axmap \<in> {b..<b + m} then no_bit else ax_first_free axmap\<rparr>) (B \<union> {b..<b + m})"
proof -
  let ?f = "if ax_first_free axmap \<in> {b..<b + m} then no_bit else ax_first_free axmap"
  let ?a = "axmap\<lparr>ax_first_free := ?f\<rparr>" and ?d = "\<lparr>sd_nr_bits = m, sd_set_bits = 0\<rparr>"
  have b: "b < ax_nr_bits axmap" "b + m < 2 ^ 63" using m ax_okD(6) [OF ok] by simp_all
  have nb: "b + m < 2 ^ 64" using b(2) by simp
  have ff: "?f = no_bit \<or> ?f < ax_nr_bits axmap \<and> ?f \<notin> B \<union> {b..<b + m}" using ax_okD(8) [OF ok] by auto
  obtain ls r where v: "visit_levels axmap_set_fn b [0..<length (ax_levels axmap)] (ax_levels axmap) ?d =
      Inr (ls, ?d\<lparr>sd_set_bits := m, sd_nr_bits := 1\<rparr>, r)"
    and ls: "levels_ok (ax_nr_bits axmap) ls (B \<union> {b..<b + m})" "length ls = length (ax_levels axmap)"
    using handler_set [OF ax_okD(5,2) [OF ok] b(1) m(1,3,4), of ?d] by auto
  have h: "axmap_handler ?a b axmap_set_fn ?d = Inr (?a\<lparr>ax_levels := ls\<rparr>, \<lparr>sd_nr_bits = 1, sd_set_bits = m\<rparr>, r)"
    using v ax_okD(1) [OF ok] by (simp add: axmap_handler_def)
  have m64: "m \<le> 64" using m(3) by simp
  have eq: "?a\<lparr>ax_levels := ls\<rparr> = axmap\<lparr>ax_levels := ls, ax_first_free := ?f\<rparr>" by (cases axmap) simp
  have "axmap_set_loop ?a b m 0 ?d = Some (Inr (?a\<lparr>ax_levels := ls\<rparr>, \<lparr>sd_nr_bits = if m = 32 then 0 else 1, sd_set_bits = m\<rparr>))"
  proof (cases "m = 32")
    case True
    then show ?thesis using h by (simp add: axmap_set_loop.simps BLOCKS_PER_UNIT_def UNIT_SHIFT_def)
  next
    case False
    have "(BLOCKS_PER_UNIT + 2 ^ 32 - m) mod 2 ^ 32 = 64 - m"
    proof -
      have "BLOCKS_PER_UNIT + 2 ^ 32 - m = (64 - m) + 2 ^ 32" using m64 by (simp add: BLOCKS_PER_UNIT_def UNIT_SHIFT_def)
      then show ?thesis by (simp only: mod_add_self2) simp
    qed
    then show ?thesis using h False m(1) m64 by (simp add: axmap_set_loop.simps)
  qed
  moreover have "axmap_set_span axmap b ?d = axmap_set_loop ?a b m 0 ?d"
  proof -
    have "(b + m) mod 2 ^ 64 = b + m" using nb by simp
    moreover have "\<not> b > ax_nr_bits axmap" "\<not> b + m > ax_nr_bits axmap" using b(1) m(2) by simp_all
    moreover have "(if b \<le> ax_first_free axmap \<and> ax_first_free axmap < b + m then axmap\<lparr>ax_first_free := no_bit\<rparr> else axmap) = ?a"
      by (cases axmap) simp
    ultimately show ?thesis unfolding axmap_set_span_def Let_def by simp
  qed
  moreover have "ax_ok (axmap\<lparr>ax_levels := ls, ax_first_free := ?f\<rparr>) (B \<union> {b..<b + m})"
  proof (rule ax_ok_levels [OF ok ls _ ff])
    show "B \<union> {b..<b + m} \<subseteq> {..<ax_nr_bits axmap}" using ax_okD(7) [OF ok] m(2) by auto
  qed
  ultimately show ?thesis unfolding eq by metis
qed

lemma set_span_present:
  assumes ok: "ax_ok axmap B" and b: "b \<in> B"
  shows "axmap_set_span axmap b \<lparr>sd_nr_bits = 1, sd_set_bits = 0\<rparr> = Some (Inr (axmap, \<lparr>sd_nr_bits = 1, sd_set_bits = 0\<rparr>))"
proof -
  let ?ls = "ax_levels axmap" and ?d = "\<lparr>sd_nr_bits = 1, sd_set_bits = 0\<rparr>"
  have n: "b < ax_nr_bits axmap" using ax_okD(7) [OF ok] b by auto
  have r: "level_rep 0 (?ls ! 0) B" "level_shape (ax_nr_bits axmap) 0 (?ls ! 0)" using ax_okD(2,5) [OF ok] by (auto simp: levels_ok_def)
  then have q: "b div 64 < length (al_map (?ls ! 0))" using units_index [OF n, of 0] by (simp add: level_shape_def)
  then have "bit (al_map (?ls ! 0) ! (b div 64)) (b mod 64)" using rep_bit [OF r(1) q, of "b mod 64"] b by (simp add: span_0)
  then have "axmap_set_fn (?ls ! 0) (b div 64) (b mod 64) ?d = Inr (?ls ! 0, ?d, True)" using set_fn_present [OF q, of "b mod 64" ?d] by simp
  moreover have "[0..<length ?ls] = 0 # [1..<length ?ls]" using ax_okD(2) [OF ok] by (simp add: upt_conv_Cons)
  ultimately have "visit_levels axmap_set_fn b [0..<length ?ls] ?ls ?d = Inr (?ls, ?d, True)" by (simp add: visit_Cons)
  from handler_levels [OF ok this] have h: "axmap_handler axmap b axmap_set_fn ?d = Inr (axmap, ?d, True)" by simp
  have "\<not> (b \<le> ax_first_free axmap \<and> ax_first_free axmap < (b + 1) mod 2 ^ 64)"
    using ax_okD(6,8) [OF ok] b n by (auto simp: no_bit_def less_Suc_eq)
  moreover have "(b + 1) mod 2 ^ 64 = b + 1" using ax_okD(6) [OF ok] n by simp
  moreover have "axmap_set_loop axmap b 1 0 ?d = Some (Inr (axmap, ?d))" unfolding axmap_set_loop.simps [of axmap b 1] h by simp
  ultimately show ?thesis using n unfolding axmap_set_span_def Let_def by auto
qed

lemma axmap_set_ok:
  assumes ok: "ax_ok axmap B" and b: "b < ax_nr_bits axmap"
  shows "\<exists>axmap'. axmap_set axmap b = Some (Inr axmap') \<and> ax_ok axmap' (insert b B) \<and> ax_nr_bits axmap' = ax_nr_bits axmap"
proof (cases "b \<in> B")
  case True
  then show ?thesis using set_span_present [OF ok True] ok by (simp add: axmap_set_def insert_absorb)
next
  case False
  have r: "{b..<b + 1} = {b}" by auto
  have "b mod 64 + 1 \<le> 64" using mod_less_divisor [of 64 b] by linarith
  then show ?thesis using set_span_free [OF ok, of 1 b] b False unfolding r by (auto simp: axmap_set_def)
qed

lemma set_nr_free:
  "ax_ok axmap B \<Longrightarrow> 0 < n \<Longrightarrow> b + n \<le> ax_nr_bits axmap \<Longrightarrow> {b..<b + n} \<inter> B = {} \<Longrightarrow> s + n < 2 ^ 32 \<Longrightarrow>
    \<exists>axmap'. set_nr_loop axmap b n s = Some (Inr (axmap', s + n)) \<and> ax_ok axmap' (B \<union> {b..<b + n}) \<and> ax_nr_bits axmap' = ax_nr_bits axmap"
proof (induction n arbitrary: axmap B b s rule: less_induct)
  case (less n)
  define m where "m = min (64 - b mod 64) n"
  have m: "0 < m" "m \<le> n" "b mod 64 + m \<le> 64" using less.prems(2) mod_less_divisor [of 64 b] by (auto simp: m_def)
  have sub: "{b..<b + m} \<subseteq> {b..<b + n}" "{b + m..<b + n} \<subseteq> {b..<b + n}" using m(2) by auto
  have free: "{b..<b + m} \<inter> B = {}" using less.prems(4) sub(1) by blast
  have bm: "b + m \<le> ax_nr_bits axmap" using m(2) less.prems(3) by linarith
  obtain ls k where c: "axmap_set_span axmap b \<lparr>sd_nr_bits = m, sd_set_bits = 0\<rparr> =
      Some (Inr (axmap\<lparr>ax_levels := ls, ax_first_free := if ax_first_free axmap \<in> {b..<b + m} then no_bit else ax_first_free axmap\<rparr>,
        \<lparr>sd_nr_bits = k, sd_set_bits = m\<rparr>))"
    and ok: "ax_ok (axmap\<lparr>ax_levels := ls, ax_first_free := if ax_first_free axmap \<in> {b..<b + m} then no_bit else ax_first_free axmap\<rparr>) (B \<union> {b..<b + m})"
    using set_span_free [OF less.prems(1) m(1) bm m(3) free] by (elim exE conjE)
  let ?a = "axmap\<lparr>ax_levels := ls, ax_first_free := if ax_first_free axmap \<in> {b..<b + m} then no_bit else ax_first_free axmap\<rparr>"
  have t: "(if BLOCKS_PER_UNIT - (b AND BLOCKS_PER_UNIT_MASK) < n then BLOCKS_PER_UNIT - (b AND BLOCKS_PER_UNIT_MASK) else n) = m"
    by (simp add: unit_simps m_def BLOCKS_PER_UNIT_def UNIT_SHIFT_def)
  have w: "(s + m) mod 2 ^ 32 = s + m" "(b + m) mod 2 ^ 64 = b + m" "(n + 2 ^ 32 - m) mod 2 ^ 32 = n - m"
  proof -
    show "(s + m) mod 2 ^ 32 = s + m" using less.prems(5) m(2) by simp
    show "(b + m) mod 2 ^ 64 = b + m" using ax_okD(6) [OF less.prems(1)] less.prems(3) m(2) by simp
    have "n + 2 ^ 32 - m = (n - m) + 2 ^ 32" using m(2) by simp
    then show "(n + 2 ^ 32 - m) mod 2 ^ 32 = n - m" using less.prems(5) by (simp only: mod_add_self2) simp
  qed
  have l: "set_nr_loop axmap b n s = (if n - m = 0 then Some (Inr (?a, s + m)) else set_nr_loop ?a (b + m) (n - m) (s + m))"
    unfolding set_nr_loop.simps [of axmap b n s] Let_def t c
    by (simp only: option.case sum.case prod.case axmap_set_data.simps w simp_thms if_False)
  show ?case
  proof (cases "n = m")
    case True
    then show ?thesis using l ok by auto
  next
    case False
    then have lt: "n - m < n" "0 < n - m" using m by simp_all
    have e: "b + m + (n - m) = b + n" "s + m + (n - m) = s + n" using m(2) by simp_all
    have "{b + m..<b + n} \<inter> (B \<union> {b..<b + m}) = {}" using less.prems(4) sub(2) by fastforce
    then obtain a where "set_nr_loop ?a (b + m) (n - m) (s + m) = Some (Inr (a, s + n))"
        "ax_ok a (B \<union> {b..<b + m} \<union> {b + m..<b + n})" "ax_nr_bits a = ax_nr_bits axmap"
      using less.IH [OF lt(1) ok lt(2), of "b + m" "s + m", unfolded e] less.prems(3,5) by auto
    moreover have "B \<union> {b..<b + m} \<union> {b + m..<b + n} = B \<union> {b..<b + n}" using m(2) by auto
    ultimately show ?thesis using l lt(2) by auto
  qed
qed

subsection \<open>Clearing and testing\<close>

lemma and_unit: "w AND push_bit b 1 = 0 \<longleftrightarrow> \<not> bit w b" for w :: "64 word"
  by (simp add: and_exp_eq_0_iff_not_bit)

lemma span_minus: "span i k \<subseteq> B - {b} \<longleftrightarrow> span i k \<subseteq> B \<and> k \<noteq> b div 64 ^ i"
  unfolding subset_Diff_insert using span_iff [of b i k] by auto

lemma rep_clear:
  assumes "\<not> span i (b div 64 ^ i) \<subseteq> B" "i \<le> j" "level_rep j al B"
  shows "level_rep j al (B - {b})"
  using assms(3) span_mono [OF assms(2), of b] assms(1) unfolding level_rep_def span_minus by blast

lemma clear_level:
  assumes "level_rep i al B" "level_shape n i al" "b < n"
  shows "\<exists>al'. axmap_clear_fn al (b div 64 ^ i div 64) (b div 64 ^ i mod 64) () = Inr (al', (), \<not> span i (b div 64 ^ i) \<subseteq> B) \<and>
    (if span i (b div 64 ^ i) \<subseteq> B then level_rep i al' (B - {b}) \<and> level_shape n i al' else al' = al)"
proof -
  let ?k = "b div 64 ^ i" let ?q = "?k div 64" let ?w = "al_map al ! ?q"
  have q: "?q < length (al_map al)" using units_index [OF assms(3)] assms(2) by (simp add: level_shape_def)
  have k: "64 * ?q + ?k mod 64 = ?k" by (rule mult_div_mod_eq)
  have b: "bit ?w (?k mod 64) \<longleftrightarrow> span i ?k \<subseteq> B" using rep_bit [OF assms(1) q, of "?k mod 64"] by simp
  have f: "axmap_clear_fn al ?q (?k mod 64) () =
      (if span i ?k \<subseteq> B then Inr (al\<lparr>al_map := (al_map al)[?q := ?w AND NOT (push_bit (?k mod 64) 1)]\<rparr>, (), False) else Inr (al, (), True))"
    unfolding axmap_clear_fn_def al_word_def and_unit using q by (simp add: b)
  have "level_rep i (al\<lparr>al_map := (al_map al)[?q := ?w AND NOT (push_bit (?k mod 64) 1)]\<rparr>) (B - {b})"
  proof (rule level_rep_grown [OF assms(1) q])
    show "span i k \<subseteq> B - {b} \<longleftrightarrow> span i k \<subseteq> B" if "k div 64 \<noteq> ?q" for k using that unfolding span_minus by auto
    show "bit (?w AND NOT (push_bit (?k mod 64) 1)) j \<longleftrightarrow> span i (64 * ?q + j) \<subseteq> B - {b}" if j: "j < 64" for j
    proof -
      have "64 * ?q + j = ?k \<longleftrightarrow> j = ?k mod 64" using k by linarith
      then show ?thesis unfolding span_minus using rep_bit [OF assms(1) q j] j by (auto simp: bit_and_iff bit_not_iff bit_exp_iff)
    qed
  qed
  then show ?thesis using f assms(2) by (auto simp: level_shape_def)
qed

lemma visit_clear:
  assumes "\<forall>j < length ls. level_shape n j (ls ! j) \<and> level_rep j (ls ! j) (if j < i then B - {b} else B)" "b < n"
  shows "\<exists>ls' r. visit_levels axmap_clear_fn b [i..<length ls] ls () = Inr (ls', (), r) \<and> levels_ok n ls' (B - {b}) \<and> length ls' = length ls"
  using assms
proof (induction "length ls - i" arbitrary: i ls)
  case 0
  then show ?case by (auto simp: levels_ok_def)
next
  case (Suc x)
  then have i: "i < length ls" "[i..<length ls] = i # [Suc i..<length ls]" by (simp_all add: upt_conv_Cons)
  have sh: "level_rep i (ls ! i) B" "level_shape n i (ls ! i)" using Suc.prems(1) i(1) by auto
  obtain al where al: "axmap_clear_fn (ls ! i) (b div 64 ^ i div 64) (b div 64 ^ i mod 64) () = Inr (al, (), \<not> span i (b div 64 ^ i) \<subseteq> B)"
    "if span i (b div 64 ^ i) \<subseteq> B then level_rep i al (B - {b}) \<and> level_shape n i al else al = ls ! i"
    using clear_level [OF sh Suc.prems(2)] by blast
  show ?case
  proof (cases "span i (b div 64 ^ i) \<subseteq> B")
    case True
    let ?ls = "ls[i := al]"
    have "\<forall>j < length ?ls. level_shape n j (?ls ! j) \<and> level_rep j (?ls ! j) (if j < Suc i then B - {b} else B)"
    proof (intro allI impI)
      fix j assume "j < length ?ls"
      then show "level_shape n j (?ls ! j) \<and> level_rep j (?ls ! j) (if j < Suc i then B - {b} else B)"
        using Suc.prems(1) [rule_format, of j] al(2) True by (cases "j = i") (simp_all add: less_Suc_eq)
    qed
    then have "\<exists>ls' r. visit_levels axmap_clear_fn b [Suc i..<length ?ls] ?ls () = Inr (ls', (), r) \<and> levels_ok n ls' (B - {b}) \<and> length ls' = length ?ls"
      by (rule Suc.hyps(1) [rotated]) (use Suc.hyps(2) Suc.prems(2) in simp_all)
    then show ?thesis unfolding i(2) visit_Cons al(1) using True by simp
  next
    case False
    then have "level_rep j (ls ! j) (B - {b})" if "j < length ls" for j
      using Suc.prems(1) [rule_format, OF that] rep_clear [OF False, of j] by (cases "j < i") auto
    then have "levels_ok n ls (B - {b})" using Suc.prems(1) by (simp add: levels_ok_def)
    then show ?thesis unfolding i(2) visit_Cons al(1) using False al(2) by auto
  qed
qed

lemma axmap_clear_ok:
  assumes ok: "ax_ok axmap B" and b: "b < ax_nr_bits axmap"
  shows "\<exists>axmap'. axmap_clear axmap b = Inr axmap' \<and> ax_ok axmap' (B - {b}) \<and> ax_nr_bits axmap' = ax_nr_bits axmap"
proof -
  let ?ls = "ax_levels axmap"
  have "\<forall>j < length ?ls. level_shape (ax_nr_bits axmap) j (?ls ! j) \<and> level_rep j (?ls ! j) (if j < 0 then B - {b} else B)"
    using ax_okD(5) [OF ok] by (simp add: levels_ok_def)
  from visit_clear [OF this b] obtain ls r where v: "visit_levels axmap_clear_fn b [0..<length ?ls] ?ls () = Inr (ls, (), r)"
    and ls: "levels_ok (ax_nr_bits axmap) ls (B - {b})" "length ls = length ?ls"
    by blast
  have "axmap_clear axmap b = Inr (axmap\<lparr>ax_levels := ls\<rparr>)" using handler_levels [OF ok v] by (simp add: axmap_clear_def)
  moreover have "ax_ok (axmap\<lparr>ax_levels := ls\<rparr>) (B - {b})"
    using ax_ok_levels [OF ok ls, of "ax_first_free axmap"] ax_okD(7,8) [OF ok] by auto
  ultimately show ?thesis by simp
qed

lemma visit_isset:
  assumes "levels_ok n ls B" "b < n" "set js \<subseteq> {..<length ls}"
  shows "visit_levels axmap_isset_fn b js ls () = Inr (ls, (), \<exists>j \<in> set js. span j (b div 64 ^ j) \<subseteq> B)"
  using assms(3)
proof (induction js)
  case (Cons j js)
  let ?k = "b div 64 ^ j" let ?q = "?k div 64"
  have r: "level_rep j (ls ! j) B" "level_shape n j (ls ! j)" using assms(1) Cons.prems by (auto simp: levels_ok_def)
  have q: "?q < length (al_map (ls ! j))" using units_index [OF assms(2)] r(2) by (simp add: level_shape_def)
  have k: "64 * ?q + ?k mod 64 = ?k" by (rule mult_div_mod_eq)
  have b: "bit (al_map (ls ! j) ! ?q) (?k mod 64) \<longleftrightarrow> span j ?k \<subseteq> B" using rep_bit [OF r(1) q, of "?k mod 64"] by simp
  have "axmap_isset_fn (ls ! j) ?q (?k mod 64) () = Inr (ls ! j, (), span j ?k \<subseteq> B)"
    unfolding axmap_isset_fn_def al_word_def and_unit not_not b [symmetric] using q by (simp add: and_unit)
  then show ?case using Cons by (simp add: visit_Cons)
qed simp

lemma axmap_isset_ok:
  assumes ok: "ax_ok axmap B" and b: "b < ax_nr_bits axmap"
  shows "axmap_isset axmap b = Inr (b \<in> B)"
proof -
  let ?ls = "ax_levels axmap"
  have "(\<exists>j < length ?ls. span j (b div 64 ^ j) \<subseteq> B) \<longleftrightarrow> b \<in> B"
  proof
    assume "\<exists>j < length ?ls. span j (b div 64 ^ j) \<subseteq> B"
    then show "b \<in> B" using span_iff by blast
  next
    assume "b \<in> B"
    then have "span 0 (b div 64 ^ 0) \<subseteq> B" by (simp add: span_0)
    then show "\<exists>j < length ?ls. span j (b div 64 ^ j) \<subseteq> B" using ax_okD(2) [OF ok] by blast
  qed
  moreover have "set (rev [0..<length ?ls]) \<subseteq> {..<length ?ls}" by auto
  from visit_isset [OF ax_okD(5) [OF ok] b this]
  have "visit_levels axmap_isset_fn b (rev [0..<length ?ls]) ?ls () = Inr (?ls, (), \<exists>j < length ?ls. span j (b div 64 ^ j) \<subseteq> B)"
    by (simp add: Bex_def)
  ultimately have "visit_levels axmap_isset_fn b (rev [0..<length ?ls]) ?ls () = Inr (?ls, (), b \<in> B)" by simp
  then show ?thesis using b ax_okD(1) [OF ok] by (simp add: axmap_isset_def axmap_handler_topdown_def)
qed

subsection \<open>Finding a free bit\<close>

lemma units_le: "units n i \<le> (n + 63) div 64"
proof (induction i)
  case (Suc i)
  have "units n (Suc i) \<le> units n i \<or> units n i = 0" by simp linarith
  then show ?case using Suc by auto
qed simp

text \<open>What the descent from bit \<open>k\<close> of level \<open>i\<close> gives: the first free bit of the span, or nothing below \<open>n\<close>.\<close>

definition first_in :: "nat \<Rightarrow> nat set \<Rightarrow> nat set \<Rightarrow> nat \<Rightarrow> bool" where
  "first_in n B S r \<longleftrightarrow> (r \<notin> B \<and> r \<in> S \<and> (\<forall>x \<in> S. x < r \<longrightarrow> x \<in> B)) \<or> (r = no_bit \<and> (\<forall>x \<in> S. x < n \<longrightarrow> x \<in> B))"

lemma first_in_below:
  assumes "first_in n B (span i (64 * k + f)) r" "\<not> span i (64 * k + f) \<subseteq> B" "B \<subseteq> {..<n}" "f < 64" "\<And>j. j < f \<Longrightarrow> span i (64 * k + j) \<subseteq> B"
  shows "first_in n B (span (Suc i) k) r"
proof -
  let ?K = "64 * k + f"
  have below: "x \<in> B" if x: "x \<in> span (Suc i) k" "x div 64 ^ i < ?K" for x
  proof -
    have "x div 64 ^ i div 64 = k" using x(1) unfolding span_iff div_level .
    then obtain j where "x div 64 ^ i = 64 * k + j" using mult_div_mod_eq [of 64 "x div 64 ^ i"] by metis
    then have "x div 64 ^ i = 64 * k + j" "j < f" using x(2) by simp_all
    then show ?thesis using assms(5) [of j] span_iff [of x i] by blast
  qed
  obtain y where y: "y div 64 ^ i = ?K" "y \<notin> B" using assms(2) span_iff by blast
  show ?thesis
  proof (cases "r \<notin> B \<and> r \<in> span i ?K \<and> (\<forall>x \<in> span i ?K. x < r \<longrightarrow> x \<in> B)")
    case True
    then have r: "r div 64 ^ i = ?K" by (simp add: span_iff)
    then have "r \<in> span (Suc i) k" unfolding span_iff div_level using assms(4) by simp
    moreover have "x \<in> B" if "x \<in> span (Suc i) k" "x < r" for x
    proof (cases "x div 64 ^ i = ?K")
      case False
      have "x div 64 ^ i \<le> r div 64 ^ i" using that(2) by (intro div_le_mono) simp
      then show ?thesis using below [OF that(1)] False r by simp
    qed (use True that(2) span_iff in blast)
    ultimately show ?thesis using True by (auto simp: first_in_def)
  next
    case False
    then have n: "r = no_bit" "\<forall>x \<in> span i ?K. x < n \<longrightarrow> x \<in> B" using assms(1) by (auto simp: first_in_def)
    then have "n \<le> y" using y span_iff by (meson not_le)
    have "x \<in> B" if "x \<in> span (Suc i) k" "x < n" for x
    proof (cases "x div 64 ^ i = ?K")
      case False
      have "x div 64 ^ i \<le> y div 64 ^ i" using that(2) \<open>n \<le> y\<close> by (intro div_le_mono) simp
      then show ?thesis using below [OF that(1)] False y(1) by simp
    qed (use n(2) that(2) span_iff in blast)
    then show ?thesis using n(1) by (auto simp: first_in_def)
  qed
qed

lemma descent:
  "levels_ok n ls B \<Longrightarrow> i \<le> length ls \<Longrightarrow> n < 2 ^ 63 \<Longrightarrow> B \<subseteq> {..<n} \<Longrightarrow> \<not> span i k \<subseteq> B \<Longrightarrow> (i = 0 \<Longrightarrow> ret = k) \<Longrightarrow>
    first_in n B (span i k) (find_free_loop ls (rev [0..<i]) ret k)"
proof (induction i arbitrary: k ret)
  case 0
  then show ?case by (auto simp: first_in_def span_0)
next
  case (Suc i)
  let ?al = "ls ! i"
  have r: "level_rep i ?al B" "al_map_size ?al = length (al_map ?al)" "length (al_map ?al) = units n i"
    using Suc.prems(1,2) by (auto simp: levels_ok_def level_shape_def)
  show ?case
  proof (cases "k < units n i")
    case False
    have "x \<in> B" if "x \<in> span (Suc i) k" "x < n" for x
      using units_index [OF that(2), of i] that(1) False unfolding span_iff div_level by simp
    then have "first_in n B (span (Suc i) k) no_bit" by (simp add: first_in_def)
    then show ?thesis using False r by (simp add: Let_def)
  next
    case True
    then have k: "k < length (al_map ?al)" using r(3) by simp
    let ?w = "al_map ?al ! k" let ?K = "64 * k + ffz ?w"
    have w: "?w \<noteq> - 1" using word_full [OF r(1) k] Suc.prems(5) by blast
    have z: "ffz ?w < 64" "\<not> bit ?w (ffz ?w)" "\<And>j. j < ffz ?w \<Longrightarrow> bit ?w j" using ffz_first [OF w] by blast+
    have nf: "not_full (al_map ?al) [k..<al_map_size ?al] = Some k" using w k r(2) by (simp add: upt_conv_Cons)
    have "k < (n + 63) div 64" using True units_le [of n i] by simp
    then have "?K < 2 ^ 64" using z(1) Suc.prems(3) by simp
    then have K: "?K mod 2 ^ 64 = ?K" by simp
    have ns: "\<not> span i ?K \<subseteq> B" using rep_bit [OF r(1) k z(1)] z(2) by blast
    have "first_in n B (span i ?K) (find_free_loop ls (rev [0..<i]) ?K ?K)"
      by (rule Suc.IH [OF Suc.prems(1) _ Suc.prems(3,4) ns]) (use Suc.prems(2) in simp_all)
    moreover have "span i (64 * k + j) \<subseteq> B" if "j < ffz ?w" for j
      using rep_bit [OF r(1) k, of j] z(1) z(3) [OF that] that by simp
    ultimately have "first_in n B (span (Suc i) k) (find_free_loop ls (rev [0..<i]) ?K ?K)"
      using first_in_below [OF _ ns Suc.prems(4) z(1)] by blast
    moreover have "find_free_loop ls (rev [0..<Suc i]) ret k = find_free_loop ls (rev [0..<i]) ?K ?K"
      using k r(2) nf K by (simp add: unit_simps Let_def)
    ultimately show ?thesis by simp
  qed
qed

lemma not_full_None: "(\<And>j. j \<in> set js \<Longrightarrow> ws ! j = - 1) \<Longrightarrow> not_full ws js = None"
  by (induction js) auto

lemma find_free_full:
  "(\<And>i j. i \<in> set is \<Longrightarrow> j < length (al_map (ls ! i)) \<Longrightarrow> al_map (ls ! i) ! j = - 1) \<Longrightarrow>
    (\<And>i. i \<in> set is \<Longrightarrow> al_map_size (ls ! i) = length (al_map (ls ! i))) \<Longrightarrow> find_free_loop ls is no_bit 0 = no_bit"
proof (induction "is")
  case (Cons i "is")
  have "not_full (al_map (ls ! i)) [0..<al_map_size (ls ! i)] = None" using Cons.prems by (intro not_full_None) simp
  then show ?case using Cons by (simp add: Let_def)
qed simp

lemma units_top:
  assumes "x < n" "units n i \<le> 1"
  shows "x \<in> span (Suc i) 0"
proof -
  have "x div 64 ^ i div 64 = 0" using units_index [OF assms(1), of i] assms(2) by linarith
  then show ?thesis by (simp only: span_iff div_level)
qed

lemma units_start: "j < units n i \<Longrightarrow> j * 64 ^ Suc i < n"
proof (induction i arbitrary: j)
  case (Suc i)
  then have "64 * j < units n i" by simp
  from Suc.IH [OF this] show ?case by (simp add: ac_simps)
qed simp

lemma find_first_free_ok:
  assumes ok: "ax_ok axmap B"
  defines "r \<equiv> axmap_find_first_free axmap (ax_nr_levels axmap - 1) 0"
  shows "if {..<ax_nr_bits axmap} \<subseteq> B then r = no_bit else r < ax_nr_bits axmap \<and> r \<notin> B \<and> {..<r} \<subseteq> B"
proof -
  let ?n = "ax_nr_bits axmap" and ?ls = "ax_levels axmap" let ?L = "length ?ls"
  let ?f = "find_free_loop ?ls (rev [0..<?L]) no_bit 0"
  have L: "Suc (?L - 1) = ?L" using ax_okD(2) [OF ok] by simp
  have r: "r = (if ?f < ?n then ?f else no_bit)" unfolding r_def axmap_find_first_free_def Let_def ax_okD(1) [OF ok] L ..
  have top: "x \<in> span ?L 0" if "x < ?n" for x using units_top [OF that ax_okD(4) [OF ok]] by (simp only: L)
  have "first_in ?n B (span ?L 0) ?f"
  proof (cases "span ?L 0 \<subseteq> B")
    case True
    have "al_map (?ls ! i) ! j = - 1" if i: "i \<in> set (rev [0..<?L])" and j: "j < length (al_map (?ls ! i))" for i j
    proof -
      have "i < ?L" using i by simp
      then have il: "level_rep i (?ls ! i) B" "length (al_map (?ls ! i)) = units ?n i" using ax_okD(5) [OF ok] by (simp_all add: levels_ok_def level_shape_def)
      let ?x = "j * 64 ^ Suc i"
      have "?x \<in> span ?L 0" using top units_start [of j ?n i] j il(2) by simp
      then have "?x div 64 ^ ?L = 0" by (simp only: span_iff)
      moreover have "?x div 64 ^ Suc i = j" by (rule nonzero_mult_div_cancel_right) simp
      ultimately have "span (Suc i) j \<subseteq> span ?L 0" using span_mono [of "Suc i" ?L ?x] \<open>i < ?L\<close> by (simp only: Suc_le_eq)
      then have "span (Suc i) j \<subseteq> B" using True by blast
      then show ?thesis using word_full [OF il(1) j] by blast
    qed
    then have "?f = no_bit" using ax_okD(5) [OF ok] by (intro find_free_full) (auto simp: levels_ok_def level_shape_def)
    then show ?thesis using True by (auto simp: first_in_def)
  next
    case False
    show ?thesis by (rule descent [OF ax_okD(5) [OF ok] order_refl ax_okD(6,7) [OF ok] False]) (use L in simp)
  qed
  then consider "?f \<notin> B" "\<forall>x < ?n. x < ?f \<longrightarrow> x \<in> B" | "?f = no_bit" "\<forall>x < ?n. x \<in> B"
    using top by (auto simp: first_in_def)
  then show ?thesis
  proof cases
    case 1
    then show ?thesis unfolding r by (auto simp: subset_iff not_less)
  next
    case 2
    moreover have "\<not> no_bit < ?n" using ax_okD(6) [OF ok] by (simp add: no_bit_def)
    ultimately show ?thesis unfolding r by auto
  qed
qed

definition free_or_none :: "nat \<Rightarrow> nat set \<Rightarrow> nat \<Rightarrow> bool" where
  "free_or_none n B r \<longleftrightarrow> (if {..<n} \<subseteq> B then r = no_bit else r < n \<and> r \<notin> B)"

lemma axmap_first_free_ok:
  assumes ok: "ax_ok axmap B"
  shows "\<exists>f. axmap_first_free axmap = (axmap\<lparr>ax_first_free := f\<rparr>, f) \<and> ax_ok (axmap\<lparr>ax_first_free := f\<rparr>) B \<and> free_or_none (ax_nr_bits axmap) B f"
proof (cases "firstfree_valid axmap")
  case True
  then have "ax_first_free axmap < ax_nr_bits axmap" "ax_first_free axmap \<notin> B" using ax_okD(8) [OF ok] by (auto simp: firstfree_valid_def)
  then have "free_or_none (ax_nr_bits axmap) B (ax_first_free axmap)" by (auto simp: free_or_none_def)
  then show ?thesis using True ok by (auto simp: axmap_first_free_def)
next
  case False
  define f where "f = axmap_find_first_free axmap (ax_nr_levels axmap - 1) 0"
  have f: "if {..<ax_nr_bits axmap} \<subseteq> B then f = no_bit else f < ax_nr_bits axmap \<and> f \<notin> B \<and> {..<f} \<subseteq> B"
    unfolding f_def by (rule find_first_free_ok [OF ok])
  then have "f = no_bit \<or> f < ax_nr_bits axmap \<and> f \<notin> B" by presburger
  then have "ax_ok (axmap\<lparr>ax_first_free := f\<rparr>) B" using ok unfolding ax_ok_def by simp
  moreover have "axmap_first_free axmap = (axmap\<lparr>ax_first_free := f\<rparr>, f)" using False by (simp add: axmap_first_free_def Let_def f_def)
  moreover have "free_or_none (ax_nr_bits axmap) B f" using f unfolding free_or_none_def by presburger
  ultimately show ?thesis by blast
qed

lemma next_free_fn_eq:
  assumes "q < length (al_map al)"
  shows "axmap_next_free_fn al q b d =
    (if NOT (bit_masks ! ((nf_bit d + 1) AND BLOCKS_PER_UNIT_MASK)) AND NOT (al_map al ! q) = 0 then Inr (al, d, False)
     else Inr (al, d\<lparr>nf_level := al_level al, nf_offset := q\<rparr>, True))"
proof -
  have "al_map al ! q \<noteq> - 1" if "NOT m AND NOT (al_map al ! q) \<noteq> 0" for m using that by auto
  then show ?thesis using assms by (simp add: axmap_next_free_fn_def al_word_def Let_def)
qed

lemma visit_next_free:
  assumes "levels_ok n ls B" "b div 64 < units n 0"
  shows "set js \<subseteq> {..<length ls} \<Longrightarrow>
    \<exists>d' found. visit_levels axmap_next_free_fn b js ls d = Inr (ls, d', found) \<and>
      (found \<longrightarrow> nf_level d' < length ls \<and> nf_offset d' = b div 64 ^ Suc (nf_level d') \<and> \<not> span (Suc (nf_level d')) (nf_offset d') \<subseteq> B)"
proof (induction js)
  case (Cons j js)
  let ?q = "b div 64 ^ j div 64" and ?w = "al_map (ls ! j) ! (b div 64 ^ j div 64)"
  let ?m = "NOT (bit_masks ! ((nf_bit d + 1) AND BLOCKS_PER_UNIT_MASK))"
  have j: "j < length ls" using Cons.prems by simp
  then have r: "level_rep j (ls ! j) B" "level_shape n j (ls ! j)" using assms(1) by (simp_all add: levels_ok_def)
  have q: "?q < length (al_map (ls ! j))" using units_word [OF assms(2)] r(2) by (simp add: level_shape_def)
  note f = next_free_fn_eq [OF q, of "b div 64 ^ j mod 64" d]
  show ?case
  proof (cases "?m AND NOT ?w = 0")
    case True
    then show ?thesis using Cons f by (simp add: visit_Cons)
  next
    case False
    then have "?w \<noteq> - 1" by auto
    then have "\<not> span (Suc j) ?q \<subseteq> B" using word_full [OF r(1) q] by blast
    then show ?thesis using f False j r(2) unfolding visit_Cons div_level by (auto simp: level_shape_def div_level simp del: power_Suc)
  qed
qed auto

lemma axmap_next_free_ok:
  assumes ok: "ax_ok axmap B" and b: "b div 64 < units (ax_nr_bits axmap) 0"
  shows "\<exists>f r. axmap_next_free axmap b = Inr (axmap\<lparr>ax_first_free := f\<rparr>, r) \<and> ax_ok (axmap\<lparr>ax_first_free := f\<rparr>) B \<and>
    free_or_none (ax_nr_bits axmap) B r"
proof (cases "firstfree_valid axmap \<and> b < ax_first_free axmap")
  case True
  then have "ax_first_free axmap < ax_nr_bits axmap" "ax_first_free axmap \<notin> B" using ax_okD(8) [OF ok] by (auto simp: firstfree_valid_def)
  then have "free_or_none (ax_nr_bits axmap) B (ax_first_free axmap)" by (auto simp: free_or_none_def)
  then show ?thesis using True ok by (intro exI [of _ "ax_first_free axmap"]) (simp add: axmap_next_free_def)
next
  case False
  let ?n = "ax_nr_bits axmap" and ?ls = "ax_levels axmap" and ?d = "\<lparr>nf_level = 2 ^ 32 - 1, nf_offset = 0, nf_bit = b\<rparr>"
  have "set [0..<length ?ls] \<subseteq> {..<length ?ls}" by auto
  from visit_next_free [OF ax_okD(5) [OF ok] b this, of ?d] obtain d found
    where v: "visit_levels axmap_next_free_fn b [0..<length ?ls] ?ls ?d = Inr (?ls, d, found)"
      and d: "found \<Longrightarrow> nf_level d < length ?ls" "found \<Longrightarrow> \<not> span (Suc (nf_level d)) (nf_offset d) \<subseteq> B" by blast
  obtain f where f: "axmap_first_free axmap = (axmap\<lparr>ax_first_free := f\<rparr>, f)" "ax_ok (axmap\<lparr>ax_first_free := f\<rparr>) B" "free_or_none ?n B f"
    using axmap_first_free_ok [OF ok] by blast
  let ?r = "axmap_find_first_free axmap (nf_level d) (nf_offset d)"
  have e: "axmap_next_free axmap b = (if \<not> found then Inr (axmap_first_free axmap) else if nf_level d = 2 ^ 32 - 1 then Inl Assert_Failed
      else if ?r \<noteq> no_bit then Inr (axmap, ?r) else Inr (axmap_first_free axmap))"
    unfolding axmap_next_free_def if_not_P [OF False] using handler_levels [OF ok v] by (simp add: Let_def)
  show ?thesis
  proof (cases "found \<and> ?r \<noteq> no_bit")
    case True
    have "first_in ?n B (span (Suc (nf_level d)) (nf_offset d)) (find_free_loop ?ls (rev [0..<Suc (nf_level d)]) no_bit (nf_offset d))"
      by (rule descent [OF ax_okD(5) [OF ok] _ ax_okD(6,7) [OF ok]]) (use d True in simp_all)
    then have "?r < ?n \<and> ?r \<notin> B" using True by (auto simp: axmap_find_first_free_def Let_def first_in_def split: if_splits)
    then have "free_or_none ?n B ?r" by (auto simp: free_or_none_def)
    then show ?thesis using e True d(1) ax_okD(3) [OF ok] ok by (intro exI [of _ "ax_first_free axmap"] exI [of _ ?r]) auto
  next
    case False
    then have "axmap_next_free axmap b = Inr (axmap_first_free axmap)" using e d(1) ax_okD(3) [OF ok] by auto
    then show ?thesis using f by auto
  qed
qed

subsection \<open>A new map\<close>

lemma next_units_exact: "n + 63 < 2 ^ w \<Longrightarrow> next_units w n = (n + 63) div 64"
  by (simp add: next_units_div)

lemma count_levels_top:
  "n < 2 ^ 37 \<Longrightarrow> units n i = x \<Longrightarrow> i < count_levels x (Suc i) \<and> units n (count_levels x (Suc i) - 1) \<le> 1"
proof (induction x arbitrary: i rule: less_induct)
  case (less x)
  show ?case
  proof (cases "1 < x")
    case True
    have "x \<le> (n + 63) div 64" using units_le [of n i] less.prems(2) by simp
    then have "x + 63 < 2 ^ 32" using less.prems(1) by simp
    then have u: "next_units 32 x = units n (Suc i)" using less.prems(2) next_units_exact by simp
    have "units n (Suc i) < x" using True less.prems(2) by simp
    from less.IH [OF this less.prems(1) refl] show ?thesis using True by (simp add: count_levels.simps [of x] u)
  next
    case False
    then show ?thesis using less.prems(2) by (simp add: count_levels.simps)
  qed
qed

lemma count_levels_le: "count_levels x l \<le> l + x"
proof (induction x arbitrary: l rule: less_induct)
  case (less x)
  show ?case
  proof (cases "1 < x")
    case True
    have "(x + 63) mod 2 ^ 32 div 64 \<le> (x + 63) div 64" by (intro div_le_mono mod_less_eq_dividend)
    then have "next_units 32 x < x" using True by (simp add: next_units_div)
    from less.IH [OF this, of "l + 1"] this show ?thesis by (simp add: count_levels.simps [of x] True)
  qed (simp add: count_levels.simps)
qed

lemma new_levels_ok:
  "m < 2 ^ 63 \<Longrightarrow> (m + 63) div 64 = units n i \<Longrightarrow>
    \<exists>als. new_levels (\<lambda>_. True) m [i..<i + k] = Some als \<and> length als = k \<and>
      (\<forall>j < k. als ! j = \<lparr>al_level = i + j, al_map_size = units n (i + j), al_map = replicate (units n (i + j)) 0\<rparr>)"
proof (induction k arbitrary: m i)
  case (Suc k)
  have e: "next_units 64 m = units n i" using Suc.prems next_units_exact by simp
  have "units n i < 2 ^ 63" using Suc.prems by simp
  moreover have "(units n i + 63) div 64 = units n (Suc i)" by simp
  ultimately obtain als where als: "new_levels (\<lambda>_. True) (units n i) [Suc i..<Suc i + k] = Some als" "length als = k"
      "\<forall>j < k. als ! j = \<lparr>al_level = Suc i + j, al_map_size = units n (Suc i + j), al_map = replicate (units n (Suc i + j)) 0\<rparr>"
    using Suc.IH by blast
  have "[i..<i + Suc k] = i # [Suc i..<Suc i + k]" by (simp add: upt_conv_Cons)
  then show ?case using als by (auto simp: e nth_Cons split: nat.splits)
qed simp

lemma empty_rep: "al_map al = replicate m 0 \<Longrightarrow> level_rep i al {}"
  using span_nonempty by (auto simp: level_rep_def lbit_def)

lemma axmap_new_ok:
  assumes "0 < n" "n < 2 ^ 37"
  shows "\<exists>axmap. axmap_new (\<lambda>_. True) n = Inr (Some axmap) \<and> ax_ok axmap {} \<and> ax_nr_bits axmap = n"
proof -
  let ?L = "count_levels (units n 0) 1"
  have u: "next_units 64 n mod 2 ^ 32 = units n 0" using assms(2) next_units_exact by simp
  have L: "0 < ?L" "units n (?L - 1) \<le> 1" using count_levels_top [OF assms(2), of 0] by simp_all
  have "?L \<le> 1 + units n 0" by (rule count_levels_le)
  then have small: "?L < 2 ^ 32 - 1" using assms(2) by simp
  obtain als where als: "new_levels (\<lambda>_. True) n [0..<0 + ?L] = Some als" "length als = ?L"
      "\<forall>j < ?L. als ! j = \<lparr>al_level = 0 + j, al_map_size = units n (0 + j), al_map = replicate (units n (0 + j)) 0\<rparr>"
    using new_levels_ok [of n n 0 ?L] assms(2) by auto
  let ?a = "axmap_reset \<lparr>ax_nr_levels = ?L, ax_levels = als, ax_first_free = 0, ax_nr_bits = n\<rparr>"
  have "levels_ok n (ax_levels ?a) {}"
    unfolding levels_ok_def using als(2,3) by (auto simp: axmap_reset_def level_shape_def intro!: empty_rep)
  then have "ax_ok ?a {}" using L small als(2) assms by (auto simp: ax_ok_def axmap_reset_def)
  moreover have "axmap_new (\<lambda>_. True) n = Inr (Some ?a)" unfolding axmap_new_def u Let_def using als(1) by simp
  moreover have "ax_nr_bits ?a = n" by (simp add: axmap_reset_def)
  ultimately show ?thesis by blast
qed

subsection \<open>A map of blocks as a set\<close>

text \<open>
  What the users of the map rely on: \<open>marks s n B\<close> says that the state \<open>s\<close> is a map of \<open>n\<close> blocks in which
  the blocks of \<open>B\<close> are used.
\<close>

locale block_map =
  fixes marks :: "'s \<Rightarrow> nat \<Rightarrow> nat set \<Rightarrow> bool"
    and isset :: "'s \<Rightarrow> nat \<Rightarrow> bool outcome"
    and mark :: "'s \<Rightarrow> nat \<Rightarrow> 's outcome option"
    and next_free :: "'s \<Rightarrow> nat \<Rightarrow> ('s \<times> nat) outcome"
  assumes within: "marks s n B \<Longrightarrow> B \<subseteq> {..<n} \<and> n \<le> no_bit"
    and isset_law: "marks s n B \<Longrightarrow> b < n \<Longrightarrow> isset s b = Inr (b \<in> B)"
    and mark_law: "marks s n B \<Longrightarrow> b < n \<Longrightarrow> \<exists>s'. mark s b = Some (Inr s') \<and> marks s' n (insert b B)"
    and next_law: "marks s n B \<Longrightarrow> b < n \<Longrightarrow> \<exists>s' r. next_free s b = Inr (s', r) \<and> marks s' n B \<and> free_or_none n B r"

definition ax_marks :: "axmap \<Rightarrow> nat \<Rightarrow> nat set \<Rightarrow> bool" where
  "ax_marks axmap n B \<longleftrightarrow> ax_ok axmap B \<and> ax_nr_bits axmap = n"

interpretation axm: block_map ax_marks axmap_isset axmap_set axmap_next_free
proof
  show "B \<subseteq> {..<n} \<and> n \<le> no_bit" if "ax_marks s n B" for s n B
    using that ax_okD(6,7) [of s B] by (auto simp: ax_marks_def no_bit_def)
  show "axmap_isset s b = Inr (b \<in> B)" if "ax_marks s n B" "b < n" for s n B b
    using that axmap_isset_ok by (auto simp: ax_marks_def)
  show "\<exists>s'. axmap_set s b = Some (Inr s') \<and> ax_marks s' n (insert b B)" if "ax_marks s n B" "b < n" for s n B b
    using that axmap_set_ok [of s B b] by (auto simp: ax_marks_def)
  show "\<exists>s' r. axmap_next_free s b = Inr (s', r) \<and> ax_marks s' n B \<and> free_or_none n B r" if m: "ax_marks s n B" and b: "b < n" for s n B b
  proof -
    have ok: "ax_ok s B" "ax_nr_bits s = n" using m by (simp_all add: ax_marks_def)
    have "b div 64 < units (ax_nr_bits s) 0" using b ok(2) by simp
    from axmap_next_free_ok [OF ok(1) this] ok(2) show ?thesis by (auto simp: ax_marks_def)
  qed
qed

subsection \<open>The operations in any order\<close>

datatype ax_op = Set_bit nat | Clear_bit nat | Find_free nat

fun ax_step :: "axmap \<Rightarrow> ax_op \<Rightarrow> axmap outcome option" where
  "ax_step axmap (Set_bit b) = axmap_set axmap b"
| "ax_step axmap (Clear_bit b) = Some (axmap_clear axmap b)"
| "ax_step axmap (Find_free b) = Some (bindO (axmap_next_free axmap b) (\<lambda>(axmap, _). Inr axmap))"

fun ax_run :: "axmap \<Rightarrow> ax_op list \<Rightarrow> axmap outcome option" where
  "ax_run axmap [] = Some (Inr axmap)"
| "ax_run axmap (c # cs) =
    (case ax_step axmap c of Some (Inr axmap) \<Rightarrow> ax_run axmap cs | r \<Rightarrow> r)"

fun op_bit :: "ax_op \<Rightarrow> nat" where
  "op_bit (Set_bit b) = b"
| "op_bit (Clear_bit b) = b"
| "op_bit (Find_free b) = b"

fun abs_step :: "nat set \<Rightarrow> ax_op \<Rightarrow> nat set" where
  "abs_step B (Set_bit b) = insert b B"
| "abs_step B (Clear_bit b) = B - {b}"
| "abs_step B (Find_free b) = B"

lemma ax_step_ok:
  assumes "ax_marks axmap n B" "op_bit c < n"
  shows "\<exists>axmap'. ax_step axmap c = Some (Inr axmap') \<and> ax_marks axmap' n (abs_step B c)"
proof (cases c)
  case (Set_bit b)
  then show ?thesis using axm.mark_law [OF assms(1)] assms(2) by auto
next
  case (Clear_bit b)
  then show ?thesis using axmap_clear_ok [of axmap B b] assms by (auto simp: ax_marks_def)
next
  case (Find_free b)
  then show ?thesis using axm.next_law [OF assms(1), of b] assms(2) by auto
qed

lemma ax_run_ok:
  "ax_marks axmap n B \<Longrightarrow> \<forall>c \<in> set cs. op_bit c < n \<Longrightarrow>
    \<exists>axmap'. ax_run axmap cs = Some (Inr axmap') \<and> ax_marks axmap' n (foldl abs_step B cs)"
proof (induction cs arbitrary: axmap B)
  case (Cons c cs)
  obtain a where a: "ax_step axmap c = Some (Inr a)" "ax_marks a n (abs_step B c)"
    using ax_step_ok [OF Cons.prems(1)] Cons.prems(2) by auto
  then show ?case using Cons.IH [OF a(2)] Cons.prems(2) by auto
qed simp

text \<open>
  C17. A new map behaves as an empty set of blocks: after any sequence of set, clear and find operations within
  its range no operation has failed, every block is reported as the set has it, and a free block is found
  exactly when there is one.
\<close>

theorem axmap_refines_set:
  assumes "0 < n" "n < 2 ^ 37" "\<forall>c \<in> set cs. op_bit c < n"
  shows "\<exists>new axmap. axmap_new (\<lambda>_. True) n = Inr (Some new) \<and> ax_run new cs = Some (Inr axmap) \<and>
    (\<forall>b < n. axmap_isset axmap b = Inr (b \<in> foldl abs_step {} cs)) \<and>
    (\<forall>b < n. \<exists>axmap' r. axmap_next_free axmap b = Inr (axmap', r) \<and> free_or_none n (foldl abs_step {} cs) r)"
proof -
  obtain new where new: "axmap_new (\<lambda>_. True) n = Inr (Some new)" "ax_marks new n {}"
    using axmap_new_ok [OF assms(1,2)] by (auto simp: ax_marks_def)
  obtain a where a: "ax_run new cs = Some (Inr a)" "ax_marks a n (foldl abs_step {} cs)"
    using ax_run_ok [OF new(2) assms(3)] by blast
  show ?thesis using new(1) a(1) axm.isset_law [OF a(2)] axm.next_law [OF a(2)] by blast
qed

theorem axmap_refines_set_witness:
  "\<exists>new axmap. axmap_new (\<lambda>_. True) 100 = Inr (Some new) \<and> ax_run new [Set_bit 7, Set_bit 99, Clear_bit 7] = Some (Inr axmap) \<and>
    axmap_isset axmap 99 = Inr True \<and> axmap_isset axmap 7 = Inr False"
proof -
  have "\<forall>c \<in> set [Set_bit 7, Set_bit 99, Clear_bit 7]. op_bit c < (100 :: nat)" by simp
  from axmap_refines_set [OF _ _ this] obtain new axmap where "axmap_new (\<lambda>_. True) 100 = Inr (Some new)"
      "ax_run new [Set_bit 7, Set_bit 99, Clear_bit 7] = Some (Inr axmap)"
      "\<forall>b < 100. axmap_isset axmap b = Inr (b \<in> foldl abs_step {} [Set_bit 7, Set_bit 99, Clear_bit 7])" by auto
  then show ?thesis by auto
qed

lemma set_nr_marks:
  assumes "ax_marks axmap n B" "0 < nr_bits" "nr_bits < 2 ^ 32" "b + nr_bits \<le> n" "{b..<b + nr_bits} \<inter> B = {}"
  shows "\<exists>axmap'. axmap_set_nr axmap b nr_bits = Some (Inr (axmap', nr_bits)) \<and> ax_marks axmap' n (B \<union> {b..<b + nr_bits})"
  using set_nr_free [of axmap B nr_bits b 0] assms by (auto simp: ax_marks_def axmap_set_nr_def)

text \<open>
  C20. Marking a run of free blocks, across words of the map, sets exactly these blocks and returns how many
  they are.
\<close>

theorem axmap_set_nr_run:
  assumes "ax_marks axmap n B" "0 < nr_bits" "nr_bits < 2 ^ 32" "b + nr_bits \<le> n" "{b..<b + nr_bits} \<inter> B = {}"
  shows "\<exists>axmap'. axmap_set_nr axmap b nr_bits = Some (Inr (axmap', nr_bits)) \<and> ax_marks axmap' n (B \<union> {b..<b + nr_bits})"
  by (rule set_nr_marks [OF assms])

theorem axmap_set_nr_run_witness:
  "\<exists>new axmap. axmap_new (\<lambda>_. True) 300 = Inr (Some new) \<and> axmap_set_nr new 50 200 = Some (Inr (axmap, 200)) \<and>
    axmap_isset axmap 249 = Inr True \<and> axmap_isset axmap 250 = Inr False"
proof -
  obtain new where new: "axmap_new (\<lambda>_. True) 300 = Inr (Some new)" "ax_marks new 300 {}"
    using axmap_new_ok [of 300] by (auto simp: ax_marks_def)
  obtain axmap where a: "axmap_set_nr new 50 200 = Some (Inr (axmap, 200))" "ax_marks axmap 300 ({} \<union> {50..<50 + 200})"
    using axmap_set_nr_run [OF new(2), of 200 50] by auto
  show ?thesis using new(1) a(1) axm.isset_law [OF a(2)] by auto
qed

subsection \<open>A run that meets a used block\<close>

text \<open>A map of one word.\<close>

definition ax_one :: "nat \<Rightarrow> 64 word \<Rightarrow> axmap" where
  "ax_one f w = \<lparr>ax_nr_levels = 1, ax_levels = [\<lparr>al_level = 0, al_map_size = 1, al_map = [w]\<rparr>], ax_first_free = f, ax_nr_bits = 64\<rparr>"

lemma ax_one_sel: "ax_first_free (ax_one f w) = f" "ax_nr_bits (ax_one f w) = 64" "(ax_one f w)\<lparr>ax_first_free := f'\<rparr> = ax_one f' w"
  by (simp_all add: ax_one_def)

lemma ax_one_handler:
  assumes "axmap_set_fn \<lparr>al_level = 0, al_map_size = 1, al_map = [w]\<rparr> 0 b d = Inr (\<lparr>al_level = 0, al_map_size = 1, al_map = [w']\<rparr>, d', True)" "b < 64"
  shows "axmap_handler (ax_one f w) b axmap_set_fn d = Inr (ax_one f w', d', True)"
  using assms by (simp add: axmap_handler_def ax_one_def unit_simps visit_Cons)

lemma ax_one_new: "axmap_new (\<lambda>_. True) 64 = Inr (Some (ax_one 0 0))"
proof -
  have l: "count_levels (Suc 0) (Suc 0) = Suc 0" by (subst count_levels.simps) simp
  show ?thesis by (simp add: axmap_new_def next_units_div ax_one_def axmap_reset_def l)
qed

lemma overlap_third: "overlap_loop 8 0 1 = (8, 1)" "overlap_loop 1023 8 10 = (1015, 9)"
proof -
  have n: "overlap_loop m 0 k = (m, k)" for m k by (subst overlap_loop.simps) simp
  show "overlap_loop 8 0 1 = (8, 1)" by (rule n)
  show "overlap_loop 1023 8 10 = (1015, 9)" by (subst overlap_loop.simps) (simp add: ffz_def ffs64_def n)
qed

lemma set_fn_third:
  "axmap_set_fn \<lparr>al_level = 0, al_map_size = 1, al_map = [0]\<rparr> 0 3 \<lparr>sd_nr_bits = 1, sd_set_bits = 0\<rparr> =
    Inr (\<lparr>al_level = 0, al_map_size = 1, al_map = [8]\<rparr>, \<lparr>sd_nr_bits = 1, sd_set_bits = 1\<rparr>, True)"
  "axmap_set_fn \<lparr>al_level = 0, al_map_size = 1, al_map = [8]\<rparr> 0 0 \<lparr>sd_nr_bits = 10, sd_set_bits = 0\<rparr> =
    Inr (\<lparr>al_level = 0, al_map_size = 1, al_map = [1023]\<rparr>, \<lparr>sd_nr_bits = 1, sd_set_bits = 9\<rparr>, True)"
  using overlap_third by (simp_all add: axmap_set_fn_def BLOCKS_PER_UNIT_def UNIT_SHIFT_def bit_masks_mask al_word_def mask_eq_exp_minus_1 Let_def)

lemma set_span_third:
  "axmap_set_span (ax_one 0 0) 3 \<lparr>sd_nr_bits = 1, sd_set_bits = 0\<rparr> = Some (Inr (ax_one 0 8, \<lparr>sd_nr_bits = 1, sd_set_bits = 1\<rparr>))"
  "axmap_set_span (ax_one 0 8) 0 \<lparr>sd_nr_bits = 10, sd_set_bits = 0\<rparr> = Some (Inr (ax_one no_bit 1023, \<lparr>sd_nr_bits = 1, sd_set_bits = 9\<rparr>))"
proof -
  note h = ax_one_handler [OF set_fn_third(1)] ax_one_handler [OF set_fn_third(2)]
  have "axmap_set_loop (ax_one 0 0) 3 1 0 \<lparr>sd_nr_bits = 1, sd_set_bits = 0\<rparr> = Some (Inr (ax_one 0 8, \<lparr>sd_nr_bits = 1, sd_set_bits = 1\<rparr>))"
    using h by (subst axmap_set_loop.simps) (simp add: BLOCKS_PER_UNIT_def UNIT_SHIFT_def Let_def)
  then show "axmap_set_span (ax_one 0 0) 3 \<lparr>sd_nr_bits = 1, sd_set_bits = 0\<rparr> = Some (Inr (ax_one 0 8, \<lparr>sd_nr_bits = 1, sd_set_bits = 1\<rparr>))"
    by (simp add: axmap_set_span_def ax_one_sel)
  have "axmap_set_loop (ax_one no_bit 8) 0 10 0 \<lparr>sd_nr_bits = 10, sd_set_bits = 0\<rparr> = Some (Inr (ax_one no_bit 1023, \<lparr>sd_nr_bits = 1, sd_set_bits = 9\<rparr>))"
    using h by (subst axmap_set_loop.simps) (simp add: BLOCKS_PER_UNIT_def UNIT_SHIFT_def Let_def)
  then show "axmap_set_span (ax_one 0 8) 0 \<lparr>sd_nr_bits = 10, sd_set_bits = 0\<rparr> = Some (Inr (ax_one no_bit 1023, \<lparr>sd_nr_bits = 1, sd_set_bits = 9\<rparr>))"
    by (simp add: axmap_set_span_def ax_one_sel no_bit_def)
qed

text \<open>
  A run that meets a used block is not cut there: with block 3 of a new map used, a request for the blocks 0
  to 9 marks all of them and returns 9, so that the caller, who takes the blocks 0 to 8, repeats block 3 and
  never comes to block 9.
\<close>

theorem axmap_set_nr_skips:
  "axmap_new (\<lambda>_. True) 64 = Inr (Some (ax_one 0 0)) \<and> axmap_set (ax_one 0 0) 3 = Some (Inr (ax_one 0 8)) \<and>
    axmap_set_nr (ax_one 0 8) 0 10 = Some (Inr (ax_one no_bit 1023, 9)) \<and> axmap_isset (ax_one no_bit 1023) 9 = Inr True"
proof (intro conjI)
  show "axmap_new (\<lambda>_. True) 64 = Inr (Some (ax_one 0 0))" by (rule ax_one_new)
  show "axmap_set (ax_one 0 0) 3 = Some (Inr (ax_one 0 8))" using set_span_third by (simp add: axmap_set_def)
  show "axmap_set_nr (ax_one 0 8) 0 10 = Some (Inr (ax_one no_bit 1023, 9))"
    unfolding axmap_set_nr_def using set_span_third by (subst set_nr_loop.simps) (simp add: BLOCKS_PER_UNIT_def UNIT_SHIFT_def Let_def)
  show "axmap_isset (ax_one no_bit 1023) 9 = Inr True"
    by (simp add: axmap_isset_def axmap_handler_topdown_def ax_one_def unit_simps axmap_isset_fn_def al_word_def visit_Cons)
qed

end
