(* ===== verification/Fio_Lfsr.thy ===== *)
theory Fio_Lfsr
  imports Fio_Crc
begin

text \<open>
  The linear feedback shift register with which fio visits the blocks of a file in random order,
  \<open>fio/lib/lfsr.c\<close>. The \<open>do\<close> loop of \<open>lfsr_next\<close> may run forever for a bad register, so it is a partial
  function. The step of the register is a permutation of the states other than all ones, which gives
  that the loop ends; where the taps have full period, \<open>lfsr_next\<close> gives every block exactly once.
\<close>

unbundle bit_operations_syntax

subsection \<open>The register\<close>

definition FIO_MAX_TAPS :: nat where
  "FIO_MAX_TAPS = 6"

definition lfsr_taps :: "nat list list" where
  "lfsr_taps = [
    [0], [0], [0], [3, 2], [4, 3], [5, 3],
    [6, 5], [7, 6], [8, 6, 5, 4], [9, 5], [10, 7], [11, 9],
    [12, 6, 4, 1], [13, 4, 3, 1], [14, 5, 3, 1], [15, 14], [16, 15, 13, 4], [17, 14],
    [18, 11], [19, 6, 2, 1], [20, 17], [21, 19], [22, 21], [23, 18],
    [24, 23, 22, 17], [25, 22], [26, 6, 2, 1], [27, 5, 2, 1], [28, 25], [29, 27],
    [30, 6, 4, 1], [31, 28], [32, 31, 29, 1], [33, 20], [34, 27, 2, 1], [35, 33],
    [36, 25], [37, 5, 4, 3, 2, 1], [38, 6, 5, 1], [39, 35], [40, 38, 21, 19], [41, 38],
    [42, 41, 20, 19], [43, 42, 38, 37], [44, 43, 18, 17], [45, 44, 42, 41], [46, 45, 26, 25], [47, 42],
    [48, 47, 21, 20], [49, 40], [50, 49, 24, 23], [51, 50, 36, 35], [52, 49], [53, 52, 38, 37],
    [54, 53, 18, 17], [55, 31], [56, 55, 35, 34], [57, 50], [58, 39], [59, 58, 38, 37],
    [60, 59], [61, 60, 46, 45], [62, 61, 6, 5], [63, 62]]"

record fio_lfsr =
  xormask :: "64 word"
  last_val :: "64 word"
  cached_bit :: "64 word"
  max_val :: nat
  num_vals :: nat
  cycle_length :: nat
  cached_cycle_length :: nat
  spin :: nat

definition LFSR_NEXT :: "64 word \<Rightarrow> 64 word \<Rightarrow> 64 word \<Rightarrow> 64 word" where
  "LFSR_NEXT cb xm v = (drop_bit 1 v OR cb) XOR (((v AND 1) - 1) AND xm)"

text \<open>The cases of the \<open>switch\<close> fall through; a value above 15 has no case.\<close>

definition lfsr_steps :: "nat \<Rightarrow> nat" where
  "lfsr_steps sp = (if sp \<le> 15 then sp + 1 else 0)"

definition lfsr_advance :: "fio_lfsr \<Rightarrow> nat \<Rightarrow> fio_lfsr" where
  "lfsr_advance fl sp = fl\<lparr>last_val := (LFSR_NEXT (cached_bit fl) (xormask fl) ^^ lfsr_steps sp) (last_val fl)\<rparr>"

definition lfsr_turn :: "fio_lfsr \<Rightarrow> fio_lfsr" where
  "lfsr_turn fl =
    (let c = cycle_length fl; fl = fl\<lparr>cycle_length := c - 1\<rparr>
     in if c \<noteq> 0 \<and> c - 1 = 0 then (lfsr_advance fl (spin fl + 1))\<lparr>cycle_length := cached_cycle_length fl\<rparr>
        else lfsr_advance fl (spin fl))"

partial_function (option) lfsr_loop :: "fio_lfsr \<Rightarrow> fio_lfsr option" where
  "lfsr_loop fl = (if max_val (lfsr_turn fl) < unat (last_val (lfsr_turn fl)) then lfsr_loop (lfsr_turn fl) else Some (lfsr_turn fl))"

definition lfsr_next :: "fio_lfsr \<Rightarrow> (fio_lfsr \<times> int \<times> nat option) option" where
  "lfsr_next fl =
    (let n = num_vals fl; fl = fl\<lparr>num_vals := (n + 1) mod 2 ^ 64\<rparr>
     in if max_val fl < n then Some (fl, 1, None)
        else case lfsr_loop fl of None \<Rightarrow> None | Some fl \<Rightarrow> Some (fl, 0, Some (unat (last_val fl))))"

definition lfsr_create_xormask :: "nat list \<Rightarrow> 64 word" where
  "lfsr_create_xormask taps = fold (\<lambda>t m. m OR push_bit (t - 1) 1) (takeWhile (\<lambda>t. t \<noteq> 0) (take FIO_MAX_TAPS taps)) 0"

fun find_taps :: "nat \<Rightarrow> nat list \<Rightarrow> nat list option" where
  "find_taps sz [] = None"
| "find_taps sz (i # is) = (if sz < 2 ^ i then Some (lfsr_taps ! i) else find_taps sz is)"

definition find_lfsr :: "nat \<Rightarrow> nat list option" where
  "find_lfsr sz = find_taps sz [3..<64]"

fun spin_cycle :: "nat \<Rightarrow> nat \<Rightarrow> nat \<Rightarrow> nat list \<Rightarrow> nat" where
  "spin_cycle x y sp [] = 0"
| "spin_cycle x y sp (i # is) =
    (if ((y * i) mod 2 ^ 64) mod (sp + 1) = 0 then (x * i + (y * i) div (sp + 1)) mod 2 ^ 64 else spin_cycle x y sp is)"

definition prepare_spin :: "fio_lfsr \<Rightarrow> nat \<Rightarrow> fio_lfsr \<times> int" where
  "prepare_spin fl sp =
    (if 15 < sp then (fl, 1)
     else let mx = unat (push_bit 1 (cached_bit fl) - 1);
              c = spin_cycle (mx div (sp + 1)) (mx mod (sp + 1)) sp [1..<sp + 1]
          in (fl\<lparr>spin := sp, cached_cycle_length := c, cycle_length := (c + 1) mod 2 ^ 64\<rparr>, 0))"

definition lfsr_reset :: "fio_lfsr \<Rightarrow> 64 word \<Rightarrow> fio_lfsr \<times> int" where
  "lfsr_reset fl seed =
    (let bitmask = push_bit 1 (cached_bit fl) - 1; fl = fl\<lparr>num_vals := 0, last_val := seed AND bitmask\<rparr>
     in (fl, if last_val fl = bitmask then 1 else 0))"

definition lfsr_init :: "fio_lfsr \<Rightarrow> nat \<Rightarrow> 64 word \<Rightarrow> nat \<Rightarrow> fio_lfsr \<times> int" where
  "lfsr_init fl nums seed sp =
    (case find_lfsr nums of None \<Rightarrow> (fl, 1)
     | Some taps \<Rightarrow>
        let fl = fl\<lparr>max_val := (nums + (2 ^ 64 - 1)) mod 2 ^ 64, xormask := lfsr_create_xormask taps, cached_bit := push_bit (taps ! 0 - 1) 1\<rparr>
        in case prepare_spin fl sp of (fl, r) \<Rightarrow>
             if r \<noteq> 0 then (fl, 1)
             else case lfsr_reset fl seed of (fl, r) \<Rightarrow> if r \<noteq> 0 then (fl, 1) else (fl, 0))"

subsection \<open>The step is a permutation\<close>

definition lows :: "nat \<Rightarrow> 64 word \<Rightarrow> bool" where
  "lows n v \<longleftrightarrow> (\<forall>i. bit v i \<longrightarrow> i < n)"

definition states :: "nat \<Rightarrow> 64 word set" where
  "states n = {v. lows n v \<and> v \<noteq> mask n}"

definition good_taps :: "nat \<Rightarrow> 64 word \<Rightarrow> bool" where
  "good_taps n xm \<longleftrightarrow> 0 < n \<and> n < 64 \<and> lows n xm \<and> bit xm (n - 1)"

definition sigma :: "nat \<Rightarrow> 64 word \<Rightarrow> 64 word \<Rightarrow> 64 word" where
  "sigma n xm = LFSR_NEXT (push_bit (n - 1) 1) xm"

lemma LFSR_NEXT_eq: "LFSR_NEXT cb xm v = (drop_bit 1 v OR cb) XOR (if bit v 0 then 0 else xm)"
proof -
  have "v AND 1 = of_bool (bit v 0)" by (rule bit_word_eqI) (auto simp: bit_simps bit_1_iff)
  then show ?thesis by (simp add: LFSR_NEXT_def)
qed

lemma bit_sigma:
  assumes "good_taps n xm"
  shows "bit (sigma n xm v) i \<longleftrightarrow> (bit v (Suc i) \<or> i = n - 1) \<noteq> (\<not> bit v 0 \<and> bit xm i)"
  using assms by (auto simp: sigma_def LFSR_NEXT_eq bit_xor_word bit_or_iff bit_drop_bit_eq bit_exp_iff good_taps_def)

lemma sigma_lows:
  assumes "good_taps n xm" "lows n v"
  shows "lows n (sigma n xm v)"
  using assms unfolding lows_def bit_sigma [OF assms(1)] by (auto simp: good_taps_def lows_def)

lemma sigma_inj:
  assumes g: "good_taps n xm" and l: "lows n v" "lows n u"
    and e: "sigma n xm v = sigma n xm u"
  shows "v = u"
proof -
  have b: "((bit v (Suc i) \<or> i = n - 1) \<noteq> (\<not> bit v 0 \<and> bit xm i)) = ((bit u (Suc i) \<or> i = n - 1) \<noteq> (\<not> bit u 0 \<and> bit xm i))" for i
    using arg_cong [OF e, of "\<lambda>w. bit w i"] by (simp only: bit_sigma [OF g])
  have z: "bit v 0 = bit u 0" using b [of "n - 1"] g by (auto simp: good_taps_def)
  have "bit v (Suc i) = bit u (Suc i)" for i
  proof (cases "i = n - 1")
    case True
    then show ?thesis using l g by (auto simp: lows_def good_taps_def)
  next
    case False
    then show ?thesis using b [of i] z by auto
  qed
  then have "bit v i = bit u i" for i using z by (cases i) auto
  then show ?thesis by (intro bit_word_eqI) simp
qed

lemma sigma_not_mask:
  assumes g: "good_taps n xm" and s: "v \<in> states n"
  shows "sigma n xm v \<noteq> mask n"
proof
  assume m: "sigma n xm v = mask n"
  have b: "(bit v (Suc i) \<or> i = n - 1) \<noteq> (\<not> bit v 0 \<and> bit xm i)" if "i < n" for i
  proof -
    have "bit (mask n :: 64 word) i" using that g by (simp add: bit_mask_iff good_taps_def)
    then show ?thesis using arg_cong [OF m, of "\<lambda>w. bit w i"] by (simp only: bit_sigma [OF g])
  qed
  have z: "bit v 0" using b [of "n - 1"] g by (auto simp: good_taps_def)
  have "bit v i" if "i < n" for i
  proof (cases i)
    case (Suc j)
    then show ?thesis using b [of j] z that by auto
  qed (use z in simp)
  then have "v = mask n"
    using s g by (intro bit_word_eqI) (auto simp: states_def lows_def bit_mask_iff good_taps_def)
  then show False using s by (simp add: states_def)
qed

lemma sigma_states:
  "good_taps n xm \<Longrightarrow> v \<in> states n \<Longrightarrow> sigma n xm v \<in> states n"
  using sigma_lows sigma_not_mask by (simp add: states_def)

lemma finite_return:
  assumes "finite S" "\<And>x. x \<in> S \<Longrightarrow> F x \<in> S" "inj_on F S" "x \<in> S"
  shows "\<exists>k > 0. (F ^^ k) x = x"
proof -
  have s: "(F ^^ k) x \<in> S" for k using assms(2,4) by (induction k) auto
  have "finite (range (\<lambda>k. (F ^^ k) x))" by (rule finite_subset [OF _ assms(1)]) (use s in auto)
  then have "\<not> inj (\<lambda>k. (F ^^ k) x)" using finite_imageD infinite_UNIV_nat by blast
  then obtain i j where ij: "i < j" "(F ^^ i) x = (F ^^ j) x" by (auto simp: inj_def) (metis linorder_neq_iff)
  have "(F ^^ i) x = (F ^^ (i + d)) x \<Longrightarrow> x = (F ^^ d) x" for d
  proof (induction i)
    case (Suc i)
    then show ?case using inj_onD [OF assms(3), of "(F ^^ i) x" "(F ^^ (i + d)) x"] s by simp
  qed simp
  from this [of "j - i"] ij show ?thesis by (intro exI [of _ "j - i"]) simp
qed

lemma funpow_states: "good_taps n xm \<Longrightarrow> v \<in> states n \<Longrightarrow> (sigma n xm ^^ k) v \<in> states n"
  by (induction k) (auto intro: sigma_states)

lemma funpow_sigma_inj: "good_taps n xm \<Longrightarrow> v \<in> states n \<Longrightarrow> u \<in> states n \<Longrightarrow>
    (sigma n xm ^^ k) v = (sigma n xm ^^ k) u \<Longrightarrow> v = u"
proof (induction k)
  case (Suc k)
  then have "(sigma n xm ^^ k) v = (sigma n xm ^^ k) u"
    using sigma_inj [of n xm "(sigma n xm ^^ k) v" "(sigma n xm ^^ k) u"] funpow_states [of n xm] by (simp add: states_def)
  then show ?case using Suc by simp
qed simp

subsection \<open>The loop ends\<close>

definition lfsr_ok :: "nat \<Rightarrow> fio_lfsr \<Rightarrow> bool" where
  "lfsr_ok n fl \<longleftrightarrow> good_taps n (xormask fl) \<and> cached_bit fl = push_bit (n - 1) 1 \<and> last_val fl \<in> states n"

definition in_cycle :: "fio_lfsr \<Rightarrow> bool" where
  "in_cycle fl \<longleftrightarrow> (if cached_cycle_length fl = 0 then cycle_length fl = 0 else 0 < cycle_length fl \<and> cycle_length fl \<le> cached_cycle_length fl)"

lemma turn_sel [simp]: "max_val (lfsr_turn fl) = max_val fl" "xormask (lfsr_turn fl) = xormask fl" "cached_bit (lfsr_turn fl) = cached_bit fl"
    "cached_cycle_length (lfsr_turn fl) = cached_cycle_length fl" "spin (lfsr_turn fl) = spin fl" "num_vals (lfsr_turn fl) = num_vals fl"
  by (simp_all add: lfsr_turn_def lfsr_advance_def Let_def)

lemma turns_sel [simp]: "max_val ((lfsr_turn ^^ k) fl) = max_val fl" "num_vals ((lfsr_turn ^^ k) fl) = num_vals fl"
  by (induction k) simp_all

lemma turn_last: "lfsr_ok n fl \<Longrightarrow> last_val (lfsr_turn fl) =
    (sigma n (xormask fl) ^^ lfsr_steps (if cycle_length fl = 1 then spin fl + 1 else spin fl)) (last_val fl)"
  by (auto simp: lfsr_turn_def lfsr_advance_def Let_def lfsr_ok_def sigma_def)

lemma turn_cycle: "cycle_length (lfsr_turn fl) = (if cycle_length fl = 1 then cached_cycle_length fl else cycle_length fl - 1)"
  by (auto simp: lfsr_turn_def lfsr_advance_def Let_def)

lemma turn_ok: "lfsr_ok n fl \<Longrightarrow> lfsr_ok n (lfsr_turn fl)"
  using turn_last [of n fl] funpow_states [of n "xormask fl"] by (simp add: lfsr_ok_def)

lemma turns_ok: "lfsr_ok n fl \<Longrightarrow> lfsr_ok n ((lfsr_turn ^^ k) fl)"
  by (induction k) (auto intro: turn_ok)

lemma turn_in_cycle: "in_cycle fl \<Longrightarrow> in_cycle (lfsr_turn fl)"
  by (auto simp: in_cycle_def turn_cycle split: if_splits)

lemma turns_in_cycle: "in_cycle fl \<Longrightarrow> in_cycle ((lfsr_turn ^^ k) fl)"
  by (induction k) (auto intro: turn_in_cycle)

lemma turns_max: "max_val ((lfsr_turn ^^ k) fl) = max_val fl"
  by (induction k) simp_all

lemma turn_frame: "\<exists>v' c'. lfsr_turn (fl\<lparr>last_val := v, cycle_length := c\<rparr>) = fl\<lparr>last_val := v', cycle_length := c'\<rparr>"
  by (cases fl) (auto simp: lfsr_turn_def lfsr_advance_def Let_def)

lemma lfsr_returns:
  assumes "lfsr_ok n fl" "in_cycle fl"
  shows "\<exists>k > 0. (lfsr_turn ^^ k) fl = fl"
proof (rule finite_return)
  let ?S = "{g. lfsr_ok n g \<and> in_cycle g \<and> (\<exists>v c. g = fl\<lparr>last_val := v, cycle_length := c\<rparr>)}"
  have "?S \<subseteq> (\<lambda>(v, c). fl\<lparr>last_val := v, cycle_length := c\<rparr>) ` (UNIV \<times> {0..cached_cycle_length fl})"
    by (force simp: in_cycle_def split: if_splits)
  then show "finite ?S" by (rule finite_subset) simp
  show "lfsr_turn g \<in> ?S" if "g \<in> ?S" for g
    using that turn_ok turn_in_cycle turn_frame by blast
  have "fl = fl\<lparr>last_val := last_val fl, cycle_length := cycle_length fl\<rparr>" by simp
  then show "fl \<in> ?S" using assms by blast
  show "inj_on lfsr_turn ?S"
  proof (rule inj_onI)
    fix g h assume g: "g \<in> ?S" and h: "h \<in> ?S" and e: "lfsr_turn g = lfsr_turn h"
    have s: "xormask g = xormask fl" "xormask h = xormask fl" "spin g = spin fl" "spin h = spin fl"
        "cached_cycle_length g = cached_cycle_length fl" "cached_cycle_length h = cached_cycle_length fl"
      using g h by auto
    have c: "cycle_length g = cycle_length h"
      using g h s arg_cong [OF e, of cycle_length] by (auto simp: turn_cycle in_cycle_def split: if_splits)
    have "last_val g = last_val h"
    proof (rule funpow_sigma_inj)
      show "good_taps n (xormask fl)" "last_val g \<in> states n" "last_val h \<in> states n" using g h s by (auto simp: lfsr_ok_def)
      show "(sigma n (xormask fl) ^^ lfsr_steps (if cycle_length g = 1 then spin fl + 1 else spin fl)) (last_val g) =
          (sigma n (xormask fl) ^^ lfsr_steps (if cycle_length g = 1 then spin fl + 1 else spin fl)) (last_val h)"
      proof -
        have "lfsr_ok n g" "lfsr_ok n h" using g h by simp_all
        from arg_cong [OF e, of last_val, unfolded turn_last [OF this(1)] turn_last [OF this(2)] s c] show ?thesis unfolding c .
      qed
    qed
    then show "g = h" using g h c by auto
  qed
qed

lemma loop_first:
  assumes "(0 :: nat) < k" "unat (last_val ((lfsr_turn ^^ k) fl)) \<le> max_val fl"
  shows "\<exists>j > 0. j \<le> k \<and> lfsr_loop fl = Some ((lfsr_turn ^^ j) fl) \<and> unat (last_val ((lfsr_turn ^^ j) fl)) \<le> max_val fl \<and>
    (\<forall>i. 0 < i \<and> i < j \<longrightarrow> max_val fl < unat (last_val ((lfsr_turn ^^ i) fl)))"
  using assms
proof (induction k arbitrary: fl)
  case (Suc k)
  show ?case
  proof (cases "max_val fl < unat (last_val (lfsr_turn fl))")
    case False
    then show ?thesis by (intro exI [of _ 1]) (simp add: lfsr_loop.simps [of fl])
  next
    case True
    then have "0 < k" using Suc.prems by (cases k) auto
    moreover have "unat (last_val ((lfsr_turn ^^ k) (lfsr_turn fl))) \<le> max_val (lfsr_turn fl)"
      using Suc.prems by (simp add: funpow_swap1)
    ultimately obtain j where j: "0 < j" "j \<le> k" "lfsr_loop (lfsr_turn fl) = Some ((lfsr_turn ^^ j) (lfsr_turn fl))"
      "unat (last_val ((lfsr_turn ^^ j) (lfsr_turn fl))) \<le> max_val fl"
      "\<forall>i. 0 < i \<and> i < j \<longrightarrow> max_val fl < unat (last_val ((lfsr_turn ^^ i) (lfsr_turn fl)))"
      using Suc.IH [of "lfsr_turn fl"] by auto
    have "max_val fl < unat (last_val ((lfsr_turn ^^ i) fl))" if "0 < i" "i < Suc j" for i
    proof (cases i)
      case (Suc m)
      then show ?thesis using that True j(5) by (cases "m = 0") (auto simp: funpow_swap1)
    qed (use that in simp)
    then show ?thesis using j True
      by (intro exI [of _ "Suc j"]) (simp add: lfsr_loop.simps [of fl] funpow_swap1)
  qed
qed simp

text \<open>
  C21. Once a call has given a block, the generator never hangs. Suppose the taps are good, the cycle
  counter is in its range and the last value is at most \<open>max_val\<close>, whatever the spin. Then the loop of
  \<open>lfsr_next\<close> ends: with 1 when all values have been given, and otherwise with 0 and a value that is at
  most \<open>max_val\<close>. The three conditions hold again afterwards, so that this is true of every later call.
\<close>
theorem lfsr_next_returns:
  assumes "lfsr_ok n fl" "in_cycle fl" "unat (last_val fl) \<le> max_val fl"
  shows "\<exists>fl' r v. lfsr_next fl = Some (fl', r, v) \<and> lfsr_ok n fl' \<and> in_cycle fl' \<and>
    unat (last_val fl') \<le> max_val fl' \<and> max_val fl' = max_val fl \<and>
    (if max_val fl < num_vals fl then r = 1 \<and> v = None else r = 0 \<and> (\<exists>x. v = Some x \<and> x \<le> max_val fl \<and> x = unat (last_val fl')))"
proof (cases "max_val fl < num_vals fl")
  case True
  then show ?thesis using assms by (simp add: lfsr_next_def lfsr_ok_def in_cycle_def)
next
  case False
  define g where "g = fl\<lparr>num_vals := (num_vals fl + 1) mod 2 ^ 64\<rparr>"
  have g: "lfsr_ok n g" "in_cycle g" "max_val g = max_val fl" "last_val g = last_val fl"
    using assms by (simp_all add: g_def lfsr_ok_def in_cycle_def)
  obtain k where k: "0 < k" "(lfsr_turn ^^ k) g = g" using lfsr_returns [OF g(1,2)] by blast
  obtain j where j: "lfsr_loop g = Some ((lfsr_turn ^^ j) g)" "unat (last_val ((lfsr_turn ^^ j) g)) \<le> max_val g"
    using loop_first [OF k(1), of g] k(2) assms(3) g(3,4) by auto
  then have "lfsr_next fl = Some ((lfsr_turn ^^ j) g, 0, Some (unat (last_val ((lfsr_turn ^^ j) g))))"
    using False by (simp add: lfsr_next_def g_def Let_def)
  then show ?thesis using False turns_ok [OF g(1), of j] turns_in_cycle [OF g(2), of j] j(2) g(3) by (auto simp: turns_max)
qed

definition sample_lfsr :: fio_lfsr where
  "sample_lfsr = \<lparr>xormask = 6, last_val = 1, cached_bit = 4, max_val = 4, num_vals = 0, cycle_length = 0, cached_cycle_length = 0, spin = 0\<rparr>"

lemma take_bit_lows: "take_bit n v = v \<Longrightarrow> lows n v"
  unfolding lows_def by (metis bit_take_bit_iff)

lemma sample_lfsr_ok: "lfsr_ok 3 sample_lfsr"
  by (auto simp: lfsr_ok_def sample_lfsr_def good_taps_def states_def take_bit_lows mask_eq_exp_minus_1)

theorem lfsr_next_returns_witness:
  "\<exists>fl' x. lfsr_next sample_lfsr = Some (fl', 0, Some x) \<and> x \<le> 4 \<and> in_cycle fl' \<and> unat (last_val fl') \<le> 4"
proof -
  have "in_cycle sample_lfsr" "unat (last_val sample_lfsr) \<le> max_val sample_lfsr"
    by (simp_all add: sample_lfsr_def in_cycle_def)
  from lfsr_next_returns [OF sample_lfsr_ok this] show ?thesis by (auto simp: sample_lfsr_def)
qed

subsection \<open>Full period\<close>

fun nonzero :: "(64 word \<Rightarrow> 64 word) \<Rightarrow> 64 word \<Rightarrow> nat \<Rightarrow> bool" where
  "nonzero f v 0 \<longleftrightarrow> v = 0"
| "nonzero f v (Suc k) \<longleftrightarrow> v \<noteq> 0 \<and> nonzero f (f v) k"

lemma nonzero_numeral: "nonzero f v (numeral k) \<longleftrightarrow> v \<noteq> 0 \<and> nonzero f (f v) (pred_numeral k)"
  by (simp add: numeral_eq_Suc)

definition row_mask :: "nat \<Rightarrow> 64 word" where
  "row_mask n = lfsr_create_xormask (lfsr_taps ! n)"

lemmas row_eval = row_mask_def lfsr_create_xormask_def lfsr_taps_def FIO_MAX_TAPS_def

lemma row_masks: "row_mask 3 = 6" "row_mask 4 = 12" "row_mask 5 = 20" "row_mask 6 = 48" "row_mask 7 = 96" "row_mask 8 = 184"
    "row_mask 9 = 272" "row_mask 10 = 576"
  by (simp_all add: row_eval)

definition full_period :: "nat \<Rightarrow> 64 word \<Rightarrow> bool" where
  "full_period n xm \<longleftrightarrow> nonzero (sigma n xm) (sigma n xm 0) (2 ^ n - 2)"

subsection \<open>Every value once\<close>

lemma orbit_cover:
  assumes "finite A" "\<And>x. x \<in> A \<Longrightarrow> F x \<in> A" "v \<in> A" "\<And>w. w \<in> A \<Longrightarrow> \<exists>k. (F ^^ k) v = w"
  shows "inj_on (\<lambda>k. (F ^^ k) v) {..<card A}" "(\<lambda>k. (F ^^ k) v) ` {..<card A} = A"
proof -
  let ?f = "\<lambda>k. (F ^^ k) v"
  have s: "?f k \<in> A" for k using assms(2,3) by (induction k) auto
  show i: "inj_on ?f {..<card A}"
  proof (rule ccontr)
    assume "\<not> inj_on ?f {..<card A}"
    then obtain i j where ij: "i < j" "j < card A" "?f i = ?f j" by (auto simp: inj_on_def) (metis linorder_neq_iff)
    have "?f k \<in> ?f ` {..<j}" for k
    proof (induction k)
      case (Suc k)
      then obtain l where l: "l < j" "?f k = ?f l" by auto
      have e: "?f (Suc k) = ?f (Suc l)" using arg_cong [OF l(2), of F] by simp
      show ?case
      proof (cases "Suc l = j")
        case True
        then show ?thesis unfolding e using ij(1,3) by (metis imageI lessThan_iff)
      next
        case False
        then show ?thesis unfolding e using l(1) by (intro imageI) simp
      qed
    qed (use ij(1) in \<open>auto intro!: image_eqI [of _ _ 0]\<close>)
    then have "A \<subseteq> ?f ` {..<j}" using assms(4) by blast
    then have "card A \<le> card (?f ` {..<j})" by (intro card_mono) auto
    also have "\<dots> \<le> j" using card_image_le [of "{..<j}" ?f] by simp
    finally show False using ij(2) by simp
  qed
  show "?f ` {..<card A} = A"
    by (rule card_subset_eq) (use s assms(1) card_image [OF i] in auto)
qed

lemma nonzero_iff: "nonzero f v k \<longleftrightarrow> (\<forall>i < k. (f ^^ i) v \<noteq> 0) \<and> (f ^^ k) v = 0"
proof (induction k arbitrary: v)
  case (Suc k)
  have "(\<forall>i < Suc k. (f ^^ i) v \<noteq> 0) \<longleftrightarrow> v \<noteq> 0 \<and> (\<forall>i < k. (f ^^ i) (f v) \<noteq> 0)"
    by (auto simp: less_Suc_eq_0_disj funpow_swap1)
  then show ?case using Suc by (auto simp: funpow_swap1)
qed simp

lemma lows_unat: "lows n v \<Longrightarrow> unat v < 2 ^ n"
proof -
  assume "lows n v"
  then have "take_bit n v = v" by (intro bit_word_eqI) (auto simp: lows_def bit_take_bit_iff)
  then have "unat v = take_bit n (unat v)" by (metis unsigned_take_bit_eq)
  then show ?thesis by (metis take_bit_nat_less_exp)
qed

lemma unat_mask64: "n < 64 \<Longrightarrow> unat (mask n :: 64 word) = 2 ^ n - 1"
proof -
  assume "n < 64"
  then have "(2 :: nat) ^ n \<le> 2 ^ 64" by (intro power_increasing) auto
  then have "(mask n :: nat) < 2 ^ 64" by (simp add: mask_eq_exp_minus_1)
  moreover have "unat (of_nat m :: 64 word) = m" if "m < 2 ^ 64" for m
    using that by (simp add: unat_of_nat take_bit_nat_eq_self)
  ultimately have "unat (of_nat (mask n) :: 64 word) = mask n" by blast
  then have "unat (mask n :: 64 word) = mask n" by (simp only: of_nat_mask_eq)
  then show ?thesis by (simp only: mask_eq_exp_minus_1 [where 'a = nat])
qed

lemma states_unat: "v \<in> states n \<Longrightarrow> n < 64 \<Longrightarrow> unat v < 2 ^ n - 1"
proof -
  assume v: "v \<in> states n" and n: "n < 64"
  have "unat v \<noteq> 2 ^ n - 1" using v unat_mask64 [OF n] by (metis (mono_tags, lifting) mem_Collect_eq states_def word_unat_eq_iff)
  then show ?thesis using v lows_unat [of n v] by (simp add: states_def)
qed

lemma of_nat_states: "w < 2 ^ n - 1 \<Longrightarrow> n < 64 \<Longrightarrow> of_nat w \<in> states n \<and> unat (of_nat w :: 64 word) = w"
proof -
  assume w: "w < 2 ^ n - 1" and n: "n < 64"
  have "(2 :: nat) ^ n \<le> 2 ^ 64" using n by (intro power_increasing) auto
  then have u: "unat (of_nat w :: 64 word) = w" using w by (simp add: unat_of_nat take_bit_nat_eq_self)
  have "i < n" if "bit w i" for i
  proof (rule ccontr)
    assume "\<not> i < n"
    then have "(2 :: nat) ^ n \<le> 2 ^ i" by (intro power_increasing) auto
    then have "w < 2 ^ i" using w by linarith
    then have "w div 2 ^ i = 0" by (rule div_less)
    then show False using that by (simp add: bit_iff_odd)
  qed
  then have "lows n (of_nat w)" by (auto simp: lows_def bit_of_nat_iff)
  moreover have "(of_nat w :: 64 word) \<noteq> mask n" using u w unat_mask64 [OF n] by (metis less_irrefl)
  ultimately show ?thesis using u by (simp add: states_def)
qed

lemma period_cover:
  assumes "good_taps n xm" "full_period n xm" "2 \<le> n" "v \<in> states n"
  shows "\<exists>k < 2 ^ n - 1. (sigma n xm ^^ k) 0 = v" "(sigma n xm ^^ (2 ^ n - 1)) 0 = 0"
proof -
  let ?s = "sigma n xm" and ?P = "2 ^ n - 1 :: nat"
  have n: "n < 64" using assms(1) by (simp add: good_taps_def)
  have "(2 :: nat) ^ 2 \<le> 2 ^ n" using assms(3) by (intro power_increasing) auto
  then have P: "?P = Suc (2 ^ n - 2)" "1 < ?P" by simp_all
  have nz: "\<forall>i < 2 ^ n - 2. (?s ^^ i) (?s 0) \<noteq> 0" "(?s ^^ (2 ^ n - 2)) (?s 0) = 0"
    using assms(2) by (simp_all add: full_period_def nonzero_iff)
  show z: "(?s ^^ ?P) 0 = 0" unfolding P(1) using nz(2) by (simp add: funpow_swap1)
  have z0: "(0 :: 64 word) \<in> states n" using of_nat_states [of 0 n] n P by simp
  have d: "(?s ^^ i) 0 \<noteq> 0" if "0 < i" "i < ?P" for i
    using nz(1) that P(1) by (cases i) (auto simp: funpow_swap1)
  have inj: "inj_on (\<lambda>i. (?s ^^ i) 0) {..<?P}"
  proof (rule inj_onI, rule ccontr)
    fix i j assume "i \<in> {..<?P}" "j \<in> {..<?P}" "(?s ^^ i) 0 = (?s ^^ j) 0" "i \<noteq> j"
    then obtain a b where ab: "a < b" "b < ?P" "(?s ^^ a) 0 = (?s ^^ b) 0" by (metis lessThan_iff linorder_neq_iff)
    then have "(?s ^^ a) 0 = (?s ^^ a) ((?s ^^ (b - a)) 0)" by (metis funpow_add comp_apply less_imp_add_positive add_diff_cancel_left')
    then have "0 = (?s ^^ (b - a)) 0" using funpow_sigma_inj [OF assms(1) z0 funpow_states [OF assms(1) z0]] by blast
    then show False using d [of "b - a"] ab by simp
  qed
  have "(\<lambda>i. (?s ^^ i) 0) ` {..<?P} = states n"
  proof (rule card_seteq)
    show "(\<lambda>i. (?s ^^ i) 0) ` {..<?P} \<subseteq> states n" using funpow_states [OF assms(1) z0] by blast
    have "card (states n) = card (unat ` states n)" by (intro card_image [symmetric] inj_onI) (simp add: word_unat_eq_iff)
    also have "\<dots> \<le> card {..<?P}" using states_unat n by (intro card_mono) auto
    finally show "card (states n) \<le> card ((\<lambda>i. (?s ^^ i) 0) ` {..<?P})" using card_image [OF inj] by simp
  qed simp
  then have "v \<in> (\<lambda>i. (?s ^^ i) 0) ` {..<?P}" using assms(4) by simp
  then obtain k where "v = (?s ^^ k) 0" "k \<in> {..<?P}" by (rule imageE)
  then show "\<exists>k < ?P. (?s ^^ k) 0 = v" by (intro exI [of _ k]) simp
qed

lemma period_transitive:
  assumes "good_taps n xm" "full_period n xm" "2 \<le> n" "u \<in> states n" "v \<in> states n"
  shows "\<exists>m. (sigma n xm ^^ m) u = v"
proof -
  let ?s = "sigma n xm" and ?P = "2 ^ n - 1 :: nat"
  obtain a where a: "a < ?P" "(?s ^^ a) 0 = u" using period_cover(1) [OF assms(1-4)] by blast
  obtain b where b: "(?s ^^ b) 0 = v" using period_cover(1) [OF assms(1-3,5)] by blast
  have "(?s ^^ (?P - a)) u = (?s ^^ (?P - a + a)) 0" unfolding a(2) [symmetric] by (simp only: funpow_add comp_apply)
  also have "\<dots> = 0" using a(1) period_cover(2) [OF assms(1-4)] by simp
  finally have "(?s ^^ (b + (?P - a))) u = v" using b by (simp only: funpow_add comp_apply)
  then show ?thesis by blast
qed

text \<open>The first return to the values in range.\<close>

definition in_range :: "nat \<Rightarrow> nat \<Rightarrow> 64 word set" where
  "in_range n m = {v \<in> states n. unat v \<le> m}"

definition ret :: "nat \<Rightarrow> 64 word \<Rightarrow> nat \<Rightarrow> 64 word \<Rightarrow> 64 word" where
  "ret n xm m v = (sigma n xm ^^ (LEAST j. 0 < j \<and> (sigma n xm ^^ j) v \<in> in_range n m)) v"

lemma in_range_card: "m < 2 ^ n - 1 \<Longrightarrow> n < 64 \<Longrightarrow> unat ` in_range n m = {..m} \<and> card (in_range n m) = Suc m \<and> finite (in_range n m)"
proof -
  assume m: "m < 2 ^ n - 1" and n: "n < 64"
  have "unat ` in_range n m = {..m}"
  proof
    show "{..m} \<subseteq> unat ` in_range n m"
    proof
      fix w assume "w \<in> {..m}"
      then have "of_nat w \<in> states n" "unat (of_nat w :: 64 word) = w" using of_nat_states [of w n] m n by auto
      then show "w \<in> unat ` in_range n m" using \<open>w \<in> {..m}\<close>
        by (intro image_eqI [of _ _ "of_nat w"]) (simp_all add: in_range_def)
    qed
  qed (auto simp: in_range_def)
  moreover have "card (in_range n m) = card (unat ` in_range n m)" by (intro card_image [symmetric] inj_onI) (simp add: word_unat_eq_iff)
  ultimately show ?thesis by simp
qed

definition full_register :: "nat \<Rightarrow> 64 word \<Rightarrow> nat \<Rightarrow> bool" where
  "full_register n xm m \<longleftrightarrow> good_taps n xm \<and> full_period n xm \<and> 2 \<le> n \<and> m < 2 ^ n - 1"

lemma full_registerD:
  assumes "full_register n xm m"
  shows "good_taps n xm" "full_period n xm" "2 \<le> n" "m < 2 ^ n - 1" "n < 64"
  using assms by (simp_all add: full_register_def good_taps_def)

lemma ret_first:
  assumes f: "full_register n xm m" and v: "v \<in> states n"
  obtains j where "0 < j" "ret n xm m v = (sigma n xm ^^ j) v" "(sigma n xm ^^ j) v \<in> in_range n m"
    "\<And>i. 0 < i \<Longrightarrow> i < j \<Longrightarrow> (sigma n xm ^^ i) v \<notin> in_range n m"
proof -
  let ?P = "\<lambda>j. 0 < j \<and> (sigma n xm ^^ j) v \<in> in_range n m"
  note taps = full_registerD(1) [OF f]
  have z: "(0 :: 64 word) \<in> states n" using of_nat_states [of 0 n] full_registerD(4,5) [OF f] by simp
  obtain k where "(sigma n xm ^^ k) (sigma n xm v) = 0"
    using period_transitive [OF full_registerD(1-3) [OF f] sigma_states [OF taps v] z] by blast
  then have "?P (Suc k)" using z by (simp add: funpow_swap1 in_range_def)
  from LeastI [of ?P, OF this] not_less_Least [of _ ?P] show thesis
    by (intro that [of "LEAST j. ?P j"]) (auto simp: ret_def)
qed

lemma ret_range: "full_register n xm m \<Longrightarrow> v \<in> states n \<Longrightarrow> ret n xm m v \<in> in_range n m"
  by (metis ret_first)

lemma ret_reach:
  assumes f: "full_register n xm m"
  shows "v \<in> in_range n m \<Longrightarrow> (sigma n xm ^^ k) v \<in> in_range n m \<Longrightarrow> \<exists>i. (ret n xm m ^^ i) v = (sigma n xm ^^ k) v"
proof (induction k arbitrary: v rule: less_induct)
  case (less k)
  show ?case
  proof (cases "k = 0")
    case False
    have vs: "v \<in> states n" using less.prems(1) by (simp add: in_range_def)
    obtain j where j: "0 < j" "ret n xm m v = (sigma n xm ^^ j) v" "(sigma n xm ^^ j) v \<in> in_range n m"
      "\<And>i. 0 < i \<Longrightarrow> i < j \<Longrightarrow> (sigma n xm ^^ i) v \<notin> in_range n m" using ret_first [OF f vs] by blast
    have jk: "j \<le> k" using j(4) [of k] False less.prems(2) by (metis gr0I not_le)
    then have e: "(sigma n xm ^^ (k - j)) (ret n xm m v) = (sigma n xm ^^ k) v"
      unfolding j(2) by (metis comp_apply funpow_add le_add_diff_inverse2)
    obtain i where "(ret n xm m ^^ i) (ret n xm m v) = (sigma n xm ^^ k) v"
      using less.IH [of "k - j" "ret n xm m v"] j jk False e less.prems(2) by (metis diff_less gr0I)
    then show ?thesis by (intro exI [of _ "Suc i"]) (simp add: funpow_swap1)
  qed (auto intro: exI [of _ 0])
qed

lemma ret_cover:
  assumes f: "full_register n xm m" and v: "v \<in> in_range n m"
  shows "distinct (map (\<lambda>k. unat ((ret n xm m ^^ k) v)) [0..<Suc m])" "set (map (\<lambda>k. unat ((ret n xm m ^^ k) v)) [0..<Suc m]) = {..m}"
proof -
  note c = in_range_card [OF full_registerD(4,5) [OF f]]
  have r: "\<exists>k. (ret n xm m ^^ k) v = w" if "w \<in> in_range n m" for w
  proof -
    have "v \<in> states n" "w \<in> states n" using that v by (simp_all add: in_range_def)
    then obtain k where "(sigma n xm ^^ k) v = w" using period_transitive [OF full_registerD(1-3) [OF f]] by blast
    then show ?thesis using ret_reach [OF f v, of k] that by simp
  qed
  have s: "ret n xm m x \<in> in_range n m" if "x \<in> in_range n m" for x using ret_range [OF f] that by (simp add: in_range_def)
  note o = orbit_cover [OF conjunct2 [OF conjunct2 [OF c]] s v r, simplified conjunct1 [OF conjunct2 [OF c]]]
  show "set (map (\<lambda>k. unat ((ret n xm m ^^ k) v)) [0..<Suc m]) = {..m}"
  proof -
    have "set (map (\<lambda>k. unat ((ret n xm m ^^ k) v)) [0..<Suc m]) = unat ` ((\<lambda>k. (ret n xm m ^^ k) v) ` {..<Suc m})"
      by (simp only: set_map set_upt image_image atLeast0LessThan)
    then show ?thesis using o(2) c by simp
  qed
  show "distinct (map (\<lambda>k. unat ((ret n xm m ^^ k) v)) [0..<Suc m])"
    unfolding distinct_map set_upt atLeast0LessThan using o(1) by (simp add: inj_on_def word_unat_eq_iff del: upt_Suc)
qed

subsection \<open>Initialisation\<close>

definition tap_list :: "nat \<Rightarrow> nat list" where
  "tap_list n = takeWhile (\<lambda>t. t \<noteq> 0) (take FIO_MAX_TAPS (lfsr_taps ! n))"

lemma rows_ok: "\<forall>n \<in> set [3..<64]. lfsr_taps ! n ! 0 = n \<and> n \<in> set (tap_list n) \<and> (\<forall>t \<in> set (tap_list n). 0 < t \<and> t \<le> n)"
  by (simp add: upt_rec_numeral tap_list_def lfsr_taps_def FIO_MAX_TAPS_def)

lemma fold_or_bit: "bit (fold (\<lambda>t m. m OR push_bit (t - 1) 1) xs v) i \<longleftrightarrow> bit v i \<or> (i < 64 \<and> (\<exists>t \<in> set xs. i = t - 1))" for v :: "64 word"
  by (induction xs arbitrary: v) (auto simp: bit_or_iff bit_exp_iff)

lemma row_good: "3 \<le> n \<Longrightarrow> n < 64 \<Longrightarrow> good_taps n (row_mask n) \<and> lfsr_taps ! n ! 0 = n"
proof -
  assume n: "3 \<le> n" "n < 64"
  then have "n \<in> set [3..<64]" by (simp only: set_upt atLeastLessThan_iff)
  from bspec [OF rows_ok this]
  have r: "lfsr_taps ! n ! 0 = n" "n \<in> set (tap_list n)" "\<forall>t \<in> set (tap_list n). 0 < t \<and> t \<le> n" by blast+
  have b: "bit (row_mask n) i \<longleftrightarrow> i < 64 \<and> (\<exists>t \<in> set (tap_list n). i = t - 1)" for i
    unfolding row_mask_def lfsr_create_xormask_def tap_list_def fold_or_bit by simp
  have "lows n (row_mask n)" unfolding lows_def b using r(3) by fastforce
  moreover have "bit (row_mask n) (n - 1)" unfolding b using r(2) n by auto
  ultimately show ?thesis using n r(1) by (simp add: good_taps_def)
qed

lemma find_taps_least:
  "a \<le> i \<Longrightarrow> i < b \<Longrightarrow> sz < 2 ^ i \<Longrightarrow>
    \<exists>n. a \<le> n \<and> n \<le> i \<and> sz < 2 ^ n \<and> (\<forall>j. a \<le> j \<and> j < n \<longrightarrow> 2 ^ j \<le> sz) \<and> find_taps sz [a..<b] = Some (lfsr_taps ! n)"
proof (induction "b - a" arbitrary: a)
  case (Suc d)
  have u: "[a..<b] = a # [Suc a..<b]" using Suc.prems by (simp add: upt_conv_Cons)
  show ?case
  proof (cases "sz < 2 ^ a")
    case True
    then show ?thesis using Suc.prems unfolding u by (intro exI [of _ a]) auto
  next
    case False
    then have "Suc a \<le> i" using Suc.prems by (cases "a = i") auto
    moreover have "d = b - Suc a" using Suc.hyps(2) by simp
    ultimately obtain n where n: "Suc a \<le> n" "n \<le> i" "sz < 2 ^ n" "\<forall>j. Suc a \<le> j \<and> j < n \<longrightarrow> 2 ^ j \<le> sz"
      "find_taps sz [Suc a..<b] = Some (lfsr_taps ! n)"
      using Suc.hyps(1) [of "Suc a"] Suc.prems(2,3) by blast
    have "2 ^ j \<le> sz" if "a \<le> j" "j < n" for j using False n(4) that by (cases "j = a") auto
    then show ?thesis using False n unfolding u by (intro exI [of _ n]) simp
  qed
qed simp

lemma find_taps_none: "(\<forall>i \<in> set is. 2 ^ i \<le> sz) \<Longrightarrow> find_taps sz is = None"
  by (induction "is") auto

lemma reg_mask: "0 < n \<Longrightarrow> push_bit 1 (push_bit (n - 1) 1) - 1 = (mask n :: 64 word)"
  by (cases n) (simp_all add: mask_eq_exp_minus_1 mult.commute)

lemma and_mask_lows: "lows n (v AND mask n)"
  by (auto simp: lows_def bit_and_iff bit_mask_iff)

text \<open>The cycle that a spin makes, computed without the product that could overflow.\<close>

definition cycle_of :: "nat \<Rightarrow> nat \<Rightarrow> nat" where
  "cycle_of mx sp = (case find (\<lambda>i. (mx * i) mod (sp + 1) = 0) [1..<sp + 1] of None \<Rightarrow> 0 | Some i \<Rightarrow> (mx * i) div (sp + 1))"

lemma spin_cycle_find:
  assumes "mx < 2 ^ 63" "sp \<le> 15" "\<forall>i \<in> set is. i \<le> sp"
  shows "spin_cycle (mx div (sp + 1)) (mx mod (sp + 1)) sp is =
    (case find (\<lambda>i. (mx * i) mod (sp + 1) = 0) is of None \<Rightarrow> 0 | Some i \<Rightarrow> (mx * i) div (sp + 1))"
  using assms(3)
proof (induction "is")
  case (Cons i "is")
  let ?d = "sp + 1"
  have i: "i \<le> sp" using Cons.prems by simp
  have "mx mod ?d \<le> sp" using mod_less_divisor [of ?d mx] by linarith
  then have y: "mx mod ?d * i \<le> sp * sp" using i by (intro mult_le_mono)
  have "sp * sp \<le> 15 * 15" using assms(2) by (intro mult_le_mono) auto
  then have a: "(mx mod ?d * i) mod 2 ^ 64 = mx mod ?d * i" using y by simp
  have m: "(mx mod ?d * i) mod ?d = (mx * i) mod ?d" by (rule mod_mult_left_eq)
  have q: "(mx div ?d) * i + (mx mod ?d * i) div ?d = (mx * i) div ?d"
  proof -
    have "mx * i = (mx div ?d * ?d + mx mod ?d) * i" by (simp only: div_mult_mod_eq)
    also have "\<dots> = mx mod ?d * i + (mx div ?d) * i * ?d" by (simp only: algebra_simps)
    finally show ?thesis using div_mult_self1 [of ?d "mx mod ?d * i" "mx div ?d * i"] by simp
  qed
  have "(mx * i) div ?d \<le> (mx * ?d) div ?d" using i by (intro div_le_mono mult_le_mono2) simp
  moreover have "(mx * ?d) div ?d = mx" by (rule nonzero_mult_div_cancel_right) simp
  ultimately have "(mx * i) div ?d \<le> mx" by linarith
  then have "((mx div ?d) * i + (mx mod ?d * i) div ?d) mod 2 ^ 64 = (mx * i) div ?d" unfolding q using assms(1) by simp
  then show ?case using Cons a m by simp
qed simp

lemma cycle_of_bound: "mx < 2 ^ 63 \<Longrightarrow> cycle_of mx sp < 2 ^ 63"
proof (cases "find (\<lambda>i. (mx * i) mod (sp + 1) = 0) [1..<sp + 1]")
  case (Some i)
  assume mx: "mx < 2 ^ 63"
  have "i \<in> set [1..<sp + 1]" using Some by (metis find_Some_iff nth_mem)
  then have "(mx * i) div (sp + 1) \<le> (mx * (sp + 1)) div (sp + 1)" by (intro div_le_mono mult_le_mono2) auto
  moreover have "(mx * (sp + 1)) div (sp + 1) = mx" by (rule nonzero_mult_div_cancel_right) simp
  ultimately show ?thesis using Some mx unfolding cycle_of_def by (simp only: option.case)
qed (simp add: cycle_of_def)

text \<open>A register as \<open>lfsr_init\<close> leaves it.\<close>

definition lfsr_fresh :: "nat \<Rightarrow> nat \<Rightarrow> 64 word \<Rightarrow> nat \<Rightarrow> fio_lfsr \<Rightarrow> bool" where
  "lfsr_fresh n nums seed sp g \<longleftrightarrow> lfsr_ok n g \<and> xormask g = row_mask n \<and> max_val g = nums - 1 \<and> num_vals g = 0 \<and> spin g = sp \<and>
     last_val g = seed AND mask n \<and> cached_cycle_length g = cycle_of (2 ^ n - 1) sp \<and> cycle_length g = cycle_of (2 ^ n - 1) sp + 1"

lemma init_row:
  assumes "find_lfsr nums = Some (lfsr_taps ! n)" "3 \<le> n" "n < 64" "0 < nums" "nums < 2 ^ 64"
  shows "if 15 < sp \<or> seed AND mask n = mask n then snd (lfsr_init fl nums seed sp) = 1
    else \<exists>g. lfsr_init fl nums seed sp = (g, 0) \<and> lfsr_fresh n nums seed sp g"
proof -
  have r: "good_taps n (row_mask n)" "lfsr_taps ! n ! 0 = n" using row_good [OF assms(2,3)] by auto
  have m: "push_bit 1 (push_bit (n - 1) 1) - 1 = (mask n :: 64 word)" using assms(2) by (intro reg_mask) simp
  have "(2 :: nat) ^ n \<le> 2 ^ 63" using assms(3) by (intro power_increasing) auto
  then have small: "(2 :: nat) ^ n - 1 < 2 ^ 63" by simp
  have "nums + (2 ^ 64 - 1) = (nums - 1) + 2 ^ 64" using assms(4) by simp
  then have nm: "(nums + (2 ^ 64 - 1)) mod 2 ^ 64 = nums - 1" using assms(5) by (simp only: mod_add_self2) simp
  have c: "spin_cycle ((2 ^ n - 1) div (sp + 1)) ((2 ^ n - 1) mod (sp + 1)) sp [1..<sp + 1] = cycle_of (2 ^ n - 1) sp" if "sp \<le> 15"
    unfolding cycle_of_def by (rule spin_cycle_find [OF small that]) auto
  have cb: "(cycle_of (2 ^ n - 1) sp + 1) mod 2 ^ 64 = cycle_of (2 ^ n - 1) sp + 1" using cycle_of_bound [OF small, of sp] by simp
  define fl1 where "fl1 = fl\<lparr>max_val := nums - 1, xormask := row_mask n, cached_bit := push_bit (n - 1) 1\<rparr>"
  define fl2 where "fl2 = fl1\<lparr>spin := sp, cached_cycle_length := cycle_of (2 ^ n - 1) sp, cycle_length := cycle_of (2 ^ n - 1) sp + 1\<rparr>"
  define fl3 where "fl3 = fl2\<lparr>num_vals := 0, last_val := seed AND mask n\<rparr>"
  have cbit: "cached_bit fl1 = push_bit (n - 1) 1" "cached_bit fl2 = push_bit (n - 1) 1" by (simp_all add: fl1_def fl2_def)
  have p: "prepare_spin fl1 sp = (if 15 < sp then (fl1, 1) else (fl2, 0))"
    unfolding prepare_spin_def Let_def cbit m unat_mask64 [OF assms(3)] using c cb by (auto simp: fl2_def not_less)
  have s: "lfsr_reset fl2 seed = (fl3, if seed AND mask n = mask n then 1 else 0)"
    unfolding lfsr_reset_def Let_def cbit m by (simp add: fl3_def)
  have i: "lfsr_init fl nums seed sp = (case prepare_spin fl1 sp of (fl, r) \<Rightarrow>
      if r \<noteq> 0 then (fl, 1) else case lfsr_reset fl seed of (fl, r) \<Rightarrow> if r \<noteq> 0 then (fl, 1) else (fl, 0))"
    unfolding lfsr_init_def assms(1) option.case Let_def nm r(2) fl1_def row_mask_def ..
  have "lfsr_fresh n nums seed sp fl3" if "seed AND mask n \<noteq> mask n"
    using that r(1) and_mask_lows [of n seed] by (simp add: lfsr_fresh_def lfsr_ok_def fl3_def fl2_def fl1_def states_def)
  then show ?thesis unfolding i p using s by auto
qed

text \<open>
  C22. What \<open>lfsr_init\<close> sets up. A size of at least \<open>2 ^ 63\<close>, a spin above 15 and a seed that would be all
  ones are refused. Otherwise the register has the least width that holds the size, its taps are
  good, its state is not all ones, and the cycle counter is the one of the formula in the comment of
  \<open>prepare_spin\<close>: the least multiple of the period that is a multiple of spin plus one.
\<close>
theorem lfsr_init_correct:
  assumes "0 < nums" "nums < 2 ^ 64"
  shows "if 2 ^ 63 \<le> nums then snd (lfsr_init fl nums seed sp) = 1
    else \<exists>n. 3 \<le> n \<and> n < 64 \<and> nums < 2 ^ n \<and> (n = 3 \<or> 2 ^ (n - 1) \<le> nums) \<and>
      (if 15 < sp \<or> seed AND mask n = mask n then snd (lfsr_init fl nums seed sp) = 1
       else \<exists>g. lfsr_init fl nums seed sp = (g, 0) \<and> lfsr_fresh n nums seed sp g)"
proof (cases "2 ^ 63 \<le> nums")
  case True
  then have "2 ^ i \<le> nums" if "i \<in> set [3..<64]" for i
    using that power_increasing [of i 63 "2 :: nat"] by (simp only: set_upt atLeastLessThan_iff) linarith
  then have "find_lfsr nums = None" unfolding find_lfsr_def by (intro find_taps_none) blast
  then show ?thesis using True by (simp add: lfsr_init_def)
next
  case False
  then obtain n where n: "3 \<le> n" "n \<le> 63" "nums < 2 ^ n" "\<forall>j. 3 \<le> j \<and> j < n \<longrightarrow> 2 ^ j \<le> nums"
      "find_lfsr nums = Some (lfsr_taps ! n)"
    using find_taps_least [of 3 63 64 nums] unfolding find_lfsr_def not_le by auto
  have "n = 3 \<or> 2 ^ (n - 1) \<le> nums" using n(1) spec [OF n(4), of "n - 1"] by linarith
  moreover have "n < 64" using n(2) by simp
  ultimately show ?thesis using False n init_row [OF n(5,1) _ assms] by auto
qed

lemma mask_neq_0: "0 < n \<Longrightarrow> (0 :: 64 word) AND mask n \<noteq> mask n"
  using bit_mask_iff [of n 0, where 'a = "64 word"] by auto

theorem lfsr_init_correct_witness:
  "\<exists>n g. 3 \<le> n \<and> lfsr_init sample_lfsr 5 0 2 = (g, 0) \<and> lfsr_fresh n 5 0 2 g"
  using lfsr_init_correct [of 5 sample_lfsr 0 2] mask_neq_0 by (auto split: if_splits)

subsection \<open>A run\<close>

fun lfsr_run :: "nat \<Rightarrow> fio_lfsr \<Rightarrow> (nat list \<times> fio_lfsr) option" where
  "lfsr_run 0 fl = Some ([], fl)"
| "lfsr_run (Suc k) fl = (case lfsr_next fl of
     Some (fl', r, Some v) \<Rightarrow> (case lfsr_run k fl' of Some (vs, g) \<Rightarrow> Some (v # vs, g) | None \<Rightarrow> None)
   | _ \<Rightarrow> None)"

definition steady :: "nat \<Rightarrow> fio_lfsr \<Rightarrow> bool" where
  "steady n fl \<longleftrightarrow> lfsr_ok n fl \<and> spin fl = 0 \<and> cycle_length fl = 0 \<and> cached_cycle_length fl = 0 \<and> full_register n (xormask fl) (max_val fl)"

lemma steady_turn: "lfsr_ok n fl \<Longrightarrow> spin fl = 0 \<Longrightarrow> cycle_length fl = 0 \<Longrightarrow>
    lfsr_turn fl = fl\<lparr>last_val := sigma n (xormask fl) (last_val fl)\<rparr>"
  by (cases fl) (simp add: lfsr_turn_def lfsr_advance_def lfsr_steps_def lfsr_ok_def sigma_def)

lemma steady_turns: "lfsr_ok n fl \<Longrightarrow> spin fl = 0 \<Longrightarrow> cycle_length fl = 0 \<Longrightarrow>
    (lfsr_turn ^^ k) fl = fl\<lparr>last_val := (sigma n (xormask fl) ^^ k) (last_val fl)\<rparr>"
proof (induction k)
  case (Suc k)
  let ?g = "fl\<lparr>last_val := (sigma n (xormask fl) ^^ k) (last_val fl)\<rparr>"
  have "lfsr_ok n ?g" using Suc.prems(1) funpow_states [of n "xormask fl"] by (simp add: lfsr_ok_def)
  then have "lfsr_turn ?g = ?g\<lparr>last_val := sigma n (xormask fl) (last_val ?g)\<rparr>" using steady_turn [of n ?g] Suc.prems by simp
  then show ?case using Suc by simp
qed simp

lemma turns_first:
  assumes "(0 :: nat) < j" "unat (last_val ((lfsr_turn ^^ j) fl)) \<le> max_val fl"
    "\<And>i. 0 < i \<Longrightarrow> i < j \<Longrightarrow> max_val fl < unat (last_val ((lfsr_turn ^^ i) fl))"
  shows "lfsr_loop fl = Some ((lfsr_turn ^^ j) fl)"
proof -
  obtain i where i: "0 < i" "i \<le> j" "lfsr_loop fl = Some ((lfsr_turn ^^ i) fl)" "unat (last_val ((lfsr_turn ^^ i) fl)) \<le> max_val fl"
    using loop_first [OF assms(1,2)] by blast
  then have "i = j" using assms(3) [of i] by fastforce
  then show ?thesis using i(3) by simp
qed

lemma steady_next:
  assumes "steady n fl" "num_vals fl \<le> max_val fl"
  defines "u \<equiv> ret n (xormask fl) (max_val fl) (last_val fl)"
  shows "lfsr_next fl = Some (fl\<lparr>num_vals := num_vals fl + 1, last_val := u\<rparr>, 0, Some (unat u))" "u \<in> in_range n (max_val fl)"
proof -
  have o: "lfsr_ok n fl" "spin fl = 0" "cycle_length fl = 0" "full_register n (xormask fl) (max_val fl)"
    using assms(1) by (simp_all add: steady_def)
  have v: "last_val fl \<in> states n" using o(1) by (simp add: lfsr_ok_def)
  obtain j where j: "0 < j" "u = (sigma n (xormask fl) ^^ j) (last_val fl)" "u \<in> in_range n (max_val fl)"
    "\<And>i. 0 < i \<Longrightarrow> i < j \<Longrightarrow> (sigma n (xormask fl) ^^ i) (last_val fl) \<notin> in_range n (max_val fl)"
    using ret_first [OF o(4) v] unfolding u_def by metis
  show "u \<in> in_range n (max_val fl)" by (rule j(3))
  define g where "g = fl\<lparr>num_vals := num_vals fl + 1\<rparr>"
  have g: "lfsr_ok n g" "spin g = 0" "cycle_length g = 0" using o by (simp_all add: g_def lfsr_ok_def)
  have gf: "max_val g = max_val fl" "xormask g = xormask fl" "last_val g = last_val fl" by (simp_all add: g_def)
  note t = steady_turns [OF g, unfolded gf]
  have "lfsr_loop g = Some ((lfsr_turn ^^ j) g)"
  proof (rule turns_first [OF j(1)])
    show "unat (last_val ((lfsr_turn ^^ j) g)) \<le> max_val g" using j(2,3) by (simp add: t gf in_range_def)
    show "max_val g < unat (last_val ((lfsr_turn ^^ i) g))" if "0 < i" "i < j" for i
      using j(4) [OF that] funpow_states [OF full_registerD(1) [OF o(4)] v, of i] by (simp add: t gf in_range_def)
  qed
  moreover have "(num_vals fl + 1) mod 2 ^ 64 = num_vals fl + 1"
  proof -
    have "(2 :: nat) ^ n \<le> 2 ^ 64" using full_registerD(5) [OF o(4)] by (intro power_increasing) auto
    then show ?thesis using assms(2) full_registerD(4) [OF o(4)] by simp
  qed
  ultimately show "lfsr_next fl = Some (fl\<lparr>num_vals := num_vals fl + 1, last_val := u\<rparr>, 0, Some (unat u))"
    using assms(2) unfolding lfsr_next_def Let_def by (simp only: g_def [symmetric] t j(2)) (simp add: g_def)
qed

lemma steady_run:
  "steady n fl \<Longrightarrow> num_vals fl + k \<le> max_val fl + 1 \<Longrightarrow>
    lfsr_run k fl = Some (map (\<lambda>i. unat ((ret n (xormask fl) (max_val fl) ^^ Suc i) (last_val fl))) [0..<k],
      fl\<lparr>num_vals := num_vals fl + k, last_val := (ret n (xormask fl) (max_val fl) ^^ k) (last_val fl)\<rparr>)"
proof (induction k arbitrary: fl)
  case (Suc k)
  let ?R = "ret n (xormask fl) (max_val fl)"
  define g where "g = fl\<lparr>num_vals := num_vals fl + 1, last_val := ?R (last_val fl)\<rparr>"
  have n: "lfsr_next fl = Some (g, 0, Some (unat (?R (last_val fl))))" "?R (last_val fl) \<in> in_range n (max_val fl)"
    using steady_next [OF Suc.prems(1)] Suc.prems(2) by (simp_all add: g_def)
  have "steady n g" using Suc.prems(1) n(2) by (simp add: steady_def lfsr_ok_def g_def in_range_def)
  then have r: "lfsr_run k g = Some (map (\<lambda>i. unat ((?R ^^ Suc i) (?R (last_val fl)))) [0..<k],
      g\<lparr>num_vals := num_vals g + k, last_val := (?R ^^ k) (?R (last_val fl))\<rparr>)"
    using Suc.IH [of g] Suc.prems(2) by (simp add: g_def)
  have m: "map (\<lambda>i. unat ((?R ^^ Suc i) (last_val fl))) [0..<Suc k] =
      unat (?R (last_val fl)) # map (\<lambda>i. unat ((?R ^^ Suc i) (?R (last_val fl)))) [0..<k]"
    by (simp only: upt_conv_Cons zero_less_Suc list.map map_Suc_upt [symmetric] map_map comp_def funpow_Suc_right) simp
  show ?case unfolding m using n(1) r by (simp add: g_def funpow_swap1)
qed (cases fl, simp)

lemma first_next:
  assumes "lfsr_ok n fl" "spin fl = 0" "cycle_length fl = 1" "cached_cycle_length fl = 0" "full_register n (xormask fl) (max_val fl)" "num_vals fl = 0"
  shows "\<exists>u \<in> in_range n (max_val fl). lfsr_next fl = Some (fl\<lparr>num_vals := 1, cycle_length := 0, last_val := u\<rparr>, 0, Some (unat u))"
proof -
  define g where "g = fl\<lparr>num_vals := 1\<rparr>"
  define h where "h = lfsr_turn g"
  have g: "lfsr_ok n g" using assms(1) by (simp add: g_def lfsr_ok_def)
  have h: "h = fl\<lparr>num_vals := 1, cycle_length := 0, last_val := last_val h\<rparr>"
    using assms(2-4) unfolding h_def g_def by (cases fl) (simp add: lfsr_turn_def lfsr_advance_def Let_def)
  have hf: "max_val h = max_val fl" "xormask h = xormask fl" "spin h = 0" "cycle_length h = 0"
    using assms(2) by (subst h, simp)+
  have ho: "lfsr_ok n h" unfolding h_def by (rule turn_ok [OF g])
  then have hs: "last_val h \<in> states n" by (simp add: lfsr_ok_def)
  note t = steady_turns [OF ho hf(3,4), unfolded hf]
  have z: "(0 :: 64 word) \<in> states n" using of_nat_states [of 0 n] full_registerD(4,5) [OF assms(5)] by simp
  obtain k where "(sigma n (xormask fl) ^^ k) (last_val h) = 0"
    using period_transitive [OF full_registerD(1-3) [OF assms(5)] hs z] by blast
  then have "unat (last_val ((lfsr_turn ^^ Suc k) g)) \<le> max_val g"
    by (simp only: funpow_Suc_right comp_apply h_def [symmetric] t) simp
  from loop_first [OF zero_less_Suc this] obtain j where j: "0 < j" "lfsr_loop g = Some ((lfsr_turn ^^ j) g)"
    "unat (last_val ((lfsr_turn ^^ j) g)) \<le> max_val g" by blast
  obtain i where i: "j = Suc i" using j(1) by (cases j) auto
  define u where "u = (sigma n (xormask fl) ^^ i) (last_val h)"
  have e: "(lfsr_turn ^^ j) g = fl\<lparr>num_vals := 1, cycle_length := 0, last_val := u\<rparr>"
    unfolding i funpow_Suc_right comp_apply h_def [symmetric] t u_def [symmetric] by (subst h) simp
  have "u \<in> in_range n (max_val fl)"
    using j(3) e funpow_states [OF full_registerD(1) [OF assms(5)] hs, of i] by (simp add: in_range_def u_def g_def)
  moreover have "lfsr_next fl = Some (fl\<lparr>num_vals := 1, cycle_length := 0, last_val := u\<rparr>, 0, Some (unat u))"
    unfolding lfsr_next_def Let_def assms(6) using j(2) e by (simp add: g_def)
  ultimately show ?thesis by blast
qed

text \<open>
  The rows of the table that a size below \<open>2 ^ 10\<close> selects step through all their states; each
  is checked by running the step around its orbit.
\<close>

lemma full_small: "full_period 3 (row_mask 3)" "full_period 4 (row_mask 4)" "full_period 5 (row_mask 5)" "full_period 6 (row_mask 6)"
    "full_period 7 (row_mask 7)" "full_period 8 (row_mask 8)"
  by (simp_all add: full_period_def row_masks sigma_def LFSR_NEXT_def nonzero_numeral)

lemma full_9: "full_period 9 (row_mask 9)" "full_period 10 (row_mask 10)"
  by (simp_all add: full_period_def row_masks sigma_def LFSR_NEXT_def nonzero_numeral)

lemma full_rows: "3 \<le> n \<Longrightarrow> n \<le> 10 \<Longrightarrow> full_period n (row_mask n)"
proof -
  assume "3 \<le> n" "n \<le> 10"
  then have "n \<in> set [3..<11]" by (simp only: set_upt atLeastLessThan_iff) simp
  then show ?thesis using full_small full_9 by (simp add: upt_rec_numeral) blast
qed

lemma fresh_run:
  assumes fr: "lfsr_fresh n nums seed 0 fl" and fp: "full_period n (row_mask n)" and n: "3 \<le> n" "n < 64" "0 < nums" "nums < 2 ^ n"
  shows "\<exists>vs g. lfsr_run nums fl = Some (vs, g) \<and> distinct vs \<and> set vs = {..<nums} \<and> (\<exists>g'. lfsr_next g = Some (g', 1, None))"
proof -
  have f: "lfsr_ok n fl" "spin fl = 0" "cycle_length fl = 1" "cached_cycle_length fl = 0" "num_vals fl = 0" "max_val fl = nums - 1" "xormask fl = row_mask n"
    using fr by (simp_all add: lfsr_fresh_def cycle_of_def)
  have m: "nums - 1 < 2 ^ n - 1" using n by simp
  then have full: "full_register n (xormask fl) (max_val fl)"
    using fp row_good [OF n(1,2)] n(1) by (simp add: full_register_def f)
  obtain u where u: "u \<in> in_range n (max_val fl)" "lfsr_next fl = Some (fl\<lparr>num_vals := 1, cycle_length := 0, last_val := u\<rparr>, 0, Some (unat u))"
    using first_next [OF f(1-4) full f(5)] by blast
  define g where "g = fl\<lparr>num_vals := 1, cycle_length := 0, last_val := u\<rparr>"
  let ?R = "ret n (xormask fl) (max_val fl)"
  let ?V = "unat u # map (\<lambda>i. unat ((?R ^^ Suc i) u)) [0..<max_val fl]" and ?G = "g\<lparr>num_vals := nums, last_val := (?R ^^ max_val fl) u\<rparr>"
  have k: "nums = Suc (max_val fl)" using n(3) f(6) by simp
  have "steady n g" using f full u(1) by (simp add: steady_def lfsr_ok_def g_def in_range_def)
  then have r: "lfsr_run (max_val fl) g = Some (map (\<lambda>i. unat ((?R ^^ Suc i) u)) [0..<max_val fl], ?G)"
    using steady_run [of n g "max_val fl"] k by (simp add: g_def)
  have vs: "map (\<lambda>i. unat ((?R ^^ i) u)) [0..<Suc (max_val fl)] = ?V"
    by (simp only: upt_conv_Cons zero_less_Suc list.map map_Suc_upt [symmetric] map_map comp_def funpow_0)
  note c = ret_cover [OF full u(1), unfolded vs]
  have "lfsr_run (Suc (max_val fl)) fl = Some (?V, ?G)"
    unfolding lfsr_run.simps u(2) g_def [symmetric] by (simp only: option.case prod.case r)
  then have "lfsr_run nums fl = Some (?V, ?G)" by (simp only: k)
  moreover have "\<exists>g'. lfsr_next ?G = Some (g', 1, None)"
    using k by (simp add: lfsr_next_def g_def)
  moreover have "set ?V = {..<nums}" unfolding c(2) k by (rule lessThan_Suc_atMost [symmetric])
  ultimately show ?thesis using c(1) by blast
qed

lemma lfsr_covers:
  assumes "0 < nums" "nums < 2 ^ 10" "lfsr_init fl nums seed 0 = (fl0, 0)"
  shows "\<exists>vs g. lfsr_run nums fl0 = Some (vs, g) \<and> distinct vs \<and> set vs = {..<nums} \<and> (\<exists>g'. lfsr_next g = Some (g', 1, None))"
proof -
  obtain n where n: "3 \<le> n" "n \<le> 10" "nums < 2 ^ n" "find_lfsr nums = Some (lfsr_taps ! n)"
    using find_taps_least [of 3 10 64 nums] assms(2) unfolding find_lfsr_def by auto
  have "nums < 2 ^ 64" using assms(2) by simp
  then have "lfsr_fresh n nums seed 0 fl0"
    using init_row [OF n(4,1) _ assms(1), of 0 seed fl] n(2) assms(3) by (auto split: if_splits)
  then show ?thesis using fresh_run full_rows n assms(1) by simp
qed

text \<open>
  C16. A register without spin is a permutation of the blocks: for every size below 1024 and every
  seed that \<open>lfsr_init\<close> accepts, calling \<open>lfsr_next\<close> as many times as there are blocks returns every
  block exactly once, and the call after that reports the end.
\<close>
theorem lfsr_visits_all:
  assumes "0 < nums" "nums < 2 ^ 10" "lfsr_init fl nums seed 0 = (fl0, 0)"
  shows "\<exists>vs g. lfsr_run nums fl0 = Some (vs, g) \<and> distinct vs \<and> set vs = {..<nums} \<and> (\<exists>g'. lfsr_next g = Some (g', 1, None))"
  by (rule lfsr_covers [OF assms])

theorem lfsr_visits_all_witness:
  "\<exists>fl0 vs g. lfsr_init sample_lfsr 5 0 0 = (fl0, 0) \<and> lfsr_run 5 fl0 = Some (vs, g) \<and> distinct vs \<and> set vs = {..<5}"
proof -
  obtain fl0 where i: "lfsr_init sample_lfsr 5 0 0 = (fl0, 0)"
    using init_row [of 5 3 0 0 sample_lfsr] mask_neq_0 [of 3] by (auto simp: find_lfsr_def upt_rec_numeral)
  then show ?thesis using lfsr_visits_all [OF _ _ i] by fastforce
qed

end
