(* ===== verification/Fio_Flist.thy ===== *)
theory Fio_Flist
  imports "HOL-Library.Multiset" "HOL-Library.Word"
begin

text \<open>
  The list sort of fio, \<open>fio/lib/flist_sort.c\<close>: a merge sort that keeps sorted partial lists in an array, as a binary counter
  does its bits. For every comparison that follows a key it is the stable sort by that key.
\<close>

subsection \<open>Merging\<close>

text \<open>
  A linked list is the list of its entries. \<open>merge_and_restore_back_links\<close> does what \<open>merge\<close> does and sets the links back, which
  a list does not have.
\<close>

fun merge :: "('a \<Rightarrow> 'a \<Rightarrow> int) \<Rightarrow> 'a list \<Rightarrow> 'a list \<Rightarrow> 'a list" where
  "merge cmp (a # as) (b # bs) = (if cmp a b \<le> 0 then a # merge cmp as (b # bs) else b # merge cmp (a # as) bs)"
| "merge cmp [] bs = bs"
| "merge cmp as [] = as"

definition MAX_LIST_LENGTH_BITS :: nat where "MAX_LIST_LENGTH_BITS = 20"

text \<open>The inner loop takes the partial lists up to the first empty slot and merges them with the entry.\<close>

fun sort_carry :: "('a \<Rightarrow> 'a \<Rightarrow> int) \<Rightarrow> 'a list list \<Rightarrow> 'a list \<Rightarrow> nat \<Rightarrow> 'a list list \<times> 'a list \<times> nat" where
  "sort_carry cmp [] cur lev = ([], cur, lev)"
| "sort_carry cmp (p # part) cur lev =
    (if p = [] then (p # part, cur, lev)
     else let (part, cur, lev) = sort_carry cmp part (merge cmp p cur) (lev + 1) in ([] # part, cur, lev))"

definition sort_step :: "('a \<Rightarrow> 'a \<Rightarrow> int) \<Rightarrow> 'a list list \<times> nat \<Rightarrow> 'a \<Rightarrow> 'a list list \<times> nat" where
  "sort_step cmp s x =
    (let (part, max_lev) = s; (part, cur, lev) = sort_carry cmp part [x] 0 in
     if lev > max_lev
     then let lev = (if lev \<ge> MAX_LIST_LENGTH_BITS then lev - 1 else lev) in (part[lev := cur], lev)
     else (part[lev := cur], max_lev))"

definition flist_sort :: "('a \<Rightarrow> 'a \<Rightarrow> int) \<Rightarrow> 'a list \<Rightarrow> 'a list" where
  "flist_sort cmp head =
    (if head = [] then []
     else let (part, max_lev) = foldl (sort_step cmp) (replicate (MAX_LIST_LENGTH_BITS + 1) [], 0) head;
              rest = foldl (\<lambda>list lev. if part ! lev \<noteq> [] then merge cmp (part ! lev) list else list) [] [0..<max_lev]
          in merge cmp (part ! max_lev) rest)"

subsection \<open>The contract of a comparison\<close>

locale comparison =
  fixes cmp :: "'a \<Rightarrow> 'a \<Rightarrow> int" and key :: "'a \<Rightarrow> 'k :: linorder" and S :: "'a set"
  assumes cmp_law: "a \<in> S \<Longrightarrow> b \<in> S \<Longrightarrow> cmp a b \<le> 0 \<longleftrightarrow> key a \<le> key b"
begin

lemma merge_mset: "mset (merge cmp as bs) = mset as + mset bs"
  by (induction cmp\<equiv>cmp as bs rule: merge.induct) auto

lemma merge_set: "set (merge cmp as bs) = set as \<union> set bs"
  using merge_mset [of as bs] by (metis mset_append mset_eq_setD set_append)

lemma merge_sorted: "set as \<subseteq> S \<Longrightarrow> set bs \<subseteq> S \<Longrightarrow> sorted (map key as) \<Longrightarrow> sorted (map key bs) \<Longrightarrow> sorted (map key (merge cmp as bs))"
  by (induction cmp\<equiv>cmp as bs rule: merge.induct) (auto simp: merge_set cmp_law)

lemma merge_stable: "set as \<subseteq> S \<Longrightarrow> set bs \<subseteq> S \<Longrightarrow> sorted (map key as) \<Longrightarrow>
  filter (\<lambda>x. k = key x) (merge cmp as bs) = filter (\<lambda>x. k = key x) as @ filter (\<lambda>x. k = key x) bs"
proof (induction cmp\<equiv>cmp as bs rule: merge.induct)
  case (1 a as b bs)
  show ?case
  proof (cases "cmp a b \<le> 0")
    case False
    then have "key b < key a" using 1 cmp_law [of a b] by auto
    then have "filter (\<lambda>x. k = key x) (a # as) = []" if "k = key b" using 1(5) that by (auto simp: filter_empty_conv)
    then show ?thesis using 1 False by auto
  qed (use 1 in auto)
qed auto

lemma merge_sort:
  assumes "set as \<subseteq> S" "set bs \<subseteq> S"
  shows "merge cmp (sort_key key as) (sort_key key bs) = sort_key key (as @ bs)"
proof (rule properties_for_sort_key [symmetric])
  show "filter (\<lambda>x. key k = key x) (merge cmp (sort_key key as) (sort_key key bs)) = filter (\<lambda>x. key k = key x) (as @ bs)" for k
    using merge_stable [of "sort_key key as" "sort_key key bs" "key k"] assms sort_key_stable [of key "key k"] by (simp add: eq_commute)
qed (use assms in \<open>simp_all add: merge_mset merge_sorted\<close>)

text \<open>What the array holds: the sorted segments of what has been taken from the list, the first in the highest slot.\<close>

definition parts_of :: "'a list list \<Rightarrow> 'a list \<Rightarrow> bool" where
  "parts_of part xs \<longleftrightarrow> (\<exists>segs. part = map (sort_key key) segs \<and> concat (rev segs) = xs)"

lemma carry_parts:
  assumes "parts_of part xs" "cur = sort_key key ys" "set xs \<subseteq> S" "set ys \<subseteq> S" "\<exists>p \<in> set part. p = []" "sort_carry cmp part cur lev = (part', cur', lev')"
  shows "lev \<le> lev' \<and> lev' - lev < length part \<and> length part' = length part \<and> part' ! (lev' - lev) = [] \<and>
    (\<forall>i < lev' - lev. part' ! i = [] \<and> part ! i \<noteq> []) \<and> (\<forall>i. lev' - lev \<le> i \<and> i < length part \<longrightarrow> part' ! i = part ! i) \<and>
    (\<exists>us vs. xs = us @ vs \<and> parts_of part' us \<and> cur' = sort_key key (vs @ ys))"
  using assms
proof (induction part arbitrary: xs cur ys lev part' cur' lev')
  case (Cons p part)
  obtain segs where segs: "p # part = map (sort_key key) segs" "concat (rev segs) = xs" using Cons.prems(1) unfolding parts_of_def by (elim exE conjE) (rule that)
  then obtain s ss where s: "segs = s # ss" "p = sort_key key s" "part = map (sort_key key) ss" by (cases segs) auto
  have x: "xs = concat (rev ss) @ s" using segs(2) s(1) by simp
  show ?case
  proof (cases "p = []")
    case True
    then have e: "part' = p # part" "cur' = cur" "lev' = lev" using Cons.prems(6) by auto
    have "xs = xs @ [] \<and> parts_of part' xs \<and> cur' = sort_key key ([] @ ys)" using Cons.prems(1,2) e by simp
    then have "\<exists>us vs. xs = us @ vs \<and> parts_of part' us \<and> cur' = sort_key key (vs @ ys)" by blast
    then show ?thesis using True e by simp
  next
    case False
    obtain q where q: "sort_carry cmp part (merge cmp p cur) (lev + 1) = (q, cur', lev')" "part' = [] # q"
      using Cons.prems(6) False by (auto split: prod.splits)
    have m: "merge cmp p cur = sort_key key (s @ ys)" unfolding s(2) Cons.prems(2) using Cons.prems(3,4) x by (intro merge_sort) auto
    have "parts_of part (concat (rev ss))" using s(3) by (auto simp: parts_of_def)
    from Cons.IH [OF this m _ _ _ q(1)] Cons.prems(3-5) x False obtain us vs where
      r: "lev + 1 \<le> lev'" "lev' - (lev + 1) < length part" "length q = length part" "q ! (lev' - (lev + 1)) = []"
        "\<forall>i < lev' - (lev + 1). q ! i = [] \<and> part ! i \<noteq> []" "\<forall>i. lev' - (lev + 1) \<le> i \<and> i < length part \<longrightarrow> q ! i = part ! i"
        "concat (rev ss) = us @ vs" "parts_of q us" "cur' = sort_key key (vs @ s @ ys)" by auto
    have d: "lev' - lev = Suc (lev' - (lev + 1))" using r(1) by simp
    have "parts_of part' us" using r(8) q(2) unfolding parts_of_def by (metis append_Nil2 concat.simps concat_append list.simps(9) rev.simps(2) sort_key_simps(1))
    then have "xs = us @ vs @ s \<and> parts_of part' us \<and> cur' = sort_key key ((vs @ s) @ ys)" using r(7,9) x by simp
    then have ex: "\<exists>us vs. xs = us @ vs \<and> parts_of part' us \<and> cur' = sort_key key (vs @ ys)" by blast
    have lt: "\<forall>i < Suc (lev' - (lev + 1)). part' ! i = [] \<and> (p # part) ! i \<noteq> []" using r(5) False q(2) by (auto simp: nth_Cons split: nat.splits)
    have ge: "\<forall>i. Suc (lev' - (lev + 1)) \<le> i \<and> i < length (p # part) \<longrightarrow> part' ! i = (p # part) ! i"
      using r(6) q(2) by (auto simp: nth_Cons split: nat.splits)
    show ?thesis unfolding d using r(1-4) q(2) lt ge ex by simp
  qed
qed simp

lemma parts_update:
  assumes "parts_of part us" "lev < length part" "part ! lev = []" "\<forall>i < lev. part ! i = []" "cur = sort_key key ws"
  shows "parts_of (part[lev := cur]) (us @ ws)"
proof -
  obtain segs where s: "part = map (sort_key key) segs" "concat (rev segs) = us" using assms(1) unfolding parts_of_def by (elim exE conjE) (rule that)
  have l: "lev < length segs" using assms(2) s(1) by simp
  have e: "segs ! i = []" if "i \<le> lev" for i
  proof -
    have "sort_key key (segs ! i) = []" using assms(3,4) s(1) l that by (cases "i = lev") simp_all
    then show ?thesis by (metis length_0_conv length_sort)
  qed
  have z: "concat (rev (take lev segs)) = []" using e l by (auto simp: in_set_conv_nth)
  have "segs = take lev segs @ [] # drop (Suc lev) segs" using e [of lev] l id_take_nth_drop [OF l] by simp
  from arg_cong [OF this, of "\<lambda>l. concat (rev l)"]
  have "concat (rev segs) = concat (rev (drop (Suc lev) segs)) @ concat (rev (take lev segs))" by simp
  then have u: "concat (rev (drop (Suc lev) segs)) = us" using s(2) z by simp
  have "concat (rev (segs[lev := ws])) = us @ ws" using u z by (simp add: upd_conv_take_nth_drop [OF l])
  moreover have "part[lev := cur] = map (sort_key key) (segs[lev := ws])" using s(1) assms(5) by (simp add: map_update)
  ultimately show ?thesis unfolding parts_of_def by blast
qed

definition sorting :: "'a list list \<times> nat \<Rightarrow> 'a list \<Rightarrow> bool" where
  "sorting s xs \<longleftrightarrow> length (fst s) = MAX_LIST_LENGTH_BITS + 1 \<and> parts_of (fst s) xs \<and> snd s < MAX_LIST_LENGTH_BITS \<and>
     (\<forall>i. snd s < i \<and> i \<le> MAX_LIST_LENGTH_BITS \<longrightarrow> fst s ! i = [])"

lemma sort_step_ok:
  assumes s: "sorting s xs" "set xs \<subseteq> S" "x \<in> S"
  shows "sorting (sort_step cmp s x) (xs @ [x])"
proof -
  obtain part max_lev where p: "s = (part, max_lev)" by fastforce
  obtain part' cur lev where c: "sort_carry cmp part [x] 0 = (part', cur, lev)" by (metis prod_cases3)
  have l: "length part = MAX_LIST_LENGTH_BITS + 1" "parts_of part xs" "max_lev < MAX_LIST_LENGTH_BITS"
    "\<And>i. max_lev < i \<Longrightarrow> i \<le> MAX_LIST_LENGTH_BITS \<Longrightarrow> part ! i = []" using s(1) p by (auto simp: sorting_def)
  have "part ! MAX_LIST_LENGTH_BITS = []" using l(3,4) by simp
  then have "\<exists>p \<in> set part. p = []" using l(1) by (metis less_add_one nth_mem)
  from carry_parts [OF l(2), of "[x]" "[x]", OF _ s(2) _ this c] s(3) obtain us vs where
    r: "lev < length part" "length part' = length part" "part' ! lev = []" "\<forall>i < lev. part' ! i = [] \<and> part ! i \<noteq> []"
      "\<forall>i. lev \<le> i \<and> i < length part \<longrightarrow> part' ! i = part ! i" "xs = us @ vs" "parts_of part' us" "cur = sort_key key (vs @ [x])" by auto
  have up: "parts_of (part'[i := cur]) (xs @ [x])" if "i \<le> lev" "part' ! i = []" for i
    using parts_update [OF r(7) _ that(2), of cur "vs @ [x]"] that r(1,2,4,6,8) by simp
  have le: "lev \<le> Suc max_lev"
  proof (rule ccontr)
    assume "\<not> lev \<le> Suc max_lev"
    then show False using r(1,4) l(1,4) by (metis Suc_eq_plus1 less_Suc_eq_le lessI not_le_imp_less less_or_eq_imp_le order.strict_trans)
  qed
  show ?thesis
  proof (cases "max_lev < lev")
    case False
    then have "sort_step cmp s x = (part'[lev := cur], max_lev)" using p c by (simp add: sort_step_def)
    then show ?thesis using up [of lev] r(2,3,5) l False by (auto simp: sorting_def)
  next
    case True
    define j where "j = (if MAX_LIST_LENGTH_BITS \<le> lev then lev - 1 else lev)"
    have st: "sort_step cmp s x = (part'[j := cur], j)" using p c True by (simp add: sort_step_def j_def Let_def)
    have j: "j \<le> lev" "j < MAX_LIST_LENGTH_BITS" "part' ! j = []" "max_lev \<le> j"
      using r(1,3,4) le l(3) True by (auto simp: j_def)
    have "part' ! i = []" if "j < i" "i \<le> MAX_LIST_LENGTH_BITS" for i
      using that r(3-5) l(1,4) j(4) by (cases "lev \<le> i") auto
    then show ?thesis unfolding st using up [OF j(1,3)] r(2) l(1) j(2) by (auto simp: sorting_def)
  qed
qed

lemma sorting_fold: "sorting s xs \<Longrightarrow> set (xs @ ys) \<subseteq> S \<Longrightarrow> sorting (foldl (sort_step cmp) s ys) (xs @ ys)"
proof (induction ys arbitrary: s xs)
  case (Cons y ys)
  then show ?case using sort_step_ok [of s xs y] Cons.IH [of "sort_step cmp s y" "xs @ [y]"] by simp
qed simp

lemma collect_parts:
  assumes "part = map (sort_key key) segs" "set (concat segs) \<subseteq> S" "k \<le> length segs"
  shows "foldl (\<lambda>list lev. if part ! lev \<noteq> [] then merge cmp (part ! lev) list else list) [] [0..<k] = sort_key key (concat (rev (take k segs)))"
  using assms(3)
proof (induction k)
  case (Suc k)
  have t: "take (Suc k) segs = take k segs @ [segs ! k]" using Suc.prems by (simp add: take_Suc_conv_app_nth)
  have e: "part ! k = [] \<longleftrightarrow> segs ! k = []" using assms(1) Suc.prems by (metis Suc_le_eq length_0_conv length_sort nth_map)
  have "segs ! k \<in> set segs" using Suc.prems by simp
  then have "set (segs ! k) \<subseteq> S" "set (concat (rev (take k segs))) \<subseteq> S" using assms(2) by (auto dest: in_set_takeD)
  then have "merge cmp (part ! k) (sort_key key (concat (rev (take k segs)))) = sort_key key (segs ! k @ concat (rev (take k segs)))"
    using merge_sort assms(1) Suc.prems by simp
  then show ?case using Suc t e by simp
qed simp

lemma flist_sort_key:
  assumes "set xs \<subseteq> S"
  shows "flist_sort cmp xs = sort_key key xs"
proof (cases "xs = []")
  case False
  let ?s = "foldl (sort_step cmp) (replicate (MAX_LIST_LENGTH_BITS + 1) [], 0) xs"
  have "parts_of (replicate (MAX_LIST_LENGTH_BITS + 1) []) []" unfolding parts_of_def by (rule exI [of _ "replicate (MAX_LIST_LENGTH_BITS + 1) []"]) simp
  then have "sorting (replicate (MAX_LIST_LENGTH_BITS + 1) [], 0) []" by (simp add: sorting_def MAX_LIST_LENGTH_BITS_def nth_Cons split: nat.split)
  from sorting_fold [OF this, of xs] have s: "sorting ?s xs" using assms by simp
  obtain part max_lev where p: "?s = (part, max_lev)" by fastforce
  have sp: "sorting (part, max_lev) xs" using s by (simp only: p)
  obtain segs where g: "part = map (sort_key key) segs" "concat (rev segs) = xs"
    using sp unfolding sorting_def parts_of_def fst_conv by (elim exE conjE) (rule that)
  have m: "max_lev < length segs" "\<And>i. max_lev < i \<Longrightarrow> i < length segs \<Longrightarrow> segs ! i = []"
    using sp g(1) by (auto simp: sorting_def) (metis length_0_conv length_sort less_Suc_eq_le nth_map)
  have S: "set (concat segs) \<subseteq> S" using assms g(2) by (metis set_concat set_rev)
  have "concat (rev (drop (Suc max_lev) segs)) = []" using m(2) by (auto simp: in_set_conv_nth)
  moreover have "concat (rev segs) = concat (rev (drop (Suc max_lev) segs)) @ segs ! max_lev @ concat (rev (take max_lev segs))"
    using arg_cong [OF id_take_nth_drop [OF m(1)], of "\<lambda>l. concat (rev l)"] by simp
  ultimately have x: "xs = segs ! max_lev @ concat (rev (take max_lev segs))" using g(2) by simp
  have "set (segs ! max_lev) \<subseteq> S" "set (concat (rev (take max_lev segs))) \<subseteq> S" using assms unfolding x by auto
  then have "merge cmp (part ! max_lev) (sort_key key (concat (rev (take max_lev segs)))) = sort_key key xs"
    using merge_sort g(1) m(1) x by simp
  then show ?thesis using False p collect_parts [OF g(1) S, of max_lev] m(1) by (simp add: flist_sort_def)
qed (simp add: flist_sort_def)

end

subsection \<open>Offsets\<close>

text \<open>\<open>flist_cmp\<close> of \<open>io_u.c\<close>: the difference of two 64 bit offsets, cut to an \<open>int\<close>.\<close>

definition flist_cmp :: "nat \<Rightarrow> nat \<Rightarrow> int" where
  "flist_cmp a b = sint (word_of_int (int a - int b) :: 32 word)"

lemma flist_cmp_near: "a < 2 ^ 31 \<Longrightarrow> b < 2 ^ 31 \<Longrightarrow> flist_cmp a b = int a - int b"
  unfolding flist_cmp_def sint_sbintrunc' by (rule signed_take_bit_int_eq_self) simp_all

interpretation offs: comparison flist_cmp "\<lambda>off. off" "{..<2 ^ 31}"
  by unfold_locales (simp add: flist_cmp_near)

text \<open>
  C36. The bottom-up merge sort of lists is a stable sort: it is \<open>sort_key\<close> for every list, of any length, and every comparison that
  orders the entries of the list as a key does.
\<close>

theorem flist_sort_stable:
  assumes "\<forall>a \<in> set xs. \<forall>b \<in> set xs. cmp a b \<le> 0 \<longleftrightarrow> key a \<le> (key b :: 'k :: linorder)"
  shows "flist_sort cmp xs = sort_key key xs"
proof -
  have "comparison cmp key (set xs)" using assms by (simp add: comparison_def)
  then show ?thesis by (rule comparison.flist_sort_key) simp
qed

theorem flist_sort_stable_witness:
  "flist_sort (\<lambda>a b. fst a - fst b) [(3, 0), (1, 1), (3, 2), (1, 3)] = [(1 :: int, 1 :: nat), (1, 3), (3, 0), (3, 2)]"
  by (subst flist_sort_stable [where key = fst]) simp_all

text \<open>Offsets that are far apart are sorted wrongly: the sign of the difference is lost.\<close>

lemma flist_sort_far: "flist_sort flist_cmp [0, 2 ^ 31 + 1] = [2 ^ 31 + 1, 0]"
proof -
  have r: "replicate (MAX_LIST_LENGTH_BITS + 1) [] = [] # [] # replicate 19 []" by (simp add: MAX_LIST_LENGTH_BITS_def eval_nat_numeral)
  have c: "flist_cmp 0 (2 ^ 31 + 1) = 2147483647" by (simp add: flist_cmp_def)
  show ?thesis unfolding flist_sort_def r using c by (simp add: sort_step_def MAX_LIST_LENGTH_BITS_def)
qed

end
