(* ===== verification/Fio_Random.thy ===== *)
theory Fio_Random
  imports Fio_Axmap Fio_Rand Fio_Lfsr Fio_Flist
begin

text \<open>
  Where the next I/O of a job goes, \<open>fio/io_u.c\<close>, with the set-up of the random map in \<open>fio/filesetup.c\<close>: the generators propose a
  block, the map says whether it is free and gives another one if it is not, and the blocks of the I/O are marked. The
  lemmas of \<open>block_map\<close> are about any map of blocks; the one of \<open>Fio_Axmap\<close> gives them for the code.
\<close>

unbundle bit_operations_syntax

subsection \<open>Jobs, files and I/Os\<close>

datatype rand_gen = FIO_RAND_GEN_TAUSWORTHE | FIO_RAND_GEN_LFSR | FIO_RAND_GEN_TAUSWORTHE64

datatype rand_dist = FIO_RAND_DIST_RANDOM | FIO_RAND_DIST_ZIPF | FIO_RAND_DIST_PARETO | FIO_RAND_DIST_GAUSS | FIO_RAND_DIST_ZONED | Dist_unknown

datatype rw_seq = RW_SEQ_SEQ | RW_SEQ_IDENT | Seq_unknown

datatype rw_ddir = DDIR_READ | DDIR_WRITE | DDIR_TRIM

text \<open>The options that matter here. \<open>o_random\<close> is \<open>td_random\<close>, \<open>o_nonuniform\<close> the flag of \<open>file_service_type\<close>.\<close>

record thread_options =
  o_random :: bool
  o_random_generator :: rand_gen
  o_random_distribution :: rand_dist
  o_norandommap :: bool
  o_softrandommap :: bool
  o_generator_set :: bool
  o_perc_rand :: "rw_ddir \<Rightarrow> nat"
  o_ba :: "rw_ddir \<Rightarrow> nat"
  o_ba_set :: bool
  o_min_bs :: "rw_ddir \<Rightarrow> nat"
  o_max_bs :: "rw_ddir \<Rightarrow> nat"
  o_rw_min_bs :: nat
  o_bs_unaligned :: bool
  o_bs_is_seq_rand :: bool
  o_bssplit :: "rw_ddir \<Rightarrow> (nat \<times> nat) list"
  o_rw_seq :: rw_seq
  o_ddir_seq_nr :: nat
  o_ddir_seq_add :: int
  o_zone_range :: nat
  o_zone_size :: nat
  o_zone_skip :: nat
  o_zone_split_nr :: "rw_ddir \<Rightarrow> nat"
  o_file_append :: bool
  o_start_offset :: nat
  o_start_offset_percent :: nat
  o_offset_increment :: nat
  o_time_based :: bool
  o_nonuniform :: bool
  o_do_verify :: bool
  o_verifysort_nr :: nat

record thread_data =
  td_o :: thread_options
  td_subjob_number :: nat
  td_verifying :: bool
  td_block_seed :: "64 word"
  td_random_state :: frand_state
  td_zone_state :: frand_state
  td_seq_rand_state :: "rw_ddir \<Rightarrow> frand_state"
  td_bsrange_state :: "rw_ddir \<Rightarrow> frand_state"
  td_zone_state_index :: "rw_ddir \<Rightarrow> (8 word \<times> 8 word) list"
  td_next_rand_list :: "nat list"
  td_ddir_seq_nr :: nat
  td_zone_bytes :: nat
  td_io_skip_bytes :: nat

text \<open>
  The map of a file and its shift register share their memory; flags say which of them is there. The state of the other
  distributions is of any type, and how they step is an argument.
\<close>

datatype block_source = No_source | Io_axmap axmap | Lfsr fio_lfsr

record 'z fio_file =
  f_source :: block_source
  f_dist :: 'z
  f_regular :: bool
  f_real_file_size :: nat
  f_file_offset :: nat
  f_io_size :: nat
  f_last_pos :: "rw_ddir \<Rightarrow> nat"
  f_last_start :: "rw_ddir \<Rightarrow> nat"

record io_u =
  io_offset :: nat
  io_buflen :: nat
  io_busy_ok :: bool

text \<open>Results: \<open>None\<close> when a loop does not end, an abnormal outcome, or a value.\<close>

type_synonym 'a result = "'a outcome option"

definition bindR :: "'a result \<Rightarrow> ('a \<Rightarrow> 'b result) \<Rightarrow> 'b result" where
  "bindR r f = (case r of None \<Rightarrow> None | Some (Inl e) \<Rightarrow> Some (Inl e) | Some (Inr x) \<Rightarrow> f x)"

abbreviation retR :: "'a \<Rightarrow> 'a result" where
  "retR x \<equiv> Some (Inr x)"

lemma bindR_simps [simp]: "bindR None f = None" "bindR (Some (Inl e)) f = Some (Inl e)" "bindR (Some (Inr x)) f = f x"
  by (simp_all add: bindR_def)

definition td_min_bs :: "thread_data \<Rightarrow> nat" where
  "td_min_bs td = min (o_min_bs (td_o td) DDIR_TRIM) (min (o_min_bs (td_o td) DDIR_READ) (o_min_bs (td_o td) DDIR_WRITE))"

definition file_randommap :: "thread_data \<Rightarrow> 'z fio_file \<Rightarrow> bool" where
  "file_randommap td f \<longleftrightarrow> \<not> o_norandommap (td_o td) \<and> (case f_source f of Io_axmap _ \<Rightarrow> True | _ \<Rightarrow> False)"

definition get_start_offset :: "thread_data \<Rightarrow> 'z fio_file \<Rightarrow> nat outcome" where
  "get_start_offset td f =
    (let ops = td_o td in
     if o_file_append ops \<and> f_regular f then Inr (f_real_file_size f)
     else if o_start_offset_percent ops > 0
     then let align_bs = (if o_ba_set ops then min (o_ba ops DDIR_TRIM) (min (o_ba ops DDIR_READ) (o_ba ops DDIR_WRITE)) else td_min_bs td);
              offset = ((f_real_file_size f * o_start_offset_percent ops) mod 2 ^ 64 div 100 + td_subjob_number td * o_offset_increment ops) mod 2 ^ 64
          in if align_bs = 0 then Inl Undefined
             else Inr (((offset div align_bs + (if offset mod align_bs \<noteq> 0 then 1 else 0)) * align_bs) mod 2 ^ 64)
     else Inr ((o_start_offset ops + td_subjob_number td * o_offset_increment ops) mod 2 ^ 64))"

subsection \<open>The set-up of the random map\<close>

definition check_rand_gen_limits :: "thread_data \<Rightarrow> nat \<Rightarrow> thread_data" where
  "check_rand_gen_limits td blocks =
    (if blocks \<le> FRAND32_MAX then td
     else if o_random_generator (td_o td) \<noteq> FIO_RAND_GEN_TAUSWORTHE then td
     else if \<not> o_generator_set (td_o td) then td\<lparr>td_o := td_o td\<lparr>o_random_generator := FIO_RAND_GEN_TAUSWORTHE64\<rparr>\<rparr>
     else td)"

text \<open>For a job of one file. \<open>dist_init\<close> gives the state of another distribution, \<open>lfsr\<close> is what the memory of the register holds.\<close>

definition init_random_map :: "(thread_data \<Rightarrow> 'z fio_file \<Rightarrow> 'z) \<Rightarrow> (nat \<Rightarrow> bool) \<Rightarrow> fio_lfsr \<Rightarrow> thread_data \<Rightarrow> 'z fio_file \<Rightarrow> (thread_data \<times> 'z fio_file \<times> int) outcome" where
  "init_random_map dist_init malloc lfsr td f =
    (if o_random_distribution (td_o td) \<noteq> FIO_RAND_DIST_RANDOM then Inr (td, f\<lparr>f_dist := dist_init td f\<rparr>, 0)
     else if \<not> o_random (td_o td) then Inr (td, f, 0)
     else if o_rw_min_bs (td_o td) = 0 then Inl Undefined
     else let blocks = min (f_real_file_size f) (f_io_size f) div o_rw_min_bs (td_o td);
              td = check_rand_gen_limits td blocks;
              failed = (if \<not> o_softrandommap (td_o td) then (td, f, 1) else (td, f, 0)) in
       if o_random_generator (td_o td) = FIO_RAND_GEN_LFSR
       then (case lfsr_init lfsr blocks (td_block_seed td) 0 of
               (l, r) \<Rightarrow> if r = 0 then Inr (td, f\<lparr>f_source := Lfsr l\<rparr>, 0) else Inr failed)
       else if \<not> o_norandommap (td_o td)
       then bindO (axmap_new malloc blocks) (\<lambda>m. case m of Some m \<Rightarrow> Inr (td, f\<lparr>f_source := Io_axmap m\<rparr>, 0) | None \<Rightarrow> Inr failed)
       else Inr (td, f, 0))"

definition fio_file_reset :: "thread_data \<Rightarrow> 'z fio_file \<Rightarrow> 'z fio_file" where
  "fio_file_reset td f =
    (let f = f\<lparr>f_last_pos := (\<lambda>_. f_file_offset f), f_last_start := (\<lambda>_. no_bit)\<rparr>
     in case f_source f of
          Io_axmap m \<Rightarrow> f\<lparr>f_source := Io_axmap (axmap_reset m)\<rparr>
        | Lfsr l \<Rightarrow> f\<lparr>f_source := Lfsr (fst (lfsr_reset l (td_block_seed td)))\<rparr>
        | No_source \<Rightarrow> f)"

subsection \<open>Choosing a random block\<close>

text \<open>
  Marking the blocks of an I/O; the length is cut when fewer blocks were marked. The product of the number of blocks
  and their size is of type \<open>unsigned int\<close>.
\<close>

definition mark_random_map :: "thread_data \<Rightarrow> 'z fio_file \<Rightarrow> io_u \<Rightarrow> ('z fio_file \<times> io_u) result" where
  "mark_random_map td f io =
    (let min_bs = o_rw_min_bs (td_o td) in
     if min_bs = 0 then Some (Inl Undefined)
     else let blk = ((io_offset io + 2 ^ 64 - f_file_offset f) mod 2 ^ 64) div min_bs;
              nr_blocks = ((io_buflen io + min_bs - 1) mod 2 ^ 64 div min_bs) mod 2 ^ 32;
              cut = (\<lambda>nr_blocks. if (nr_blocks * min_bs) mod 2 ^ 32 < io_buflen io then io\<lparr>io_buflen := (nr_blocks * min_bs) mod 2 ^ 32\<rparr> else io) in
       if io_busy_ok io then retR (f, cut nr_blocks)
       else case f_source f of
         Io_axmap m \<Rightarrow> bindR (axmap_set_nr m blk nr_blocks) (\<lambda>(m, nr_blocks). retR (f\<lparr>f_source := Io_axmap m\<rparr>, cut nr_blocks))
       | _ \<Rightarrow> Some (Inl Undefined))"

definition last_block :: "thread_data \<Rightarrow> 'z fio_file \<Rightarrow> rw_ddir \<Rightarrow> nat outcome" where
  "last_block td f ddir =
    (let ops = td_o td; max_size = min (f_io_size f) (f_real_file_size f);
         max_size = (if o_zone_range ops \<noteq> 0 then o_zone_range ops else max_size);
         max_size = (if o_min_bs ops ddir > o_ba ops ddir then (max_size + 2 ^ 64 - (o_min_bs ops ddir - o_ba ops ddir)) mod 2 ^ 64 else max_size)
     in if o_ba ops ddir = 0 then Inl Undefined else Inr (max_size div o_ba ops ddir))"

text \<open>The block of the generator if the map has it free, and otherwise the one the map gives; 1 says that there is none.\<close>

definition choose_block :: "('s \<Rightarrow> nat \<Rightarrow> bool outcome) \<Rightarrow> ('s \<Rightarrow> nat \<Rightarrow> ('s \<times> nat) outcome) \<Rightarrow> 's \<Rightarrow> nat \<Rightarrow> ('s \<times> nat \<times> int) outcome" where
  "choose_block isset next_free s b =
    bindO (isset s b) (\<lambda>busy.
      if \<not> busy then Inr (s, b, 0)
      else bindO (next_free s b) (\<lambda>(s, b). Inr (s, b, if b = no_bit then 1 else 0)))"

type_synonym 'z picked = "(thread_data \<times> 'z fio_file \<times> nat \<times> int) result"

definition random_block :: "thread_data \<Rightarrow> 'z fio_file \<Rightarrow> nat \<Rightarrow> nat \<Rightarrow> 'z picked" where
  "random_block td f b lastb =
    (if o_random_generator (td_o td) = FIO_RAND_GEN_TAUSWORTHE \<or> o_random_generator (td_o td) = FIO_RAND_GEN_TAUSWORTHE64
     then let (st, r) = rand (td_random_state td);
              b = double_scale lastb (unat r) (if use64 (td_random_state td) then 64 else 32)
          in if b < 2 ^ 64 then retR (td\<lparr>td_random_state := st\<rparr>, f, b, 0) else Some (Inl Undefined)
     else case f_source f of
       Lfsr l \<Rightarrow>
        (case lfsr_next l of
           None \<Rightarrow> None
         | Some (l, r, v) \<Rightarrow>
            retR (td, f\<lparr>f_source := Lfsr l\<rparr>, if r \<noteq> 0 then b else case v of Some off \<Rightarrow> off | None \<Rightarrow> 0, if r \<noteq> 0 then 1 else 0))
     | _ \<Rightarrow> Some (Inl Assert_Failed))"

definition get_next_rand_offsetU :: "thread_data \<Rightarrow> 'z fio_file \<Rightarrow> nat \<Rightarrow> nat \<Rightarrow> 'z picked" where
  "get_next_rand_offsetU td f b lastb =
    bindR (random_block td f b lastb) (\<lambda>(td, f, b, r).
      if r \<noteq> 0 then retR (td, f, b, 1)
      else if \<not> file_randommap td f then retR (td, f, b, 0)
      else case f_source f of
        Io_axmap m \<Rightarrow> Some (bindO (choose_block axmap_isset axmap_next_free m b) (\<lambda>(m, b, r). Inr (td, f\<lparr>f_source := Io_axmap m\<rparr>, b, r)))
      | _ \<Rightarrow> Some (Inl Undefined))"

definition get_next_rand_offset_zoned :: "thread_data \<Rightarrow> 'z fio_file \<Rightarrow> rw_ddir \<Rightarrow> nat \<Rightarrow> 'z picked" where
  "get_next_rand_offset_zoned td f ddir b =
    bindR (Some (last_block td f ddir)) (\<lambda>lastb.
      if lastb = 0 then retR (td, f, b, 1)
      else if o_zone_split_nr (td_o td) ddir = 0 then get_next_rand_offsetU td f b lastb
      else bindR (Some (rand32_between (td_zone_state td) 1 100)) (\<lambda>(st, v).
        let td = td\<lparr>td_zone_state := st\<rparr>; zsi = td_zone_state_index td ddir in
        if v < 1 \<or> int (length zsi) < v then Some (Inl Undefined)
        else let send = unat (fst (zsi ! nat (v - 1))); stotal = unat (snd (zsi ! nat (v - 1))) in
          if send = 2 ^ 32 - 1 then get_next_rand_offsetU td f b lastb
          else let offset = (if stotal \<noteq> 0 then (stotal * lastb) mod 2 ^ 64 div 100 else 0);
                   lastb = (lastb * ((send + 2 ^ 32 - stotal) mod 2 ^ 32)) mod 2 ^ 64 div 100 in
            bindR (get_next_rand_offsetU td f b lastb) (\<lambda>(td, f, b, r).
              if r = 1 then retR (td, f, b, 1) else retR (td, f, if offset \<noteq> 0 then (b + offset) mod 2 ^ 64 else b, 0))))"

definition get_off_from_method :: "(rand_dist \<Rightarrow> 'z \<Rightarrow> 'z \<times> nat) \<Rightarrow> thread_data \<Rightarrow> 'z fio_file \<Rightarrow> rw_ddir \<Rightarrow> nat \<Rightarrow> 'z picked" where
  "get_off_from_method dist_next td f ddir b =
    (case o_random_distribution (td_o td) of
       FIO_RAND_DIST_RANDOM \<Rightarrow>
        bindR (Some (last_block td f ddir)) (\<lambda>lastb.
          if lastb = 0 then retR (td, f, b, 1) else get_next_rand_offsetU td f b lastb)
     | FIO_RAND_DIST_ZONED \<Rightarrow> get_next_rand_offset_zoned td f ddir b
     | Dist_unknown \<Rightarrow> retR (td, f, b, 1)
     | d \<Rightarrow> (let (z, b) = dist_next d (f_dist f) in retR (td, f\<lparr>f_dist := z\<rparr>, b, 0)))"

definition should_sort_io :: "thread_data \<Rightarrow> bool" where
  "should_sort_io td =
    (if o_verifysort_nr (td_o td) = 0 \<or> \<not> o_do_verify (td_o td) then False
     else if \<not> o_random (td_o td) then False
     else if \<not> td_verifying td then False
     else if o_random_generator (td_o td) = FIO_RAND_GEN_TAUSWORTHE \<or> o_random_generator (td_o td) = FIO_RAND_GEN_TAUSWORTHE64 then False
     else True)"

definition should_do_random :: "thread_data \<Rightarrow> rw_ddir \<Rightarrow> (thread_data \<times> bool) outcome" where
  "should_do_random td ddir =
    (if o_perc_rand (td_o td) ddir = 100 then Inr (td, True)
     else bindO (rand32_between (td_seq_rand_state td ddir) 1 100) (\<lambda>(st, v).
       Inr (td\<lparr>td_seq_rand_state := (td_seq_rand_state td)(ddir := st)\<rparr>, nat v \<le> o_perc_rand (td_o td) ddir)))"

text \<open>
  A batch of offsets for a sorted verification, the latest first, and the result of the last call. What the entry of a call
  that failed holds is not used.
\<close>

fun rand_batch :: "(rand_dist \<Rightarrow> 'z \<Rightarrow> 'z \<times> nat) \<Rightarrow> nat \<Rightarrow> thread_data \<Rightarrow> 'z fio_file \<Rightarrow> rw_ddir \<Rightarrow> nat list \<Rightarrow> int \<Rightarrow> (thread_data \<times> 'z fio_file \<times> nat list \<times> int) result" where
  "rand_batch dist_next 0 td f ddir offs r = retR (td, f, offs, r)"
| "rand_batch dist_next (Suc i) td f ddir offs r =
    bindR (get_off_from_method dist_next td f ddir 0) (\<lambda>(td, f, off, r).
      if r \<noteq> 0 then retR (td, f, offs, r) else rand_batch dist_next i td f ddir (off # offs) r)"

definition get_next_rand_offset :: "(rand_dist \<Rightarrow> 'z \<Rightarrow> 'z \<times> nat) \<Rightarrow> thread_data \<Rightarrow> 'z fio_file \<Rightarrow> rw_ddir \<Rightarrow> nat \<Rightarrow> 'z picked" where
  "get_next_rand_offset dist_next td f ddir b =
    (if \<not> should_sort_io td then get_off_from_method dist_next td f ddir b
     else case td_next_rand_list td of
       off # offs \<Rightarrow> retR (td\<lparr>td_next_rand_list := offs\<rparr>, f, off, 0)
     | [] \<Rightarrow>
        bindR (rand_batch dist_next (o_verifysort_nr (td_o td)) td f ddir [] 1) (\<lambda>(td, f, offs, r).
          if r \<noteq> 0 \<and> offs = [] then retR (td, f, b, r)
          else case flist_sort flist_cmp offs of
            [] \<Rightarrow> Some (Inl Assert_Failed)
          | off # offs \<Rightarrow> retR (td\<lparr>td_next_rand_list := offs\<rparr>, f, off, 0)))"

definition get_next_rand_block :: "(rand_dist \<Rightarrow> 'z \<Rightarrow> 'z \<times> nat) \<Rightarrow> thread_data \<Rightarrow> 'z fio_file \<Rightarrow> rw_ddir \<Rightarrow> nat \<Rightarrow> 'z picked" where
  "get_next_rand_block dist_next td f ddir b =
    bindR (get_next_rand_offset dist_next td f ddir b) (\<lambda>(td, f, b, r).
      if r = 0 then retR (td, f, b, 0)
      else if o_time_based (td_o td) \<or> o_nonuniform (td_o td)
      then bindR (get_next_rand_offset dist_next td (fio_file_reset td f) ddir b) (\<lambda>(td, f, b, r).
        retR (td, f, b, if r = 0 then 0 else 1))
      else retR (td, f, b, 1))"

subsection \<open>The offset and the length of an I/O\<close>

text \<open>Offsets are 64 bits wide; \<open>ddir_seq_add\<close> is signed.\<close>

definition add64 :: "nat \<Rightarrow> int \<Rightarrow> nat" where
  "add64 pos d = nat ((int pos + d) mod 2 ^ 64)"

definition get_next_seq_offset :: "thread_data \<Rightarrow> 'z fio_file \<Rightarrow> rw_ddir \<Rightarrow> nat \<Rightarrow> (thread_data \<times> 'z fio_file \<times> nat \<times> int) outcome" where
  "get_next_seq_offset td f ddir offset =
    bindO (get_start_offset td f) (\<lambda>start.
      let ops = td_o td; seq_add = o_ddir_seq_add ops; set_pos = (\<lambda>f p. f\<lparr>f_last_pos := (f_last_pos f)(ddir := p)\<rparr>);
          top = (if f_real_file_size f > f_io_size f then f_io_size f else f_real_file_size f) in
      bindO (if f_last_pos f ddir \<ge> (f_io_size f + start) mod 2 ^ 64 \<and> o_time_based ops
             then if o_min_bs ops ddir = 0 then Inl Undefined
                  else let io_size = (f_io_size f + f_io_size f mod o_min_bs ops ddir) mod 2 ^ 64
                       in Inr (set_pos f (if io_size > f_last_pos f ddir then 0 else f_last_pos f ddir - io_size))
             else Inr f) (\<lambda>f.
        if f_last_pos f ddir < f_real_file_size f
        then let f = (if f_last_pos f ddir = f_file_offset f \<and> seq_add < 0 then set_pos f top else f);
                 pos = (f_last_pos f ddir + 2 ^ 64 - f_file_offset f) mod 2 ^ 64;
                 pos = (if pos \<noteq> 0 \<and> seq_add \<noteq> 0
                        then let pos = add64 pos seq_add
                             in if pos \<ge> f_real_file_size f then if seq_add > 0 then f_file_offset f else add64 top seq_add else pos
                        else pos)
             in Inr (td, f, pos, 0)
        else Inr (td, f, offset, 1)))"

text \<open>The block and the offset start as \<open>no_bit\<close>, which says that they were not set.\<close>

definition get_next_block :: "(rand_dist \<Rightarrow> 'z \<Rightarrow> 'z \<times> nat) \<Rightarrow> thread_data \<Rightarrow> 'z fio_file \<Rightarrow> io_u \<Rightarrow> rw_ddir \<Rightarrow> bool \<Rightarrow> (thread_data \<times> 'z fio_file \<times> io_u \<times> bool \<times> int) result" where
  "get_next_block dist_next td f io ddir rw_seq =
    (let rnd = (\<lambda>td f io is_random. bindR (get_next_rand_block dist_next td f ddir no_bit) (\<lambda>(td, f, b, r). retR (td, f, io, is_random, b, no_bit, r)));
         seq = (\<lambda>td f io. bindR (Some (get_next_seq_offset td f ddir no_bit)) (\<lambda>(td, f, offset, r). retR (td, f, io, False, no_bit, offset, r)));
         seq_or_rnd = (\<lambda>td f io. bindR (seq td f io) (\<lambda>(td, f, io, is_random, b, offset, r).
           if r \<noteq> 0 then rnd td f io False else retR (td, f, io, is_random, b, offset, r)));
         busy = io\<lparr>io_busy_ok := True\<rparr> in
     bindR (if rw_seq
            then if o_random (td_o td)
                 then bindR (Some (should_do_random td ddir)) (\<lambda>(td, go). if go then rnd td f io True else seq_or_rnd td f busy)
                 else seq td f io
            else case o_rw_seq (td_o td) of
              RW_SEQ_SEQ \<Rightarrow> seq_or_rnd td f busy
            | RW_SEQ_IDENT \<Rightarrow>
               retR (td, f, busy, False, no_bit, if f_last_start f ddir \<noteq> no_bit then (f_last_start f ddir + 2 ^ 64 - f_file_offset f) mod 2 ^ 64 else 0, 0)
            | Seq_unknown \<Rightarrow> retR (td, f, busy, False, no_bit, no_bit, 1))
       (\<lambda>(td, f, io, is_random, b, offset, r).
         if r \<noteq> 0 then retR (td, f, io, is_random, r)
         else if offset \<noteq> no_bit then retR (td, f, io\<lparr>io_offset := offset\<rparr>, is_random, 0)
         else if b \<noteq> no_bit then retR (td, f, io\<lparr>io_offset := (b * o_ba (td_o td) ddir) mod 2 ^ 64\<rparr>, is_random, 0)
         else retR (td, f, io, is_random, 1)))"

definition get_next_offsetU :: "(rand_dist \<Rightarrow> 'z \<Rightarrow> 'z \<times> nat) \<Rightarrow> thread_data \<Rightarrow> 'z fio_file \<Rightarrow> io_u \<Rightarrow> rw_ddir \<Rightarrow> (thread_data \<times> 'z fio_file \<times> io_u \<times> bool \<times> int) result" where
  "get_next_offsetU dist_next td f io ddir =
    (let (td, hit) =
       (if o_ddir_seq_nr (td_o td) \<noteq> 0
        then let n = (td_ddir_seq_nr td + 2 ^ 32 - 1) mod 2 ^ 32
             in if n = 0 then (td\<lparr>td_ddir_seq_nr := o_ddir_seq_nr (td_o td)\<rparr>, True) else (td\<lparr>td_ddir_seq_nr := n\<rparr>, False)
        else (td, False)) in
     bindR (get_next_block dist_next td f io ddir hit) (\<lambda>(td, f, io, is_random, r).
       if r \<noteq> 0 then retR (td, f, io, is_random, 1)
       else if io_offset io \<ge> f_io_size f then retR (td, f, io, is_random, 1)
       else let io = io\<lparr>io_offset := (io_offset io + f_file_offset f) mod 2 ^ 64\<rparr>
            in retR (td, f, io, is_random, if io_offset io \<ge> f_real_file_size f then 1 else 0)))"

definition is_power_of_2 :: "nat \<Rightarrow> bool" where
  "is_power_of_2 val \<longleftrightarrow> val \<noteq> 0 \<and> val AND (val - 1) = 0"

text \<open>The length of the first entry of \<open>bssplit\<close> whose share is reached and that fits, and otherwise that of the last one.\<close>

fun bssplit_length :: "(nat \<Rightarrow> bool) \<Rightarrow> nat \<Rightarrow> nat \<Rightarrow> nat \<Rightarrow> nat \<Rightarrow> (nat \<times> nat) list \<Rightarrow> nat" where
  "bssplit_length fits frand_max r perc buflen [] = buflen"
| "bssplit_length fits frand_max r perc buflen ((bs, p) # split) =
    (let perc = perc + p in
     if perc = 0 then bs
     else if r div perc \<le> frand_max div 100 \<and> fits bs then bs
     else bssplit_length fits frand_max r perc bs split)"

definition align_buflen :: "thread_options \<Rightarrow> nat \<Rightarrow> nat \<Rightarrow> nat outcome" where
  "align_buflen ops minbs buflen =
    (if o_bs_unaligned ops then Inr buflen
     else if is_power_of_2 minbs then Inr (buflen AND (2 ^ 32 - minbs))
     else if minbs = 0 then Inl Undefined
     else Inr (buflen - buflen mod minbs))"

partial_function (option) buflen_loop :: "(frand_state \<Rightarrow> frand_state \<times> nat outcome) \<Rightarrow> (nat \<Rightarrow> bool) \<Rightarrow> frand_state \<Rightarrow> (frand_state \<times> nat) result" where
  "buflen_loop draw fits st =
    (case draw st of (st, Inl e) \<Rightarrow> Some (Inl e)
     | (st, Inr buflen) \<Rightarrow> if fits buflen then Some (Inr (st, buflen)) else buflen_loop draw fits st)"

definition draw_buflen :: "thread_options \<Rightarrow> rw_ddir \<Rightarrow> (nat \<Rightarrow> bool) \<Rightarrow> frand_state \<Rightarrow> frand_state \<times> nat outcome" where
  "draw_buflen ops ddir fits st =
    (let minbs = o_min_bs ops ddir; maxbs = o_max_bs ops ddir; frand_max = rand_max st; (st', r) = rand st;
         buflen = (if o_bssplit ops ddir = []
                   then max minbs ((1 + double_scale maxbs (unat r) (if use64 st then 64 else 32)) mod 2 ^ 32)
                   else bssplit_length fits frand_max (unat r) 0 0 (o_bssplit ops ddir))
     in (st', align_buflen ops minbs buflen))"

definition get_next_buflen :: "thread_data \<Rightarrow> 'z fio_file \<Rightarrow> io_u \<Rightarrow> rw_ddir \<Rightarrow> bool \<Rightarrow> (thread_data \<times> nat) result" where
  "get_next_buflen td f io ddir is_random =
    (let ops = td_o td; ddir = (if o_bs_is_seq_rand ops then if is_random then DDIR_WRITE else DDIR_READ else ddir) in
     if o_min_bs ops ddir = o_max_bs ops ddir then retR (td, o_min_bs ops ddir)
     else bindR (Some (get_start_offset td f)) (\<lambda>start.
       let fits = (\<lambda>buflen. (io_offset io + buflen) mod 2 ^ 64 \<le> (f_io_size f + start) mod 2 ^ 64) in
       if \<not> fits (o_min_bs ops ddir) then retR (td, 0)
       else bindR (buflen_loop (draw_buflen ops ddir fits) fits (td_bsrange_state td ddir)) (\<lambda>(st, buflen).
         retR (td\<lparr>td_bsrange_state := (td_bsrange_state td)(ddir := st)\<rparr>, buflen))))"

text \<open>
  \<open>fill_io_u\<close> for an I/O that reads, writes or trims, from the choice of its direction on, in a job without operations of a
  profile. It returns 1 when there is no I/O.
\<close>

definition switch_zone :: "thread_data \<Rightarrow> 'z fio_file \<Rightarrow> rw_ddir \<Rightarrow> thread_data \<times> 'z fio_file" where
  "switch_zone td f ddir =
    (let ops = td_o td in
     if td_zone_bytes td \<ge> o_zone_size ops \<and> o_zone_skip ops \<noteq> 0
     then let off = (f_file_offset f + o_zone_range ops + o_zone_skip ops) mod 2 ^ 64;
              off = (if off \<ge> f_real_file_size f then (f_real_file_size f + 2 ^ 64 - off) mod 2 ^ 64 else off)
          in (td\<lparr>td_zone_bytes := 0, td_io_skip_bytes := (td_io_skip_bytes td + o_zone_skip ops) mod 2 ^ 64\<rparr>,
              f\<lparr>f_file_offset := off, f_last_pos := (f_last_pos f)(ddir := off)\<rparr>)
     else (td, f))"

definition fill_io_u :: "(rand_dist \<Rightarrow> 'z \<Rightarrow> 'z \<times> nat) \<Rightarrow> thread_data \<Rightarrow> 'z fio_file \<Rightarrow> io_u \<Rightarrow> rw_ddir \<Rightarrow> (thread_data \<times> 'z fio_file \<times> io_u \<times> int) result" where
  "fill_io_u dist_next td f io ddir =
    (let (td, f) = switch_zone td f ddir in
     bindR (get_next_offsetU dist_next td f io ddir) (\<lambda>(td, f, io, is_random, r).
       if r \<noteq> 0 then retR (td, f, io, 1)
       else bindR (get_next_buflen td f io ddir is_random) (\<lambda>(td, buflen).
         let io = io\<lparr>io_buflen := buflen\<rparr> in
         if buflen = 0 then retR (td, f, io, 1)
         else if (io_offset io + buflen) mod 2 ^ 64 > f_real_file_size f then retR (td, f, io, 1)
         else bindR (if o_random (td_o td) \<and> file_randommap td f then mark_random_map td f io else retR (f, io)) (\<lambda>(f, io).
           retR (td\<lparr>td_zone_bytes := (td_zone_bytes td + io_buflen io) mod 2 ^ 64\<rparr>, f, io, 0)))))"

text \<open>What \<open>get_io_u\<close> does with the I/O of a job of one file: it remembers where the I/O starts and ends.\<close>

definition get_io_u :: "(rand_dist \<Rightarrow> 'z \<Rightarrow> 'z \<times> nat) \<Rightarrow> thread_data \<Rightarrow> 'z fio_file \<Rightarrow> rw_ddir \<Rightarrow> (thread_data \<times> 'z fio_file \<times> io_u option) result" where
  "get_io_u dist_next td f ddir =
    bindR (fill_io_u dist_next td f \<lparr>io_offset = 0, io_buflen = 0, io_busy_ok = False\<rparr> ddir) (\<lambda>(td, f, io, r).
      if r \<noteq> 0 \<or> io_buflen io = 0 then retR (td, f, None)
      else retR (td, f\<lparr>f_last_start := (f_last_start f)(ddir := io_offset io),
                       f_last_pos := (f_last_pos f)(ddir := (io_offset io + io_buflen io) mod 2 ^ 64)\<rparr>, Some io))"

fun get_ios :: "(rand_dist \<Rightarrow> 'z \<Rightarrow> 'z \<times> nat) \<Rightarrow> nat \<Rightarrow> thread_data \<Rightarrow> 'z fio_file \<Rightarrow> rw_ddir \<Rightarrow> (thread_data \<times> 'z fio_file \<times> (nat \<times> nat) list) result" where
  "get_ios dist_next 0 td f ddir = retR (td, f, [])"
| "get_ios dist_next (Suc k) td f ddir =
    bindR (get_io_u dist_next td f ddir) (\<lambda>(td, f, io).
      case io of
        None \<Rightarrow> retR (td, f, [])
      | Some io \<Rightarrow> bindR (get_ios dist_next k td f ddir) (\<lambda>(td, f, ios). retR (td, f, (io_offset io, io_buflen io) # ios)))"

subsection \<open>Jobs with one block size\<close>

text \<open>
  A job that reads or writes blocks of \<open>bs\<close> bytes, in every turn with the order its options say, without zones; its file has
  \<open>n\<close> such blocks from \<open>file_offset\<close> on.
\<close>

definition block_job :: "thread_data \<Rightarrow> rw_ddir \<Rightarrow> nat \<Rightarrow> bool" where
  "block_job td ddir bs \<longleftrightarrow> 0 < bs \<and> bs < 2 ^ 32 \<and> o_ba (td_o td) ddir = bs \<and> o_min_bs (td_o td) ddir = bs \<and> o_max_bs (td_o td) ddir = bs \<and>
     o_rw_min_bs (td_o td) = bs \<and> \<not> o_bs_is_seq_rand (td_o td) \<and> o_zone_range (td_o td) = 0 \<and> o_zone_skip (td_o td) = 0 \<and>
     o_ddir_seq_nr (td_o td) = 1 \<and> td_ddir_seq_nr td = 1 \<and> \<not> o_time_based (td_o td) \<and> \<not> o_nonuniform (td_o td)"

definition block_file :: "'z fio_file \<Rightarrow> nat \<Rightarrow> nat \<Rightarrow> bool" where
  "block_file f bs n \<longleftrightarrow> f_io_size f div bs = n \<and> f_file_offset f + f_io_size f \<le> f_real_file_size f \<and> f_real_file_size f < 2 ^ 64"

lemma block_fits:
  assumes "block_file f bs n" "v < n" "0 < bs"
  shows "v * bs + bs \<le> f_io_size f" "v * bs < f_io_size f" "f_file_offset f + v * bs + bs \<le> f_real_file_size f"
    "v * bs < 2 ^ 64" "f_file_offset f + v * bs < 2 ^ 64" "f_file_offset f + v * bs + bs < 2 ^ 64" "v \<noteq> no_bit"
proof -
  have "Suc v * bs \<le> n * bs" using assms(2) by (intro mult_le_mono1) simp
  also have "n * bs \<le> f_io_size f" using assms(1) by (auto simp: block_file_def)
  finally show i: "v * bs + bs \<le> f_io_size f" by simp
  then show "v * bs < f_io_size f" "f_file_offset f + v * bs + bs \<le> f_real_file_size f" "v * bs < 2 ^ 64" "f_file_offset f + v * bs < 2 ^ 64"
    "f_file_offset f + v * bs + bs < 2 ^ 64" using assms(1,3) by (auto simp: block_file_def)
  have "v * 1 \<le> v * bs" using assms(3) by (intro mult_le_mono2) simp
  then show "v \<noteq> no_bit" using i assms(1,3) by (auto simp: block_file_def no_bit_def)
qed

lemma switch_none: "block_job td ddir bs \<Longrightarrow> switch_zone td f ddir = (td, f)"
  by (simp add: switch_zone_def block_job_def)

text \<open>The options and the sizes of the file are not changed while a job runs.\<close>

lemma block_file_same: "f_io_size f' = f_io_size f \<Longrightarrow> f_file_offset f' = f_file_offset f \<Longrightarrow> f_real_file_size f' = f_real_file_size f \<Longrightarrow> block_file f' bs n = block_file f bs n"
  by (simp add: block_file_def)

lemma block_job_same: "td_o td' = td_o td \<Longrightarrow> td_ddir_seq_nr td' = td_ddir_seq_nr td \<Longrightarrow> block_job td' ddir bs = block_job td ddir bs"
  by (simp add: block_job_def)

subsection \<open>Random jobs\<close>

definition random_job :: "thread_data \<Rightarrow> rw_ddir \<Rightarrow> nat \<Rightarrow> bool" where
  "random_job td ddir bs \<longleftrightarrow> block_job td ddir bs \<and> o_random (td_o td) \<and> o_random_distribution (td_o td) = FIO_RAND_DIST_RANDOM \<and>
     o_perc_rand (td_o td) ddir = 100 \<and> \<not> td_verifying td"

lemma random_job_same: "td_o td' = td_o td \<Longrightarrow> td_ddir_seq_nr td' = td_ddir_seq_nr td \<Longrightarrow> td_verifying td' = td_verifying td \<Longrightarrow> random_job td' ddir bs = random_job td ddir bs"
  by (simp add: random_job_def block_job_def)

lemma last_block_n: "block_job td ddir bs \<Longrightarrow> block_file f bs n \<Longrightarrow> last_block td f ddir = Inr n"
  by (auto simp: last_block_def block_job_def block_file_def Let_def min_def)

lemma offset_turn:
  "block_job td ddir bs \<Longrightarrow> get_next_offsetU dist_next td f io ddir = bindR (get_next_block dist_next td f io ddir True) (\<lambda>(td, f, io, is_random, r).
     if r \<noteq> 0 then retR (td, f, io, is_random, 1)
     else if io_offset io \<ge> f_io_size f then retR (td, f, io, is_random, 1)
     else let io = io\<lparr>io_offset := (io_offset io + f_file_offset f) mod 2 ^ 64\<rparr>
          in retR (td, f, io, is_random, if io_offset io \<ge> f_real_file_size f then 1 else 0))"
  by (cases td) (simp add: get_next_offsetU_def block_job_def)

lemma rand_block_pick:
  assumes "random_job td ddir bs" "block_file f bs n" "0 < n" "get_next_rand_offsetU td f b n = retR (td', f', v, r)" "r = 0 \<or> r = 1" "td_o td' = td_o td"
  shows "get_next_rand_block dist_next td f ddir b = retR (td', f', v, r)"
proof -
  have "block_job td ddir bs" using assms(1) by (simp add: random_job_def)
  then show ?thesis using assms last_block_n [of td ddir bs f n]
    by (auto simp: get_next_rand_block_def get_next_rand_offset_def should_sort_io_def get_off_from_method_def random_job_def block_job_def)
qed

lemma offset_pick:
  assumes j: "random_job td ddir bs" and f: "block_file f bs n" "v < n"
    and p: "get_next_rand_offsetU td f no_bit n = retR (td\<lparr>td_random_state := st\<rparr>, f\<lparr>f_source := s\<rparr>, v, 0)"
  shows "get_next_offsetU dist_next td f io ddir = retR (td\<lparr>td_random_state := st\<rparr>, f\<lparr>f_source := s\<rparr>, io\<lparr>io_offset := f_file_offset f + v * bs\<rparr>, True, 0)"
proof -
  have b: "block_job td ddir bs" "0 < bs" "o_ba (td_o td) ddir = bs" using j by (simp_all add: random_job_def block_job_def)
  have "get_next_rand_block dist_next td f ddir no_bit = retR (td\<lparr>td_random_state := st\<rparr>, f\<lparr>f_source := s\<rparr>, v, 0)"
    using rand_block_pick [OF j f(1) _ p] f(2) by simp
  then have n: "get_next_block dist_next td f io ddir True = retR (td\<lparr>td_random_state := st\<rparr>, f\<lparr>f_source := s\<rparr>, io\<lparr>io_offset := v * bs\<rparr>, True, 0)"
    using j b(3) block_fits [OF f b(2)] by (simp add: get_next_block_def should_do_random_def random_job_def)
  show ?thesis using n block_fits [OF f b(2)] b(2) by (simp add: offset_turn [OF b(1)] add.commute [of "v * bs"])
qed

lemma offset_none:
  assumes j: "random_job td ddir bs" and f: "block_file f bs n" "0 < n"
    and p: "get_next_rand_offsetU td f no_bit n = retR (td', f', v, 1)" "td_o td' = td_o td"
  shows "get_next_offsetU dist_next td f io ddir = retR (td', f', io, True, 1)"
proof -
  have b: "block_job td ddir bs" "0 < bs" using j by (simp_all add: random_job_def block_job_def)
  have "get_next_rand_block dist_next td f ddir no_bit = retR (td', f', v, 1)"
    using rand_block_pick [OF j f p(1) _ p(2)] by simp
  then have n: "get_next_block dist_next td f io ddir True = retR (td', f', io, True, 1)"
    using j by (simp add: get_next_block_def should_do_random_def random_job_def)
  show ?thesis using n by (simp add: offset_turn [OF b(1)])
qed

lemma buflen_bs: "block_job td ddir bs \<Longrightarrow> get_next_buflen td f io ddir is_random = retR (td, bs)"
  by (simp add: get_next_buflen_def block_job_def Let_def)

text \<open>The I/O at block \<open>v\<close>, and where it leaves the file.\<close>

definition io_done :: "rw_ddir \<Rightarrow> nat \<Rightarrow> nat \<Rightarrow> 'z fio_file \<Rightarrow> 'z fio_file" where
  "io_done ddir off bs f = f\<lparr>f_last_start := (f_last_start f)(ddir := off), f_last_pos := (f_last_pos f)(ddir := off + bs)\<rparr>"

lemma get_io_offset:
  assumes j: "block_job td ddir bs" and f: "block_file f bs n" "v < n" and td: "td_o td' = td_o td" "td_ddir_seq_nr td' = 1"
    and f': "f_real_file_size f' = f_real_file_size f"
    and p: "get_next_offsetU dist_next td f \<lparr>io_offset = 0, io_buflen = 0, io_busy_ok = False\<rparr> ddir =
      retR (td', f', \<lparr>io_offset = f_file_offset f + v * bs, io_buflen = 0, io_busy_ok = False\<rparr>, rnd, 0)"
    and m: "(if o_random (td_o td') \<and> file_randommap td' f' then mark_random_map td' f' \<lparr>io_offset = f_file_offset f + v * bs, io_buflen = bs, io_busy_ok = False\<rparr>
        else retR (f', \<lparr>io_offset = f_file_offset f + v * bs, io_buflen = bs, io_busy_ok = False\<rparr>)) =
      retR (f'', \<lparr>io_offset = f_file_offset f + v * bs, io_buflen = bs, io_busy_ok = False\<rparr>)"
  shows "\<exists>z. get_io_u dist_next td f ddir = retR (td'\<lparr>td_zone_bytes := z\<rparr>, io_done ddir (f_file_offset f + v * bs) bs f'',
    Some \<lparr>io_offset = f_file_offset f + v * bs, io_buflen = bs, io_busy_ok = False\<rparr>)"
proof -
  have b: "0 < bs" using j by (simp add: block_job_def)
  have "block_job td' ddir bs" using j td by (simp add: block_job_def)
  note len = buflen_bs [OF this]
  let ?io = "\<lparr>io_offset = f_file_offset f + v * bs, io_buflen = bs, io_busy_ok = False\<rparr>"
  have e: "(f_file_offset f + v * bs + bs) mod 2 ^ 64 = f_file_offset f + v * bs + bs" by (rule mod_less [OF block_fits(6) [OF f b]])
  have nz: "\<not> f_real_file_size f' < (f_file_offset f + v * bs + bs) mod 2 ^ 64" unfolding e f' using block_fits(3) [OF f b] by simp
  have "fill_io_u dist_next td f \<lparr>io_offset = 0, io_buflen = 0, io_busy_ok = False\<rparr> ddir =
      bindR (if o_random (td_o td') \<and> file_randommap td' f' then mark_random_map td' f' ?io else retR (f', ?io)) (\<lambda>(f, io).
        retR (td'\<lparr>td_zone_bytes := (td_zone_bytes td' + io_buflen io) mod 2 ^ 64\<rparr>, f, io, 0))"
    using b nz unfolding fill_io_u_def switch_none [OF j] prod.case p bindR_simps len Let_def by simp
  also have "\<dots> = retR (td'\<lparr>td_zone_bytes := (td_zone_bytes td' + bs) mod 2 ^ 64\<rparr>, f'', ?io, 0)" unfolding m by simp
  finally show ?thesis using b e by (simp add: get_io_u_def io_done_def) blast
qed

lemma get_io_none:
  assumes "block_job td ddir bs" "get_next_offsetU dist_next td f \<lparr>io_offset = 0, io_buflen = 0, io_busy_ok = False\<rparr> ddir = retR (td', f', io, rnd, 1)"
  shows "get_io_u dist_next td f ddir = retR (td', f', None)"
  using assms by (simp add: get_io_u_def fill_io_u_def switch_none)

subsection \<open>Every block once, with the map\<close>

context block_map
begin

lemma choose_free:
  assumes "marks s n B" "b < n"
  shows "\<exists>s' v r. choose_block isset next_free s b = Inr (s', v, r) \<and> marks s' n B \<and> (if B = {..<n} then r = 1 else r = 0 \<and> v < n \<and> v \<notin> B)"
proof -
  obtain s' v where f: "next_free s b = Inr (s', v)" "marks s' n B" "free_or_none n B v" using next_law [OF assms] by blast
  have w: "B \<subseteq> {..<n} \<and> n \<le> no_bit" by (rule within [OF assms(1)])
  have e: "{..<n} \<subseteq> B \<longleftrightarrow> B = {..<n}" using w by auto
  show ?thesis
  proof (cases "b \<in> B")
    case True
    show ?thesis
    proof (cases "B = {..<n}")
      case True
      then show ?thesis using f e \<open>b \<in> B\<close> isset_law [OF assms] by (simp add: choose_block_def free_or_none_def)
    next
      case False
      then have "v < n" "v \<notin> B" using f(3) e by (simp_all add: free_or_none_def)
      then show ?thesis using f w \<open>b \<in> B\<close> isset_law [OF assms] False by (simp add: choose_block_def)
    qed
  next
    case False
    then show ?thesis using assms isset_law [OF assms] by (auto simp: choose_block_def)
  qed
qed

end


text \<open>The 64 bit generator has states whose number is rounded up to \<open>2 ^ 64\<close>: the block is then the one after the last.\<close>

lemma random_block_exceeds:
  assumes "o_random_generator (td_o td) = FIO_RAND_GEN_TAUSWORTHE64"
    "td_random_state td = State64 \<lparr>t64_s1 = 12303834181974097918, t64_s2 = 67108864, t64_s3 = 0, t64_s4 = 0, t64_s5 = 0\<rparr>" "lastb < 2 ^ 53"
  shows "\<exists>td'. random_block td f b lastb = retR (td', f, lastb, 0)"
proof -
  obtain st where r: "rand (td_random_state td) = (st, - 1)" using rand64_top assms(2) by (simp add: split_beta)
  have "unat (- 1 :: 64 word) = 2 ^ 64 - 1" by (simp add: unsigned_minus_1_eq_mask mask_eq_exp_minus_1)
  then have "double_scale lastb (unat (- 1 :: 64 word)) 64 = lastb" using double_scale_top [OF assms(3)] by (simp only:)
  then show ?thesis using assms r by (auto simp: random_block_def)
qed

lemma rand_narrow: "\<not> use64 s \<Longrightarrow> \<not> use64 (fst (rand s)) \<and> unat (snd (rand s)) < 2 ^ 32"
proof (cases s)
  case (State32 t)
  obtain t' v where r: "rand32 t = (t', v)" by fastforce
  have "unat (ucast v :: 64 word) = unat v" using unat_32 [of v] by (simp add: unsigned_ucast_eq take_bit_nat_eq_self)
  then show ?thesis using r State32 unat_32 [of v] by simp
qed simp







definition sample_options :: thread_options where
  "sample_options = \<lparr>o_random = True, o_random_generator = FIO_RAND_GEN_TAUSWORTHE, o_random_distribution = FIO_RAND_DIST_RANDOM, o_norandommap = False,
    o_softrandommap = False, o_generator_set = False, o_perc_rand = (\<lambda>_. 100), o_ba = (\<lambda>_. 4096), o_ba_set = False, o_min_bs = (\<lambda>_. 4096),
    o_max_bs = (\<lambda>_. 4096), o_rw_min_bs = 4096, o_bs_unaligned = False, o_bs_is_seq_rand = False, o_bssplit = (\<lambda>_. []), o_rw_seq = RW_SEQ_SEQ,
    o_ddir_seq_nr = 1, o_ddir_seq_add = 0, o_zone_range = 0, o_zone_size = 0, o_zone_skip = 0, o_zone_split_nr = (\<lambda>_. 0), o_file_append = False,
    o_start_offset = 0, o_start_offset_percent = 0, o_offset_increment = 0, o_time_based = False, o_nonuniform = False, o_do_verify = False, o_verifysort_nr = 0\<rparr>"

definition sample_td :: "thread_options \<Rightarrow> thread_data" where
  "sample_td ops = \<lparr>td_o = ops, td_subjob_number = 0, td_verifying = False, td_block_seed = 0, td_random_state = init_rand False,
    td_zone_state = init_rand False, td_seq_rand_state = (\<lambda>_. init_rand False), td_bsrange_state = (\<lambda>_. init_rand False),
    td_zone_state_index = (\<lambda>_. []), td_next_rand_list = [], td_ddir_seq_nr = 1, td_zone_bytes = 0, td_io_skip_bytes = 0\<rparr>"

definition sample_file :: "nat \<Rightarrow> unit fio_file" where
  "sample_file sz = \<lparr>f_source = No_source, f_dist = (), f_regular = True, f_real_file_size = sz, f_file_offset = 0, f_io_size = sz,
    f_last_pos = (\<lambda>_. 0), f_last_start = (\<lambda>_. no_bit)\<rparr>"

lemma sample_jobs [simp]: "block_job (sample_td (sample_options\<lparr>o_random := r, o_random_generator := g\<rparr>)) ddir 4096"
    "random_job (sample_td (sample_options\<lparr>o_random_generator := g\<rparr>)) ddir 4096" "random_job (sample_td sample_options) ddir 4096"
    "block_file (sample_file 40960) 4096 10"
  by (simp_all add: random_job_def block_job_def block_file_def sample_td_def sample_options_def sample_file_def)


subsection \<open>Every block once, with the shift register\<close>

definition shifting :: "thread_data \<Rightarrow> 'z fio_file \<Rightarrow> rw_ddir \<Rightarrow> nat \<Rightarrow> nat \<Rightarrow> fio_lfsr \<Rightarrow> bool" where
  "shifting td f ddir bs n l \<longleftrightarrow> random_job td ddir bs \<and> block_file f bs n \<and> o_random_generator (td_o td) = FIO_RAND_GEN_LFSR \<and> f_source f = Lfsr l"

lemma lfsr_pick:
  assumes "shifting td f ddir bs n l" "lfsr_next l = Some (l', r, v)"
  shows "get_next_rand_offsetU td f b k = retR (td, f\<lparr>f_source := Lfsr l'\<rparr>, if r \<noteq> 0 then b else case v of Some off \<Rightarrow> off | None \<Rightarrow> 0, if r \<noteq> 0 then 1 else 0)"
  using assms by (simp add: shifting_def get_next_rand_offsetU_def random_block_def file_randommap_def)

lemma lfsr_next_value: "lfsr_next l = Some (l', r, Some v) \<Longrightarrow> r = 0"
  by (auto simp: lfsr_next_def Let_def split: if_splits option.splits)

lemma shifting_step:
  assumes s: "shifting td f ddir bs n l" "lfsr_next l = Some (l', 0, Some v)" "v < n"
  shows "\<exists>td' f'. get_io_u dist_next td f ddir = retR (td', f', Some \<lparr>io_offset = f_file_offset f + v * bs, io_buflen = bs, io_busy_ok = False\<rparr>) \<and>
    f_file_offset f' = f_file_offset f \<and> shifting td' f' ddir bs n l'"
proof -
  have j: "random_job td ddir bs" "block_job td ddir bs" "block_file f bs n" using s(1) by (simp_all add: shifting_def random_job_def)
  let ?f = "f\<lparr>f_source := Lfsr l'\<rparr>"
  have "get_next_rand_offsetU td f no_bit n = retR (td\<lparr>td_random_state := td_random_state td\<rparr>, ?f, v, 0)" using lfsr_pick [OF s(1,2)] by simp
  from offset_pick [OF j(1,3) s(3) this] have o: "get_next_offsetU dist_next td f \<lparr>io_offset = 0, io_buflen = 0, io_busy_ok = False\<rparr> ddir =
      retR (td, ?f, \<lparr>io_offset = f_file_offset f + v * bs, io_buflen = 0, io_busy_ok = False\<rparr>, True, 0)" by simp
  have "\<not> file_randommap td ?f" by (simp add: file_randommap_def)
  then obtain z where "get_io_u dist_next td f ddir = retR (td\<lparr>td_zone_bytes := z\<rparr>, io_done ddir (f_file_offset f + v * bs) bs ?f,
      Some \<lparr>io_offset = f_file_offset f + v * bs, io_buflen = bs, io_busy_ok = False\<rparr>)"
    using get_io_offset [OF j(2,3) s(3) _ _ _ o, of ?f] j(2) by (auto simp: block_job_def)
  moreover have "shifting (td\<lparr>td_zone_bytes := z\<rparr>) (io_done ddir (f_file_offset f + v * bs) bs ?f) ddir bs n l'"
    using s(1) by (simp add: shifting_def io_done_def random_job_def block_job_def block_file_def)
  moreover have "f_file_offset (io_done ddir (f_file_offset f + v * bs) bs ?f) = f_file_offset f" by (simp add: io_done_def)
  ultimately show ?thesis by blast
qed

lemma shifting_run:
  "shifting td f ddir bs n l \<Longrightarrow> lfsr_run k l = Some (vs, g) \<Longrightarrow> set vs \<subseteq> {..<n} \<Longrightarrow>
    \<exists>td' f'. get_ios dist_next k td f ddir = retR (td', f', map (\<lambda>v. (f_file_offset f + v * bs, bs)) vs) \<and> shifting td' f' ddir bs n g"
proof (induction k arbitrary: td f l vs)
  case (Suc k)
  obtain l' v ws where r: "lfsr_next l = Some (l', 0, Some v)" "lfsr_run k l' = Some (ws, g)" "vs = v # ws"
    using Suc.prems(2) lfsr_next_value by (auto split: option.splits)
  have "v < n" using Suc.prems(3) r(3) by simp
  from shifting_step [OF Suc.prems(1) r(1) this, of dist_next] obtain td1 f1 where
    1: "get_io_u dist_next td f ddir = retR (td1, f1, Some \<lparr>io_offset = f_file_offset f + v * bs, io_buflen = bs, io_busy_ok = False\<rparr>)"
      "f_file_offset f1 = f_file_offset f" "shifting td1 f1 ddir bs n l'" by blast
  from Suc.IH [OF 1(3) r(2)] Suc.prems(3) r(3) obtain td2 f2 where
    "get_ios dist_next k td1 f1 ddir = retR (td2, f2, map (\<lambda>v. (f_file_offset f1 + v * bs, bs)) ws)" "shifting td2 f2 ddir bs n g" by auto
  then show ?case using 1(1,2) r(3) by simp
qed auto

text \<open>
  The same with the shift register, on a file of fewer than 1024 blocks: if the register can be set up with the seed of the
  job, as many I/Os as the file has blocks hit every block exactly once, and then there is no block left.
\<close>

theorem lfsr_job_covers:
  assumes j: "random_job td ddir bs" "o_random_generator (td_o td) = FIO_RAND_GEN_LFSR"
    and f: "block_file f bs n" "0 < n" "n < 2 ^ 10" and l: "lfsr_init lfsr n (td_block_seed td) 0 = (l, 0)"
  shows "\<exists>f1 td2 f2 vs. init_random_map dist_init malloc lfsr td f = Inr (td, f1, 0) \<and>
    get_ios dist_next n td f1 ddir = retR (td2, f2, map (\<lambda>v. (f_file_offset f + v * bs, bs)) vs) \<and> distinct vs \<and> set vs = {..<n} \<and>
    (\<exists>td3 f3. get_io_u dist_next td2 f2 ddir = retR (td3, f3, None))"
proof -
  have sz: "min (f_real_file_size f) (f_io_size f) div bs = n" using f(1) by (simp add: block_file_def min_absorb2)
  have "check_rand_gen_limits td n = td" using j(2) by (simp add: check_rand_gen_limits_def)
  then have i: "init_random_map dist_init malloc lfsr td f = Inr (td, f\<lparr>f_source := Lfsr l\<rparr>, 0)"
    using j l sz by (simp add: init_random_map_def random_job_def block_job_def Let_def)
  have s: "shifting td (f\<lparr>f_source := Lfsr l\<rparr>) ddir bs n l" using j f(1) by (simp add: shifting_def block_file_def)
  obtain vs g g' where r: "lfsr_run n l = Some (vs, g)" "distinct vs" "set vs = {..<n}" "lfsr_next g = Some (g', 1, None)"
    using lfsr_covers [OF f(2,3) l] by blast
  from shifting_run [OF s r(1), of dist_next] r(3) obtain td2 f2 where
    g: "get_ios dist_next n td (f\<lparr>f_source := Lfsr l\<rparr>) ddir = retR (td2, f2, map (\<lambda>v. (f_file_offset f + v * bs, bs)) vs)" "shifting td2 f2 ddir bs n g" by auto
  have j2: "random_job td2 ddir bs" "block_job td2 ddir bs" "block_file f2 bs n" using g(2) by (simp_all add: shifting_def random_job_def)
  have "get_next_rand_offsetU td2 f2 no_bit n = retR (td2, f2\<lparr>f_source := Lfsr g'\<rparr>, no_bit, 1)" using lfsr_pick [OF g(2) r(4)] by simp
  then have "get_io_u dist_next td2 f2 ddir = retR (td2, f2\<lparr>f_source := Lfsr g'\<rparr>, None)"
    by (rule get_io_none [OF j2(2) offset_none [OF j2(1,3) f(2)]]) simp
  then show ?thesis using i g(1) r(2,3) by blast
qed

theorem lfsr_job_covers_witness:
  "\<exists>l f1 td2 f2 vs. lfsr_init sample_lfsr 10 0 0 = (l, 0) \<and>
    init_random_map (\<lambda>_ _. ()) (\<lambda>_. True) sample_lfsr (sample_td (sample_options\<lparr>o_random_generator := FIO_RAND_GEN_LFSR\<rparr>)) (sample_file 40960) =
      Inr (sample_td (sample_options\<lparr>o_random_generator := FIO_RAND_GEN_LFSR\<rparr>), f1, 0) \<and>
    get_ios (\<lambda>_ z. (z, 0)) 10 (sample_td (sample_options\<lparr>o_random_generator := FIO_RAND_GEN_LFSR\<rparr>)) f1 DDIR_READ =
      retR (td2, f2, map (\<lambda>v. (v * 4096, 4096)) vs) \<and> distinct vs \<and> set vs = {..<10}"
proof -
  let ?td = "sample_td (sample_options\<lparr>o_random_generator := FIO_RAND_GEN_LFSR\<rparr>)"
  obtain l where l: "lfsr_init sample_lfsr 10 0 0 = (l, 0)"
    using init_row [of 10 4 0 0 sample_lfsr] mask_neq_0 [of 4] by (auto simp: find_lfsr_def upt_rec_numeral)
  have "o_random_generator (td_o ?td) = FIO_RAND_GEN_LFSR" "td_block_seed ?td = 0" "f_file_offset (sample_file 40960) = 0"
    by (simp_all add: sample_td_def sample_file_def)
  then show ?thesis
    using lfsr_job_covers [of ?td DDIR_READ 4096 "sample_file 40960" 10 sample_lfsr l "\<lambda>_ _. ()" "\<lambda>_. True" "\<lambda>_ z. (z, 0)"] l by auto
qed

text \<open>When the register cannot be set up and \<open>softrandommap\<close> says to run without it, the first I/O fails an assertion.\<close>

lemma lfsr_soft_asserts:
  assumes j: "random_job td ddir bs" "o_random_generator (td_o td) = FIO_RAND_GEN_LFSR" "o_softrandommap (td_o td)"
    and f: "block_file f bs n" "0 < n" "f_source f = No_source" and l: "lfsr_init lfsr n (td_block_seed td) 0 = (l, 1)"
  shows "init_random_map dist_init malloc lfsr td f = Inr (td, f, 0)" "get_io_u dist_next td f ddir = Some (Inl Assert_Failed)"
proof -
  have b: "block_job td ddir bs" "0 < bs" using j(1) by (simp_all add: random_job_def block_job_def)
  have sz: "min (f_real_file_size f) (f_io_size f) div bs = n" using f(1) by (simp add: block_file_def min_absorb2)
  have "check_rand_gen_limits td n = td" using j(2) by (simp add: check_rand_gen_limits_def)
  then show "init_random_map dist_init malloc lfsr td f = Inr (td, f, 0)"
    using j l sz by (simp add: init_random_map_def random_job_def block_job_def Let_def)
  have "get_next_rand_block dist_next td f ddir no_bit = Some (Inl Assert_Failed)"
    using j f last_block_n [OF b(1) f(1)]
    by (simp add: get_next_rand_block_def get_next_rand_offset_def should_sort_io_def get_off_from_method_def random_job_def get_next_rand_offsetU_def random_block_def)
  then have "get_next_block dist_next td f io ddir True = Some (Inl Assert_Failed)" for io
    using j(1) by (simp add: get_next_block_def should_do_random_def random_job_def)
  then show "get_io_u dist_next td f ddir = Some (Inl Assert_Failed)"
    by (simp add: get_io_u_def fill_io_u_def switch_none [OF b(1)] offset_turn [OF b(1)])
qed

subsection \<open>Sequential jobs\<close>








text \<open>A new zone beyond the end of the file: the difference that should lead back to its beginning wraps around.\<close>

lemma switch_zone_beyond:
  assumes "o_zone_size (td_o td) \<le> td_zone_bytes td" "o_zone_skip (td_o td) \<noteq> 0" "off = f_file_offset f + o_zone_range (td_o td) + o_zone_skip (td_o td)"
    "f_real_file_size f < off" "off < 2 ^ 64"
  shows "f_file_offset (snd (switch_zone td f ddir)) = 2 ^ 64 - (off - f_real_file_size f)"
proof -
  have "f_real_file_size f + 2 ^ 64 - off = 2 ^ 64 - (off - f_real_file_size f)" "2 ^ 64 - (off - f_real_file_size f) < 2 ^ 64" using assms(4,5) by simp_all
  then have "(f_real_file_size f + 2 ^ 64 - off) mod 2 ^ 64 = 2 ^ 64 - (off - f_real_file_size f)" by (simp only: mod_less)
  moreover have "off mod 2 ^ 64 = off" using assms(5) by (rule mod_less)
  ultimately show ?thesis unfolding switch_zone_def Let_def assms(3) [symmetric] using assms(1,2,4) by simp
qed

subsection \<open>Random lengths\<close>

lemma power_of_2_exp: "is_power_of_2 m \<Longrightarrow> \<exists>k. m = 2 ^ k"
proof -
  assume p: "is_power_of_2 m"
  define h where "h = floorlog 2 m - 1"
  have m: "0 < m" using p by (simp add: is_power_of_2_def)
  have "0 < floorlog 2 m" using m by (simp add: floorlog_def)
  then have b: "2 ^ h \<le> m" "m < 2 ^ Suc h" using floorlog_bounds [of m 2] m by (simp_all add: h_def)
  have bit: "bit x h" if "2 ^ h \<le> x" "x < 2 ^ Suc h" for x :: nat
  proof -
    have "x div 2 ^ h = 1" using that by (intro div_nat_eqI) simp_all
    then show ?thesis by (simp add: bit_iff_odd)
  qed
  have "\<not> 2 ^ h \<le> m - 1"
  proof
    assume "2 ^ h \<le> m - 1"
    then have "bit (m AND (m - 1)) h" using bit [OF b] bit [of "m - 1"] b(2) by (simp add: bit_and_iff)
    then show False using p by (simp add: is_power_of_2_def)
  qed
  then have "m = 2 ^ h" using b(1) m by linarith
  then show ?thesis by blast
qed

lemma clear_low: "(b :: nat) < 2 ^ 32 \<Longrightarrow> k < 32 \<Longrightarrow> b AND (2 ^ 32 - 2 ^ k) = b - b mod 2 ^ k"
proof -
  assume b: "b < 2 ^ 32" and k: "k < 32"
  have "(2 :: nat) ^ 32 = 2 ^ k * 2 ^ (32 - k)" using k by (simp flip: power_add)
  then have "(2 :: nat) ^ 32 - 2 ^ k = push_bit k (mask (32 - k))" by (simp add: push_bit_eq_mult mask_eq_exp_minus_1 diff_mult_distrib2 mult.commute)
  moreover have "b AND push_bit k (mask (32 - k)) = push_bit k (drop_bit k b)"
  proof (rule bit_eqI)
    fix i
    have "\<not> bit b i" if "32 \<le> i"
    proof -
      have "b < 2 ^ i" using b power_increasing [OF that, of "2 :: nat"] by linarith
      then show ?thesis by (simp add: bit_iff_odd)
    qed
    then have "bit b i \<Longrightarrow> i < 32" by (meson not_le_imp_less)
    moreover have "i - k < 32 - k \<longleftrightarrow> i < 32" if "k \<le> i" using that k by linarith
    ultimately show "bit (b AND push_bit k (mask (32 - k))) i = bit (push_bit k (drop_bit k b)) i"
      by (cases "k \<le> i") (auto simp: bit_and_iff bit_push_bit_iff bit_mask_iff bit_drop_bit_eq)
  qed
  ultimately show ?thesis by (simp add: push_bit_eq_mult drop_bit_eq_div minus_mod_eq_div_mult)
qed

text \<open>
  A length that is drawn between two block sizes with the 32 bit generator lies between them and is a multiple of the smaller one, unless
  unaligned lengths are allowed.
\<close>

theorem draw_buflen_range:
  assumes "\<not> use64 st" "0 < o_min_bs ops ddir" "o_min_bs ops ddir \<le> o_max_bs ops ddir" "o_max_bs ops ddir < 2 ^ 32" "o_bssplit ops ddir = []"
  shows "\<exists>st' buflen. draw_buflen ops ddir fits st = (st', Inr buflen) \<and> o_min_bs ops ddir \<le> buflen \<and> buflen \<le> o_max_bs ops ddir \<and>
    (o_bs_unaligned ops \<or> o_min_bs ops ddir dvd buflen)"
proof -
  define lo hi where "lo = o_min_bs ops ddir" and "hi = o_max_bs ops ddir"
  obtain st' r where r: "rand st = (st', r)" by fastforce
  have "unat r < 2 ^ 32" using rand_narrow [OF assms(1)] r by simp
  then have "double_scale hi (unat r) 32 < hi" using assms(2,3) by (intro double_scale_32) (simp_all add: hi_def)
  moreover define b where "b = max lo ((1 + double_scale hi (unat r) 32) mod 2 ^ 32)"
  ultimately have b: "lo \<le> b" "b \<le> hi" "b < 2 ^ 32" using assms(3,4) by (simp_all add: lo_def hi_def)
  have d: "draw_buflen ops ddir fits st = (st', align_buflen ops lo b)"
    using r assms(1,5) by (simp add: draw_buflen_def b_def lo_def hi_def Let_def)
  have lo: "0 < lo" "lo < 2 ^ 32" using assms(2-4) by (simp_all add: lo_def)
  have a: "lo \<le> b - b mod lo \<and> b - b mod lo \<le> hi \<and> lo dvd b - b mod lo"
  proof -
    have "lo * 1 \<le> lo * (b div lo)" using b(1) lo(1) by (intro mult_le_mono2) (simp add: div_greater_zero_iff Suc_le_eq)
    moreover have "lo * (b div lo) \<le> hi" using b(2) times_div_less_eq_dividend [of lo b] by linarith
    ultimately show ?thesis by (simp add: minus_mod_eq_mult_div)
  qed
  show ?thesis
  proof (cases "o_bs_unaligned ops")
    case True
    then show ?thesis using d b by (simp add: align_buflen_def lo_def hi_def)
  next
    case False
    have "align_buflen ops lo b = Inr (b - b mod lo)"
    proof (cases "is_power_of_2 lo")
      case True
      then obtain k where k: "lo = 2 ^ k" using power_of_2_exp by blast
      then have "k < 32" using lo(2) by (metis nat_power_less_imp_less zero_less_numeral)
      then show ?thesis using False True clear_low [OF b(3)] k by (simp add: align_buflen_def)
    qed (use False lo(1) in \<open>simp add: align_buflen_def\<close>)
    then show ?thesis using d a by (simp add: lo_def hi_def)
  qed
qed

theorem draw_buflen_range_witness:
  "\<exists>st' buflen. draw_buflen (sample_options\<lparr>o_max_bs := (\<lambda>_. 65536)\<rparr>) DDIR_WRITE (\<lambda>_. True) (init_rand False) = (st', Inr buflen) \<and> 4096 \<le> buflen \<and> buflen \<le> 65536 \<and> 4096 dvd buflen"
  using draw_buflen_range [of "init_rand False" "sample_options\<lparr>o_max_bs := (\<lambda>_. 65536)\<rparr>" DDIR_WRITE "\<lambda>_. True"]
  by (simp add: sample_options_def init_rand_def)

end
