(* ===== verification/Spec2Isabelle.thy ===== *)
theory Spec2Isabelle
  imports Stores Singleton Fio_Sha256 Fio_Hash Fio_Pattern Fio_Sha3 Fio_Sha512 Fio_Xxhash Fio_Random
begin

text \<open>
  A verification library for NVStream, a versioned object store on byte-addressable persistent
  memory, and for the integrity and sequencing code of the fio benchmark that the repository carries.
  Paths are relative to \<open>src/\<close>.

  \<^bold>\<open>Parts of the program.\<close> A client calls a \<open>Store\<close> (\<open>nvstream/src/kvstore\<close>). \<open>NVSStore\<close> keeps the versions of
  its objects in a log (\<open>nvstream/src/sheap/log.cc\<close>), which the memory manager creates and finds
  through a root heap that lists the logs of the node. A log is a mapped file written with the copy, flush
  and drain routines of libpmem. \<open>DeltaStore\<close> writes only the pages that a fault handler saw change,
  \<open>FileStore\<close> writes one file per version, \<open>NullStore\<close> nothing, and \<open>TimingStore\<close> wraps any of them. fio
  writes blocks in an order given by a shift register, or by random numbers and a map of the blocks already written, fills
  them with random bytes or a pattern, and checks them with the sums in \<open>fio/crc\<close>.

  \<^bold>\<open>Theories and sources.\<close>
  \<^item> \<open>NVS_Prelude\<close>: bytes, 64-bit arithmetic with its wrap-around, little-endian words, flat memories,
    abnormal outcomes; no code of the repository.
  \<^item> \<open>Pmem_Machine\<close>: the processor's view, the persistent medium and what a power failure may leave.
  \<^item> \<open>Libpmem\<close>, \<open>Libpmem_Map\<close>: \<open>nvstream/third-party/nvml/src/libpmem/pmem.c\<close>, the copy, set, flush and
    initialisation routines, and the mapping of files. The routines do what \<open>memmove\<close> and \<open>memset\<close> do for
    every overlap, and what they wrote is durable in every configuration that flushes.
    The locale \<open>pm_device\<close> is what the log uses of them; \<open>safe_libpmem\<close> gives it for every such configuration.
  \<^item> \<open>Plog\<close>: \<open>sheap/log.h\<close>, \<open>sheap/log.cc\<close>. A well-formed log holds a list of entries; \<open>appendv\<close> and \<open>appendmv\<close>
    append to it, \<open>walk\<close> is the recursion over it, reopening gives it back. A crash inside an append leaves the old
    or the new list; a completed append is durable.
  \<^item> \<open>Root_Heap\<close>, \<open>Global_Ptr\<close>, \<open>Std_Map\<close>, \<open>Mem_Manager\<close>: \<open>sheap/root.cc\<close>, \<open>sheap/layout.h\<close>,
    \<open>tools/heapFormatter.cc\<close>, \<open>nvs/global_ptr.h\<close>, \<open>std::map\<close> as it is used, \<open>sheap/memory_manager.cc\<close>.
  \<^item> \<open>Objects\<close>, \<open>Nvs_Store\<close>, \<open>Delta_Store\<close>, \<open>File_Store\<close>, \<open>Stores\<close>: \<open>kvstore/object.*\<close>, \<open>nvs_store.*\<close>,
    \<open>delta_store.*\<close> with \<open>common/util.h\<close>, \<open>file_store.*\<close>, \<open>null_store.h\<close>, \<open>timing_store.h\<close>. The abstract contents of a
    store are its list of chunks; \<open>get\<close> is the first match in it. The locale \<open>versioned_store\<close> is the put/get
    contract; \<open>NVSStore\<close> and \<open>FileStore\<close> interpret it, and \<open>inner_store\<close> carries it through \<open>TimingStore\<close>.
  \<^item> \<open>Singleton\<close>: \<open>GetInstance\<close> of \<open>store_manager.cc\<close> and \<open>memory_manager.cc\<close> as a step relation of
    threads; at most one instance, and no schedule blocks or runs on.
  \<^item> \<open>Fio_Crc\<close>: \<open>fio/crc/crc7\<close>, \<open>crc16\<close>, \<open>crc32\<close>, \<open>crc32c\<close>, \<open>crc32c-intel\<close>, \<open>crc64\<close>. The tables of the source
    are those of the polynomial division, so each loop is that division.
  \<^item> \<open>Fio_Md5\<close>, \<open>Fio_Sha1\<close>, \<open>Fio_Sha256\<close>: the digests of \<open>fio/crc\<close>. The unrolled lines are the loops of the
    standards (locale \<open>unrolled\<close>) and the result does not depend on how the data is cut up (locale
    \<open>streaming\<close>). \<open>Sine_Table\<close> has the constants of MD5 as RFC 1321 defines them, from the sine function.
  \<^item> \<open>Fio_Hash\<close>: \<open>fio/crc/fnv.c\<close>, \<open>murmur3.c\<close>; a change inside one aligned word changes the hash.
  \<^item> \<open>Fio_Sha3\<close>, \<open>Fio_Sha512\<close>, \<open>Fio_Xxhash\<close>: \<open>fio/crc/sha3.c\<close>, \<open>sha512.c\<close>, \<open>xxhash.c\<close>. The in-place Keccak permutation is the
    one of FIPS 202 and the digest that standard's; what is compared for SHA-512 leaves out most of the data; hashing
    in pieces gives the hash of the whole.
  \<^item> \<open>Fio_Lfsr\<close>: \<open>fio/lib/lfsr.c\<close>; the loop ends, and a run visits every block once.
  \<^item> \<open>Fio_Axmap\<close>: \<open>fio/lib/axmap.c\<close>, \<open>lib/ffz.h\<close>. A word of a level summarises 64 words of the level below; the map
    refines a set of blocks. The locale \<open>block_map\<close> is what the choice of random blocks uses of it.
  \<^item> \<open>Fio_Rand\<close>, \<open>Fio_Pattern\<close>: \<open>fio/lib/rand.h\<close>, \<open>rand.c\<close>, \<open>pattern.c\<close>. The generators are periodic from every
    state (locale \<open>taus_params\<close> for their components); filling with a pattern and comparing with it are inverse.
  \<^item> \<open>Fio_Flist\<close>: \<open>fio/lib/flist_sort.c\<close> is a stable sort (locale \<open>comparison\<close>).
  \<^item> \<open>Fio_Random\<close>: from \<open>get_io_u\<close> of \<open>fio/io_u.c\<close> through \<open>fill_io_u\<close> to the offset and the length of an I/O, and \<open>init_random_map\<close> of
    \<open>fio/filesetup.c\<close>, on the generators, the shift register, the map and the sort. A random job with a map or a register does every
    block once, a sequential one does them in order; a length that is drawn lies in its range.
  \<^item> This theory: what a crash inside the store's operations leaves for the next process, across all layers.

  \<^bold>\<open>State and outcomes.\<close> Memory is one flat map from addresses to bytes; a pointer is a natural number. Members of
  a class are a record, global state is passed along. \<open>exit\<close>, failed assertions and undefined
  behaviour are values of \<open>fault\<close>; a loop that may not end is a partial function whose value is then
  \<open>None\<close>, and the properties state that it ends. \<open>sha256_loop\<close> takes the length of the data as fuel, which is
  enough because every turn of it consumes at least one byte; so do \<open>sha3_loop\<close>, \<open>sha512_blocks\<close> and \<open>dup_loop\<close>, the
  last of which gives \<open>None\<close> when it does not end within it. In the fio theories integers are machine words;
  in the store theories they are natural numbers with the wrap-around written out.

  \<^bold>\<open>Parameters.\<close> The operating system (which addresses \<open>mmap\<close> and \<open>malloc\<close> give, whether a call fails), the clock and
  the \<open>CRC32\<close> instruction are arguments, with their documented behaviour as hypotheses. Crash
  properties assume that the eight-byte tail word of a log is not torn.

  \<^bold>\<open>Bounds.\<close> \<open>lfsr_visits_all\<close> is for sizes below 1024, whose tap rows are checked by running the step around its
  orbit; that the loop ends is shown for all rows. Block maps have fewer than \<open>2 ^ 37\<close> blocks, where the sums in
  their construction do not overflow. A \<open>double\<close> is a natural number rounded to 53 bits, which is exact where the code divides
  by a power of two. The sines are computed in integers scaled by \<open>2\<^sup>1\<^sup>2\<^sup>8\<close>; the error of sixty-four turns is below \<open>2\<^sup>-\<^sup>5\<^sup>6\<close>.

  \<^bold>\<open>Not modelled.\<close> The log output and Valgrind hooks of libpmem; libpmemobj (a map from paths to root objects) and
  the rest of the NVM library. The classes \<open>List\<close>, \<open>pmem_log\<close>, \<open>pmem_manager\<close> and \<open>format.cc\<close> of NVStream
  have no working body. The rest of fio (the choice of files and directions, its queues, options, statistics and front ends; the other distributions of offsets are a parameter), filebench, the
  drivers in \<open>microbench\<close> and \<open>mmapbench\<close> and the scripts are input and output around the operating system;
  miniAMR, GTC and CM1 are floating-point simulations over MPI, mostly Fortran.
\<close>

section \<open>A crash inside a put, and the next process\<close>

text \<open>
  The process that runs after a crash: its root heap knows the log, the log file holds what the crash
  left of the mapping, and the file gets mapped clear of the stack.
\<close>

definition next_process :: "world \<Rightarrow> nat \<Rightarrow> memory \<Rightarrow> plog \<Rightarrow> osd \<Rightarrow> addr \<Rightarrow> string \<Rightarrow> bool" where
  "next_process w lid img L d a sid \<longleftrightarrow> world_ok w \<and> registered w lid \<and> map_find (idToLogMap w) lid = None \<and>
     lid < 256 \<and> w_files w (log_path lid) = Some (rd img (pmemaddr L) (mapped_len L)) \<and>
     open_fine d a w (mapped_len L) \<and> (\<exists>h. CHR ''/'' \<notin> set h \<and> sid = h @ ''/'' @ to_string lid)"

lemma recover:
  assumes "store_image img (pmemaddr L) (mapped_len L) cs" "rd64 img (pmemaddr L + tail_off) < mapped_len L"
    "32 < mapped_len L" "next_process w lid img L d1 a sid"
  shows "\<exists>w' s. NVSStore_new d1 d2 d3 w sid = Inr (w', s) \<and> store_ok w' s cs \<and> plog_durable (w_mach w') (store_log_of w' s)"
proof -
  obtain h where h: "CHR ''/'' \<notin> set h" "sid = h @ ''/'' @ to_string lid"
    using assms(4) by (auto simp: next_process_def)
  have n: "world_ok w" "registered w lid" "map_find (idToLogMap w) lid = None" "lid < 256"
    "w_files w (log_path lid) = Some (rd img (pmemaddr L) (mapped_len L))" "open_fine d1 a w (mapped_len L)"
    using assms(4) by (auto simp: next_process_def)
  show ?thesis by (rule NVSStore_new_reopen [OF n(1-4) assms(1-3) n(5,6) h])
qed

lemma store_log_bounds:
  assumes "store_ok w s cs"
  shows "write_offset (store_log_of w s) < mapped_len (store_log_of w s)" "32 < mapped_len (store_log_of w s)"
proof -
  obtain es where "plog_ok (w_mach w) (store_log_of w s) es"
    using store_okD(2) [OF assms] by (auto simp: store_log_def)
  from plog_okD(6,7) [OF this] show "write_offset (store_log_of w s) < mapped_len (store_log_of w s)"
    "32 < mapped_len (store_log_of w s)" by (simp_all add: sizeof_lhdr_def)
qed

lemma recovered:
  assumes "\<exists>cs' \<in> {cs, ds}. store_image img (pmemaddr L) (mapped_len L) cs'"
    "rd64 img (pmemaddr L + tail_off) \<in> {t1, t2}" "t1 < mapped_len L" "t2 < mapped_len L" "32 < mapped_len L"
    "next_process w lid img L d1 a sid"
  shows "\<exists>w' s. NVSStore_new d1 d2 d3 w sid = Inr (w', s) \<and> plog_durable (w_mach w') (store_log_of w' s) \<and>
    (store_ok w' s cs \<or> store_ok w' s ds)"
proof -
  have "rd64 img (pmemaddr L + tail_off) < mapped_len L" using assms(2-4) by auto
  then show ?thesis using recover [OF _ _ assms(5,6)] assms(1) by blast
qed

lemma appended_len: "mapped_len (store_log_of (appended w s m n) s') = mapped_len (store_log_of w s)"
  if "ns_log s' = ns_log s" "ns_log s < length (w_logs w)"
  using that by (simp add: store_log_of_def appended_def)

text \<open>
  C2. A crash anywhere inside \<open>put\<close>, followed by a new process: when the tail word is not torn, the next
  process that opens the store finds a durable, well-formed store that holds either the chunks from
  before the call or those and the new one.
\<close>

theorem put_crash_restart:
  assumes "safe_config c" "store_ok w s cs" "plog_durable (w_mach w) (store_log_of w s)"
    "map_find (ns_objectMap s) key = Some ob" "version < 2 ^ 64" "put_fits w s ob"
    "NVSStore_put c w s key version = Inr (w', s', r)" "crash_during (w_mach w) (w_mach w') img"
    "rd64 img (pmemaddr (store_log_of w s) + tail_off) \<in> {write_offset (store_log_of w s), write_offset (store_log_of w' s')}"
    "next_process w2 lid img (store_log_of w s) d1 a sid"
  shows "\<exists>w3 s3. NVSStore_new d1 d2 d3 w2 sid = Inr (w3, s3) \<and> plog_durable (w_mach w3) (store_log_of w3 s3) \<and>
    (store_ok w3 s3 cs \<or>
     store_ok w3 s3 (cs @ [Single (stored_key (ob_name ob), version, rd (cur (w_mach w)) (ob_ptr ob) (ob_size ob))]))"
proof -
  obtain w1 s1 where p: "NVSStore_put c w s key version = Inr (w1, s1, 0)" "store_ok w1 s1 (cs @ [put_chunk w s ob version])"
    "s1 = s\<lparr>ns_objectMap := map_assign (ns_objectMap s) key (setVersion version ob)\<rparr>"
    "w1 = appended w s (w_mach w1) (sizeof_lehdr + ob_size ob)"
    using put_ok [OF assms(2,4,5,6), of c] by blast
  have eq: "w' = w1" "s' = s1" using assms(7) p(1) by simp_all
  have "mapped_len (store_log_of w' s') = mapped_len (store_log_of w s)"
    using p(3,4) appended_len [of s1 s w "w_mach w1" "sizeof_lehdr + ob_size ob"] store_okD(1) [OF assms(2)] eq by simp
  then have b: "write_offset (store_log_of w' s') < mapped_len (store_log_of w s)"
    using store_log_bounds(1) [OF p(2)] eq by simp
  show ?thesis
    using recovered [OF put_crash [OF assms(1-9)] assms(9) store_log_bounds(1) [OF assms(2)] b
        store_log_bounds(2) [OF assms(2)] assms(10)] by (simp add: put_chunk_def)
qed

lemma sample_next_process:
  "next_process sample_found 7 sample_mem (store_log_of sample_sworld sample_store) sample_osd 8192 (''h/'' @ to_string 7)"
proof -
  have "world_ok sample_found" "registered sample_found 7"
    by (auto simp: world_ok_def registered_def sample_found_def sample_root_ok map_wf_def log_path_inj)
  moreover have "store_log_of sample_sworld sample_store = sample_plog"
    by (simp add: store_log_of_def sample_sworld_def sample_store_def)
  moreover have "open_fine sample_osd 8192 sample_found 4096"
    by (simp add: open_fine_def osd_fine_def sample_osd_def sample_found_def disj_def quiescent_def)
  ultimately show ?thesis
    by (auto simp: next_process_def sample_plog_def sample_found_def log_path_inj intro!: exI [of _ "''h''"])
qed

lemma sample_tail: "rd64 sample_mem (pmemaddr (store_log_of sample_sworld sample_store) + tail_off) =
    write_offset (store_log_of sample_sworld sample_store)"
  using plog_okD(8) [OF sample_log(1)]
  by (simp add: sample_mach_def store_log_of_def sample_sworld_def sample_store_def)

theorem put_crash_restart_witness:
  "\<exists>w3 s3. NVSStore_new sample_osd sample_osd sample_osd sample_found (''h/'' @ to_string 7) = Inr (w3, s3) \<and>
    (store_ok w3 s3 [] \<or> store_ok w3 s3 [Single ([120], 3, replicate 4 0)])"
proof -
  let ?ob = "Object_new False ''x'' 4 0 2048"
  obtain w1 s1 where p: "NVSStore_put sample_lib sample_sworld sample_store ''x'' 3 = Inr (w1, s1, 0)"
    "touches (w_mach sample_sworld) (w_mach w1)
       ({sp (w_mach sample_sworld)..<sp (w_mach sample_sworld) + 152} \<union> log_range (store_log_of sample_sworld sample_store))"
    using put_ok [OF sample_store_ok(1) sample_put_fits(1) _ sample_put_fits(2), of 3 sample_lib] by auto
  have c: "crash_during (w_mach sample_sworld) (w_mach w1) sample_mem"
    using crash_at_start [OF _ p(2)] by (simp add: sample_sworld_def sample_mach_def)
  have "ob_name ?ob = ''x''" "ob_ptr ?ob = 2048" "ob_size ?ob = 4" by (simp_all add: Object_new_def)
  moreover have "stored_key ''x'' = [120]" by (simp add: stored_key_def KEY_LEN_def cstr_def bytes_of_def)
  ultimately show ?thesis
    using put_crash_restart [OF sample_lib_safe sample_store_ok(1,2) sample_put_fits(1) _ sample_put_fits(2) p(1) c _
        sample_next_process, of sample_osd sample_osd] sample_tail sample_object_bytes by auto
qed

text \<open>
  C3. A snapshot is atomic across a crash: when the machine fails anywhere inside \<open>put_all\<close> and the tail
  word is not torn, the next process opens a store with all objects of the snapshot or with none of them.
\<close>

theorem put_all_crash_restart:
  assumes "safe_config c" "store_ok w s cs" "plog_durable (w_mach w) (store_log_of w s)" "snap_fits w s b"
    "NVSStore_put_all c w s b = Inr (w', s', r)" "crash_during (w_mach w) (w_mach w') img"
    "rd64 img (pmemaddr (store_log_of w s) + tail_off) \<in> {write_offset (store_log_of w s), write_offset (store_log_of w' s')}"
    "next_process w2 lid img (store_log_of w s) d1 a sid"
  shows "\<exists>w3 s3. NVSStore_new d1 d2 d3 w2 sid = Inr (w3, s3) \<and> plog_durable (w_mach w3) (store_log_of w3 s3) \<and>
    (store_ok w3 s3 cs \<or> store_ok w3 s3 (cs @ [Multiple (map (snap_item (cur (w_mach w))) (map snd (ns_objectMap s)))]))"
proof -
  obtain w1 where p: "NVSStore_put_all c w s b = Inr (w1, bump s, sizeof_lehdr + snap_len (store_objs s))"
    "store_ok w1 (bump s) (cs @ [snap_chunk w s])" "mapped_len (store_log_of w1 (bump s)) = mapped_len (store_log_of w s)"
    using put_all_ok [OF assms(2,4), of c] by blast
  have eq: "w' = w1" "s' = bump s" using assms(5) p(1) by simp_all
  then have wb: "write_offset (store_log_of w' s') < mapped_len (store_log_of w s)"
    using store_log_bounds(1) [OF p(2)] p(3) by simp
  show ?thesis
    using recovered [OF put_all_crash [OF assms(1-7)] assms(7) store_log_bounds(1) [OF assms(2)] wb
        store_log_bounds(2) [OF assms(2)] assms(8)] by (simp add: snap_chunk_def store_objs_def)
qed

theorem put_all_crash_restart_witness:
  "\<exists>w3 s3. NVSStore_new sample_osd sample_osd sample_osd sample_found (''h/'' @ to_string 7) = Inr (w3, s3) \<and>
    (store_ok w3 s3 [] \<or>
     store_ok w3 s3 [Multiple (map (snap_item (cur (w_mach sample_sworld))) (map snd (ns_objectMap sample_store)))])"
proof -
  obtain w1 n where p: "NVSStore_put_all sample_lib sample_sworld sample_store 16384 = Inr (w1, bump sample_store, n)"
    "touches (w_mach sample_sworld) (w_mach w1) UNIV"
    using put_all_ok [OF sample_store_ok(1) sample_put_fits(3), of sample_lib] by blast
  have c: "crash_during (w_mach sample_sworld) (w_mach w1) sample_mem"
    using crash_at_start [OF _ p(2)] by (simp add: sample_sworld_def sample_mach_def)
  show ?thesis
    using put_all_crash_restart [OF sample_lib_safe sample_store_ok(1,2) sample_put_fits(3) p(1) c _
        sample_next_process, of sample_osd sample_osd] sample_tail by auto
qed

end
